(* ===== verification/Kernel_Prelude.thy ===== *)
theory Kernel_Prelude
  imports Main "HOL-Library.Word" "HOL-Library.Monad_Syntax" "HOL-Library.Disjoint_Sets"
begin

text \<open>
  Shared vocabulary of the development: the C integer types as words, C strings as character
  lists (the characters in front of the terminating NUL), the table scans that almost every
  kernel component performs on its static arrays, and the generic lemmas about list updates,
  counting and words on which the component theories rest.
\<close>

unbundle bit_operations_syntax

section \<open>Integer types of the C code\<close>

text \<open>
  Unsigned types are words, so that arithmetic wraps as in C.  A value of type
  \<^verbatim>\<open>int32_t\<close> is an \<^typ>\<open>int\<close>; a cast from \<^verbatim>\<open>uint32_t\<close> to \<^verbatim>\<open>int32_t\<close> is
  \<^const>\<open>sint\<close>, the cast back is \<^const>\<open>word_of_int\<close>.
\<close>

type_synonym u8 = "8 word"
type_synonym u16 = "16 word"
type_synonym u32 = "32 word"
type_synonym u64 = "64 word"

named_theorems kernel_frame \<open>which parts of the kernel state an operation leaves alone\<close>
named_theorems kernel_inv \<open>preservation of the component invariants\<close>

section \<open>Scanning a static table\<close>

text \<open>
  The loop \<^verbatim>\<open>for (i = 0; i < N; i++) if (P(tab[i])) return &tab[i]; return NULL;\<close>.
\<close>

fun find_index :: "('a \<Rightarrow> bool) \<Rightarrow> 'a list \<Rightarrow> nat option" where
  "find_index P [] = None"
| "find_index P (x # xs) = (if P x then Some 0 else map_option Suc (find_index P xs))"

lemma find_index_None_iff: "find_index P xs = None \<longleftrightarrow> (\<forall>x \<in> set xs. \<not> P x)"
  by (induction xs) auto

lemma find_index_Some_iff:
  "find_index P xs = Some i \<longleftrightarrow> i < length xs \<and> P (xs ! i) \<and> (\<forall>j < i. \<not> P (xs ! j))"
proof (induction xs arbitrary: i)
  case Nil
  then show ?case by simp
next
  case (Cons x xs)
  show ?case
  proof (cases i)
    case 0
    then show ?thesis by auto
  next
    case (Suc k)
    then show ?thesis
      using Cons.IH [of k] by (auto simp: nth_Cons less_Suc_eq_0_disj split: nat.splits)
  qed
qed

lemma find_index_SomeD:
  assumes "find_index P xs = Some i"
  shows "i < length xs" "P (xs ! i)" "xs ! i \<in> set xs"
  using assms by (auto simp: find_index_Some_iff)

lemma find_index_first: "find_index P xs = Some i \<Longrightarrow> j < i \<Longrightarrow> \<not> P (xs ! j)"
  by (simp add: find_index_Some_iff)

lemma find_index_cong_set:
  "(\<And>x. x \<in> set xs \<Longrightarrow> P x = Q x) \<Longrightarrow> find_index P xs = find_index Q xs"
  by (induction xs) auto

section \<open>Copying a C string into a bounded buffer\<close>

text \<open>
  The copy loop \<^verbatim>\<open>while (src[i] != 0 && i + 1 < size) dst[i] = src[i];\<close> followed by the
  terminator: what the buffer holds afterwards, as a string.  The second argument is the
  index reached so far.  A null source gives the empty string.
\<close>

fun copy_text_from :: "nat \<Rightarrow> nat \<Rightarrow> string \<Rightarrow> string" where
  "copy_text_from sz i [] = []"
| "copy_text_from sz i (c # cs) = (if i + 1 < sz then c # copy_text_from sz (Suc i) cs else [])"

definition copy_text :: "nat \<Rightarrow> string option \<Rightarrow> string" where
  "copy_text sz src = (case src of None \<Rightarrow> [] | Some s \<Rightarrow> copy_text_from sz 0 s)"

lemma copy_text_from_take: "copy_text_from sz i s = take (sz - 1 - i) s"
  by (induction sz i s rule: copy_text_from.induct) (auto simp: take_Cons')

lemma copy_text_Some [simp]: "copy_text sz (Some s) = take (sz - 1) s"
  by (simp add: copy_text_def copy_text_from_take)

lemma copy_text_None [simp]: "copy_text sz None = []"
  by (simp add: copy_text_def)

section \<open>Counting in tables\<close>

lemma length_filter_update:
  "i < length xs \<Longrightarrow>
   length (filter P (xs[i := x])) + of_bool (P (xs ! i)) = length (filter P xs) + of_bool (P x)"
proof (induction xs arbitrary: i)
  case (Cons y ys)
  then show ?case by (cases i) auto
qed simp

lemma length_filter_all: "length (filter P xs) = length xs \<longleftrightarrow> (\<forall>x \<in> set xs. P x)"
proof -
  have "length (filter P xs) = length xs \<longleftrightarrow> length (filter (\<lambda>x. \<not> P x) xs) = 0"
    using sum_length_filter_compl [of P xs] by linarith
  also have "\<dots> \<longleftrightarrow> (\<forall>x \<in> set xs. P x)" by (simp add: filter_empty_conv)
  finally show ?thesis .
qed

lemma sum_list_map_update:
  fixes f :: "'a \<Rightarrow> nat"
  shows "i < length xs \<Longrightarrow> sum_list (map f (xs[i := x])) + f (xs ! i) = sum_list (map f xs) + f x"
proof (induction xs arbitrary: i)
  case (Cons y ys)
  then show ?case by (cases i) (auto simp: add.assoc)
qed simp

lemma sum_list_member_le:
  fixes f :: "'a \<Rightarrow> nat"
  shows "i < length xs \<Longrightarrow> f (xs ! i) \<le> sum_list (map f xs)"
  by (rule member_le_sum_list) auto

lemma set_update_cases: "x \<in> set (xs[i := y]) \<Longrightarrow> x = y \<or> x \<in> set xs"
  using set_update_subset_insert [of xs i y] by auto

lemma nth_update_lt: "j < length xs \<Longrightarrow> xs[i := y] ! j = (if i = j then y else xs ! j)"
  by (cases "i = j") auto

lemma Diff_same_eq: "A \<subseteq> U \<Longrightarrow> B \<subseteq> U \<Longrightarrow> U - A = U - B \<Longrightarrow> A = B"
  by blast

section \<open>Words\<close>

lemma bit_test_mask: "(w AND 2 ^ n = 0) \<longleftrightarrow> \<not> bit w n" for w :: "'a::len word"
  by (rule and_exp_eq_0_iff_not_bit)

lemma unat_inj_iff: "unat a = unat b \<longleftrightarrow> a = b" for a b :: "'a::len word"
  by (simp add: word_unat_eq_iff)

lemma unat_u32_less: "unat (w :: u32) < 4294967296"
  using unsigned_less [of w] by simp

lemma unat_u64_less: "unat (w :: u64) < 18446744073709551616"
  using unsigned_less [of w] by simp

lemma unat_add_u32: "unat a + unat b < 4294967296 \<Longrightarrow> unat (a + b :: u32) = unat a + unat b"
  by (simp add: unat_word_ariths)

lemma unat_add_u64:
  "unat a + unat b < 18446744073709551616 \<Longrightarrow> unat (a + b :: u64) = unat a + unat b"
  by (simp add: unat_word_ariths)

lemma unat_Suc_u32: "(i :: u32) < n \<Longrightarrow> unat (i + 1) = Suc (unat i)"
proof -
  assume "i < n"
  then have "unat i + unat (1 :: u32) < 4294967296"
    using unat_u32_less [of n] by (simp add: word_less_nat_alt)
  then show ?thesis by (subst unat_add_u32) auto
qed

lemma unat_of_nat_u32: "n < 4294967296 \<Longrightarrow> unat (of_nat n :: u32) = n"
  by (simp add: unat_of_nat take_bit_nat_eq_self)

lemma unat_of_nat_u64: "n < 18446744073709551616 \<Longrightarrow> unat (of_nat n :: u64) = n"
  by (simp add: unat_of_nat take_bit_nat_eq_self)

lemma sint_of_nat_u32: "n < 2147483648 \<Longrightarrow> sint (of_nat n :: u32) = int n"
  by (simp add: signed_of_nat signed_take_bit_int_eq_self)

lemma sint_small_u32: "unat (w :: u32) < 2147483648 \<Longrightarrow> sint w = int (unat w)"
  using sint_of_nat_u32 [of "unat w"] by simp

lemma and_not_mask_eq: "w AND NOT (mask n) = w - take_bit n w" for w :: "'a::len word"
proof -
  have "w AND NOT (mask n) = push_bit n (drop_bit n w)"
    by (rule bit_word_eqI) (auto simp: bit_simps)
  then show ?thesis using bits_ident [of n w] by (simp add: algebra_simps)
qed

lemma unat_and_not_mask: "unat (w AND NOT (mask n)) = unat w - unat w mod 2 ^ n" for w :: "'a::len word"
proof -
  have t: "unat (take_bit n w) = unat w mod 2 ^ n" by (simp add: unsigned_take_bit_eq flip: take_bit_eq_mod)
  then have "take_bit n w \<le> w" by (simp add: word_le_nat_alt)
  then show ?thesis by (simp add: and_not_mask_eq unat_sub t)
qed

lemmas word_nat = word_less_nat_alt word_le_nat_alt

end
