(* ===== verification/Bitmap.thy ===== *)
theory Bitmap
  imports Kernel_Prelude
begin

text \<open>
  The bitmap component (\<^verbatim>\<open>kernel/mm/bitmap.c\<close>, \<^verbatim>\<open>include/bitmap.h\<close>): the record of a bitmap,
  the component's global counters, every operation, the abstraction of a bitmap to the set of
  its set bits, and the refinement lemmas.  The storage a bitmap points to belongs to that
  bitmap alone, so the record holds the words themselves; a null \<^verbatim>\<open>words\<close> pointer is \<^const>\<open>None\<close>.
  The pointer to the bitmap structure is never null in the modelled callers.
\<close>

section \<open>State\<close>

record bitmap_t =
  words :: "u32 list option"
  bit_count :: u32

record bitmap_stats_t =
  set_ops :: u32
  clear_ops :: u32
  test_ops :: u32
  alloc_ops :: u32
  free_ops :: u32

record kbitmap =
  g_bitmap_stats :: bitmap_stats_t
  g_bitmap_status :: string

section \<open>Operations\<close>

definition bitmap_word_index :: "u32 \<Rightarrow> u32" where
  "bitmap_word_index index = index div 32"

definition bitmap_word_mask :: "u32 \<Rightarrow> u32" where
  "bitmap_word_mask index = push_bit (unat (index mod 32)) 1"

definition bitmap_init :: "'z kbitmap_scheme \<Rightarrow> 'z kbitmap_scheme" where
  "bitmap_init s = s\<lparr>g_bitmap_stats := \<lparr>set_ops = 0, clear_ops = 0, test_ops = 0,
     alloc_ops = 0, free_ops = 0\<rparr>, g_bitmap_status := ''bitmap: ready''\<rparr>"

definition bitmap_word_count :: "u32 \<Rightarrow> u32" where
  "bitmap_word_count n = (n + 32 - 1) div 32"

definition memset_words :: "nat \<Rightarrow> u32 list \<Rightarrow> u32 list" where
  "memset_words k ws = replicate (min k (length ws)) 0 @ drop k ws"

definition bitmap_bind :: "bitmap_t \<Rightarrow> u32 list option \<Rightarrow> u32 \<Rightarrow> bitmap_t" where
  "bitmap_bind bm storage n =
     bm\<lparr>words := map_option (memset_words (unat (bitmap_word_count n))) storage, bit_count := n\<rparr>"

definition bitmap_zero :: "bitmap_t \<Rightarrow> bitmap_t" where
  "bitmap_zero bm = (case words bm of
       None \<Rightarrow> bm
     | Some ws \<Rightarrow> bm\<lparr>words := Some (memset_words (unat (bitmap_word_count (bit_count bm))) ws)\<rparr>)"

definition note_set_op :: "'z kbitmap_scheme \<Rightarrow> 'z kbitmap_scheme" where
  "note_set_op s = s\<lparr>g_bitmap_stats := (g_bitmap_stats s)\<lparr>set_ops := set_ops (g_bitmap_stats s) + 1\<rparr>\<rparr>"

definition note_clear_op :: "'z kbitmap_scheme \<Rightarrow> 'z kbitmap_scheme" where
  "note_clear_op s = s\<lparr>g_bitmap_stats := (g_bitmap_stats s)\<lparr>clear_ops := clear_ops (g_bitmap_stats s) + 1\<rparr>\<rparr>"

definition note_test_op :: "'z kbitmap_scheme \<Rightarrow> 'z kbitmap_scheme" where
  "note_test_op s = s\<lparr>g_bitmap_stats := (g_bitmap_stats s)\<lparr>test_ops := test_ops (g_bitmap_stats s) + 1\<rparr>\<rparr>"

definition note_alloc_op :: "'z kbitmap_scheme \<Rightarrow> 'z kbitmap_scheme" where
  "note_alloc_op s = s\<lparr>g_bitmap_stats := (g_bitmap_stats s)\<lparr>alloc_ops := alloc_ops (g_bitmap_stats s) + 1\<rparr>\<rparr>"

definition note_free_op :: "'z kbitmap_scheme \<Rightarrow> 'z kbitmap_scheme" where
  "note_free_op s = s\<lparr>g_bitmap_stats := (g_bitmap_stats s)\<lparr>free_ops := free_ops (g_bitmap_stats s) + 1\<rparr>\<rparr>"

definition bitmap_set :: "bitmap_t \<Rightarrow> u32 \<Rightarrow> 'z kbitmap_scheme \<Rightarrow> bool \<times> bitmap_t \<times> 'z kbitmap_scheme" where
  "bitmap_set bm index s = (case words bm of
       None \<Rightarrow> (False, bm, s)
     | Some ws \<Rightarrow>
         if bit_count bm \<le> index then (False, bm, s)
         else let word = unat (bitmap_word_index index); mask = bitmap_word_mask index;
                  s = note_set_op s
              in if ws ! word AND mask \<noteq> 0 then (False, bm, s)
                 else (True, bm\<lparr>words := Some (ws[word := ws ! word OR mask])\<rparr>, s))"

definition bitmap_clear :: "bitmap_t \<Rightarrow> u32 \<Rightarrow> 'z kbitmap_scheme \<Rightarrow> bool \<times> bitmap_t \<times> 'z kbitmap_scheme" where
  "bitmap_clear bm index s = (case words bm of
       None \<Rightarrow> (False, bm, s)
     | Some ws \<Rightarrow>
         if bit_count bm \<le> index then (False, bm, s)
         else let word = unat (bitmap_word_index index); mask = bitmap_word_mask index;
                  s = note_clear_op s
              in if ws ! word AND mask = 0 then (False, bm, s)
                 else (True, bm\<lparr>words := Some (ws[word := ws ! word AND NOT mask])\<rparr>, s))"

definition bitmap_test :: "bitmap_t \<Rightarrow> u32 \<Rightarrow> 'z kbitmap_scheme \<Rightarrow> bool \<times> 'z kbitmap_scheme" where
  "bitmap_test bm index s = (case words bm of
       None \<Rightarrow> (False, s)
     | Some ws \<Rightarrow>
         if bit_count bm \<le> index then (False, s)
         else (ws ! unat (bitmap_word_index index) AND bitmap_word_mask index \<noteq> 0, note_test_op s))"

function find_first_zero_loop :: "bitmap_t \<Rightarrow> u32 \<Rightarrow> 'z kbitmap_scheme \<Rightarrow> int \<times> 'z kbitmap_scheme" where
  "find_first_zero_loop bm index s =
     (if index < bit_count bm
      then case bitmap_test bm index s of (hit, s) \<Rightarrow>
             if \<not> hit then (sint index, s) else find_first_zero_loop bm (index + 1) s
      else (-1, s))"
  by pat_completeness auto
termination
  by (relation "measure (\<lambda>(bm, index, s). unat (bit_count bm) - unat index)")
    (auto simp: unat_Suc_u32 word_less_nat_alt)

definition bitmap_find_first_zero :: "bitmap_t \<Rightarrow> u32 \<Rightarrow> 'z kbitmap_scheme \<Rightarrow> int \<times> 'z kbitmap_scheme" where
  "bitmap_find_first_zero bm start_index s =
     (if words bm = None \<or> bit_count bm \<le> start_index then (-1, s)
      else find_first_zero_loop bm start_index s)"

text \<open>
  \<^verbatim>\<open>bitmap_find_run_zero\<close>: the inner loop looks for the first set bit of the candidate run;
  the outer loop computes \<^verbatim>\<open>index + run_length\<close> in 32 bits, so it may wrap and need not end:
  it is a partial function, with \<^const>\<open>None\<close> for a call that never returns.
\<close>

function run_scan :: "bitmap_t \<Rightarrow> u32 \<Rightarrow> u32 \<Rightarrow> u32 \<Rightarrow> 'z kbitmap_scheme \<Rightarrow> u32 option \<times> 'z kbitmap_scheme" where
  "run_scan bm index run_length b s =
     (if b < run_length
      then case bitmap_test bm (index + b) s of (hit, s) \<Rightarrow>
             if hit then (Some b, s) else run_scan bm index run_length (b + 1) s
      else (None, s))"
  by pat_completeness auto
termination
  by (relation "measure (\<lambda>(bm, index, n, b, s). unat n - unat b)")
    (auto simp: unat_Suc_u32 word_less_nat_alt)

partial_function (option) find_run_loop ::
  "bitmap_t \<Rightarrow> u32 \<Rightarrow> u32 \<Rightarrow> u32 \<Rightarrow> 'z kbitmap_scheme \<Rightarrow> (int \<times> 'z kbitmap_scheme) option" where
  "find_run_loop bm index run_length align s =
     (if index + run_length \<le> bit_count bm
      then if index mod align \<noteq> 0 then find_run_loop bm (index + 1) run_length align s
           else (case run_scan bm index run_length 0 s of
               (None, s) \<Rightarrow> Some (sint index, s)
             | (Some b, s) \<Rightarrow> find_run_loop bm (index + b + 1) run_length align s)
      else Some (-1, s))"

definition bitmap_find_run_zero ::
  "bitmap_t \<Rightarrow> u32 \<Rightarrow> u32 \<Rightarrow> u32 \<Rightarrow> 'z kbitmap_scheme \<Rightarrow> (int \<times> 'z kbitmap_scheme) option" where
  "bitmap_find_run_zero bm start_index run_length align_bits s =
     (let align = (if align_bits = 0 then 1 else align_bits) in
      if words bm = None \<or> run_length = 0 \<or> bit_count bm \<le> start_index then Some (-1, s)
      else find_run_loop bm start_index run_length align s)"

definition bitmap_allocate_first :: "bitmap_t \<Rightarrow> 'z kbitmap_scheme \<Rightarrow> int \<times> bitmap_t \<times> 'z kbitmap_scheme" where
  "bitmap_allocate_first bm s =
     (case bitmap_find_first_zero bm 0 s of (index, s) \<Rightarrow>
        if 0 \<le> index
        then case bitmap_set bm (word_of_int index) s of (ok, bm', s) \<Rightarrow>
               if ok then (index, bm', note_alloc_op s) else (-1, bm', s)
        else (-1, bm, s))"

definition bitmap_release :: "bitmap_t \<Rightarrow> u32 \<Rightarrow> 'z kbitmap_scheme \<Rightarrow> bool \<times> bitmap_t \<times> 'z kbitmap_scheme" where
  "bitmap_release bm index s =
     (case bitmap_clear bm index s of (ok, bm', s) \<Rightarrow>
        if \<not> ok then (False, bm', s) else (True, bm', note_free_op s))"

function count_set_loop :: "bitmap_t \<Rightarrow> u32 \<Rightarrow> u32 \<Rightarrow> 'z kbitmap_scheme \<Rightarrow> u32 \<times> 'z kbitmap_scheme" where
  "count_set_loop bm index count s =
     (if index < bit_count bm
      then case bitmap_test bm index s of (hit, s) \<Rightarrow>
             count_set_loop bm (index + 1) (if hit then count + 1 else count) s
      else (count, s))"
  by pat_completeness auto
termination
  by (relation "measure (\<lambda>(bm, index, c, s). unat (bit_count bm) - unat index)")
    (auto simp: unat_Suc_u32 word_less_nat_alt)

definition bitmap_count_set :: "bitmap_t \<Rightarrow> 'z kbitmap_scheme \<Rightarrow> u32 \<times> 'z kbitmap_scheme" where
  "bitmap_count_set bm s = (if words bm = None then (0, s) else count_set_loop bm 0 0 s)"

declare find_first_zero_loop.simps [simp del] run_scan.simps [simp del] count_set_loop.simps [simp del]

section \<open>Abstraction: a bitmap is a finite set of indices\<close>

definition bitmap_wf :: "bitmap_t \<Rightarrow> bool" where
  "bitmap_wf bm = (case words bm of None \<Rightarrow> False | Some ws \<Rightarrow> unat (bit_count bm) \<le> 32 * length ws)"

definition bitmap_bits :: "bitmap_t \<Rightarrow> nat set" where
  "bitmap_bits bm = (case words bm of None \<Rightarrow> {}
     | Some ws \<Rightarrow> {i. i < unat (bit_count bm) \<and> bit (ws ! (i div 32)) (i mod 32)})"

abbreviation bitmap_size :: "bitmap_t \<Rightarrow> nat" where
  "bitmap_size bm \<equiv> unat (bit_count bm)"

text \<open>Every bitmap operation leaves the rest of the kernel state alone, up to its counters.\<close>

definition stats_only :: "'z kbitmap_scheme \<Rightarrow> 'z kbitmap_scheme \<Rightarrow> bool" where
  "stats_only s s' \<longleftrightarrow> (\<exists>st. s' = s\<lparr>g_bitmap_stats := st\<rparr>)"

lemma stats_only_refl [simp, intro]: "stats_only s s"
proof -
  have "s = s\<lparr>g_bitmap_stats := g_bitmap_stats s\<rparr>" by simp
  then show ?thesis unfolding stats_only_def by blast
qed

lemma stats_only_trans [trans]: "stats_only s t \<Longrightarrow> stats_only t u \<Longrightarrow> stats_only s u"
  by (force simp: stats_only_def)

lemma stats_only_note [simp]:
  "stats_only s (note_set_op s)" "stats_only s (note_clear_op s)" "stats_only s (note_test_op s)"
  "stats_only s (note_alloc_op s)" "stats_only s (note_free_op s)"
  by (auto simp: stats_only_def note_set_op_def note_clear_op_def note_test_op_def
      note_alloc_op_def note_free_op_def)

lemma stats_onlyE:
  assumes "stats_only s s'"
  obtains st where "s' = s\<lparr>g_bitmap_stats := st\<rparr>"
  using assms by (auto simp: stats_only_def)

lemma bitmap_bits_bounded: "i \<in> bitmap_bits bm \<Longrightarrow> i < bitmap_size bm"
  by (auto simp: bitmap_bits_def split: option.splits)

lemma bitmap_bits_subset: "bitmap_bits bm \<subseteq> {..<bitmap_size bm}"
  using bitmap_bits_bounded by blast

lemma finite_bitmap_bits [simp]: "finite (bitmap_bits bm)"
  by (rule finite_subset [OF bitmap_bits_subset]) simp

lemma bitmap_wfE:
  assumes "bitmap_wf bm"
  obtains ws n where "bm = \<lparr>words = Some ws, bit_count = n\<rparr>" "unat n \<le> 32 * length ws"
  using assms by (cases bm) (auto simp: bitmap_wf_def split: option.splits)

lemma unat_word_index: "unat (bitmap_word_index i) = unat i div 32"
  by (simp add: bitmap_word_index_def unat_div)

lemma bitmap_word_mask_eq: "bitmap_word_mask i = 2 ^ (unat i mod 32)"
  by (simp add: bitmap_word_mask_def unat_mod)

lemma word_index_in_range: "n \<le> 32 * length ws \<Longrightarrow> i < n \<Longrightarrow> i div 32 < length ws" for n :: nat
  by linarith

lemma bitmap_test_eq:
  assumes "bitmap_wf bm"
  shows "bitmap_test bm i s =
    (unat i \<in> bitmap_bits bm, if unat i < bitmap_size bm then note_test_op s else s)"
  using assms
  by (auto simp: bitmap_test_def bitmap_bits_def bitmap_wf_def unat_word_index bitmap_word_mask_eq
      bit_test_mask word_nat split: option.splits)

lemma bit_update_nth:
  fixes ws :: "u32 list"
  assumes "n div 32 < length ws"
  shows "bit (ws[n div 32 := ws ! (n div 32) OR 2 ^ (n mod 32)] ! (i div 32)) (i mod 32)
     \<longleftrightarrow> i = n \<or> bit (ws ! (i div 32)) (i mod 32)"
    and "bit (ws[n div 32 := ws ! (n div 32) AND NOT (2 ^ (n mod 32))] ! (i div 32)) (i mod 32)
     \<longleftrightarrow> i \<noteq> n \<and> bit (ws ! (i div 32)) (i mod 32)"
proof -
  have *: "i = n \<longleftrightarrow> i div 32 = n div 32 \<and> i mod 32 = n mod 32"
    by (metis div_mult_mod_eq)
  have b: "i mod 32 < 32" "n mod 32 < 32" by simp_all
  show "bit (ws[n div 32 := ws ! (n div 32) OR 2 ^ (n mod 32)] ! (i div 32)) (i mod 32)
     \<longleftrightarrow> i = n \<or> bit (ws ! (i div 32)) (i mod 32)"
    using assms b unfolding * by (cases "i div 32 = n div 32") (auto simp: bit_simps)
  show "bit (ws[n div 32 := ws ! (n div 32) AND NOT (2 ^ (n mod 32))] ! (i div 32)) (i mod 32)
     \<longleftrightarrow> i \<noteq> n \<and> bit (ws ! (i div 32)) (i mod 32)"
    using assms b unfolding * by (cases "i div 32 = n div 32") (auto simp: bit_simps)
qed

text \<open>The three single-bit operations refine membership, insertion and deletion.\<close>

lemma bitmap_set_spec:
  assumes wf: "bitmap_wf bm" and res: "bitmap_set bm i s = (ok, bm', s')"
  shows "bitmap_wf bm'" "bit_count bm' = bit_count bm" "stats_only s s'"
    "ok \<longleftrightarrow> unat i < bitmap_size bm \<and> unat i \<notin> bitmap_bits bm"
    "bitmap_bits bm' = (if unat i < bitmap_size bm then insert (unat i) (bitmap_bits bm) else bitmap_bits bm)"
    "\<not> ok \<Longrightarrow> bm' = bm"
proof -
  obtain ws n where bm: "bm = \<lparr>words = Some ws, bit_count = n\<rparr>" and len: "unat n \<le> 32 * length ws"
    using wf by (rule bitmap_wfE)
  note R = word_index_in_range [OF len, of "unat i"]
  note d = bm bitmap_set_def Let_def unat_word_index bitmap_word_mask_eq bit_test_mask word_nat
    bitmap_wf_def bitmap_bits_def
  show "bitmap_wf bm'" "bit_count bm' = bit_count bm" "stats_only s s'" "\<not> ok \<Longrightarrow> bm' = bm"
    using res len by (auto simp: d split: if_splits)
  show "ok \<longleftrightarrow> unat i < bitmap_size bm \<and> unat i \<notin> bitmap_bits bm"
    using res by (auto simp: d split: if_splits)
  show "bitmap_bits bm' = (if unat i < bitmap_size bm then insert (unat i) (bitmap_bits bm) else bitmap_bits bm)"
    using res R by (auto simp: d bit_update_nth split: if_splits)
qed

lemma bitmap_clear_spec:
  assumes wf: "bitmap_wf bm" and res: "bitmap_clear bm i s = (ok, bm', s')"
  shows "bitmap_wf bm'" "bit_count bm' = bit_count bm" "stats_only s s'"
    "ok \<longleftrightarrow> unat i \<in> bitmap_bits bm"
    "bitmap_bits bm' = bitmap_bits bm - {unat i}"
    "\<not> ok \<Longrightarrow> bm' = bm"
proof -
  obtain ws n where bm: "bm = \<lparr>words = Some ws, bit_count = n\<rparr>" and len: "unat n \<le> 32 * length ws"
    using wf by (rule bitmap_wfE)
  note R = word_index_in_range [OF len, of "unat i"]
  note d = bm bitmap_clear_def Let_def unat_word_index bitmap_word_mask_eq bit_test_mask word_nat
    bitmap_wf_def bitmap_bits_def
  show "bitmap_wf bm'" "bit_count bm' = bit_count bm" "stats_only s s'" "\<not> ok \<Longrightarrow> bm' = bm"
    using res len by (auto simp: d split: if_splits)
  show "ok \<longleftrightarrow> unat i \<in> bitmap_bits bm"
    using res by (auto simp: d split: if_splits)
  show "bitmap_bits bm' = bitmap_bits bm - {unat i}"
    using res R by (auto simp: d bit_update_nth split: if_splits)
qed

section \<open>Searching\<close>

lemma find_first_zero_loop_spec:
  assumes "bitmap_wf bm" "find_first_zero_loop bm i s = (r, s')"
  shows "stats_only s s' \<and>
    (r = -1 \<and> {unat i..<bitmap_size bm} \<subseteq> bitmap_bits bm \<or>
     (\<exists>k. r = sint k \<and> i \<le> k \<and> unat k < bitmap_size bm \<and> unat k \<notin> bitmap_bits bm \<and>
          {unat i..<unat k} \<subseteq> bitmap_bits bm))"
  using assms
proof (induction bm i s rule: find_first_zero_loop.induct)
  case (1 bm i s)
  show ?case
  proof (cases "i < bit_count bm")
    case False
    with 1 show ?thesis by (auto simp: find_first_zero_loop.simps [of bm i] word_nat)
  next
    case True
    then have lt: "unat i < bitmap_size bm" and nx: "unat (i + 1) = Suc (unat i)"
      by (auto simp: word_nat unat_Suc_u32)
    show ?thesis
    proof (cases "unat i \<in> bitmap_bits bm")
      case False
      with 1 True lt show ?thesis
        by (auto simp: find_first_zero_loop.simps [of bm i] bitmap_test_eq intro!: exI [of _ i])
    next
      case hit: True
      let ?t = "note_test_op s"
      have rec: "find_first_zero_loop bm (i + 1) ?t = (r, s')"
        using 1(3) True hit lt "1.prems"(1)
        by (simp add: find_first_zero_loop.simps [of bm i] bitmap_test_eq)
      have ih: "stats_only ?t s' \<and>
        (r = -1 \<and> {Suc (unat i)..<bitmap_size bm} \<subseteq> bitmap_bits bm \<or>
         (\<exists>k. r = sint k \<and> i + 1 \<le> k \<and> unat k < bitmap_size bm \<and> unat k \<notin> bitmap_bits bm \<and>
              {Suc (unat i)..<unat k} \<subseteq> bitmap_bits bm))"
        using "1.IH" [OF True, of True ?t] rec hit lt "1.prems"(1) by (simp add: bitmap_test_eq nx)
      have ext: "{unat i..<n} \<subseteq> bitmap_bits bm" if "{Suc (unat i)..<n} \<subseteq> bitmap_bits bm" for n
      proof
        fix j assume "j \<in> {unat i..<n}"
        with that hit show "j \<in> bitmap_bits bm" by (cases "j = unat i") auto
      qed
      from ih have "stats_only s s'" by (meson stats_only_note(3) stats_only_trans)
      moreover have "i \<le> k" if "i + 1 \<le> k" for k
        using that nx by (simp add: word_nat)
      ultimately show ?thesis using ih ext by blast
    qed
  qed
qed

lemma bitmap_allocate_first_spec:
  assumes wf: "bitmap_wf bm" and small: "bitmap_size bm < 2147483648"
    and res: "bitmap_allocate_first bm s = (r, bm', s')"
  shows "stats_only s s'" "bitmap_wf bm'" "bit_count bm' = bit_count bm"
    "r = -1 \<and> bm' = bm \<and> bitmap_bits bm = {..<bitmap_size bm} \<or>
     (\<exists>k. r = int k \<and> k < bitmap_size bm \<and> k \<notin> bitmap_bits bm \<and> {..<k} \<subseteq> bitmap_bits bm \<and>
          bitmap_bits bm' = insert k (bitmap_bits bm))"
proof -
  obtain q t where q: "bitmap_find_first_zero bm 0 s = (q, t)" by (cases "bitmap_find_first_zero bm 0 s")
  have w: "words bm \<noteq> None" using wf by (auto simp: bitmap_wf_def split: option.splits)
  have q': "stats_only s t \<and> (q = -1 \<and> {0..<bitmap_size bm} \<subseteq> bitmap_bits bm \<or>
     (\<exists>k :: u32. q = sint k \<and> unat k < bitmap_size bm \<and> unat k \<notin> bitmap_bits bm \<and> {0..<unat k} \<subseteq> bitmap_bits bm))"
  proof (cases "bit_count bm \<le> 0")
    case True
    with q show ?thesis by (simp add: bitmap_find_first_zero_def)
  next
    case False
    with q w have "find_first_zero_loop bm 0 s = (q, t)" by (simp add: bitmap_find_first_zero_def)
    from find_first_zero_loop_spec [OF wf this] show ?thesis by simp
  qed
  then have st: "stats_only s t" by simp
  from q' consider (full) "q = -1" "{0..<bitmap_size bm} \<subseteq> bitmap_bits bm"
    | (free) k :: u32 where "q = int (unat k)" "unat k < bitmap_size bm" "unat k \<notin> bitmap_bits bm"
        "{0..<unat k} \<subseteq> bitmap_bits bm"
    using small by (fastforce simp: sint_small_u32)
  then have "stats_only s s' \<and> bitmap_wf bm' \<and> bit_count bm' = bit_count bm \<and>
    (r = -1 \<and> bm' = bm \<and> bitmap_bits bm = {..<bitmap_size bm} \<or>
     (\<exists>k. r = int k \<and> k < bitmap_size bm \<and> k \<notin> bitmap_bits bm \<and> {..<k} \<subseteq> bitmap_bits bm \<and>
          bitmap_bits bm' = insert k (bitmap_bits bm)))"
  proof cases
    case full
    with res q st wf bitmap_bits_subset [of bm] show ?thesis
      by (auto simp: bitmap_allocate_first_def lessThan_atLeast0)
  next
    case (free k)
    obtain ok b u where set: "bitmap_set bm k t = (ok, b, u)" by (cases "bitmap_set bm k t") auto
    note S = bitmap_set_spec [OF wf set]
    from S(4) free have ok by simp
    then have "r = int (unat k) \<and> bm' = b \<and> s' = note_alloc_op u"
      using res q free(1) set by (simp add: bitmap_allocate_first_def)
    moreover from this S(3) st have "stats_only s s'"
      by (meson stats_only_note(4) stats_only_trans)
    ultimately show ?thesis
      using S free by (intro conjI disjI2 exI [of _ "unat k"]) (auto simp: lessThan_atLeast0)
  qed
  then show "stats_only s s'" "bitmap_wf bm'" "bit_count bm' = bit_count bm"
    "r = -1 \<and> bm' = bm \<and> bitmap_bits bm = {..<bitmap_size bm} \<or>
     (\<exists>k. r = int k \<and> k < bitmap_size bm \<and> k \<notin> bitmap_bits bm \<and> {..<k} \<subseteq> bitmap_bits bm \<and>
          bitmap_bits bm' = insert k (bitmap_bits bm))"
    by blast+
qed


text \<open>A run of free bits that satisfies the request: what the run search looks for.\<close>

definition free_run :: "bitmap_t \<Rightarrow> nat \<Rightarrow> nat \<Rightarrow> nat \<Rightarrow> nat \<Rightarrow> bool" where
  "free_run bm from n align i \<longleftrightarrow>
     from \<le> i \<and> i + n \<le> bitmap_size bm \<and> align dvd i \<and> {i..<i + n} \<inter> bitmap_bits bm = {}"

lemma run_scan_spec:
  assumes "bitmap_wf bm" "unat index + unat n < 4294967296" "b \<le> n" "run_scan bm index n b s = (r, s')"
  shows "stats_only s s' \<and>
    (case r of
       None \<Rightarrow> {unat index + unat b..<unat index + unat n} \<inter> bitmap_bits bm = {}
     | Some k \<Rightarrow> k < n \<and> unat index + unat k \<in> bitmap_bits bm)"
  using assms
proof (induction bm index n b s rule: run_scan.induct)
  case (1 bm index n b s)
  show ?case
  proof (cases "b < n")
    case False
    with 1 show ?thesis by (auto simp: run_scan.simps [of bm index n b] word_nat)
  next
    case True
    then have lt: "unat b < unat n" and nx: "unat (b + 1) = Suc (unat b)"
      by (auto simp: word_nat unat_Suc_u32)
    then have pos: "unat (index + b) = unat index + unat b"
      using "1.prems"(2) by (intro unat_add_u32) linarith
    let ?p = "unat index + unat b"
    let ?t = "if ?p < bitmap_size bm then note_test_op s else s"
    have st: "stats_only s ?t" by simp
    have step: "bitmap_test bm (index + b) s = (?p \<in> bitmap_bits bm, ?t)"
      using "1.prems"(1) by (simp add: bitmap_test_eq pos)
    show ?thesis
    proof (cases "?p \<in> bitmap_bits bm")
      case hit: True
      with "1.prems"(4) True step st show ?thesis
        by (auto simp: run_scan.simps [of bm index n b])
    next
      case miss: False
      have rec: "run_scan bm index n (b + 1) ?t = (r, s')"
        using "1.prems"(4) True step miss by (simp add: run_scan.simps [of bm index n b])
      have "b + 1 \<le> n" using lt nx by (simp add: word_nat)
      from "1.IH" [OF True, of False ?t] miss step "1.prems"(1,2) this rec
      have ih: "stats_only ?t s' \<and> (case r of
          None \<Rightarrow> {Suc ?p..<unat index + unat n} \<inter> bitmap_bits bm = {}
        | Some k \<Rightarrow> k < n \<and> unat index + unat k \<in> bitmap_bits bm)"
        by (auto simp: nx split: option.splits)
      have "{?p..<m} \<inter> bitmap_bits bm = {}" if "{Suc ?p..<m} \<inter> bitmap_bits bm = {}" for m
      proof -
        have "{?p..<m} \<subseteq> insert ?p {Suc ?p..<m}" by auto
        with that miss show ?thesis by blast
      qed
      with ih st show ?thesis by (auto split: option.splits intro: stats_only_trans)
    qed
  qed
qed

lemma find_run_loop_spec:
  fixes s :: "'z kbitmap_scheme"
  assumes wf: "bitmap_wf bm" and nowrap: "bitmap_size bm + unat n < 4294967296"
    and n: "n \<noteq> 0" and al: "align \<noteq> 0" and idx: "unat index \<le> bitmap_size bm"
  shows "\<exists>r s'. find_run_loop bm index n align s = Some (r, s') \<and> stats_only s s' \<and>
     (r = -1 \<and> (\<forall>i. \<not> free_run bm (unat index) (unat n) (unat align) i) \<or>
      (\<exists>k :: u32. r = sint k \<and> free_run bm (unat index) (unat n) (unat align) (unat k) \<and>
           (\<forall>i. free_run bm (unat index) (unat n) (unat align) i \<longrightarrow> unat k \<le> i)))"
  using idx
proof (induction "bitmap_size bm - unat index" arbitrary: index s rule: less_induct)
  case less
  let ?F = "\<lambda>j i. free_run bm j (unat n) (unat align) i"
  let ?G = "\<lambda>j r. r = -1 \<and> (\<forall>i. \<not> ?F j i) \<or> (\<exists>k :: u32. r = sint k \<and> ?F j (unat k) \<and> (\<forall>i. ?F j i \<longrightarrow> unat k \<le> i))"
  have sum: "unat (index + n) = unat index + unat n"
    using less.prems nowrap by (intro unat_add_u32) linarith
  have npos: "0 < unat n" using n by (simp add: unat_gt_0)
  have skip: "?G j r \<Longrightarrow> (\<And>i. ?F (unat index) i \<Longrightarrow> j \<le> i) \<Longrightarrow> unat index \<le> j \<Longrightarrow> ?G (unat index) r" for j r
  proof -
    assume G: "?G j r" and lo: "\<And>i. ?F (unat index) i \<Longrightarrow> j \<le> i" and le: "unat index \<le> j"
    have "?F (unat index) i = ?F j i" for i
      using lo [of i] le unfolding free_run_def by auto
    with G show ?thesis by presburger
  qed
  show ?case
  proof (cases "index + n \<le> bit_count bm")
    case False
    then show ?thesis
      using sum by (auto simp: find_run_loop.simps [of bm index] word_nat free_run_def)
  next
    case True
    then have fit: "unat index + unat n \<le> bitmap_size bm" using sum by (simp add: word_nat)
    have rec: "\<exists>r s'. find_run_loop bm j n align t = Some (r, s') \<and> stats_only t s' \<and> ?G (unat j) r"
      if "unat index < unat j" "unat j \<le> bitmap_size bm" for j and t :: "'z kbitmap_scheme"
      using less.hyps [of j t] that less.prems by (simp add: diff_less_mono2)
    have one: "unat (index + 1) = Suc (unat index)"
      using fit npos nowrap by (subst unat_add_u32) auto
    have dv: "index mod align = 0 \<longleftrightarrow> unat align dvd unat index"
      by (simp add: word_unat_eq_iff unat_mod dvd_eq_mod_eq_0)
    show ?thesis
    proof (cases "index mod align = 0")
      case False
      with rec [of "index + 1" s] fit npos one obtain r s' where
        "find_run_loop bm index n align s = Some (r, s')" "stats_only s s'" "?G (Suc (unat index)) r"
        using True by (auto simp: find_run_loop.simps [of bm index])
      moreover have "?F (unat index) i \<Longrightarrow> Suc (unat index) \<le> i" for i
        using False dv unfolding free_run_def by (metis Suc_leI nat_less_le)
      ultimately show ?thesis using skip [of r "Suc (unat index)"] by fastforce
    next
      case ok: True
      obtain q t where q: "run_scan bm index n 0 s = (q, t)" by (cases "run_scan bm index n 0 s")
      have nw: "unat index + unat n < 4294967296" using fit nowrap by linarith
      note S = run_scan_spec [OF wf nw _ q]
      show ?thesis
      proof (cases q)
        case None
        with S have "stats_only s t" "?F (unat index) (unat index)"
          using ok dv fit by (auto simp: free_run_def)
        moreover have "\<forall>i. ?F (unat index) i \<longrightarrow> unat index \<le> i" by (simp add: free_run_def)
        ultimately show ?thesis
          using True ok q None by (auto simp: find_run_loop.simps [of bm index])
      next
        case (Some b)
        with S have b: "unat b < unat n" "unat index + unat b \<in> bitmap_bits bm" "stats_only s t"
          by (auto simp: word_nat)
        let ?j = "index + b + 1"
        have j: "unat ?j = Suc (unat index + unat b)"
          using b(1) nw by (subst unat_add_u32; subst unat_add_u32) auto
        have more: "unat ?j \<le> i" if F: "?F (unat index) i" for i
        proof (rule ccontr)
          assume "\<not> unat ?j \<le> i"
          with F have "unat index + unat b \<in> {i..<i + unat n}"
            using b(1) j unfolding free_run_def by auto
          with F b(2) show False unfolding free_run_def by blast
        qed
        have "unat ?j \<le> bitmap_size bm" using bitmap_bits_bounded [OF b(2)] j by simp
        then obtain r s' where L: "find_run_loop bm ?j n align t = Some (r, s')"
          and st: "stats_only t s'" and G: "?G (unat ?j) r"
          using rec [of ?j t] j by auto
        have "?G (unat index) r" using skip [OF G more] j by simp
        moreover have "find_run_loop bm index n align s = Some (r, s')"
          using True ok q Some L by (simp add: find_run_loop.simps [of bm index])
        ultimately show ?thesis using stats_only_trans [OF b(3) st] by blast
      qed
    qed
  qed
qed


section \<open>Binding and counting\<close>

lemma unat_word_count: "unat n \<le> 4294967264 \<Longrightarrow> unat (bitmap_word_count n) = (unat n + 31) div 32"
proof -
  assume "unat n \<le> 4294967264"
  then have "unat (n + 31) = unat n + 31" by (subst unat_add_u32) auto
  moreover have "bitmap_word_count n = (n + 31) div 32"
    by (simp add: bitmap_word_count_def add.commute)
  ultimately show ?thesis by (simp add: unat_div)
qed

lemma nth_memset_words: "i < k \<Longrightarrow> i < length ws \<Longrightarrow> memset_words k ws ! i = 0"
  by (simp add: memset_words_def nth_append)

lemma length_memset_words [simp]: "length (memset_words k ws) = length ws"
  by (auto simp: memset_words_def)

lemma bitmap_bind_spec:
  assumes "unat n \<le> 4294967264" "unat n \<le> 32 * length st"
  shows "bitmap_wf (bitmap_bind bm (Some st) n)" "bitmap_bits (bitmap_bind bm (Some st) n) = {}"
    "bit_count (bitmap_bind bm (Some st) n) = n"
proof -
  have "\<not> bit (memset_words (unat (bitmap_word_count n)) st ! (i div 32)) (i mod 32)" if "i < unat n" for i
  proof -
    have "i div 32 < (unat n + 31) div 32" "i div 32 < length st" using that assms(2) by linarith+
    with assms(1) show ?thesis by (simp add: nth_memset_words unat_word_count)
  qed
  then show "bitmap_wf (bitmap_bind bm (Some st) n)" "bitmap_bits (bitmap_bind bm (Some st) n) = {}"
    "bit_count (bitmap_bind bm (Some st) n) = n"
    using assms by (auto simp: bitmap_bind_def bitmap_wf_def bitmap_bits_def)
qed

lemma count_set_loop_spec:
  assumes "bitmap_wf bm" "count_set_loop bm i c s = (r, s')"
  shows "stats_only s s' \<and> r = c + of_nat (card (bitmap_bits bm \<inter> {unat i..}))"
  using assms
proof (induction bm i c s rule: count_set_loop.induct)
  case (1 bm i c s)
  show ?case
  proof (cases "i < bit_count bm")
    case False
    then have "bitmap_bits bm \<inter> {unat i..} = {}"
      using bitmap_bits_bounded [of _ bm] by (fastforce simp: word_nat)
    with False "1.prems" show ?thesis by (simp add: count_set_loop.simps [of bm i])
  next
    case True
    let ?hit = "unat i \<in> bitmap_bits bm"
    have nx: "unat (i + 1) = Suc (unat i)" using True by (simp add: unat_Suc_u32)
    have step: "bitmap_test bm i s = (?hit, note_test_op s)"
      using True "1.prems"(1) by (simp add: bitmap_test_eq word_nat)
    have "count_set_loop bm (i + 1) (if ?hit then c + 1 else c) (note_test_op s) = (r, s')"
      using "1.prems"(2) True step by (simp add: count_set_loop.simps [of bm i])
    with "1.IH" [OF True step [symmetric] "1.prems"(1)]
    have ih: "stats_only (note_test_op s) s'"
      "r = (if ?hit then c + 1 else c) + of_nat (card (bitmap_bits bm \<inter> {Suc (unat i)..}))"
      by (simp_all add: nx)
    have "bitmap_bits bm \<inter> {unat i..} =
        (if ?hit then insert (unat i) (bitmap_bits bm \<inter> {Suc (unat i)..}) else bitmap_bits bm \<inter> {Suc (unat i)..})"
      by (auto simp: Suc_le_eq order_le_less)
    with ih show ?thesis by (auto intro: stats_only_trans [OF stats_only_note(3)])
  qed
qed

lemma bitmap_count_set_spec:
  assumes "bitmap_wf bm"
  shows "fst (bitmap_count_set bm s) = of_nat (card (bitmap_bits bm))"
proof -
  have "words bm \<noteq> None" using assms by (auto simp: bitmap_wf_def split: option.splits)
  moreover obtain r s' where "count_set_loop bm 0 0 s = (r, s')" by (cases "count_set_loop bm 0 0 s")
  moreover have "{0..} = (UNIV :: nat set)" by auto
  ultimately show ?thesis
    using count_set_loop_spec [OF assms, of 0 0 s r s'] by (auto simp: bitmap_count_set_def)
qed

section \<open>Properties\<close>

definition run_align :: "u32 \<Rightarrow> nat" where
  "run_align align_bits = (if align_bits = 0 then 1 else unat align_bits)"

definition bitmap_boot :: kbitmap where
  "bitmap_boot = bitmap_init \<lparr>g_bitmap_stats = \<lparr>set_ops = 0, clear_ops = 0, test_ops = 0,
     alloc_ops = 0, free_ops = 0\<rparr>, g_bitmap_status = []\<rparr>"

lemma bitmap_find_run_zero_spec:
  assumes "bitmap_wf bm" "bitmap_size bm < 2147483648" "bitmap_size bm + unat n < 4294967296"
    and "n \<noteq> 0" "start < bit_count bm"
  shows "\<exists>s'. stats_only s s' \<and>
     ((\<exists>k. bitmap_find_run_zero bm start n al s = Some (int k, s') \<and>
           free_run bm (unat start) (unat n) (run_align al) k \<and>
           (\<forall>i. free_run bm (unat start) (unat n) (run_align al) i \<longrightarrow> k \<le> i)) \<or>
      bitmap_find_run_zero bm start n al s = Some (-1, s') \<and>
           (\<forall>i. \<not> free_run bm (unat start) (unat n) (run_align al) i))"
proof -
  let ?a = "if al = 0 then 1 else al"
  have al: "run_align al = unat ?a" by (simp add: run_align_def)
  have le: "unat start \<le> bitmap_size bm" using assms(5) by (simp add: word_nat)
  have "words bm \<noteq> None" using assms(1) by (auto simp: bitmap_wf_def split: option.splits)
  then have eq: "bitmap_find_run_zero bm start n al s = find_run_loop bm start n ?a s"
    using assms(4,5) by (auto simp: bitmap_find_run_zero_def Let_def)
  have nz: "?a \<noteq> 0" by simp
  let ?F = "free_run bm (unat start) (unat n) (run_align al)"
  obtain r s' where R: "find_run_loop bm start n ?a s = Some (r, s')" "stats_only s s'"
     "r = -1 \<and> (\<forall>i. \<not> ?F i) \<or> (\<exists>k :: u32. r = sint k \<and> ?F (unat k) \<and> (\<forall>i. ?F i \<longrightarrow> unat k \<le> i))"
    using find_run_loop_spec [OF assms(1,3,4) nz le, of s] unfolding al by blast
  have "sint k = int (unat k)" if "?F (unat k)" for k :: u32
    using that assms(2) by (intro sint_small_u32) (auto simp: free_run_def)
  with R eq show ?thesis by metis
qed



lemma run_scan_hit:
  assumes "bitmap_wf bm" "unat (index + k) \<in> bitmap_bits bm" "k < n" "b \<le> k"
    and "\<And>c. b \<le> c \<Longrightarrow> c < k \<Longrightarrow> unat (index + c) \<notin> bitmap_bits bm"
  shows "\<exists>s'. run_scan bm index n b s = (Some k, s')"
  using assms(4,5)
proof (induction "unat k - unat b" arbitrary: b s rule: less_induct)
  case less
  show ?case
  proof (cases "b = k")
    case True
    with assms(1-3) show ?thesis by (simp add: run_scan.simps [of bm index n k] bitmap_test_eq)
  next
    case False
    with less.prems(1) have lt: "b < k" by simp
    then have nx: "unat (b + 1) = Suc (unat b)" by (simp add: unat_Suc_u32)
    have "\<exists>s'. run_scan bm index n (b + 1) t = (Some k, s')" for t :: "'a kbitmap_scheme"
    proof (rule less.hyps)
      show "unat k - unat (b + 1) < unat k - unat b" using lt nx by (simp add: word_nat)
      show "b + 1 \<le> k" using lt nx by (simp add: word_nat)
      show "unat (index + c) \<notin> bitmap_bits bm" if "b + 1 \<le> c" "c < k" for c
        using less.prems(2) [of c] that nx by (simp add: word_nat)
    qed
    moreover have "b < n" using lt assms(3) by simp
    ultimately show ?thesis
      using less.prems(2) [of b] lt assms(1) by (simp add: run_scan.simps [of bm index n b] bitmap_test_eq)
  qed
qed

lemma run_cycle:
  fixes s :: "'z kbitmap_scheme"
  assumes wf: "bitmap_wf bm" and bits: "bitmap_bits bm = {0, 1}"
  shows "\<exists>s'. run_scan bm 2 4294967295 0 s = (Some 4294967294, s')"
    and "\<exists>s'. run_scan bm 1 4294967295 0 s = (Some 0, s')"
proof -
  have "unat (2 + c) \<notin> bitmap_bits bm" if "c < 4294967294" for c :: u32
  proof -
    have "unat c < 4294967294" using that by (simp add: word_nat)
    then have "unat (2 + c) = 2 + unat c" by (subst unat_add_u32) auto
    then show ?thesis by (simp add: bits)
  qed
  then show "\<exists>s'. run_scan bm 2 4294967295 0 s = (Some 4294967294, s')"
    using bits by (intro run_scan_hit [OF wf]) auto
  show "\<exists>s'. run_scan bm 1 4294967295 0 s = (Some 0, s')"
    using bits by (intro run_scan_hit [OF wf]) auto
qed

text \<open>The 32-bit sum in the run search can hang the kernel: with exactly the bits 0 and 1 set,
  a request for 4294967295 bits from index 2 never returns, since the candidate index
  alternates between 2 and 1 for ever.\<close>

theorem bitmap_find_run_zero_hangs:
  assumes wf: "bitmap_wf bm" and bits: "bitmap_bits bm = {0, 1}" and size: "3 \<le> bit_count bm"
  shows "bitmap_find_run_zero bm 2 4294967295 1 s = None"
proof (rule ccontr)
  assume "bitmap_find_run_zero bm 2 4294967295 1 s \<noteq> None"
  moreover have "words bm \<noteq> None" using wf by (auto simp: bitmap_wf_def split: option.splits)
  moreover have "\<not> bit_count bm \<le> 2" using size by (simp add: word_nat)
  ultimately obtain r where ret: "find_run_loop bm 2 4294967295 1 s = Some r"
    by (auto simp: bitmap_find_run_zero_def Let_def)
  have wrap: "(4294967296 :: u32) = 0" "(4294967297 :: u32) = 1" by simp_all
  have fits: "1 \<le> bit_count bm" using size by (simp add: word_nat)
  let ?P = "\<lambda>b (i :: u32) (n :: u32) (a :: u32) (t :: 'a kbitmap_scheme) (r :: int \<times> 'a kbitmap_scheme).
     \<not> (b = bm \<and> n = 4294967295 \<and> a = 1 \<and> (i = 1 \<or> i = 2))"
  have "?P bm 2 4294967295 1 s r"
  proof (rule find_run_loop.raw_induct [where P = ?P, OF _ ret])
    fix f b i n a and t :: "'a kbitmap_scheme" and r
    assume IH: "\<And>b i n a t r. f b i n a t = Some r \<Longrightarrow> ?P b i n a t r"
      and eq: "(if i + n \<le> bit_count b
         then if i mod a \<noteq> 0 then f b (i + 1) n a t
              else (case run_scan b i n 0 t of (None, s) \<Rightarrow> Some (sint i, s)
                    | (Some ba, s) \<Rightarrow> f b (i + ba + 1) n a s)
         else Some (-1, t)) = Some r"
    show "?P b i n a t r"
    proof
      assume c: "b = bm \<and> n = 4294967295 \<and> a = 1 \<and> (i = 1 \<or> i = 2)"
      then consider "i = 1" | "i = 2" by blast
      then show False
      proof cases
        case 1
        obtain t' where "run_scan bm 1 4294967295 0 t = (Some 0, t')" using run_cycle(2) [OF wf bits] by blast
        with eq c 1 have "f bm 2 4294967295 1 t' = Some r" by (simp add: wrap)
        from IH [OF this] show False by simp
      next
        case 2
        obtain t' where "run_scan bm 2 4294967295 0 t = (Some 4294967294, t')" using run_cycle(1) [OF wf bits] by blast
        with eq c 2 fits have "f bm 1 4294967295 1 t' = Some r" by (simp add: wrap)
        from IH [OF this] show False by simp
      qed
    qed
  qed
  then show False by simp
qed

theorem bitmap_find_run_zero_hangs_witness:
  "bitmap_find_run_zero \<lparr>words = Some [3], bit_count = 32\<rparr> 2 4294967295 1 bitmap_boot = None"
proof (rule bitmap_find_run_zero_hangs)
  have "(3 :: u32) = mask 2" by (simp add: mask_eq_exp_minus_1)
  then have b: "bit (3 :: u32) i \<longleftrightarrow> i < 2" for i by (simp only: bit_mask_iff) auto
  have "bitmap_bits \<lparr>words = Some [3], bit_count = 32\<rparr> = {i. i < 32 \<and> bit (3 :: u32) i}"
    by (auto simp: bitmap_bits_def)
  also have "\<dots> = {0, 1}" unfolding b by auto
  finally show "bitmap_bits \<lparr>words = Some [3], bit_count = 32\<rparr> = {0, 1}" .
qed (simp_all add: bitmap_wf_def)

end
