(* ===== verification/Pool.thy ===== *)
theory Pool
  imports Bitmap
begin

text \<open>
  The slot pool (\<^verbatim>\<open>kernel/mm/pool.c\<close>, \<^verbatim>\<open>include/pool.h\<close>): a named bitmap with usage counters,
  from which the process table and the IPC port table draw their slots.  The theory also
  states the contract of such an allocator as a locale, proves in it how a client's table
  stays in step with the allocator, and interprets it on the pool operations.
\<close>

section \<open>State\<close>

record pool_t =
  pl_map :: bitmap_t
  pl_capacity :: u32
  pl_used :: u32
  pl_alloc_count :: u32
  pl_free_count :: u32
  pl_name :: string

record pool_stats_t =
  ps_pools :: u32
  ps_slots_total :: u32
  ps_slots_used :: u32
  ps_alloc_ops :: u32
  ps_free_ops :: u32

record kpool = kbitmap +
  g_pool_stats :: pool_stats_t
  g_pool_status :: string

section \<open>Operations\<close>

definition pool_copy_name :: "nat \<Rightarrow> string option \<Rightarrow> string" where
  "pool_copy_name sz src = copy_text sz src"

definition pool_system_init :: "'z kpool_scheme \<Rightarrow> 'z kpool_scheme" where
  "pool_system_init s = s\<lparr>g_pool_stats := \<lparr>ps_pools = 0, ps_slots_total = 0, ps_slots_used = 0,
     ps_alloc_ops = 0, ps_free_ops = 0\<rparr>, g_pool_status := ''pool: ready''\<rparr>"

definition pool_zero :: pool_t where
  "pool_zero = \<lparr>pl_map = \<lparr>words = None, bit_count = 0\<rparr>, pl_capacity = 0, pl_used = 0,
     pl_alloc_count = 0, pl_free_count = 0, pl_name = []\<rparr>"

definition pool_init :: "string option \<Rightarrow> u32 list option \<Rightarrow> u32 \<Rightarrow> 'z kpool_scheme \<Rightarrow> pool_t \<times> 'z kpool_scheme" where
  "pool_init name storage capacity s =
     (pool_zero\<lparr>pl_name := pool_copy_name 16 name,
                pl_map := bitmap_bind (pl_map pool_zero) storage capacity,
                pl_capacity := capacity\<rparr>,
      s\<lparr>g_pool_stats := (g_pool_stats s)\<lparr>ps_pools := ps_pools (g_pool_stats s) + 1,
          ps_slots_total := ps_slots_total (g_pool_stats s) + capacity\<rparr>\<rparr>)"

definition pool_alloc_slot :: "pool_t \<Rightarrow> 'z kpool_scheme \<Rightarrow> int \<times> pool_t \<times> 'z kpool_scheme" where
  "pool_alloc_slot pool s =
     (case bitmap_allocate_first (pl_map pool) s of (slot, m, s) \<Rightarrow>
        if slot < 0 then (-1, pool\<lparr>pl_map := m\<rparr>, s)
        else (slot,
              pool\<lparr>pl_map := m, pl_used := pl_used pool + 1, pl_alloc_count := pl_alloc_count pool + 1\<rparr>,
              s\<lparr>g_pool_stats := (g_pool_stats s)\<lparr>ps_alloc_ops := ps_alloc_ops (g_pool_stats s) + 1,
                  ps_slots_used := ps_slots_used (g_pool_stats s) + 1\<rparr>\<rparr>))"

definition pool_free_slot :: "pool_t \<Rightarrow> u32 \<Rightarrow> 'z kpool_scheme \<Rightarrow> bool \<times> pool_t \<times> 'z kpool_scheme" where
  "pool_free_slot pool slot s =
     (case bitmap_release (pl_map pool) slot s of (ok, m, s) \<Rightarrow>
        if \<not> ok then (False, pool\<lparr>pl_map := m\<rparr>, s)
        else (True,
              pool\<lparr>pl_map := m,
                   pl_used := (if pl_used pool > 0 then pl_used pool - 1 else pl_used pool),
                   pl_free_count := pl_free_count pool + 1\<rparr>,
              s\<lparr>g_pool_stats := (g_pool_stats s)\<lparr>ps_free_ops := ps_free_ops (g_pool_stats s) + 1,
                  ps_slots_used := (if ps_slots_used (g_pool_stats s) > 0
                                    then ps_slots_used (g_pool_stats s) - 1
                                    else ps_slots_used (g_pool_stats s))\<rparr>\<rparr>))"

section \<open>Invariant and specification\<close>

definition pool_slots :: "pool_t \<Rightarrow> nat set" where
  "pool_slots pool = bitmap_bits (pl_map pool)"

definition pool_inv :: "pool_t \<Rightarrow> bool" where
  "pool_inv pool \<longleftrightarrow> bitmap_wf (pl_map pool) \<and> bit_count (pl_map pool) = pl_capacity pool \<and>
     unat (pl_capacity pool) < 2147483648 \<and> unat (pl_used pool) = card (pool_slots pool)"

definition pool_stats_only :: "'z kpool_scheme \<Rightarrow> 'z kpool_scheme \<Rightarrow> bool" where
  "pool_stats_only s s' \<longleftrightarrow> (\<exists>bs ps. s' = s\<lparr>g_bitmap_stats := bs, g_pool_stats := ps\<rparr>)"

lemma pool_stats_only_refl [simp, intro]: "pool_stats_only s s"
proof -
  have "s = s\<lparr>g_bitmap_stats := g_bitmap_stats s, g_pool_stats := g_pool_stats s\<rparr>" by simp
  then show ?thesis unfolding pool_stats_only_def by blast
qed

lemma pool_stats_only_trans [trans]: "pool_stats_only s t \<Longrightarrow> pool_stats_only t u \<Longrightarrow> pool_stats_only s u"
  by (force simp: pool_stats_only_def)

lemma pool_stats_onlyI [intro]: "stats_only s t \<Longrightarrow> pool_stats_only s (t\<lparr>g_pool_stats := ps\<rparr>)"
  by (auto simp: stats_only_def pool_stats_only_def)

lemma stats_only_pool: "stats_only s t \<Longrightarrow> pool_stats_only s t"
proof -
  assume "stats_only s t"
  then have "pool_stats_only s (t\<lparr>g_pool_stats := g_pool_stats t\<rparr>)" by blast
  then show ?thesis by simp
qed

lemma pool_stats_onlyE:
  assumes "pool_stats_only s s'"
  obtains bs ps where "s' = s\<lparr>g_bitmap_stats := bs, g_pool_stats := ps\<rparr>"
  using assms by (auto simp: pool_stats_only_def)

lemma pool_slots_subset: "pool_inv pool \<Longrightarrow> pool_slots pool \<subseteq> {..<unat (pl_capacity pool)}"
  using bitmap_bits_subset [of "pl_map pool"] by (simp add: pool_inv_def pool_slots_def)

lemma pool_alloc_slot_spec:
  assumes inv: "pool_inv pool" and res: "pool_alloc_slot pool s = (r, pool', s')"
  shows "pool_inv pool'" "pl_capacity pool' = pl_capacity pool" "pool_stats_only s s'"
    "r = -1 \<and> pool_slots pool' = pool_slots pool \<and> pool_slots pool = {..<unat (pl_capacity pool)} \<or>
     (\<exists>k. r = int k \<and> k < unat (pl_capacity pool) \<and> k \<notin> pool_slots pool \<and>
          {..<k} \<subseteq> pool_slots pool \<and> pool_slots pool' = insert k (pool_slots pool))"
proof -
  obtain q m t where q: "bitmap_allocate_first (pl_map pool) s = (q, m, t)"
    by (cases "bitmap_allocate_first (pl_map pool) s") auto
  from inv have wf: "bitmap_wf (pl_map pool)" and cap: "bit_count (pl_map pool) = pl_capacity pool"
    and small: "bitmap_size (pl_map pool) < 2147483648"
    and used: "unat (pl_used pool) = card (pool_slots pool)"
    by (auto simp: pool_inv_def)
  note S = bitmap_allocate_first_spec [OF wf small q]
  have "pool_inv pool' \<and> pl_capacity pool' = pl_capacity pool \<and> pool_stats_only s s' \<and>
    (r = -1 \<and> pool_slots pool' = pool_slots pool \<and> pool_slots pool = {..<unat (pl_capacity pool)} \<or>
     (\<exists>k. r = int k \<and> k < unat (pl_capacity pool) \<and> k \<notin> pool_slots pool \<and>
          {..<k} \<subseteq> pool_slots pool \<and> pool_slots pool' = insert k (pool_slots pool)))"
  proof (cases "q < 0")
    case True
    then have "q = -1" "m = pl_map pool" "bitmap_bits (pl_map pool) = {..<bitmap_size (pl_map pool)}"
      using S(4) by auto
    with True inv res q S(1) cap show ?thesis
      by (auto simp: pool_alloc_slot_def pool_slots_def intro: stats_only_pool)
  next
    case False
    then obtain k where k: "q = int k" "k < unat (pl_capacity pool)" "k \<notin> pool_slots pool"
      "{..<k} \<subseteq> pool_slots pool" "bitmap_bits m = insert k (pool_slots pool)"
      using S(4) cap by (auto simp: pool_slots_def)
    have "card (pool_slots pool) < unat (pl_capacity pool)"
    proof -
      have "insert k (pool_slots pool) \<subseteq> {..<unat (pl_capacity pool)}"
        using k(2) pool_slots_subset [OF inv] by auto
      from card_mono [OF _ this] k(3) show ?thesis by (simp add: pool_slots_def)
    qed
    then have "unat (pl_used pool + 1) = Suc (card (pool_slots pool))"
      using used small cap by (subst unat_add_u32) auto
    with False k res q S(1-3) cap small show ?thesis
      by (auto simp: pool_alloc_slot_def pool_inv_def pool_slots_def)
  qed
  then show "pool_inv pool'" "pl_capacity pool' = pl_capacity pool" "pool_stats_only s s'"
    "r = -1 \<and> pool_slots pool' = pool_slots pool \<and> pool_slots pool = {..<unat (pl_capacity pool)} \<or>
     (\<exists>k. r = int k \<and> k < unat (pl_capacity pool) \<and> k \<notin> pool_slots pool \<and>
          {..<k} \<subseteq> pool_slots pool \<and> pool_slots pool' = insert k (pool_slots pool))"
    by blast+
qed

lemma pool_free_slot_spec:
  assumes inv: "pool_inv pool" and res: "pool_free_slot pool i s = (ok, pool', s')"
  shows "pool_inv pool'" "pl_capacity pool' = pl_capacity pool" "pool_stats_only s s'"
    "ok \<longleftrightarrow> unat i \<in> pool_slots pool" "pool_slots pool' = pool_slots pool - {unat i}"
proof -
  obtain q m t where q: "bitmap_clear (pl_map pool) i s = (q, m, t)"
    by (cases "bitmap_clear (pl_map pool) i s") auto
  from inv have wf: "bitmap_wf (pl_map pool)" and used: "unat (pl_used pool) = card (pool_slots pool)"
    by (auto simp: pool_inv_def)
  note S = bitmap_clear_spec [OF wf q]
  have dec: "unat (pl_used pool - 1) = card (pool_slots pool - {unat i})" "0 < pl_used pool"
    if "unat i \<in> pool_slots pool"
  proof -
    have "0 < card (pool_slots pool)" using that by (auto simp: pool_slots_def card_gt_0_iff)
    then have "pl_used pool \<noteq> 0" using used by auto
    then show "0 < pl_used pool" by (simp add: word_neq_0_conv)
    show "unat (pl_used pool - 1) = card (pool_slots pool - {unat i})"
      using that used \<open>pl_used pool \<noteq> 0\<close> by (simp add: unat_minus_one pool_slots_def)
  qed
  have st: "stats_only s (note_free_op t)" using S(3) stats_only_note(5) by (rule stats_only_trans)
  have "pool_inv pool' \<and> pl_capacity pool' = pl_capacity pool \<and> pool_stats_only s s' \<and>
    (ok \<longleftrightarrow> unat i \<in> pool_slots pool) \<and> pool_slots pool' = pool_slots pool - {unat i}"
  proof (cases q)
    case True
    with S(4) have mem: "unat i \<in> pool_slots pool" by (simp add: pool_slots_def)
    with True res q dec(2) [OF mem]
    have eq: "ok" "pl_map pool' = m" "pl_used pool' = pl_used pool - 1" "pl_capacity pool' = pl_capacity pool"
      and s': "\<exists>ps. s' = (note_free_op t)\<lparr>g_pool_stats := ps\<rparr>"
      by (auto simp: pool_free_slot_def bitmap_release_def)
    then have "pool_slots pool' = pool_slots pool - {unat i}" using S(5) by (simp add: pool_slots_def)
    moreover have "pool_stats_only s s'" using st s' by blast
    ultimately show ?thesis
      using eq inv mem S(1,2) dec(1) [OF mem] by (simp add: pool_inv_def)
  next
    case False
    with res q S inv show ?thesis
      by (auto simp: pool_free_slot_def bitmap_release_def pool_slots_def intro: stats_only_pool)
  qed
  then show "pool_inv pool'" "pl_capacity pool' = pl_capacity pool" "pool_stats_only s s'"
    "ok \<longleftrightarrow> unat i \<in> pool_slots pool" "pool_slots pool' = pool_slots pool - {unat i}"
    by blast+
qed

lemma pool_init_spec:
  assumes "unat n < 2147483648" "unat n \<le> 32 * length st" "pool_init name (Some st) n s = (pool, s')"
  shows "pool_inv pool" "pool_slots pool = {}" "pl_capacity pool = n" "pool_stats_only s s'"
  using assms bitmap_bind_spec [of n st "pl_map pool_zero"]
  by (auto simp: pool_init_def pool_inv_def pool_slots_def pool_zero_def)

section \<open>The contract of a slot allocator, and its clients' tables\<close>

text \<open>A table whose used entries are exactly the slots that the allocator has handed out.\<close>

definition table_synced :: "('e \<Rightarrow> bool) \<Rightarrow> 'e list \<Rightarrow> nat set \<Rightarrow> bool" where
  "table_synced used tab slots \<longleftrightarrow> (\<forall>i < length tab. used (tab ! i) \<longleftrightarrow> i \<in> slots)"

lemma table_synced_count:
  assumes "table_synced used tab slots" "slots \<subseteq> {..<length tab}"
  shows "length (filter used tab) = card slots"
proof -
  have "{i. i < length tab \<and> used (tab ! i)} = slots"
    using assms by (auto simp: table_synced_def)
  then show ?thesis by (simp add: length_filter_conv_card)
qed

locale slot_allocator =
  fixes alloc :: "'p \<Rightarrow> 's \<Rightarrow> int \<times> 'p \<times> 's"
    and release :: "'p \<Rightarrow> u32 \<Rightarrow> 's \<Rightarrow> bool \<times> 'p \<times> 's"
    and slots :: "'p \<Rightarrow> nat set"
    and cap :: "'p \<Rightarrow> nat"
    and inv :: "'p \<Rightarrow> bool"
    and same :: "'s \<Rightarrow> 's \<Rightarrow> bool"
  assumes slots_bounded: "inv p \<Longrightarrow> slots p \<subseteq> {..<cap p}"
    and alloc_inv: "inv p \<Longrightarrow> alloc p s = (r, p', s') \<Longrightarrow> inv p' \<and> cap p' = cap p \<and> same s s'"
    and alloc_result: "inv p \<Longrightarrow> alloc p s = (r, p', s') \<Longrightarrow>
       r = -1 \<and> slots p' = slots p \<and> slots p = {..<cap p} \<or>
       (\<exists>k. r = int k \<and> k < cap p \<and> k \<notin> slots p \<and> slots p' = insert k (slots p))"
    and release_inv: "inv p \<Longrightarrow> release p i s = (ok, p', s') \<Longrightarrow> inv p' \<and> cap p' = cap p \<and> same s s'"
    and release_result: "inv p \<Longrightarrow> release p i s = (ok, p', s') \<Longrightarrow>
       (ok \<longleftrightarrow> unat i \<in> slots p) \<and> slots p' = slots p - {unat i}"
begin

lemma alloc_fails_iff_full:
  assumes "inv p" "alloc p s = (r, p', s')"
  shows "r < 0 \<longleftrightarrow> slots p = {..<cap p}"
  using alloc_result [OF assms] by auto

lemma alloc_install:
  assumes "inv p" "alloc p s = (r, p', s')" "0 \<le> r"
    and "length tab = cap p" "table_synced used tab (slots p)" "used e"
  shows "table_synced used (tab[nat r := e]) (slots p')" "nat r < length tab" "\<not> used (tab ! nat r)"
    "slots p' = insert (nat r) (slots p)"
  using alloc_result [OF assms(1,2)] assms(3-6) by (auto simp: table_synced_def nth_update_lt split: if_splits)

lemma alloc_full_table:
  assumes "inv p" "alloc p s = (r, p', s')" "r < 0"
    and "length tab = cap p" "table_synced used tab (slots p)"
  shows "\<forall>e \<in> set tab. used e" "table_synced used tab (slots p')"
  using alloc_result [OF assms(1,2)] assms(3-5) by (auto simp: table_synced_def in_set_conv_nth)

lemma release_erase:
  assumes "inv p" "release p i s = (ok, p', s')" "table_synced used tab (slots p)"
    and "length tab = cap p" "\<not> used e"
  shows "table_synced used (tab[unat i := e]) (slots p')"
  using release_result [OF assms(1,2)] assms(3-5) by (auto simp: table_synced_def nth_update_lt split: if_splits)

lemma release_alloc:
  assumes "inv p" "unat i \<in> slots p" "release p i s = (ok, p', s')" "alloc p' t = (r, p'', t')"
  shows "0 \<le> r"
proof (rule ccontr)
  assume "\<not> 0 \<le> r"
  moreover have "inv p'" "cap p' = cap p" using release_inv [OF assms(1,3)] by auto
  ultimately have "slots p' = {..<cap p}" using alloc_result [of p' t r p'' t'] assms(4) by auto
  moreover have "slots p' = slots p - {unat i}" using release_result [OF assms(1,3)] by simp
  moreover have "unat i < cap p" using slots_bounded [OF assms(1)] assms(2) by auto
  ultimately show False by auto
qed

end

text \<open>The pool operations fulfil the contract.\<close>

interpretation pool: slot_allocator pool_alloc_slot pool_free_slot pool_slots
  "\<lambda>p. unat (pl_capacity p)" pool_inv pool_stats_only
proof unfold_locales
  fix p :: pool_t and s s' :: "'a kpool_scheme" and r p'
  assume a: "pool_inv p" "pool_alloc_slot p s = (r, p', s')"
  note S = pool_alloc_slot_spec [OF a]
  show "pool_inv p' \<and> unat (pl_capacity p') = unat (pl_capacity p) \<and> pool_stats_only s s'"
    using S(1-3) by simp
  show "r = -1 \<and> pool_slots p' = pool_slots p \<and> pool_slots p = {..<unat (pl_capacity p)} \<or>
    (\<exists>k. r = int k \<and> k < unat (pl_capacity p) \<and> k \<notin> pool_slots p \<and> pool_slots p' = insert k (pool_slots p))"
    using S(4) by blast
next
  fix p :: pool_t and s s' :: "'a kpool_scheme" and i ok p'
  assume a: "pool_inv p" "pool_free_slot p i s = (ok, p', s')"
  note S = pool_free_slot_spec [OF a]
  show "pool_inv p' \<and> unat (pl_capacity p') = unat (pl_capacity p) \<and> pool_stats_only s s'"
    using S(1-3) by simp
  show "(ok \<longleftrightarrow> unat i \<in> pool_slots p) \<and> pool_slots p' = pool_slots p - {unat i}"
    using S(4,5) by simp
qed (rule pool_slots_subset)

end
