(* ===== verification/Frame.thy ===== *)
theory Frame
  imports Pool
begin

text \<open>
  The physical frame allocator (\<^verbatim>\<open>kernel/mm/frame.c\<close>): 16384 frames of 4 KiB from physical
  address 16 MiB, a bitmap of the frames in use, a next-fit cursor and counters.  A call that
  may run for ever (through the run search of the bitmap) returns an option; the theorems show
  that it returns.  The end of the theory states what the allocator promises as a locale and
  interprets it; the buddy, page and shared-memory components rest on that interface.
\<close>

section \<open>State\<close>

record frame_info_t =
  fi_base :: u64
  fi_total_frames :: u32
  fi_used_frames :: u32
  fi_reserved_frames :: u32
  fi_alloc_requests :: u32
  fi_free_requests :: u32
  fi_last_base :: u64
  fi_last_count :: u32

record kframe = kpool +
  g_frame_bitmap :: bitmap_t
  g_frame_info :: frame_info_t
  g_frame_status :: string
  g_frame_next_cursor :: u32

definition FRAME_BASE_PHYS :: u64 where "FRAME_BASE_PHYS = 0x01000000"
definition FRAME_TOTAL_COUNT :: u32 where "FRAME_TOTAL_COUNT = 16384"
definition FRAME_PAGE_SIZE :: u64 where "FRAME_PAGE_SIZE = 4096"

lemmas frame_consts = FRAME_BASE_PHYS_def FRAME_TOTAL_COUNT_def FRAME_PAGE_SIZE_def

section \<open>Operations\<close>

definition frame_range_valid :: "u32 \<Rightarrow> u32 \<Rightarrow> bool" where
  "frame_range_valid index frame_count \<longleftrightarrow>
     frame_count > 0 \<and> index < FRAME_TOTAL_COUNT \<and> index + frame_count \<le> FRAME_TOTAL_COUNT"

definition frame_index_from_base :: "u64 \<Rightarrow> u32 option" where
  "frame_index_from_base base =
     (if base < FRAME_BASE_PHYS \<or> (base - FRAME_BASE_PHYS) mod FRAME_PAGE_SIZE \<noteq> 0 then None
      else let offset = (base - FRAME_BASE_PHYS) div FRAME_PAGE_SIZE in
        if offset \<ge> ucast FRAME_TOTAL_COUNT then None else Some (ucast offset))"

text \<open>
  The two branches of \<^verbatim>\<open>frame_mark_range\<close> run the same loop with \<^verbatim>\<open>bitmap_set\<close> and
  \<^verbatim>\<open>bitmap_clear\<close> exchanged: perform \<open>act\<close> on each frame in turn and, at the first failure,
  \<open>undo\<close> the frames done so far.
\<close>

function rollback_loop ::
  "('b \<Rightarrow> u32 \<Rightarrow> 's \<Rightarrow> bool \<times> 'b \<times> 's) \<Rightarrow> u32 \<Rightarrow> u32 \<Rightarrow> u32 \<Rightarrow> 'b \<Rightarrow> 's \<Rightarrow> 'b \<times> 's" where
  "rollback_loop undo start index rollback b s =
     (if rollback < index
      then case undo b (start + rollback) s of (_, b, s) \<Rightarrow> rollback_loop undo start index (rollback + 1) b s
      else (b, s))"
  by pat_completeness auto
termination
  by (relation "measure (\<lambda>(u, st, n, i, b, s). unat n - unat i)") (auto simp: unat_Suc_u32 word_less_nat_alt)

function mark_loop ::
  "('b \<Rightarrow> u32 \<Rightarrow> 's \<Rightarrow> bool \<times> 'b \<times> 's) \<Rightarrow> ('b \<Rightarrow> u32 \<Rightarrow> 's \<Rightarrow> bool \<times> 'b \<times> 's) \<Rightarrow>
   u32 \<Rightarrow> u32 \<Rightarrow> u32 \<Rightarrow> 'b \<Rightarrow> 's \<Rightarrow> bool \<times> 'b \<times> 's" where
  "mark_loop act undo start n index b s =
     (if index < n
      then case act b (start + index) s of (ok, b, s) \<Rightarrow>
             if ok then mark_loop act undo start n (index + 1) b s
             else (case rollback_loop undo start index 0 b s of (b, s) \<Rightarrow> (False, b, s))
      else (True, b, s))"
  by pat_completeness auto
termination
  by (relation "measure (\<lambda>(a, u, st, n, i, b, s). unat n - unat i)") (auto simp: unat_Suc_u32 word_less_nat_alt)

declare rollback_loop.simps [simp del] mark_loop.simps [simp del]

definition frame_mark_range :: "u32 \<Rightarrow> u32 \<Rightarrow> bool \<Rightarrow> 'z kframe_scheme \<Rightarrow> bool \<times> 'z kframe_scheme" where
  "frame_mark_range start_index frame_count allocate s =
     (if \<not> frame_range_valid start_index frame_count then (False, s)
      else case (if allocate
                 then mark_loop bitmap_set bitmap_clear start_index frame_count 0 (g_frame_bitmap s) s
                 else mark_loop bitmap_clear bitmap_set start_index frame_count 0 (g_frame_bitmap s) s)
           of (ok, bm, s) \<Rightarrow> (ok, s\<lparr>g_frame_bitmap := bm\<rparr>))"

definition frame_init :: "u32 list \<Rightarrow> 'z kframe_scheme \<Rightarrow> 'z kframe_scheme" where
  "frame_init storage s =
     s\<lparr>g_frame_info := \<lparr>fi_base = FRAME_BASE_PHYS, fi_total_frames = FRAME_TOTAL_COUNT, fi_used_frames = 0,
         fi_reserved_frames = 0, fi_alloc_requests = 0, fi_free_requests = 0, fi_last_base = 0, fi_last_count = 0\<rparr>,
       g_frame_bitmap := bitmap_bind (g_frame_bitmap s) (Some storage) FRAME_TOTAL_COUNT,
       g_frame_next_cursor := 0,
       g_frame_status := ''frame: ready (64 MiB pool)''\<rparr>"

definition frame_note_alloc :: "u32 \<Rightarrow> u32 \<Rightarrow> 'z kframe_scheme \<Rightarrow> u64 \<times> 'z kframe_scheme" where
  "frame_note_alloc start_index frame_count s =
     (let cursor = start_index + frame_count;
          cursor = (if cursor \<ge> FRAME_TOTAL_COUNT then 0 else cursor);
          base = FRAME_BASE_PHYS + ucast start_index * FRAME_PAGE_SIZE;
          info = g_frame_info s
      in (base,
          s\<lparr>g_frame_next_cursor := cursor,
            g_frame_info := info\<lparr>fi_used_frames := fi_used_frames info + frame_count,
              fi_alloc_requests := fi_alloc_requests info + 1,
              fi_last_base := base, fi_last_count := frame_count\<rparr>,
            g_frame_status := ''frame: allocated''\<rparr>))"

definition frame_alloc_aligned :: "u32 \<Rightarrow> u32 \<Rightarrow> 'z kframe_scheme \<Rightarrow> (u64 \<times> 'z kframe_scheme) option" where
  "frame_alloc_aligned frame_count align_frames s =
     (if frame_count = 0 then Some (0, s)
      else do {
        (start_index, s) \<leftarrow> bitmap_find_run_zero (g_frame_bitmap s) (g_frame_next_cursor s) frame_count align_frames s;
        (start_index, s) \<leftarrow>
          (if start_index < 0 then bitmap_find_run_zero (g_frame_bitmap s) 0 frame_count align_frames s
           else Some (start_index, s));
        Some (if start_index < 0 then (0, s\<lparr>g_frame_status := ''frame: no free run''\<rparr>)
              else case frame_mark_range (word_of_int start_index) frame_count True s of (ok, s) \<Rightarrow>
                if \<not> ok then (0, s\<lparr>g_frame_status := ''frame: no free run''\<rparr>)
                else frame_note_alloc (word_of_int start_index) frame_count s)
      })"

definition frame_alloc :: "u32 \<Rightarrow> 'z kframe_scheme \<Rightarrow> (u64 \<times> 'z kframe_scheme) option" where
  "frame_alloc frame_count s = frame_alloc_aligned frame_count 1 s"

definition frame_free :: "u64 \<Rightarrow> u32 \<Rightarrow> 'z kframe_scheme \<Rightarrow> bool \<times> 'z kframe_scheme" where
  "frame_free base frame_count s =
     (case frame_index_from_base base of
        None \<Rightarrow> (False, s\<lparr>g_frame_status := ''frame: free failed''\<rparr>)
      | Some start_index \<Rightarrow>
          case frame_mark_range start_index frame_count False s of (ok, s) \<Rightarrow>
            if \<not> ok then (False, s\<lparr>g_frame_status := ''frame: free failed''\<rparr>)
            else let info = g_frame_info s in
              (True, s\<lparr>g_frame_info := info\<lparr>
                  fi_used_frames := (if fi_used_frames info \<ge> frame_count then fi_used_frames info - frame_count else 0),
                  fi_free_requests := fi_free_requests info + 1,
                  fi_last_base := base, fi_last_count := frame_count\<rparr>,
                g_frame_status := ''frame: freed''\<rparr>))"

definition frame_reserve :: "u64 \<Rightarrow> u32 \<Rightarrow> 'z kframe_scheme \<Rightarrow> bool \<times> 'z kframe_scheme" where
  "frame_reserve base frame_count s =
     (case frame_index_from_base base of
        None \<Rightarrow> (False, s\<lparr>g_frame_status := ''frame: reserve failed''\<rparr>)
      | Some start_index \<Rightarrow>
          case frame_mark_range start_index frame_count True s of (ok, s) \<Rightarrow>
            if \<not> ok then (False, s\<lparr>g_frame_status := ''frame: reserve failed''\<rparr>)
            else let info = g_frame_info s in
              (True, s\<lparr>g_frame_info := info\<lparr>fi_used_frames := fi_used_frames info + frame_count,
                  fi_reserved_frames := fi_reserved_frames info + frame_count,
                  fi_last_base := base, fi_last_count := frame_count\<rparr>,
                g_frame_status := ''frame: reserved''\<rparr>))"

definition frame_is_used :: "u64 \<Rightarrow> 'z kframe_scheme \<Rightarrow> bool \<times> 'z kframe_scheme" where
  "frame_is_used phys s = (case frame_index_from_base phys of
       None \<Rightarrow> (False, s)
     | Some index \<Rightarrow> bitmap_test (g_frame_bitmap s) index s)"

section \<open>A loop with roll-back is atomic\<close>

text \<open>
  The contract of a pair of inverse operations: \<open>act\<close> succeeds exactly on the available
  indices and takes its index away, \<open>undo\<close> gives an index back.
\<close>

locale undoable =
  fixes act undo :: "'b \<Rightarrow> u32 \<Rightarrow> 's \<Rightarrow> bool \<times> 'b \<times> 's"
    and avail :: "'b \<Rightarrow> nat set"
    and width :: "'b \<Rightarrow> nat"
    and wf :: "'b \<Rightarrow> bool"
    and same :: "'s \<Rightarrow> 's \<Rightarrow> bool"
  assumes same_refl: "same s s"
    and same_trans: "same s t \<Longrightarrow> same t u \<Longrightarrow> same s u"
    and avail_bounded: "wf b \<Longrightarrow> avail b \<subseteq> {..<width b}"
    and act_keeps: "wf b \<Longrightarrow> act b i s = (ok, b', s') \<Longrightarrow> wf b' \<and> width b' = width b \<and> same s s'"
    and act_avail: "wf b \<Longrightarrow> act b i s = (ok, b', s') \<Longrightarrow>
       (ok \<longleftrightarrow> unat i \<in> avail b) \<and> avail b' = avail b - {unat i}"
    and undo_keeps: "wf b \<Longrightarrow> undo b i s = (ok, b', s') \<Longrightarrow> wf b' \<and> width b' = width b \<and> same s s'"
    and undo_avail: "wf b \<Longrightarrow> undo b i s = (ok, b', s') \<Longrightarrow> unat i < width b \<Longrightarrow>
       avail b' = insert (unat i) (avail b)"
begin

lemma rollback_loop_restores:
  assumes "wf b" "width b = w" "unat start + unat index \<le> w" "w < 4294967296" "i \<le> index"
    and "rollback_loop undo start index i b s = (b', s')"
  shows "wf b' \<and> width b' = w \<and> same s s' \<and>
    avail b' = avail b \<union> {unat start + unat i..<unat start + unat index}"
  using assms
proof (induction "unat index - unat i" arbitrary: i b s rule: less_induct)
  case less
  show ?case
  proof (cases "i < index")
    case False
    with less.prems show ?thesis
      by (auto simp: rollback_loop.simps [of undo start index i] word_nat same_refl)
  next
    case True
    then have lt: "unat i < unat index" and nx: "unat (i + 1) = Suc (unat i)"
      by (auto simp: word_nat unat_Suc_u32)
    have pos: "unat (start + i) = unat start + unat i"
      using less.prems(3,4) lt by (intro unat_add_u32) linarith
    obtain ok b1 s1 where u: "undo b (start + i) s = (ok, b1, s1)" by (cases "undo b (start + i) s") auto
    have k: "wf b1" "width b1 = w" "same s s1" using undo_keeps [OF less.prems(1) u] less.prems(2) by auto
    have a: "avail b1 = insert (unat start + unat i) (avail b)"
      using undo_avail [OF less.prems(1) u] pos lt less.prems(2,3) by simp
    have rec: "rollback_loop undo start index (i + 1) b1 s1 = (b', s')"
      using less.prems(6) True u by (simp add: rollback_loop.simps [of undo start index i])
    have "unat index - unat (i + 1) < unat index - unat i" "i + 1 \<le> index"
      using lt nx by (simp_all add: word_nat)
    from less.hyps [OF this(1) k(1,2) less.prems(3,4) this(2) rec]
    have ih: "wf b' \<and> width b' = w \<and> same s1 s' \<and>
      avail b' = avail b1 \<union> {unat start + unat (i + 1)..<unat start + unat index}" .
    have "insert (unat start + unat i) {unat start + Suc (unat i)..<unat start + unat index}
      = {unat start + unat i..<unat start + unat index}"
      using lt by auto
    with ih a nx k(3) show ?thesis using same_trans [OF k(3)] by auto
  qed
qed

lemma mark_loop_atomic:
  assumes "wf b" "width b = w" "w < 4294967296" "index \<le> n" "unat start + unat index \<le> w"
    and "{unat start..<unat start + unat index} \<subseteq> A" "A \<subseteq> {..<w}"
    and "avail b = A - {unat start..<unat start + unat index}"
    and "mark_loop act undo start n index b s = (ok, b', s')"
  shows "wf b' \<and> width b' = w \<and> same s s' \<and>
    (ok \<longleftrightarrow> {unat start..<unat start + unat n} \<subseteq> A) \<and>
    avail b' = (if ok then A - {unat start..<unat start + unat n} else A)"
  using assms
proof (induction "unat n - unat index" arbitrary: index b s rule: less_induct)
  case less
  let ?p = "unat start + unat index"
  show ?case
  proof (cases "index < n")
    case False
    then have "index = n" using less.prems(4) by simp
    with less.prems show ?thesis by (auto simp: mark_loop.simps [of act undo start n n] same_refl)
  next
    case True
    then have lt: "unat index < unat n" and nx: "unat (index + 1) = Suc (unat index)"
      by (auto simp: word_nat unat_Suc_u32)
    have pos: "unat (start + index) = ?p"
      using less.prems(3,5) by (intro unat_add_u32) linarith
    obtain q b1 s1 where u: "act b (start + index) s = (q, b1, s1)" by (cases "act b (start + index) s") auto
    have k: "wf b1" "width b1 = w" "same s s1" using act_keeps [OF less.prems(1) u] less.prems(2) by auto
    have a: "q \<longleftrightarrow> ?p \<in> A" "avail b1 = avail b - {?p}"
      using act_avail [OF less.prems(1) u] pos less.prems(8) by auto
    show ?thesis
    proof (cases q)
      case q: True
      then have "?p < w" using a(1) less.prems(7) by auto
      have rec: "mark_loop act undo start n (index + 1) b1 s1 = (ok, b', s')"
        using less.prems(9) True u q by (simp add: mark_loop.simps [of act undo start n index])
      have ins: "{unat start..<unat start + unat (index + 1)} = insert ?p {unat start..<?p}"
        using nx by auto
      have "wf b' \<and> width b' = w \<and> same s1 s' \<and>
        (ok \<longleftrightarrow> {unat start..<unat start + unat n} \<subseteq> A) \<and>
        avail b' = (if ok then A - {unat start..<unat start + unat n} else A)"
      proof (rule less.hyps [OF _ k(1,2) less.prems(3) _ _ _ less.prems(7) _ rec])
        show "unat n - unat (index + 1) < unat n - unat index" "index + 1 \<le> n"
          "unat start + unat (index + 1) \<le> w"
          using lt nx \<open>?p < w\<close> by (simp_all add: word_nat)
        show "{unat start..<unat start + unat (index + 1)} \<subseteq> A"
          unfolding ins using less.prems(6) a(1) q by simp
        show "avail b1 = A - {unat start..<unat start + unat (index + 1)}"
          unfolding ins a(2) less.prems(8) by blast
      qed
      then show ?thesis using same_trans [OF k(3)] by blast
    next
      case q: False
      obtain b2 s2 where r: "rollback_loop undo start index 0 b1 s1 = (b2, s2)"
        by (cases "rollback_loop undo start index 0 b1 s1")
      have res: "\<not> ok" "b' = b2" "s' = s2"
        using less.prems(9) True u q r by (auto simp: mark_loop.simps [of act undo start n index])
      have "wf b2 \<and> width b2 = w \<and> same s1 s2 \<and> avail b2 = avail b1 \<union> {unat start..<?p}"
        using rollback_loop_restores [OF k(1,2) less.prems(5,3) _ r] by simp
      moreover have "\<not> {unat start..<unat start + unat n} \<subseteq> A"
      proof
        assume "{unat start..<unat start + unat n} \<subseteq> A"
        then have "?p \<in> A" using lt by (rule_tac subsetD) auto
        with a(1) q show False by simp
      qed
      ultimately show ?thesis
        using res a q less.prems(6,8) same_trans [OF k(3)] by auto
    qed
  qed
qed

end

interpretation setr: undoable bitmap_set bitmap_clear "\<lambda>b. {..<bitmap_size b} - bitmap_bits b" bitmap_size
  bitmap_wf stats_only
proof unfold_locales
  fix b b' :: bitmap_t and i and s s' :: "'a kbitmap_scheme" and ok
  assume wf: "bitmap_wf b"
  {
    assume "bitmap_set b i s = (ok, b', s')"
    note S = bitmap_set_spec [OF wf this]
    show "bitmap_wf b' \<and> bitmap_size b' = bitmap_size b \<and> stats_only s s'" using S by simp
    show "(ok \<longleftrightarrow> unat i \<in> {..<bitmap_size b} - bitmap_bits b) \<and>
      {..<bitmap_size b'} - bitmap_bits b' = {..<bitmap_size b} - bitmap_bits b - {unat i}"
      using S(2,4,5) by auto
  }
  assume "bitmap_clear b i s = (ok, b', s')"
  note C = bitmap_clear_spec [OF wf this]
  show "bitmap_wf b' \<and> bitmap_size b' = bitmap_size b \<and> stats_only s s'" using C by simp
  show "unat i < bitmap_size b \<Longrightarrow>
    {..<bitmap_size b'} - bitmap_bits b' = insert (unat i) ({..<bitmap_size b} - bitmap_bits b)"
    using C(2,5) by auto
qed (auto intro: stats_only_trans)

interpretation clrr: undoable bitmap_clear bitmap_set bitmap_bits bitmap_size bitmap_wf stats_only
proof unfold_locales
  fix b b' :: bitmap_t and i and s s' :: "'a kbitmap_scheme" and ok
  assume wf: "bitmap_wf b"
  {
    assume "bitmap_set b i s = (ok, b', s')"
    note S = bitmap_set_spec [OF wf this]
    show "bitmap_wf b' \<and> bitmap_size b' = bitmap_size b \<and> stats_only s s'" using S by simp
    show "unat i < bitmap_size b \<Longrightarrow> bitmap_bits b' = insert (unat i) (bitmap_bits b)"
      using S(5) by simp
  }
  assume "bitmap_clear b i s = (ok, b', s')"
  note C = bitmap_clear_spec [OF wf this]
  show "bitmap_wf b' \<and> bitmap_size b' = bitmap_size b \<and> stats_only s s'" using C by simp
  show "(ok \<longleftrightarrow> unat i \<in> bitmap_bits b) \<and> bitmap_bits b' = bitmap_bits b - {unat i}"
    using C(4,5) by simp
qed (auto intro: stats_only_trans dest: bitmap_bits_bounded)

section \<open>Invariant of the allocator\<close>

definition frames_used :: "'z kframe_scheme \<Rightarrow> nat set" where
  "frames_used s = bitmap_bits (g_frame_bitmap s)"

definition frame_map_ok :: "'z kframe_scheme \<Rightarrow> bool" where
  "frame_map_ok s \<longleftrightarrow> bitmap_wf (g_frame_bitmap s) \<and> bit_count (g_frame_bitmap s) = FRAME_TOTAL_COUNT"

definition frame_inv :: "'z kframe_scheme \<Rightarrow> bool" where
  "frame_inv s \<longleftrightarrow> frame_map_ok s \<and> g_frame_next_cursor s < FRAME_TOTAL_COUNT \<and>
     unat (fi_used_frames (g_frame_info s)) = card (frames_used s)"

text \<open>The physical address of a frame, and back.\<close>

definition frame_addr :: "nat \<Rightarrow> u64" where
  "frame_addr k = FRAME_BASE_PHYS + of_nat k * FRAME_PAGE_SIZE"

definition frame_only :: "'z kframe_scheme \<Rightarrow> 'z kframe_scheme \<Rightarrow> bool" where
  "frame_only s s' \<longleftrightarrow> (\<exists>bs bm fi st c. s' = s\<lparr>g_bitmap_stats := bs, g_frame_bitmap := bm,
     g_frame_info := fi, g_frame_status := st, g_frame_next_cursor := c\<rparr>)"

lemma frame_onlyE:
  assumes "frame_only s s'"
  obtains bs bm fi st c where "s' = s\<lparr>g_bitmap_stats := bs, g_frame_bitmap := bm,
     g_frame_info := fi, g_frame_status := st, g_frame_next_cursor := c\<rparr>"
  using assms by (auto simp: frame_only_def)

lemma frame_only_refl [simp, intro]: "frame_only s s"
proof -
  have "s = s\<lparr>g_bitmap_stats := g_bitmap_stats s, g_frame_bitmap := g_frame_bitmap s,
     g_frame_info := g_frame_info s, g_frame_status := g_frame_status s, g_frame_next_cursor := g_frame_next_cursor s\<rparr>"
    by simp
  then show ?thesis unfolding frame_only_def by blast
qed

lemma frame_only_trans [trans]: "frame_only s t \<Longrightarrow> frame_only t u \<Longrightarrow> frame_only s u"
  by (force simp: frame_only_def)

lemma frame_only_upd:
  "frame_only s (t\<lparr>g_bitmap_stats := bs\<rparr>) \<longleftrightarrow> frame_only s t"
  "frame_only s (t\<lparr>g_frame_bitmap := bm\<rparr>) \<longleftrightarrow> frame_only s t"
  "frame_only s (t\<lparr>g_frame_info := fi\<rparr>) \<longleftrightarrow> frame_only s t"
  "frame_only s (t\<lparr>g_frame_status := st\<rparr>) \<longleftrightarrow> frame_only s t"
  "frame_only s (t\<lparr>g_frame_next_cursor := c\<rparr>) \<longleftrightarrow> frame_only s t"
proof -
  have *: "frame_only s t' \<longleftrightarrow> frame_only s t" if "frame_only t t'" "frame_only t' t" for t'
    using that frame_only_trans by blast
  show "frame_only s (t\<lparr>g_bitmap_stats := bs\<rparr>) \<longleftrightarrow> frame_only s t"
  "frame_only s (t\<lparr>g_frame_bitmap := bm\<rparr>) \<longleftrightarrow> frame_only s t"
  "frame_only s (t\<lparr>g_frame_info := fi\<rparr>) \<longleftrightarrow> frame_only s t"
  "frame_only s (t\<lparr>g_frame_status := st\<rparr>) \<longleftrightarrow> frame_only s t"
  "frame_only s (t\<lparr>g_frame_next_cursor := c\<rparr>) \<longleftrightarrow> frame_only s t"
    by (rule *; cases t; force simp: frame_only_def kframe.defs)+
qed

lemma frame_map_okD:
  "frame_map_ok s \<Longrightarrow> bitmap_wf (g_frame_bitmap s)"
  "frame_map_ok s \<Longrightarrow> bitmap_size (g_frame_bitmap s) = 16384"
  by (auto simp: frame_map_ok_def FRAME_TOTAL_COUNT_def)

lemma frames_used_bounded: "frame_map_ok s \<Longrightarrow> frames_used s \<subseteq> {..<16384}"
  using bitmap_bits_subset [of "g_frame_bitmap s"] by (auto simp: frames_used_def frame_map_okD(2))

lemma finite_frames_used [simp]: "finite (frames_used s)"
  by (simp add: frames_used_def)

lemma range_invalid_outside:
  assumes "n \<noteq> 0" "\<not> frame_range_valid i n"
  shows "\<not> {unat i..<unat i + unat n} \<subseteq> {..<16384}"
proof
  assume sub: "{unat i..<unat i + unat n} \<subseteq> {..<16384}"
  have pos: "0 < unat n" using assms(1) by (simp add: unat_gt_0)
  then have "unat i \<in> {unat i..<unat i + unat n}" "unat i + unat n - 1 \<in> {unat i..<unat i + unat n}" by auto
  from subsetD [OF sub this(1)] subsetD [OF sub this(2)] pos
  have "unat i < 16384" "unat i + unat n \<le> 16384" by auto
  moreover from this have "unat (i + n) = unat i + unat n" by (intro unat_add_u32) simp
  ultimately show False using assms pos by (simp add: frame_range_valid_def FRAME_TOTAL_COUNT_def word_nat)
qed

text \<open>Marking a range is all or nothing, for every start and count, also those whose 32-bit sum wraps.\<close>

lemma frame_mark_range_spec:
  assumes ok: "frame_map_ok s" and n: "n \<noteq> 0" and res: "frame_mark_range i n a s = (r, s')"
  shows "\<exists>bm bs. s' = s\<lparr>g_bitmap_stats := bs, g_frame_bitmap := bm\<rparr>" "frame_map_ok s'"
    "r \<longleftrightarrow> {unat i..<unat i + unat n} \<subseteq> (if a then {..<16384} - frames_used s else frames_used s)"
    "frames_used s' = (if \<not> r then frames_used s
       else if a then frames_used s \<union> {unat i..<unat i + unat n}
       else frames_used s - {unat i..<unat i + unat n})"
proof -
  let ?R = "{unat i..<unat i + unat n}"
  let ?bm = "g_frame_bitmap s"
  note wf = frame_map_okD(1) [OF ok] and sz = frame_map_okD(2) [OF ok]
  have "(\<exists>bm bs. s' = s\<lparr>g_bitmap_stats := bs, g_frame_bitmap := bm\<rparr>) \<and> frame_map_ok s' \<and>
    (r \<longleftrightarrow> ?R \<subseteq> (if a then {..<16384} - frames_used s else frames_used s)) \<and>
    frames_used s' = (if \<not> r then frames_used s else if a then frames_used s \<union> ?R else frames_used s - ?R)"
  proof (cases "frame_range_valid i n")
    case False
    then have "r = False" "s' = s" using res by (auto simp: frame_mark_range_def)
    moreover have "s = s\<lparr>g_bitmap_stats := g_bitmap_stats s, g_frame_bitmap := ?bm\<rparr>" by simp
    moreover have "\<not> ?R \<subseteq> {..<16384}" by (rule range_invalid_outside [OF n False])
    then have "\<not> ?R \<subseteq> (if a then {..<16384} - frames_used s else frames_used s)"
      using frames_used_bounded [OF ok] by (cases a) auto
    ultimately show ?thesis using ok by fastforce
  next
    case True
    then have i: "unat i < 16384" by (simp add: frame_range_valid_def FRAME_TOTAL_COUNT_def word_nat)
    show ?thesis
    proof (cases a)
      case a: True
      obtain q bm t where m: "mark_loop bitmap_set bitmap_clear i n 0 ?bm s = (q, bm, t)"
        by (cases "mark_loop bitmap_set bitmap_clear i n 0 ?bm s") auto
      have M: "bitmap_wf bm \<and> bitmap_size bm = 16384 \<and> stats_only s t \<and>
        (q \<longleftrightarrow> ?R \<subseteq> {..<16384} - frames_used s) \<and>
        {..<bitmap_size bm} - bitmap_bits bm = (if q then {..<16384} - frames_used s - ?R else {..<16384} - frames_used s)"
        using i by (intro setr.mark_loop_atomic [OF wf sz _ _ _ _ _ _ m]) (auto simp: frames_used_def sz)
      then have szb: "bitmap_size bm = 16384" and qR: "q \<longleftrightarrow> ?R \<subseteq> {..<16384} - frames_used s"
        and df0: "{..<bitmap_size bm} - bitmap_bits bm = (if q then {..<16384} - frames_used s - ?R else {..<16384} - frames_used s)"
        by blast+
      note df = df0 [unfolded szb]
      have sub: "bitmap_bits bm \<subseteq> {..<16384}" using szb bitmap_bits_subset [of bm] by simp
      have bits: "bitmap_bits bm = (if q then frames_used s \<union> ?R else frames_used s)"
      proof (cases q)
        case True
        with df qR have "{..<16384} - bitmap_bits bm = {..<16384} - (frames_used s \<union> ?R)"
          "?R \<subseteq> {..<16384}" by (simp_all add: Diff_Un) blast+
        with True show ?thesis
          using Diff_same_eq [OF sub, of "frames_used s \<union> ?R"] frames_used_bounded [OF ok] by simp
      next
        case False
        with df have "{..<16384} - bitmap_bits bm = {..<16384} - frames_used s" by simp
        with False show ?thesis
          using Diff_same_eq [OF sub frames_used_bounded [OF ok]] by simp
      qed
      have "r = q" "s' = t\<lparr>g_frame_bitmap := bm\<rparr>" using res m a True by (auto simp: frame_mark_range_def)
      moreover obtain bs where "t = s\<lparr>g_bitmap_stats := bs\<rparr>" using M by (auto elim: stats_onlyE)
      ultimately show ?thesis
        using M bits a by (auto simp: frames_used_def frame_map_ok_def FRAME_TOTAL_COUNT_def word_unat_eq_iff)
    next
      case a: False
      obtain q bm t where m: "mark_loop bitmap_clear bitmap_set i n 0 ?bm s = (q, bm, t)"
        by (cases "mark_loop bitmap_clear bitmap_set i n 0 ?bm s") auto
      have M: "bitmap_wf bm \<and> bitmap_size bm = 16384 \<and> stats_only s t \<and>
        (q \<longleftrightarrow> ?R \<subseteq> frames_used s) \<and>
        bitmap_bits bm = (if q then frames_used s - ?R else frames_used s)"
        using i frames_used_bounded [OF ok]
        by (intro clrr.mark_loop_atomic [OF wf sz _ _ _ _ _ _ m]) (auto simp: frames_used_def sz)
      have "r = q" "s' = t\<lparr>g_frame_bitmap := bm\<rparr>" using res m a True by (auto simp: frame_mark_range_def)
      moreover obtain bs where "t = s\<lparr>g_bitmap_stats := bs\<rparr>" using M by (auto elim: stats_onlyE)
      ultimately show ?thesis
        using M a by (auto simp: frames_used_def frame_map_ok_def FRAME_TOTAL_COUNT_def word_unat_eq_iff)
    qed
  qed
  then show "\<exists>bm bs. s' = s\<lparr>g_bitmap_stats := bs, g_frame_bitmap := bm\<rparr>" "frame_map_ok s'"
    "r \<longleftrightarrow> ?R \<subseteq> (if a then {..<16384} - frames_used s else frames_used s)"
    "frames_used s' = (if \<not> r then frames_used s else if a then frames_used s \<union> ?R else frames_used s - ?R)"
    by blast+
qed

section \<open>Frame addresses\<close>

lemma unat_frame_addr: "k < 16384 \<Longrightarrow> unat (frame_addr k) = 16777216 + k * 4096"
proof -
  assume k: "k < 16384"
  then have "unat (of_nat k * 4096 :: u64) = k * 4096"
    by (simp add: unat_word_ariths unat_of_nat_u64)
  then show ?thesis
    using k by (simp add: frame_addr_def frame_consts unat_word_ariths)
qed

lemma frame_addr_nonzero: "k < 16384 \<Longrightarrow> frame_addr k \<noteq> 0"
  using unat_frame_addr [of k] by (auto simp: word_unat_eq_iff)

lemma frame_addr_inj: "j < 16384 \<Longrightarrow> k < 16384 \<Longrightarrow> frame_addr j = frame_addr k \<Longrightarrow> j = k"
  using unat_frame_addr [of k] unat_frame_addr [of j] by simp

lemma frame_index_of_addr: "k < 16384 \<Longrightarrow> frame_index_from_base (frame_addr k) = Some (of_nat k)"
proof -
  assume k: "k < 16384"
  have ge: "\<not> frame_addr k < FRAME_BASE_PHYS"
    using unat_frame_addr [OF k] by (simp add: word_nat frame_consts)
  have off: "unat (frame_addr k - FRAME_BASE_PHYS) = k * 4096"
    using unat_frame_addr [OF k] ge by (subst unat_sub) (auto simp: frame_consts)
  then have m: "(frame_addr k - FRAME_BASE_PHYS) mod FRAME_PAGE_SIZE = 0"
    by (simp add: word_unat_eq_iff unat_mod frame_consts)
  have d: "(frame_addr k - FRAME_BASE_PHYS) div FRAME_PAGE_SIZE = of_nat k"
    using off k by (simp add: word_unat_eq_iff unat_div unat_of_nat_u64 frame_consts)
  have "\<not> (of_nat k :: u64) \<ge> ucast FRAME_TOTAL_COUNT"
    using k by (simp add: word_nat unat_of_nat_u64 frame_consts)
  moreover have "ucast (of_nat k :: u64) = (of_nat k :: u32)"
    using k by (simp add: word_unat_eq_iff unsigned_ucast_eq unsigned_of_nat take_bit_nat_eq_self)
  ultimately show ?thesis
    using ge m d by (simp add: frame_index_from_base_def Let_def)
qed

lemma frame_index_SomeD:
  assumes "frame_index_from_base base = Some i"
  shows "unat i < 16384" "base = frame_addr (unat i)"
proof -
  let ?o = "(base - FRAME_BASE_PHYS) div FRAME_PAGE_SIZE"
  from assms have ge: "FRAME_BASE_PHYS \<le> base" and m: "(base - FRAME_BASE_PHYS) mod FRAME_PAGE_SIZE = 0"
    and o: "?o < ucast FRAME_TOTAL_COUNT" and i: "i = ucast ?o"
    by (auto simp: frame_index_from_base_def Let_def split: if_splits)
  have lt: "unat ?o < 16384" using o by (simp add: word_nat frame_consts)
  have ui: "unat i = unat ?o" using lt by (simp add: i unsigned_ucast_eq take_bit_nat_eq_self)
  then show "unat i < 16384" using lt by simp
  have "?o * FRAME_PAGE_SIZE = base - FRAME_BASE_PHYS"
    using m by (metis add.right_neutral word_mod_div_equality)
  then show "base = frame_addr (unat i)"
    using ui by (simp add: frame_addr_def)
qed

section \<open>Allocation\<close>

lemma frame_inv_stats: "frame_inv (s\<lparr>g_bitmap_stats := bs\<rparr>) = frame_inv s"
  "frame_inv (s\<lparr>g_frame_status := st\<rparr>) = frame_inv s"
  by (simp_all add: frame_inv_def frame_map_ok_def frames_used_def)

lemma frames_used_stats: "frames_used (s\<lparr>g_bitmap_stats := bs\<rparr>) = frames_used s"
  "frames_used (s\<lparr>g_frame_status := st\<rparr>) = frames_used s"
  by (simp_all add: frames_used_def)

lemma frame_search:
  assumes inv: "frame_map_ok s" and n: "n \<noteq> 0" "unat n \<le> 2147483648" and st: "start < FRAME_TOTAL_COUNT"
  shows "\<exists>r t. bitmap_find_run_zero (g_frame_bitmap s) start n al s = Some (r, t) \<and> stats_only s t \<and>
    (r = -1 \<and> (\<forall>i. \<not> free_run (g_frame_bitmap s) (unat start) (unat n) (run_align al) i) \<or>
     (\<exists>k. r = int k \<and> free_run (g_frame_bitmap s) (unat start) (unat n) (run_align al) k))"
proof -
  have b: "bitmap_size (g_frame_bitmap s) < 2147483648" "bitmap_size (g_frame_bitmap s) + unat n < 4294967296"
    "start < bit_count (g_frame_bitmap s)"
    using frame_map_okD(2) [OF inv] n(2) st inv by (auto simp: frame_map_ok_def)
  show ?thesis
    using bitmap_find_run_zero_spec [OF frame_map_okD(1) [OF inv] b(1,2) n(1) b(3), of s al] by blast
qed

lemma card_Un_range: "finite U \<Longrightarrow> {k..<k + n} \<inter> U = {} \<Longrightarrow> card (U \<union> {k..<k + n}) = card U + n" for k n :: nat
  by (subst card_Un_disjoint) auto

lemma card_frames_bound: "frame_map_ok s \<Longrightarrow> card (frames_used s) \<le> 16384"
  using card_mono [OF _ frames_used_bounded] by fastforce

lemma frame_take:
  assumes inv: "frame_inv s" and n: "n \<noteq> 0" and run: "free_run (g_frame_bitmap s) f (unat n) al k"
    and res: "frame_mark_range (of_nat k) n True s = (ok, t)" "frame_note_alloc (of_nat k) n t = (r, s')"
  shows "ok" "r = frame_addr k" "frame_inv s'" "frame_only s s'"
    "frames_used s' = frames_used s \<union> {k..<k + unat n}" "k + unat n \<le> 16384" "al dvd k"
    "{k..<k + unat n} \<inter> frames_used s = {}"
proof -
  have map: "frame_map_ok s" and cur: "g_frame_next_cursor s < FRAME_TOTAL_COUNT"
    and used: "unat (fi_used_frames (g_frame_info s)) = card (frames_used s)"
    using inv by (auto simp: frame_inv_def)
  show fit: "k + unat n \<le> 16384" and "al dvd k" and dis: "{k..<k + unat n} \<inter> frames_used s = {}"
    using run frame_map_okD(2) [OF map] by (auto simp: free_run_def frames_used_def)
  have uk: "unat (of_nat k :: u32) = k" using fit by (intro unat_of_nat_u32) simp
  note M = frame_mark_range_spec [OF map n res(1), unfolded uk]
  have "{k..<k + unat n} \<subseteq> {..<16384} - frames_used s" using fit dis by auto
  with M(3) show ok by simp
  with M(4) have ft: "frames_used t = frames_used s \<union> {k..<k + unat n}" by simp
  obtain bm bs where t: "t = s\<lparr>g_bitmap_stats := bs, g_frame_bitmap := bm\<rparr>" using M(1) by blast
  have card: "card (frames_used t) = card (frames_used s) + unat n"
    unfolding ft by (rule card_Un_range [OF finite_frames_used dis])
  then have "unat (fi_used_frames (g_frame_info t) + n) = card (frames_used t)"
    using used card_frames_bound [OF M(2)] by (subst unat_add_u32) (auto simp: t)
  moreover have ft': "frames_used s' = frames_used t" and "g_frame_bitmap s' = g_frame_bitmap t"
    and "fi_used_frames (g_frame_info s') = fi_used_frames (g_frame_info t) + n"
    and "g_frame_next_cursor s' < FRAME_TOTAL_COUNT"
    using res(2) by (auto simp: frame_note_alloc_def Let_def frames_used_def FRAME_TOTAL_COUNT_def)
  ultimately show "frame_inv s'" using M(2) by (simp add: frame_inv_def frame_map_ok_def)
  show "frames_used s' = frames_used s \<union> {k..<k + unat n}" using ft' ft by simp
  have "ucast (of_nat k :: u32) = (of_nat k :: u64)"
    using fit by (simp add: word_unat_eq_iff unsigned_ucast_eq unsigned_of_nat take_bit_nat_eq_self)
  then show "r = frame_addr k" using res(2) by (auto simp: frame_note_alloc_def Let_def frame_addr_def)
  show "frame_only s s'" using res(2) t by (auto simp: frame_note_alloc_def Let_def frame_only_upd)
qed

definition frame_grant :: "nat \<Rightarrow> nat \<Rightarrow> nat \<Rightarrow> nat set \<Rightarrow> u64 \<Rightarrow> nat set \<Rightarrow> bool" where
  "frame_grant n al tot U r U' \<longleftrightarrow>
     r = 0 \<and> U' = U \<and> (\<forall>i. al dvd i \<longrightarrow> i + n \<le> tot \<longrightarrow> {i..<i + n} \<inter> U \<noteq> {}) \<or>
     (\<exists>k. r = frame_addr k \<and> k + n \<le> tot \<and> al dvd k \<and> {k..<k + n} \<inter> U = {} \<and> U' = U \<union> {k..<k + n})"

lemma frame_alloc_aligned_spec:
  assumes inv: "frame_inv s" and n: "n \<noteq> 0" "unat n \<le> 2147483648"
  shows "\<exists>r s'. frame_alloc_aligned n al s = Some (r, s') \<and> frame_inv s' \<and> frame_only s s' \<and>
     frame_grant (unat n) (run_align al) 16384 (frames_used s) r (frames_used s')"
proof -
  have map: "frame_map_ok s" and cur: "g_frame_next_cursor s < FRAME_TOTAL_COUNT"
    using inv by (auto simp: frame_inv_def)
  obtain r1 t1 where s1: "bitmap_find_run_zero (g_frame_bitmap s) (g_frame_next_cursor s) n al s = Some (r1, t1)"
    and st1: "stats_only s t1"
    and c1: "r1 = -1 \<or> (\<exists>k. r1 = int k \<and> free_run (g_frame_bitmap s) (unat (g_frame_next_cursor s)) (unat n) (run_align al) k)"
    using frame_search [OF map n cur, of al] by blast
  obtain b1 where t1: "t1 = s\<lparr>g_bitmap_stats := b1\<rparr>" using st1 by (rule stats_onlyE)
  then have map1: "frame_map_ok t1" using map by (simp add: frame_map_ok_def)
  have z: "0 < FRAME_TOTAL_COUNT" by (simp add: FRAME_TOTAL_COUNT_def)
  obtain r2 t2 where s2: "(if r1 < 0 then bitmap_find_run_zero (g_frame_bitmap t1) 0 n al t1 else Some (r1, t1)) = Some (r2, t2)"
    and st2: "stats_only t1 t2"
    and c2: "r2 = -1 \<and> (\<forall>i. \<not> free_run (g_frame_bitmap s) 0 (unat n) (run_align al) i) \<or>
      (\<exists>f k. r2 = int k \<and> free_run (g_frame_bitmap s) f (unat n) (run_align al) k)"
  proof (cases "r1 < 0")
    case True
    with that frame_search [OF map1 n z, of al] show ?thesis by (auto simp: t1)
  next
    case False
    with that c1 show ?thesis by auto
  qed
  obtain b2 where t2: "t2 = s\<lparr>g_bitmap_stats := b2\<rparr>" using st2 t1 by (auto elim: stats_onlyE)
  have run: "frame_alloc_aligned n al s = Some (if r2 < 0 then (0, t2\<lparr>g_frame_status := ''frame: no free run''\<rparr>)
     else case frame_mark_range (word_of_int r2) n True t2 of (ok, s) \<Rightarrow>
       if \<not> ok then (0, s\<lparr>g_frame_status := ''frame: no free run''\<rparr>) else frame_note_alloc (word_of_int r2) n s)"
    using n(1) s1 s2 by (simp add: frame_alloc_aligned_def split del: if_split)
  from c2 consider (none) "r2 = -1" "\<forall>i. \<not> free_run (g_frame_bitmap s) 0 (unat n) (run_align al) i"
    | (some) f k where "r2 = int k" "free_run (g_frame_bitmap s) f (unat n) (run_align al) k" by blast
  then show ?thesis
  proof cases
    case none
    have "frame_grant (unat n) (run_align al) 16384 (frames_used s) 0 (frames_used s)"
      using none(2) frame_map_okD(2) [OF map] by (auto simp: frame_grant_def free_run_def frames_used_def)
    with none(1) run inv show ?thesis by (simp add: t2 frame_inv_stats frames_used_stats frame_only_upd)
  next
    case (some f k)
    obtain ok u where m: "frame_mark_range (of_nat k) n True t2 = (ok, u)"
      by (cases "frame_mark_range (of_nat k) n True t2")
    obtain r s' where a: "frame_note_alloc (of_nat k) n u = (r, s')" by (cases "frame_note_alloc (of_nat k) n u")
    have inv2: "frame_inv t2" and fu: "frames_used t2 = frames_used s" and run2: "free_run (g_frame_bitmap t2) f (unat n) (run_align al) k"
      using inv some(2) by (simp_all add: t2 frame_inv_stats frames_used_stats)
    note T = frame_take [OF inv2 n(1) run2 m a]
    have "frame_alloc_aligned n al s = Some (r, s')" using run some(1) m a T(1) by simp
    moreover have "frame_only s t2" by (simp add: t2 frame_only_upd)
    ultimately show ?thesis
      using T fu frame_only_trans by (fastforce simp: frame_grant_def)
  qed
qed

section \<open>Release and reservation\<close>

lemma mark_range_zero: "frame_mark_range i 0 a s = (False, s)"
  by (simp add: frame_mark_range_def frame_range_valid_def)

lemma frame_free_spec:
  assumes inv: "frame_inv s" and res: "frame_free base n s = (ok, s')"
  shows "frame_inv s'" "frame_only s s'"
    "ok \<longleftrightarrow> (\<exists>k < 16384. base = frame_addr k \<and> n \<noteq> 0 \<and> {k..<k + unat n} \<subseteq> frames_used s)"
    "\<not> ok \<Longrightarrow> frames_used s' = frames_used s"
    "ok \<Longrightarrow> base = frame_addr k \<Longrightarrow> k < 16384 \<Longrightarrow> frames_used s' = frames_used s - {k..<k + unat n}"
proof -
  have map: "frame_map_ok s" and used: "unat (fi_used_frames (g_frame_info s)) = card (frames_used s)"
    and cur: "g_frame_next_cursor s < FRAME_TOTAL_COUNT"
    using inv by (auto simp: frame_inv_def)
  let ?ok = "\<exists>k < 16384. base = frame_addr k \<and> n \<noteq> 0 \<and> {k..<k + unat n} \<subseteq> frames_used s"
  have "frame_inv s' \<and> frame_only s s' \<and> (ok \<longleftrightarrow> ?ok) \<and> (\<not> ok \<longrightarrow> frames_used s' = frames_used s) \<and>
    (\<forall>k. ok \<longrightarrow> base = frame_addr k \<longrightarrow> k < 16384 \<longrightarrow> frames_used s' = frames_used s - {k..<k + unat n})"
  proof (cases "frame_index_from_base base")
    case None
    then have "base \<noteq> frame_addr k" if "k < 16384" for k using frame_index_of_addr [OF that] by auto
    with None res inv show ?thesis
      by (auto simp: frame_free_def frame_inv_stats frames_used_stats frame_only_upd)
  next
    case (Some i)
    note I = frame_index_SomeD [OF Some]
    have uniq: "k = unat i" if "base = frame_addr k" "k < 16384" for k
      using frame_addr_inj [OF that(2) I(1)] that(1) I(2) by simp
    obtain q t where m: "frame_mark_range i n False s = (q, t)" by (cases "frame_mark_range i n False s")
    show ?thesis
    proof (cases q)
      case False
      have sub: "n \<noteq> 0 \<Longrightarrow> \<not> {unat i..<unat i + unat n} \<subseteq> frames_used s"
        using frame_mark_range_spec(3) [OF map _ m] False by simp
      have t: "\<exists>bm bs. t = s\<lparr>g_bitmap_stats := bs, g_frame_bitmap := bm\<rparr>" "frame_map_ok t" "frames_used t = frames_used s"
      proof (atomize (full), cases "n = 0")
        case True
        then have "t = s\<lparr>g_bitmap_stats := g_bitmap_stats s, g_frame_bitmap := g_frame_bitmap s\<rparr>"
          using m by (simp add: mark_range_zero)
        then have "\<exists>bm bs. t = s\<lparr>g_bitmap_stats := bs, g_frame_bitmap := bm\<rparr>" by blast
        moreover have "frame_map_ok t" "frames_used t = frames_used s"
          using True m map by (simp_all add: mark_range_zero)
        ultimately show "(\<exists>bm bs. t = s\<lparr>g_bitmap_stats := bs, g_frame_bitmap := bm\<rparr>) \<and> frame_map_ok t \<and> frames_used t = frames_used s"
          using map by blast
      next
        case nz: False
        from frame_mark_range_spec [OF map nz m] False
        show "(\<exists>bm bs. t = s\<lparr>g_bitmap_stats := bs, g_frame_bitmap := bm\<rparr>) \<and> frame_map_ok t \<and> frames_used t = frames_used s"
          by simp
      qed
      have "\<not> ok" "s' = t\<lparr>g_frame_status := ''frame: free failed''\<rparr>"
        using res Some m False by (auto simp: frame_free_def)
      moreover from t have "frame_inv t" "frame_only s t"
        using inv by (auto simp: frame_inv_def frame_only_upd)
      ultimately show ?thesis
        using sub t(3) uniq by (auto simp: frame_inv_stats frames_used_stats frame_only_upd)
    next
      case True
      then have n: "n \<noteq> 0" using m by (auto simp: mark_range_zero)
      note M = frame_mark_range_spec [OF map n m]
      have sub: "{unat i..<unat i + unat n} \<subseteq> frames_used s" using M(3) True by simp
      have ft: "frames_used t = frames_used s - {unat i..<unat i + unat n}" using M(4) True by simp
      obtain bm bs where t: "t = s\<lparr>g_bitmap_stats := bs, g_frame_bitmap := bm\<rparr>" using M(1) by blast
      have cd: "card (frames_used t) = card (frames_used s) - unat n" "unat n \<le> card (frames_used s)"
        using card_Diff_subset [OF _ sub] card_mono [OF finite_frames_used sub] ft by auto
      have eq: "ok" "frames_used s' = frames_used t" "g_frame_bitmap s' = g_frame_bitmap t"
        "g_frame_next_cursor s' = g_frame_next_cursor s"
        "fi_used_frames (g_frame_info s') = fi_used_frames (g_frame_info s) - n" "frame_only s s'"
        using res Some m True cd(2) used
        by (auto simp: frame_free_def Let_def frames_used_def t frame_only_upd word_nat)
      have "unat (fi_used_frames (g_frame_info s) - n) = card (frames_used t)"
        using cd used by (subst unat_sub) (auto simp: word_nat)
      with eq M(2) cur have "frame_inv s'" by (simp add: frame_inv_def frame_map_ok_def)
      moreover have "?ok" using I n sub by blast
      moreover have "frames_used s' = frames_used s - {k..<k + unat n}" if "base = frame_addr k" "k < 16384" for k
        using uniq [OF that] eq(2) ft by simp
      ultimately show ?thesis using eq(1,6) by blast
    qed
  qed
  then show "frame_inv s'" "frame_only s s'" "ok \<longleftrightarrow> ?ok" "\<not> ok \<Longrightarrow> frames_used s' = frames_used s"
    "ok \<Longrightarrow> base = frame_addr k \<Longrightarrow> k < 16384 \<Longrightarrow> frames_used s' = frames_used s - {k..<k + unat n}"
    by blast+
qed

lemma frame_init_inv:
  assumes "length st = 512"
  shows "frame_inv (frame_init st s)" "frames_used (frame_init st s) = {}"
  using assms bitmap_bind_spec [of 16384 st "g_frame_bitmap s"]
  by (simp_all add: frame_init_def frame_inv_def frame_map_ok_def frames_used_def FRAME_TOTAL_COUNT_def)

section \<open>What the frame allocator promises\<close>

definition addr_frames :: "u64 \<Rightarrow> nat \<Rightarrow> nat set" where
  "addr_frames b n = (let k = (unat b - 16777216) div 4096 in {k..<k + n})"

lemma addr_frames_addr: "k < 16384 \<Longrightarrow> addr_frames (frame_addr k) n = {k..<k + n}"
  by (simp add: addr_frames_def unat_frame_addr Let_def)

locale frame_provider =
  fixes alloc :: "u32 \<Rightarrow> u32 \<Rightarrow> 's \<Rightarrow> (u64 \<times> 's) option"
    and free :: "u64 \<Rightarrow> u32 \<Rightarrow> 's \<Rightarrow> bool \<times> 's"
    and owned :: "'s \<Rightarrow> nat set"
    and inv :: "'s \<Rightarrow> bool"
    and keeps :: "'s \<Rightarrow> 's \<Rightarrow> bool"
  assumes alloc_total: "inv s \<Longrightarrow> n \<noteq> 0 \<Longrightarrow> unat n \<le> 2147483648 \<Longrightarrow>
      \<exists>r s'. alloc n al s = Some (r, s') \<and> inv s' \<and> keeps s s' \<and>
        frame_grant (unat n) (run_align al) 16384 (owned s) r (owned s')"
    and free_keeps: "inv s \<Longrightarrow> free b n s = (ok, s') \<Longrightarrow> inv s' \<and> keeps s s'"
    and free_iff: "inv s \<Longrightarrow> free b n s = (ok, s') \<Longrightarrow>
      ok \<longleftrightarrow> (\<exists>k < 16384. b = frame_addr k \<and> n \<noteq> 0 \<and> {k..<k + unat n} \<subseteq> owned s)"
    and free_owned: "inv s \<Longrightarrow> free b n s = (ok, s') \<Longrightarrow>
      owned s' = (if ok then owned s - addr_frames b (unat n) else owned s)"
begin

lemma alloc_block:
  assumes "inv s" "n \<noteq> 0" "unat n \<le> 2147483648" "alloc n al s = Some (r, s')" "r \<noteq> 0"
  obtains k where "r = frame_addr k" "k + unat n \<le> 16384" "k < 16384" "run_align al dvd k"
    "addr_frames r (unat n) = {k..<k + unat n}"
    "addr_frames r (unat n) \<inter> owned s = {}" "owned s' = owned s \<union> addr_frames r (unat n)" "inv s'" "keeps s s'"
proof -
  have g: "frame_grant (unat n) (run_align al) 16384 (owned s) r (owned s')" "inv s'" "keeps s s'"
    using alloc_total [OF assms(1-3), of al] assms(4) by auto
  then obtain k where k: "r = frame_addr k" "k + unat n \<le> 16384" "run_align al dvd k"
    "{k..<k + unat n} \<inter> owned s = {}" "owned s' = owned s \<union> {k..<k + unat n}"
    using assms(5) by (auto simp: frame_grant_def)
  moreover have "k < 16384" using k(2) assms(2) unat_gt_0 [of n] by linarith
  ultimately show ?thesis using that g(2,3) addr_frames_addr by simp
qed

lemma alloc_failed:
  assumes "inv s" "n \<noteq> 0" "unat n \<le> 2147483648" "alloc n al s = Some (0, s')"
  shows "owned s' = owned s" "inv s'" "keeps s s'"
    "run_align al dvd i \<Longrightarrow> i + unat n \<le> 16384 \<Longrightarrow> {i..<i + unat n} \<inter> owned s \<noteq> {}"
proof -
  have g: "frame_grant (unat n) (run_align al) 16384 (owned s) 0 (owned s')" "inv s'" "keeps s s'"
    using alloc_total [OF assms(1-3), of al] assms(4) by auto
  have nz: "0 \<noteq> frame_addr k" if "k + unat n \<le> 16384" for k
  proof -
    have "k < 16384" using that assms(2) unat_gt_0 [of n] by linarith
    then show ?thesis using frame_addr_nonzero by fastforce
  qed
  with g(1) show "owned s' = owned s"
    "run_align al dvd i \<Longrightarrow> i + unat n \<le> 16384 \<Longrightarrow> {i..<i + unat n} \<inter> owned s \<noteq> {}"
    by (auto simp: frame_grant_def)
  show "inv s'" "keeps s s'" using g by simp_all
qed

text \<open>Allocating and giving back again restores the set of frames in use.\<close>

lemma alloc_free_roundtrip:
  assumes "inv s" "n \<noteq> 0" "unat n \<le> 2147483648" "alloc n al s = Some (r, s1)" "r \<noteq> 0" "free r n s1 = (ok, s2)"
  shows "ok" "owned s2 = owned s" "inv s2"
proof -
  obtain k where k: "r = frame_addr k" "k < 16384" "addr_frames r (unat n) = {k..<k + unat n}"
    "addr_frames r (unat n) \<inter> owned s = {}" "owned s1 = owned s \<union> addr_frames r (unat n)" "inv s1"
    using alloc_block [OF assms(1-5)] by metis
  then show ok using free_iff [OF k(6) assms(6)] assms(2) by blast
  then show "owned s2 = owned s" using free_owned [OF k(6) assms(6)] k(4,5) by auto
  show "inv s2" using free_keeps [OF k(6) assms(6)] by simp
qed

text \<open>
  Holders of disjoint blocks: a fresh block is disjoint from every block held, and giving one
  block back leaves the others in use.
\<close>

lemma alloc_new_holder:
  assumes "inv s" "n \<noteq> 0" "unat n \<le> 2147483648" "alloc n al s = Some (r, s')" "r \<noteq> 0"
    and "\<forall>i \<in> I. hold i \<subseteq> owned s" "disjoint_family_on hold I" "j \<notin> I"
  shows "\<forall>i \<in> insert j I. (hold(j := addr_frames r (unat n))) i \<subseteq> owned s'"
    "disjoint_family_on (hold(j := addr_frames r (unat n))) (insert j I)"
proof -
  let ?B = "addr_frames r (unat n)"
  have new: "?B \<inter> owned s = {}" and own: "owned s' = owned s \<union> ?B"
    using alloc_block [OF assms(1-5)] by metis+
  show "\<forall>i \<in> insert j I. (hold(j := ?B)) i \<subseteq> owned s'"
    using own assms(6) by auto
  have "?B \<inter> hold i = {}" if "i \<in> I" for i using new assms(6) that by blast
  then show "disjoint_family_on (hold(j := ?B)) (insert j I)"
    using assms(7,8) by (simp add: disjoint_family_on_def) blast
qed

end

interpretation frames: frame_provider frame_alloc_aligned frame_free frames_used frame_inv frame_only
proof unfold_locales
  fix s s' :: "'a kframe_scheme" and b n ok
  assume a: "frame_inv s" "frame_free b n s = (ok, s')"
  note F = frame_free_spec [OF a]
  show "frame_inv s' \<and> frame_only s s'" using F(1,2) by simp
  show iff: "ok \<longleftrightarrow> (\<exists>k < 16384. b = frame_addr k \<and> n \<noteq> 0 \<and> {k..<k + unat n} \<subseteq> frames_used s)" by (rule F(3))
  show "frames_used s' = (if ok then frames_used s - addr_frames b (unat n) else frames_used s)"
  proof (cases ok)
    case True
    with iff obtain k where "k < 16384" "b = frame_addr k" by blast
    with F(5) [OF True] True show ?thesis by (simp add: addr_frames_addr)
  qed (simp add: F(4))
qed (rule frame_alloc_aligned_spec)

section \<open>Properties\<close>

definition frame_boot :: kframe where
  "frame_boot = frame_init (replicate 512 0)
     \<lparr>g_bitmap_stats = g_bitmap_stats bitmap_boot, g_bitmap_status = g_bitmap_status bitmap_boot,
      g_pool_stats = \<lparr>ps_pools = 0, ps_slots_total = 0, ps_slots_used = 0, ps_alloc_ops = 0, ps_free_ops = 0\<rparr>,
      g_pool_status = ''pool: ready'', g_frame_bitmap = \<lparr>words = None, bit_count = 0\<rparr>,
      g_frame_info = \<lparr>fi_base = 0, fi_total_frames = 0, fi_used_frames = 0, fi_reserved_frames = 0,
        fi_alloc_requests = 0, fi_free_requests = 0, fi_last_base = 0, fi_last_count = 0\<rparr>,
      g_frame_status = [], g_frame_next_cursor = 0\<rparr>"

lemma frame_boot_inv: "frame_inv frame_boot" "frames_used frame_boot = {}"
  unfolding frame_boot_def by (rule frame_init_inv; simp)+



text \<open>Freeing what was allocated succeeds and restores the set of frames in use exactly.\<close>

theorem frame_alloc_free_roundtrip:
  assumes "frame_inv s" "n \<noteq> 0" "unat n \<le> 2147483648"
    and "frame_alloc_aligned n al s = Some (r, s1)" "r \<noteq> 0" "frame_free r n s1 = (ok, s2)"
  shows "ok \<and> frames_used s2 = frames_used s \<and> frame_inv s2"
  using frames.alloc_free_roundtrip [OF assms] by blast

text \<open>Marking a range of frames is atomic for every start and count, also where their 32-bit sum
  wraps: it succeeds exactly when every frame of the range is inside the pool and in the required state,
  then changes exactly these frames, and a failed call rolls back to the bitmap it started from.\<close>

theorem frame_mark_range_atomic:
  assumes "frame_inv s" "n \<noteq> 0" "frame_mark_range i n allocate s = (ok, s')"
  shows "(ok \<longleftrightarrow> {unat i..<unat i + unat n} \<subseteq> (if allocate then {..<16384} - frames_used s else frames_used s)) \<and>
    frames_used s' = (if \<not> ok then frames_used s
       else if allocate then frames_used s \<union> {unat i..<unat i + unat n}
       else frames_used s - {unat i..<unat i + unat n})"
  using frame_mark_range_spec [OF _ assms(2,3)] assms(1) unfolding frame_inv_def by blast

theorem frame_mark_range_atomic_witness:
  "(fst (frame_mark_range 3 4294967295 True frame_boot) \<longleftrightarrow> {3..<4294967298} \<subseteq> {..<16384} - frames_used frame_boot) \<and>
   frames_used (snd (frame_mark_range 3 4294967295 True frame_boot)) =
     (if \<not> fst (frame_mark_range 3 4294967295 True frame_boot) then frames_used frame_boot
      else frames_used frame_boot \<union> {3..<4294967298})"
  using frame_mark_range_atomic [OF frame_boot_inv(1), of 4294967295 3 True
      "fst (frame_mark_range 3 4294967295 True frame_boot)" "snd (frame_mark_range 3 4294967295 True frame_boot)"]
  by simp

theorem frame_alloc_free_roundtrip_witness:
  "\<exists>r s1. frame_alloc_aligned 8 8 frame_boot = Some (r, s1) \<and> r \<noteq> 0 \<and>
     fst (frame_free r 8 s1) \<and> frames_used (snd (frame_free r 8 s1)) = frames_used frame_boot \<and>
     frame_inv (snd (frame_free r 8 s1))"
proof -
  have p: "(8 :: u32) \<noteq> 0" "unat (8 :: u32) \<le> 2147483648" by simp_all
  obtain r s1 where a: "frame_alloc_aligned 8 8 frame_boot = Some (r, s1)"
    using frames.alloc_total [OF frame_boot_inv(1) p] by blast
  have "r \<noteq> 0"
  proof
    assume "r = 0"
    with a have "frame_alloc_aligned 8 8 frame_boot = Some (0, s1)" by simp
    from frames.alloc_failed(4) [OF frame_boot_inv(1) p this, of 0] show False
      by (simp add: frame_boot_inv(2))
  qed
  moreover have "fst (frame_free r 8 s1) \<and> frames_used (snd (frame_free r 8 s1)) = frames_used frame_boot \<and>
     frame_inv (snd (frame_free r 8 s1))"
    by (rule frame_alloc_free_roundtrip [OF frame_boot_inv(1) p a \<open>r \<noteq> 0\<close>]) simp
  ultimately show ?thesis using a by blast
qed

end
