(* ===== verification/Buddy.thy ===== *)
theory Buddy
  imports Frame
begin

text \<open>
  The buddy front end (\<^verbatim>\<open>kernel/mm/buddy.c\<close>): blocks of \<^verbatim>\<open>1 << order\<close> frames, aligned to their
  size, drawn from and returned to the frame allocator, with the component's counters.
\<close>

section \<open>State\<close>

record buddy_info_t =
  bi_ready :: bool
  bi_max_order :: u32
  bi_alloc_count :: u32
  bi_free_count :: u32
  bi_split_count :: u32
  bi_failed_allocs :: u32
  bi_last_base :: u64
  bi_last_order :: u32

record kbuddy = kframe +
  g_buddy_info :: buddy_info_t
  g_buddy_status :: string

definition BUDDY_MAX_ORDER :: u32 where "BUDDY_MAX_ORDER = 12"

section \<open>Operations\<close>

definition buddy_init :: "'z kbuddy_scheme \<Rightarrow> 'z kbuddy_scheme" where
  "buddy_init s = s\<lparr>g_buddy_info := \<lparr>bi_ready = True, bi_max_order = BUDDY_MAX_ORDER, bi_alloc_count = 0,
     bi_free_count = 0, bi_split_count = 0, bi_failed_allocs = 0, bi_last_base = 0, bi_last_order = 0\<rparr>,
     g_buddy_status := ''buddy: ready''\<rparr>"

definition buddy_alloc :: "u32 \<Rightarrow> 'z kbuddy_scheme \<Rightarrow> (u64 \<times> 'z kbuddy_scheme) option" where
  "buddy_alloc order s =
     (if order > BUDDY_MAX_ORDER then Some (0, s\<lparr>g_buddy_status := ''buddy: bad order''\<rparr>)
      else do {
        let frames = push_bit (unat order) 1;
        (base, s) \<leftarrow> frame_alloc_aligned frames frames s;
        let info = g_buddy_info s;
        Some (if base = 0
              then (0, s\<lparr>g_buddy_info := info\<lparr>bi_failed_allocs := bi_failed_allocs info + 1\<rparr>,
                         g_buddy_status := ''buddy: allocation failed''\<rparr>)
              else (base, s\<lparr>g_buddy_info := info\<lparr>bi_alloc_count := bi_alloc_count info + 1,
                              bi_split_count := bi_split_count info + order,
                              bi_last_base := base, bi_last_order := order\<rparr>,
                            g_buddy_status := ''buddy: allocated''\<rparr>))
      })"

definition buddy_free :: "u64 \<Rightarrow> u32 \<Rightarrow> 'z kbuddy_scheme \<Rightarrow> bool \<times> 'z kbuddy_scheme" where
  "buddy_free base order s =
     (if order > BUDDY_MAX_ORDER then (False, s\<lparr>g_buddy_status := ''buddy: free failed''\<rparr>)
      else case frame_free base (push_bit (unat order) 1) s of (ok, s) \<Rightarrow>
        if \<not> ok then (False, s\<lparr>g_buddy_status := ''buddy: free failed''\<rparr>)
        else let info = g_buddy_info s in
          (True, s\<lparr>g_buddy_info := info\<lparr>bi_free_count := bi_free_count info + 1,
                     bi_last_base := base, bi_last_order := order\<rparr>,
                   g_buddy_status := ''buddy: freed''\<rparr>))"

section \<open>Specification\<close>

definition buddy_only :: "'z kbuddy_scheme \<Rightarrow> 'z kbuddy_scheme \<Rightarrow> bool" where
  "buddy_only s s' \<longleftrightarrow> (\<exists>t bi st. frame_only s t \<and> s' = t\<lparr>g_buddy_info := bi, g_buddy_status := st\<rparr>)"

lemma frame_buddy_upd [simp]:
  "frame_inv (s\<lparr>g_buddy_info := bi\<rparr>) = frame_inv s" "frame_inv (s\<lparr>g_buddy_status := st\<rparr>) = frame_inv s"
  "frames_used (s\<lparr>g_buddy_info := bi\<rparr>) = frames_used s" "frames_used (s\<lparr>g_buddy_status := st\<rparr>) = frames_used s"
  by (simp_all add: frame_inv_def frame_map_ok_def frames_used_def)

lemma buddy_onlyI:
  assumes "frame_only s t"
  shows "buddy_only s (t\<lparr>g_buddy_info := bi, g_buddy_status := st\<rparr>)" "buddy_only s (t\<lparr>g_buddy_status := st\<rparr>)"
    "buddy_only s t"
proof -
  show *: "buddy_only s (t\<lparr>g_buddy_info := bi, g_buddy_status := st\<rparr>)" for bi st
    unfolding buddy_only_def using assms by blast
  have "t\<lparr>g_buddy_status := st\<rparr> = t\<lparr>g_buddy_info := g_buddy_info t, g_buddy_status := st\<rparr>"
    "t = t\<lparr>g_buddy_info := g_buddy_info t, g_buddy_status := g_buddy_status t\<rparr>" by simp_all
  then show "buddy_only s (t\<lparr>g_buddy_status := st\<rparr>)" "buddy_only s t" using * by metis+
qed

lemma unat_block_size: "order \<le> BUDDY_MAX_ORDER \<Longrightarrow> unat (2 ^ unat order :: u32) = 2 ^ unat order"
proof -
  assume "order \<le> BUDDY_MAX_ORDER"
  then have o: "unat order \<le> 12" by (simp add: BUDDY_MAX_ORDER_def word_nat)
  then have "(2 :: nat) ^ unat order \<le> 2 ^ 12" by (intro power_increasing) auto
  then have "unat (of_nat (2 ^ unat order) :: u32) = 2 ^ unat order" by (intro unat_of_nat_u32) simp
  then show ?thesis by simp
qed

lemma block_size_facts:
  assumes "order \<le> BUDDY_MAX_ORDER"
  defines "n \<equiv> (2 ^ unat order :: u32)"
  shows "n \<noteq> 0" "unat n \<le> 4096" "run_align n = 2 ^ unat order" "unat n = 2 ^ unat order"
proof -
  show u: "unat n = 2 ^ unat order" unfolding n_def by (rule unat_block_size [OF assms(1)])
  then show z: "n \<noteq> 0" by (auto simp: word_unat_eq_iff)
  have "unat order \<le> 12" using assms(1) by (simp add: BUDDY_MAX_ORDER_def word_nat)
  then have "(2 :: nat) ^ unat order \<le> 2 ^ 12" by (intro power_increasing) auto
  with u show "unat n \<le> 4096" by simp
  from u z show "run_align n = 2 ^ unat order" by (simp add: run_align_def)
qed

lemma buddy_alloc_spec:
  assumes inv: "frame_inv s" and ord: "order \<le> BUDDY_MAX_ORDER"
  shows "\<exists>r s'. buddy_alloc order s = Some (r, s') \<and> frame_inv s' \<and> buddy_only s s' \<and>
    frame_grant (2 ^ unat order) (2 ^ unat order) 16384 (frames_used s) r (frames_used s')"
proof -
  let ?n = "2 ^ unat order :: u32"
  note B = block_size_facts [OF ord]
  have "unat ?n \<le> 2147483648" using B(2) by simp
  from frames.alloc_total [OF inv B(1) this, of ?n] obtain r t where
    a: "frame_alloc_aligned ?n ?n s = Some (r, t)" "frame_inv t" "frame_only s t"
    and g: "frame_grant (2 ^ unat order) (2 ^ unat order) 16384 (frames_used s) r (frames_used t)"
    by (auto simp: B(3,4))
  have "\<not> order > BUDDY_MAX_ORDER" using ord by simp
  with a g show ?thesis
    by (auto simp: buddy_alloc_def Let_def intro: buddy_onlyI)
qed

lemma buddy_free_spec:
  assumes inv: "frame_inv s" and res: "buddy_free b order s = (ok, s')"
  shows "frame_inv s'" "buddy_only s s'"
    "ok \<longleftrightarrow> order \<le> BUDDY_MAX_ORDER \<and> (\<exists>k < 16384. b = frame_addr k \<and> {k..<k + 2 ^ unat order} \<subseteq> frames_used s)"
    "frames_used s' = (if ok then frames_used s - addr_frames b (2 ^ unat order) else frames_used s)"
proof -
  let ?n = "2 ^ unat order :: u32"
  have "frame_inv s' \<and> buddy_only s s' \<and>
    (ok \<longleftrightarrow> order \<le> BUDDY_MAX_ORDER \<and> (\<exists>k < 16384. b = frame_addr k \<and> {k..<k + 2 ^ unat order} \<subseteq> frames_used s)) \<and>
    frames_used s' = (if ok then frames_used s - addr_frames b (2 ^ unat order) else frames_used s)"
  proof (cases "order \<le> BUDDY_MAX_ORDER")
    case False
    then have "order > BUDDY_MAX_ORDER" by simp
    with res inv False show ?thesis by (auto simp: buddy_free_def intro!: buddy_onlyI(2))
  next
    case True
    note B = block_size_facts [OF True]
    obtain q t where f: "frame_free b ?n s = (q, t)" by (cases "frame_free b ?n s")
    note K = frames.free_keeps [OF inv f] and I = frames.free_iff [OF inv f] and O = frames.free_owned [OF inv f]
    have "ok = q" "frame_inv s'" "frames_used s' = frames_used t" "buddy_only s s'"
      using res f True K by (auto simp: buddy_free_def Let_def not_less split: if_splits intro: buddy_onlyI)
    with True I O B(1,4) show ?thesis by auto
  qed
  then show "frame_inv s'" "buddy_only s s'"
    "ok \<longleftrightarrow> order \<le> BUDDY_MAX_ORDER \<and> (\<exists>k < 16384. b = frame_addr k \<and> {k..<k + 2 ^ unat order} \<subseteq> frames_used s)"
    "frames_used s' = (if ok then frames_used s - addr_frames b (2 ^ unat order) else frames_used s)"
    by blast+
qed

section \<open>Properties\<close>

definition buddy_boot :: kbuddy where
  "buddy_boot = buddy_init (kframe.extend frame_boot (kbuddy.fields
     \<lparr>bi_ready = False, bi_max_order = 0, bi_alloc_count = 0, bi_free_count = 0, bi_split_count = 0,
      bi_failed_allocs = 0, bi_last_base = 0, bi_last_order = 0\<rparr> []))"

lemma buddy_boot_inv: "frame_inv buddy_boot" "frames_used buddy_boot = {}"
  using frame_boot_inv
  by (simp_all add: buddy_boot_def buddy_init_def frame_inv_def frame_map_ok_def frames_used_def
      frame_boot_def frame_init_def kframe.defs kbuddy.defs)

text \<open>A buddy block is naturally aligned physical memory: for an order up to 12, \<^verbatim>\<open>buddy_alloc\<close>
  returns, and a non-zero result is a physical address that is a multiple of the block size
  in bytes, of a block of frames that all lie in the pool and were all free.\<close>

theorem buddy_alloc_natural_alignment:
  assumes "frame_inv s" "order \<le> BUDDY_MAX_ORDER"
  shows "\<exists>r s'. buddy_alloc order s = Some (r, s') \<and> frame_inv s' \<and>
    (r \<noteq> 0 \<longrightarrow> 2 ^ unat order * 4096 dvd unat r \<and>
       addr_frames r (2 ^ unat order) \<subseteq> {..<16384} \<and>
       addr_frames r (2 ^ unat order) \<inter> frames_used s = {} \<and>
       frames_used s' = frames_used s \<union> addr_frames r (2 ^ unat order)) \<and>
    (r = 0 \<longrightarrow> frames_used s' = frames_used s)"
proof -
  let ?b = "2 ^ unat order :: nat"
  obtain r s' where a: "buddy_alloc order s = Some (r, s')" "frame_inv s'"
    and g: "frame_grant ?b ?b 16384 (frames_used s) r (frames_used s')"
    using buddy_alloc_spec [OF assms] by blast
  have o: "unat order \<le> 12" using assms(2) by (simp add: BUDDY_MAX_ORDER_def word_nat)
  have "(r \<noteq> 0 \<longrightarrow> ?b * 4096 dvd unat r \<and> addr_frames r ?b \<subseteq> {..<16384} \<and>
       addr_frames r ?b \<inter> frames_used s = {} \<and> frames_used s' = frames_used s \<union> addr_frames r ?b) \<and>
    (r = 0 \<longrightarrow> frames_used s' = frames_used s)"
    using g unfolding frame_grant_def
  proof (elim disjE exE conjE)
    fix k assume k: "r = frame_addr k" "k + ?b \<le> 16384" "?b dvd k" "{k..<k + ?b} \<inter> frames_used s = {}"
      "frames_used s' = frames_used s \<union> {k..<k + ?b}"
    have lt: "k < 16384" using k(2) zero_less_power [of "2 :: nat" "unat order"] by linarith
    have "?b dvd 2 ^ 12" using o by (rule le_imp_power_dvd)
    then have "?b * 4096 dvd 16777216" using mult_dvd_mono [of ?b "2 ^ 12" 4096 4096] by simp
    moreover have "?b * 4096 dvd k * 4096" using k(3) by (rule mult_dvd_mono) simp
    ultimately have "?b * 4096 dvd unat r" using unat_frame_addr [OF lt] k(1) by simp
    then show ?thesis using k lt frame_addr_nonzero [OF lt] by (auto simp: addr_frames_addr)
  qed simp
  with a show ?thesis by blast
qed

theorem buddy_alloc_natural_alignment_witness:
  "\<exists>r s'. buddy_alloc 9 buddy_boot = Some (r, s') \<and> frame_inv s' \<and>
    (r \<noteq> 0 \<longrightarrow> 2 ^ unat (9 :: u32) * 4096 dvd unat r \<and>
       addr_frames r (2 ^ unat (9 :: u32)) \<subseteq> {..<16384} \<and>
       addr_frames r (2 ^ unat (9 :: u32)) \<inter> frames_used buddy_boot = {} \<and>
       frames_used s' = frames_used buddy_boot \<union> addr_frames r (2 ^ unat (9 :: u32))) \<and>
    (r = 0 \<longrightarrow> frames_used s' = frames_used buddy_boot)"
  by (rule buddy_alloc_natural_alignment [OF buddy_boot_inv(1)]) (simp add: BUDDY_MAX_ORDER_def)

end
