(* ===== verification/Leak_Track.thy ===== *)
theory Leak_Track
  imports Frame
begin

text \<open>
  The heap leak tracker (\<^verbatim>\<open>kernel/mm/leak_track.c\<close>): a static hash table from the pointers that
  \<^verbatim>\<open>kmalloc\<close> has handed out to their size, caller and time.  Chains run through the \<^verbatim>\<open>next\<close>
  indices of a static entry pool; a chain walk is a partial function, since nothing in the data
  type bounds it, and the invariant shows that it ends.  The abstraction is the set of live
  records, and the operations are proved to insert into and delete from that set.
\<close>

section \<open>State\<close>

record leak_entry_t =
  le_used :: u8
  le_ptr :: u64
  le_size :: u64
  le_caller :: u64
  le_ticks :: u64
  le_next :: u32

record kleak = kframe +
  lt_pool :: "leak_entry_t list"
  lt_buckets :: "u32 list"
  live_blocks :: u64
  live_bytes :: u64
  record_total :: u64
  unrecord_total :: u64
  lt_dropped :: u64

definition LEAK_BUCKETS :: nat where "LEAK_BUCKETS = 1024"
definition LEAK_POOL_SIZE :: nat where "LEAK_POOL_SIZE = 4096"
definition LEAK_END :: u32 where "LEAK_END = 0xFFFFFFFF"

lemmas leak_consts = LEAK_BUCKETS_def LEAK_POOL_SIZE_def LEAK_END_def

section \<open>Operations\<close>

definition leak_hash :: "u64 \<Rightarrow> u32" where
  "leak_hash p = (let h = drop_bit 4 p * 2654435761 in ucast ((h XOR drop_bit 16 h) mod of_nat LEAK_BUCKETS))"

definition leak_free_entry :: leak_entry_t where
  "leak_free_entry = \<lparr>le_used = 0, le_ptr = 0, le_size = 0, le_caller = 0, le_ticks = 0, le_next = LEAK_END\<rparr>"

definition leak_track_init :: "'z kleak_scheme \<Rightarrow> 'z kleak_scheme" where
  "leak_track_init s = s\<lparr>lt_pool := replicate LEAK_POOL_SIZE leak_free_entry,
     lt_buckets := replicate LEAK_BUCKETS LEAK_END, live_blocks := 0, live_bytes := 0,
     record_total := 0, unrecord_total := 0, lt_dropped := 0\<rparr>"

text \<open>
  The chain walk of both operations: the predecessor and the index of the first used entry for
  \<open>p\<close>, if the chain has one.
\<close>

partial_function (option) leak_search ::
  "leak_entry_t list \<Rightarrow> u64 \<Rightarrow> u32 \<Rightarrow> u32 \<Rightarrow> (u32 \<times> u32) option option" where
  "leak_search pl p prev i =
     (if i = LEAK_END then Some None
      else if le_used (pl ! unat i) \<noteq> 0 \<and> le_ptr (pl ! unat i) = p then Some (Some (prev, i))
      else leak_search pl p i (le_next (pl ! unat i)))"

definition leak_track_record :: "u64 \<Rightarrow> u64 \<Rightarrow> u64 \<Rightarrow> u64 \<Rightarrow> 'z kleak_scheme \<Rightarrow> 'z kleak_scheme option" where
  "leak_track_record timer_ticks p sz caller s =
     (if p = 0 then Some s
      else do {
        let s = (if record_total s = 0 \<and> live_blocks s = 0 \<and> lt_buckets s ! 0 = 0 \<and>
                    lt_buckets s ! (LEAK_BUCKETS - 1) = 0 then leak_track_init s else s);
        let b = unat (leak_hash p);
        hit \<leftarrow> leak_search (lt_pool s) p LEAK_END (lt_buckets s ! b);
        Some (case hit of
            Some (_, i) \<Rightarrow>
              s\<lparr>lt_pool := (lt_pool s)[unat i := (lt_pool s ! unat i)
                  \<lparr>le_size := sz, le_caller := caller, le_ticks := timer_ticks\<rparr>]\<rparr>
          | None \<Rightarrow>
              (case find_index (\<lambda>e. le_used e = 0) (lt_pool s) of
                 None \<Rightarrow> s\<lparr>lt_dropped := lt_dropped s + 1\<rparr>
               | Some i \<Rightarrow>
                   s\<lparr>lt_pool := (lt_pool s)[i := \<lparr>le_used = 1, le_ptr = p, le_size = sz, le_caller = caller,
                        le_ticks = timer_ticks, le_next = lt_buckets s ! b\<rparr>],
                     lt_buckets := (lt_buckets s)[b := of_nat i],
                     live_blocks := live_blocks s + 1, live_bytes := live_bytes s + sz,
                     record_total := record_total s + 1\<rparr>))
      })"

definition leak_track_unrecord :: "u64 \<Rightarrow> 'z kleak_scheme \<Rightarrow> 'z kleak_scheme option" where
  "leak_track_unrecord p s =
     (if p = 0 then Some s
      else do {
        let b = unat (leak_hash p);
        hit \<leftarrow> leak_search (lt_pool s) p LEAK_END (lt_buckets s ! b);
        Some (case hit of
            None \<Rightarrow> s
          | Some (prev, i) \<Rightarrow>
              (let e = lt_pool s ! unat i;
                   s = (if prev = LEAK_END then s\<lparr>lt_buckets := (lt_buckets s)[b := le_next e]\<rparr>
                        else s\<lparr>lt_pool := (lt_pool s)[unat prev := (lt_pool s ! unat prev)\<lparr>le_next := le_next e\<rparr>]\<rparr>);
                   s = s\<lparr>live_blocks := live_blocks s - 1,
                         live_bytes := (if live_bytes s \<ge> le_size e then live_bytes s - le_size e else 0),
                         unrecord_total := unrecord_total s + 1\<rparr>
               in s\<lparr>lt_pool := (lt_pool s)[unat i := (lt_pool s ! unat i)\<lparr>le_used := 0, le_ptr := 0\<rparr>]\<rparr>))
      })"

definition leak_track_summary :: "'z kleak_scheme \<Rightarrow> u64 \<times> u64" where
  "leak_track_summary s = (live_blocks s, live_bytes s)"

section \<open>Chains\<close>

fun chain :: "leak_entry_t list \<Rightarrow> u32 \<Rightarrow> u32 list \<Rightarrow> bool" where
  "chain pl i [] \<longleftrightarrow> i = LEAK_END"
| "chain pl i (x # xs) \<longleftrightarrow> i = x \<and> unat x < LEAK_POOL_SIZE \<and> chain pl (le_next (pl ! unat x)) xs"

lemma pool_index_not_end: "unat x < LEAK_POOL_SIZE \<Longrightarrow> x \<noteq> LEAK_END"
  by (auto simp: leak_consts)

lemma chain_bounded: "chain pl i xs \<Longrightarrow> x \<in> set xs \<Longrightarrow> unat x < LEAK_POOL_SIZE"
  by (induction xs arbitrary: i) auto

lemma chain_update_other: "j \<notin> unat ` set xs \<Longrightarrow> chain (pl[j := e]) i xs = chain pl i xs"
  by (induction xs arbitrary: i) auto

lemma chain_update_same: "le_next e = le_next (pl ! j) \<Longrightarrow> j < length pl \<Longrightarrow> chain (pl[j := e]) i xs = chain pl i xs"
  by (induction xs arbitrary: i) (auto simp: nth_list_update)

definition leak_match :: "leak_entry_t list \<Rightarrow> u64 \<Rightarrow> u32 \<Rightarrow> bool" where
  "leak_match pl p x \<longleftrightarrow> le_used (pl ! unat x) \<noteq> 0 \<and> le_ptr (pl ! unat x) = p"

lemma leak_search_miss:
  "chain pl i xs \<Longrightarrow> \<forall>x \<in> set xs. \<not> leak_match pl p x \<Longrightarrow> leak_search pl p prev i = Some None"
  by (induction xs arbitrary: i prev)
    (auto simp: leak_search.simps [of pl p] leak_match_def dest: pool_index_not_end)

lemma leak_search_hit:
  "chain pl i (ys @ x # zs) \<Longrightarrow> \<forall>y \<in> set ys. \<not> leak_match pl p y \<Longrightarrow> leak_match pl p x \<Longrightarrow>
   leak_search pl p prev i = Some (Some (last (prev # ys), x))"
proof (induction ys arbitrary: i prev)
  case Nil
  then have "i = x" "x \<noteq> LEAK_END" by (auto dest: pool_index_not_end)
  with Nil show ?case by (simp add: leak_search.simps [of pl p prev x] leak_match_def)
next
  case (Cons y ys)
  then have y: "i = y" "y \<noteq> LEAK_END" "\<not> leak_match pl p y"
    and c: "chain pl (le_next (pl ! unat y)) (ys @ x # zs)"
    by (auto dest: pool_index_not_end)
  have "leak_search pl p prev i = leak_search pl p y (le_next (pl ! unat y))"
    using y by (auto simp: leak_search.simps [of pl p prev y] leak_match_def)
  also have "\<dots> = Some (Some (last (y # ys), x))" using Cons.IH [OF c] Cons.prems by simp
  finally show ?case by simp
qed

lemma chain_unlink_head: "chain pl i (x # zs) \<Longrightarrow> chain pl (le_next (pl ! unat x)) zs"
  by simp

lemma chain_unlink:
  assumes "chain pl i (ys @ x # zs)" "ys \<noteq> []" "distinct (ys @ x # zs)" "length pl = LEAK_POOL_SIZE"
  shows "chain (pl[unat (last ys) := (pl ! unat (last ys))\<lparr>le_next := le_next (pl ! unat x)\<rparr>]) i (ys @ zs)"
  using assms
proof (induction ys arbitrary: i)
  case (Cons y ys)
  let ?q = "pl[unat (last (y # ys)) := (pl ! unat (last (y # ys)))\<lparr>le_next := le_next (pl ! unat x)\<rparr>]"
  have y: "i = y" "unat y < LEAK_POOL_SIZE" and c: "chain pl (le_next (pl ! unat y)) (ys @ x # zs)"
    using Cons.prems(1) by auto
  show ?case
  proof (cases ys)
    case Nil
    have "chain pl (le_next (pl ! unat x)) zs" "unat y \<notin> unat ` set zs"
      using c Nil Cons.prems(3) by (auto simp: unat_inj_iff)
    then show ?thesis using y Nil Cons.prems(4) by (simp add: chain_update_other)
  next
    case (Cons z ws)
    then have "unat y \<noteq> unat (last ys)" using Cons.prems(3) by (auto simp: unat_inj_iff)
    then have "?q ! unat y = pl ! unat y" using \<open>ys = _\<close> by simp
    moreover have "chain ?q (le_next (pl ! unat y)) (ys @ zs)"
      using Cons.IH [OF c] Cons.prems(3,4) \<open>ys = _\<close> by simp
    ultimately show ?thesis using y by simp
  qed
qed simp

section \<open>Invariant and abstraction\<close>

definition leak_chains :: "(nat \<Rightarrow> u32 list) \<Rightarrow> leak_entry_t list \<Rightarrow> u32 list \<Rightarrow> bool" where
  "leak_chains ch pl bk \<longleftrightarrow> length pl = LEAK_POOL_SIZE \<and> length bk = LEAK_BUCKETS \<and>
     (\<forall>b < LEAK_BUCKETS. chain pl (bk ! b) (ch b) \<and> distinct (ch b)) \<and>
     (\<forall>b < LEAK_BUCKETS. \<forall>x \<in> set (ch b). le_used (pl ! unat x) \<noteq> 0 \<and> unat (leak_hash (le_ptr (pl ! unat x))) = b) \<and>
     (\<forall>i < LEAK_POOL_SIZE. le_used (pl ! i) \<noteq> 0 \<longrightarrow> of_nat i \<in> set (ch (unat (leak_hash (le_ptr (pl ! i)))))) \<and>
     (\<forall>i < LEAK_POOL_SIZE. \<forall>j < LEAK_POOL_SIZE. le_used (pl ! i) \<noteq> 0 \<longrightarrow> le_used (pl ! j) \<noteq> 0 \<longrightarrow>
        le_ptr (pl ! i) = le_ptr (pl ! j) \<longrightarrow> i = j)"

lemma leak_chainsD:
  assumes "leak_chains ch pl bk" "b < LEAK_BUCKETS"
  shows "chain pl (bk ! b) (ch b)" "distinct (ch b)" "x \<in> set (ch b) \<Longrightarrow> le_used (pl ! unat x) \<noteq> 0"
    "x \<in> set (ch b) \<Longrightarrow> unat (leak_hash (le_ptr (pl ! unat x))) = b"
  using assms unfolding leak_chains_def by blast+

definition leak_used :: "leak_entry_t list \<Rightarrow> leak_entry_t list" where
  "leak_used pl = filter (\<lambda>e. le_used e \<noteq> 0) pl"

definition leak_inv :: "'z kleak_scheme \<Rightarrow> bool" where
  "leak_inv s \<longleftrightarrow> (\<exists>ch. leak_chains ch (lt_pool s) (lt_buckets s)) \<and>
     unat (live_blocks s) = length (leak_used (lt_pool s))"

definition leak_data :: "leak_entry_t \<Rightarrow> u64 \<times> u64 \<times> u64 \<times> u64" where
  "leak_data e = (le_ptr e, le_size e, le_caller e, le_ticks e)"

text \<open>The live records: pointer, size, caller and time.\<close>

definition leak_live :: "'z kleak_scheme \<Rightarrow> (u64 \<times> u64 \<times> u64 \<times> u64) set" where
  "leak_live s = leak_data ` set (leak_used (lt_pool s))"

lemma unat_hash: "unat (leak_hash p) < LEAK_BUCKETS"
proof -
  let ?h = "drop_bit 4 p * 2654435761"
  have "unat ((?h XOR drop_bit 16 ?h) mod of_nat LEAK_BUCKETS) = unat (?h XOR drop_bit 16 ?h) mod 1024"
    by (simp add: LEAK_BUCKETS_def unat_mod_distrib)
  then have "unat ((?h XOR drop_bit 16 ?h) mod of_nat LEAK_BUCKETS) < 1024" by simp
  then show ?thesis by (simp add: leak_hash_def Let_def LEAK_BUCKETS_def unsigned_ucast_eq take_bit_nat_eq_self)
qed

lemma pool_index_u32: "i < LEAK_POOL_SIZE \<Longrightarrow> unat (of_nat i :: u32) = i"
  by (rule unat_of_nat_u32) (simp add: leak_consts)

lemma leak_search_cases:
  fixes p :: u64
  assumes ch: "leak_chains ch pl bk"
  defines "b \<equiv> unat (leak_hash p)"
  obtains
    (miss) "leak_search pl p LEAK_END (bk ! b) = Some None" "\<forall>i < LEAK_POOL_SIZE. le_used (pl ! i) \<noteq> 0 \<longrightarrow> le_ptr (pl ! i) \<noteq> p"
  | (hit) ys x zs where "leak_search pl p LEAK_END (bk ! b) = Some (Some (last (LEAK_END # ys), x))"
      "ch b = ys @ x # zs" "unat x < LEAK_POOL_SIZE" "le_used (pl ! unat x) \<noteq> 0" "le_ptr (pl ! unat x) = p"
proof -
  have c: "chain pl (bk ! b) (ch b)" using ch unat_hash unfolding leak_chains_def b_def by blast
  show ?thesis
  proof (cases "\<exists>x \<in> set (ch b). leak_match pl p x")
    case False
    have "le_ptr (pl ! i) \<noteq> p" if i: "i < LEAK_POOL_SIZE" "le_used (pl ! i) \<noteq> 0" for i
    proof
      assume q: "le_ptr (pl ! i) = p"
      then have "of_nat i \<in> set (ch b)" using ch i unfolding leak_chains_def b_def by blast
      then show False using False i q by (auto simp: leak_match_def pool_index_u32)
    qed
    then show ?thesis using miss leak_search_miss [OF c] False by blast
  next
    case True
    then obtain ys x zs where s: "ch b = ys @ x # zs" "leak_match pl p x" "\<forall>y \<in> set ys. \<not> leak_match pl p y"
      using split_list_first_prop [OF True] by blast
    then have "leak_search pl p LEAK_END (bk ! b) = Some (Some (last (LEAK_END # ys), x))"
      using leak_search_hit c by simp
    moreover have "unat x < LEAK_POOL_SIZE" using chain_bounded [OF c] s(1) by auto
    ultimately show ?thesis using hit s by (simp add: leak_match_def)
  qed
qed

lemma leak_chains_update:
  assumes "leak_chains ch pl bk" "i < LEAK_POOL_SIZE"
    and "le_used e = le_used (pl ! i)" "le_ptr e = le_ptr (pl ! i)" "le_next e = le_next (pl ! i)"
  shows "leak_chains ch (pl[i := e]) bk"
proof -
  have len: "length pl = LEAK_POOL_SIZE" using assms(1) by (simp add: leak_chains_def)
  have eq: "le_used (pl[i := e] ! j) = le_used (pl ! j)" "le_ptr (pl[i := e] ! j) = le_ptr (pl ! j)" for j
    using assms(2-4) len by (auto simp: nth_list_update)
  have "chain (pl[i := e]) k xs = chain pl k xs" for k xs
    using chain_update_same assms(2,5) len by simp
  then show ?thesis using assms(1) unfolding leak_chains_def by (simp add: eq)
qed

lemma leak_chains_insert:
  assumes ch: "leak_chains ch pl bk" and i: "i < LEAK_POOL_SIZE" "le_used (pl ! i) = 0"
    and fresh: "\<forall>j < LEAK_POOL_SIZE. le_used (pl ! j) \<noteq> 0 \<longrightarrow> le_ptr (pl ! j) \<noteq> p"
    and b: "b = unat (leak_hash p)" and e: "le_used e \<noteq> 0" "le_ptr e = p" "le_next e = bk ! b"
  shows "leak_chains (ch(b := of_nat i # ch b)) (pl[i := e]) (bk[b := of_nat i])"
proof -
  have len: "length pl = LEAK_POOL_SIZE" "length bk = LEAK_BUCKETS" using ch by (simp_all add: leak_chains_def)
  have blt: "b < LEAK_BUCKETS" using b unat_hash by simp
  have out: "i \<notin> unat ` set (ch c)" if "c < LEAK_BUCKETS" for c
    using ch i(2) that unfolding leak_chains_def by blast
  have out': "of_nat i \<notin> set (ch c)" if "c < LEAK_BUCKETS" for c
    using out [OF that] pool_index_u32 [OF i(1)] by force
  have nth: "pl[i := e] ! unat x = pl ! unat x" if "c < LEAK_BUCKETS" "x \<in> set (ch c)" for c x
    using out [OF that(1)] that(2) by (metis image_eqI nth_list_update_neq)
  have "chain (pl[i := e]) (bk[b := of_nat i] ! c) ((ch(b := of_nat i # ch b)) c) \<and>
    distinct ((ch(b := of_nat i # ch b)) c)" if c: "c < LEAK_BUCKETS" for c
  proof -
    have "chain (pl[i := e]) (bk ! c) (ch c)" "distinct (ch c)"
      using ch c chain_update_other [OF out [OF c]] by (simp_all add: leak_chains_def)
    then show ?thesis
      using i(1) e(3) out' [OF blt] len blt by (cases "c = b") (simp_all add: pool_index_u32)
  qed
  moreover have "le_used (pl[i := e] ! unat x) \<noteq> 0 \<and> unat (leak_hash (le_ptr (pl[i := e] ! unat x))) = c"
    if c: "c < LEAK_BUCKETS" and x: "x \<in> set ((ch(b := of_nat i # ch b)) c)" for c x
  proof (cases "x = of_nat i \<and> c = b")
    case True
    then show ?thesis using e b i(1) len by (simp add: pool_index_u32)
  next
    case False
    then have x': "x \<in> set (ch c)" using x by (auto split: if_splits)
    then show ?thesis using ch c nth [OF c x'] by (simp add: leak_chains_def)
  qed
  moreover have "of_nat j \<in> set ((ch(b := of_nat i # ch b)) (unat (leak_hash (le_ptr (pl[i := e] ! j)))))"
    if "j < LEAK_POOL_SIZE" "le_used (pl[i := e] ! j) \<noteq> 0" for j
    using ch that e(2) b len unfolding leak_chains_def by (cases "j = i") auto
  moreover have "j = k" if jk: "j < LEAK_POOL_SIZE" "k < LEAK_POOL_SIZE" "le_used (pl[i := e] ! j) \<noteq> 0"
      "le_used (pl[i := e] ! k) \<noteq> 0" "le_ptr (pl[i := e] ! j) = le_ptr (pl[i := e] ! k)" for j k
  proof (cases "j = i \<or> k = i")
    case True
    then show ?thesis using jk fresh e(2) len by (auto simp: nth_list_update split: if_splits)
  next
    case False
    then have "le_used (pl ! j) \<noteq> 0" "le_used (pl ! k) \<noteq> 0" "le_ptr (pl ! j) = le_ptr (pl ! k)"
      using jk by simp_all
    then show ?thesis using ch jk(1,2) unfolding leak_chains_def by blast
  qed
  ultimately show ?thesis using len unfolding leak_chains_def by auto
qed

lemma leak_chains_remove:
  assumes ch: "leak_chains ch pl bk" and b: "b < LEAK_BUCKETS" "ch b = ys @ x # zs"
    and len: "length pl' = LEAK_POOL_SIZE" "length bk' = LEAK_BUCKETS"
    and same: "\<And>j. le_used (pl' ! j) = le_used (pl ! j)" "\<And>j. le_ptr (pl' ! j) = le_ptr (pl ! j)"
    and linked: "chain pl' (bk' ! b) (ys @ zs)" "\<And>c. c < LEAK_BUCKETS \<Longrightarrow> c \<noteq> b \<Longrightarrow> chain pl' (bk' ! c) (ch c)"
  shows "leak_chains (ch(b := ys @ zs)) (pl'[unat x := (pl' ! unat x)\<lparr>le_used := 0, le_ptr := 0\<rparr>]) bk'"
proof -
  let ?e = "(pl' ! unat x)\<lparr>le_used := 0, le_ptr := 0\<rparr>" and ?ch = "ch(b := ys @ zs)"
  have "chain pl (bk ! b) (ch b)" using ch b(1) unfolding leak_chains_def by blast
  from chain_bounded [OF this] have x: "unat x < LEAK_POOL_SIZE" using b(2) by simp
  have d: "distinct (ys @ x # zs)" and hx: "unat (leak_hash (le_ptr (pl ! unat x))) = b"
    using ch b unfolding leak_chains_def by (metis, simp)
  have ne: "unat y \<noteq> unat x" if "c < LEAK_BUCKETS" "y \<in> set (?ch c)" for c y
  proof
    assume "unat y = unat x"
    then have yx: "y = x" by (simp add: unat_inj_iff)
    show False
    proof (cases "c = b")
      case True
      then show False using that(2) yx d by auto
    next
      case False
      then have "unat (leak_hash (le_ptr (pl ! unat x))) = c" using ch that yx unfolding leak_chains_def by simp
      then show False using hx False by simp
    qed
  qed
  have "chain (pl'[unat x := ?e]) (bk' ! c) (?ch c) \<and> distinct (?ch c)" if "c < LEAK_BUCKETS" for c
    using linked(1) linked(2) [OF that] ch that d x len unfolding leak_chains_def
    by (cases "c = b") (simp_all add: chain_update_same)
  moreover have "le_used (pl'[unat x := ?e] ! unat y) \<noteq> 0 \<and> unat (leak_hash (le_ptr (pl'[unat x := ?e] ! unat y))) = c"
    if c: "c < LEAK_BUCKETS" and y: "y \<in> set (?ch c)" for c y
  proof -
    have "y \<in> set (ch c)" using y b(2) by (auto split: if_splits)
    then show ?thesis using ch c ne [OF c y] unfolding leak_chains_def by (simp add: same)
  qed
  moreover have "of_nat j \<in> set (?ch (unat (leak_hash (le_ptr (pl'[unat x := ?e] ! j)))))"
    if j: "j < LEAK_POOL_SIZE" "le_used (pl'[unat x := ?e] ! j) \<noteq> 0" for j
  proof -
    have jx: "j \<noteq> unat x" using j x len by auto
    then have "of_nat j \<in> set (ch (unat (leak_hash (le_ptr (pl ! j)))))"
      using ch j unfolding leak_chains_def by (simp add: same)
    moreover have "of_nat j \<noteq> x" using jx pool_index_u32 [OF j(1)] by auto
    ultimately show ?thesis using jx b(2) by (auto simp: same)
  qed
  moreover have "j = k" if jk: "j < LEAK_POOL_SIZE" "k < LEAK_POOL_SIZE" "le_used (pl'[unat x := ?e] ! j) \<noteq> 0"
    "le_used (pl'[unat x := ?e] ! k) \<noteq> 0" "le_ptr (pl'[unat x := ?e] ! j) = le_ptr (pl'[unat x := ?e] ! k)" for j k
  proof -
    have "j \<noteq> unat x" "k \<noteq> unat x" using jk x len by auto
    then show ?thesis using ch jk unfolding leak_chains_def by (simp add: same)
  qed
  ultimately show ?thesis using len unfolding leak_chains_def by simp
qed

lemma mem_leak_live:
  "length (lt_pool s) = LEAK_POOL_SIZE \<Longrightarrow>
   q \<in> leak_live s \<longleftrightarrow> (\<exists>i < LEAK_POOL_SIZE. le_used (lt_pool s ! i) \<noteq> 0 \<and> leak_data (lt_pool s ! i) = q)"
  by (auto simp: leak_live_def leak_used_def in_set_conv_nth image_iff)

lemma leak_inv_length:
  assumes "leak_inv s"
  shows "length (lt_pool s) = LEAK_POOL_SIZE" "length (lt_buckets s) = LEAK_BUCKETS"
  using assms by (auto simp: leak_inv_def leak_chains_def)

lemma finite_leak_live [simp]: "finite (leak_live s)"
  by (simp add: leak_live_def)

lemma leak_live_functional:
  assumes "leak_inv s" "q \<in> leak_live s" "r \<in> leak_live s" "fst q = fst r"
  shows "q = r"
proof -
  from assms(1) obtain ch where "leak_chains ch (lt_pool s) (lt_buckets s)" by (auto simp: leak_inv_def)
  then have u: "i = j" if "i < LEAK_POOL_SIZE" "j < LEAK_POOL_SIZE" "le_used (lt_pool s ! i) \<noteq> 0"
    "le_used (lt_pool s ! j) \<noteq> 0" "le_ptr (lt_pool s ! i) = le_ptr (lt_pool s ! j)" for i j
    using that unfolding leak_chains_def by blast
  from assms(2-4) show ?thesis
    unfolding mem_leak_live [OF leak_inv_length(1) [OF assms(1)]] by (auto simp: leak_data_def dest: u)
qed

lemma card_leak_live:
  assumes "leak_inv s"
  shows "card (leak_live s) = unat (live_blocks s)"
proof -
  let ?pl = "lt_pool s" and ?I = "{i. i < LEAK_POOL_SIZE \<and> le_used (lt_pool s ! i) \<noteq> 0}"
  note len = leak_inv_length(1) [OF assms]
  from assms obtain ch where "leak_chains ch ?pl (lt_buckets s)" by (auto simp: leak_inv_def)
  then have "inj_on (\<lambda>i. leak_data (?pl ! i)) ?I"
    unfolding leak_chains_def by (auto intro!: inj_onI simp: leak_data_def)
  moreover have "leak_live s = (\<lambda>i. leak_data (?pl ! i)) ` ?I"
    unfolding set_eq_iff mem_leak_live [OF len] by (force simp: image_iff)
  moreover have "card ?I = length (leak_used ?pl)" by (simp add: leak_used_def length_filter_conv_card len)
  ultimately show ?thesis using assms by (simp add: card_image leak_inv_def)
qed

section \<open>The operations on the set of live records\<close>

text \<open>The tracker's operations change the tracker's fields only.\<close>

definition leak_only :: "'z kleak_scheme \<Rightarrow> 'z kleak_scheme \<Rightarrow> bool" where
  "leak_only s s' \<longleftrightarrow> s' = s\<lparr>lt_pool := lt_pool s', lt_buckets := lt_buckets s', live_blocks := live_blocks s',
     live_bytes := live_bytes s', record_total := record_total s', unrecord_total := unrecord_total s', lt_dropped := lt_dropped s'\<rparr>"

lemma leak_only_upd [simp]:
  "leak_only s (s\<lparr>lt_pool := a\<rparr>)" "leak_only s s" "leak_only s (s\<lparr>lt_dropped := d\<rparr>)"
  "leak_only s (s\<lparr>lt_pool := a, lt_buckets := b, live_blocks := c, live_bytes := e, record_total := f\<rparr>)"
  "leak_only s (s\<lparr>lt_pool := a, lt_buckets := b, live_blocks := c, live_bytes := e, unrecord_total := f\<rparr>)"
  by (simp_all add: leak_only_def)

lemma leak_init_inv: "leak_inv (leak_track_init s)" "leak_live (leak_track_init s) = {}"
  by (auto simp: leak_track_init_def leak_inv_def leak_chains_def leak_live_def leak_used_def leak_free_entry_def
      intro!: exI [of _ "\<lambda>_. []"])

lemma lazy_init_idle:
  assumes "leak_inv s" "live_blocks s = 0"
  shows "lt_buckets s ! 0 \<noteq> 0"
proof -
  from assms obtain ch where ch: "leak_chains ch (lt_pool s) (lt_buckets s)" by (auto simp: leak_inv_def)
  have "leak_used (lt_pool s) = []" using assms by (simp add: leak_inv_def)
  then have "le_used (lt_pool s ! i) = 0" if "i < LEAK_POOL_SIZE" for i
    using that leak_inv_length(1) [OF assms(1)] by (simp add: leak_used_def filter_empty_conv)
  moreover have c: "chain (lt_pool s) (lt_buckets s ! 0) (ch 0)" and
    "\<forall>x \<in> set (ch 0). le_used (lt_pool s ! unat x) \<noteq> 0"
    using leak_chainsD [OF ch, of 0] by (auto simp: LEAK_BUCKETS_def)
  ultimately have "ch 0 = []" using chain_bounded [OF c] by (metis list.set_intros(1) neq_Nil_conv)
  then show ?thesis using c by (simp add: LEAK_END_def)
qed

lemma leak_used_update:
  "i < length pl \<Longrightarrow> length (leak_used (pl[i := e])) + of_bool (le_used (pl ! i) \<noteq> 0)
     = length (leak_used pl) + of_bool (le_used e \<noteq> 0)"
  unfolding leak_used_def by (rule length_filter_update)

lemma leak_used_bound: "length pl = LEAK_POOL_SIZE \<Longrightarrow> length (leak_used pl) \<le> 4096"
  using length_filter_le [of "\<lambda>e. le_used e \<noteq> 0" pl] by (simp add: leak_used_def LEAK_POOL_SIZE_def)

lemma leak_full_iff:
  assumes "leak_inv s"
  shows "find_index (\<lambda>e. le_used e = 0) (lt_pool s) = None \<longleftrightarrow> live_blocks s = 4096"
proof -
  have "find_index (\<lambda>e. le_used e = 0) (lt_pool s) = None \<longleftrightarrow> length (leak_used (lt_pool s)) = length (lt_pool s)"
    by (simp add: find_index_None_iff leak_used_def length_filter_all)
  also have "\<dots> \<longleftrightarrow> unat (live_blocks s) = unat (4096 :: u64)"
    using assms leak_inv_length(1) [OF assms] by (auto simp: leak_inv_def LEAK_POOL_SIZE_def)
  finally show ?thesis by (simp only: unat_inj_iff)
qed

lemma leak_record_spec:
  assumes inv: "leak_inv s" and p: "p \<noteq> 0"
  shows "\<exists>s'. leak_track_record now p sz caller s = Some s' \<and> leak_inv s' \<and> leak_only s s' \<and>
    (if p \<in> fst ` leak_live s
     then leak_live s' = insert (p, sz, caller, now) {q \<in> leak_live s. fst q \<noteq> p} \<and> live_bytes s' = live_bytes s \<and>
          lt_dropped s' = lt_dropped s
     else if live_blocks s = 4096
     then leak_live s' = leak_live s \<and> live_bytes s' = live_bytes s \<and> lt_dropped s' = lt_dropped s + 1
     else leak_live s' = insert (p, sz, caller, now) (leak_live s) \<and> live_bytes s' = live_bytes s + sz \<and>
          lt_dropped s' = lt_dropped s)"
proof -
  let ?pl = "lt_pool s" and ?b = "unat (leak_hash p)"
  note len = leak_inv_length [OF inv]
  from inv obtain ch where ch: "leak_chains ch ?pl (lt_buckets s)" by (auto simp: leak_inv_def)
  have lazy: "\<not> (record_total s = 0 \<and> live_blocks s = 0 \<and> lt_buckets s ! 0 = 0 \<and> lt_buckets s ! (LEAK_BUCKETS - 1) = 0)"
    using lazy_init_idle [OF inv] by auto
  have live: "q \<in> leak_live s \<longleftrightarrow> (\<exists>i < LEAK_POOL_SIZE. le_used (?pl ! i) \<noteq> 0 \<and> leak_data (?pl ! i) = q)" for q
    by (rule mem_leak_live [OF len(1)])
  from ch show ?thesis
  proof (cases rule: leak_search_cases [where p = p])
    case (hit ys x zs)
    let ?e = "(?pl ! unat x)\<lparr>le_size := sz, le_caller := caller, le_ticks := now\<rparr>"
    let ?s = "s\<lparr>lt_pool := ?pl[unat x := ?e]\<rparr>"
    have r: "leak_track_record now p sz caller s = Some ?s"
      using p hit(1) by (simp only: leak_track_record_def lazy if_False Let_def) simp
    have "leak_inv ?s"
      using leak_chains_update [OF ch hit(3), of ?e] inv leak_used_update [of "unat x" ?pl ?e] hit(3) len
      by (auto simp: leak_inv_def)
    moreover have "leak_live ?s = insert (p, sz, caller, now) {q \<in> leak_live s. fst q \<noteq> p}"
    proof -
      have u: "j = unat x" if "j < LEAK_POOL_SIZE" "le_used (?pl ! j) \<noteq> 0" "le_ptr (?pl ! j) = p" for j
        using ch that hit(3-5) unfolding leak_chains_def by blast
      have m: "q \<in> leak_live ?s \<longleftrightarrow> (\<exists>i < LEAK_POOL_SIZE. le_used (?pl[unat x := ?e] ! i) \<noteq> 0 \<and>
          leak_data (?pl[unat x := ?e] ! i) = q)" for q
        using mem_leak_live [of ?s q] len by simp
      have "q \<in> leak_live ?s \<longleftrightarrow> q = (p, sz, caller, now) \<or> q \<in> leak_live s \<and> fst q \<noteq> p" for q
      proof
        assume "q \<in> leak_live ?s"
        then obtain i where i: "i < LEAK_POOL_SIZE" "le_used (?pl[unat x := ?e] ! i) \<noteq> 0"
          "leak_data (?pl[unat x := ?e] ! i) = q" unfolding m by blast
        show "q = (p, sz, caller, now) \<or> q \<in> leak_live s \<and> fst q \<noteq> p"
        proof (cases "i = unat x")
          case True
          then show ?thesis using i hit(5) len by (auto simp: leak_data_def)
        next
          case False
          then have "le_ptr (?pl ! i) \<noteq> p" using u [OF i(1)] i(2) by auto
          then show ?thesis using i False by (auto simp: leak_data_def live)
        qed
      next
        assume "q = (p, sz, caller, now) \<or> q \<in> leak_live s \<and> fst q \<noteq> p"
        then show "q \<in> leak_live ?s"
        proof
          assume "q = (p, sz, caller, now)"
          then show ?thesis unfolding m using hit(3-5) len by (intro exI [of _ "unat x"]) (simp add: leak_data_def)
        next
          assume "q \<in> leak_live s \<and> fst q \<noteq> p"
          then obtain i where i: "i < LEAK_POOL_SIZE" "le_used (?pl ! i) \<noteq> 0" "leak_data (?pl ! i) = q" and "fst q \<noteq> p"
            unfolding live by blast
          then have "i \<noteq> unat x" using hit(5) by (auto simp: leak_data_def)
          with i show ?thesis unfolding m by (intro exI [of _ i]) simp
        qed
      qed
      then show ?thesis by blast
    qed
    moreover have "p \<in> fst ` leak_live s"
      using hit(3-5) live [of "leak_data (?pl ! unat x)"] by (force simp: leak_data_def image_iff)
    ultimately show ?thesis using r by simp
  next
    case miss
    then have out: "p \<notin> fst ` leak_live s" by (auto simp: live leak_data_def)
    show ?thesis
    proof (cases "find_index (\<lambda>e. le_used e = 0) ?pl")
      case None
      then have "leak_track_record now p sz caller s = Some (s\<lparr>lt_dropped := lt_dropped s + 1\<rparr>)"
        using p miss(1) by (simp only: leak_track_record_def lazy if_False Let_def) simp
      moreover have "live_blocks s = 4096" using None leak_full_iff [OF inv] by simp
      ultimately show ?thesis using out inv by (simp add: leak_inv_def leak_live_def)
    next
      case (Some i)
      let ?e = "\<lparr>le_used = 1, le_ptr = p, le_size = sz, le_caller = caller, le_ticks = now, le_next = lt_buckets s ! ?b\<rparr>"
      let ?s = "s\<lparr>lt_pool := ?pl[i := ?e], lt_buckets := (lt_buckets s)[?b := of_nat i], live_blocks := live_blocks s + 1,
        live_bytes := live_bytes s + sz, record_total := record_total s + 1\<rparr>"
      have r: "leak_track_record now p sz caller s = Some ?s"
        using p miss(1) Some by (simp only: leak_track_record_def lazy if_False Let_def) simp
      have i: "i < LEAK_POOL_SIZE" "le_used (?pl ! i) = 0" using find_index_SomeD [OF Some] len by auto
      have "leak_chains (ch(?b := of_nat i # ch ?b)) (?pl[i := ?e]) ((lt_buckets s)[?b := of_nat i])"
        using ch i miss(2) by (rule leak_chains_insert) simp_all
      moreover have "unat (live_blocks s + 1) = length (leak_used (?pl[i := ?e]))"
        using inv leak_used_update [of i ?pl ?e] i len leak_used_bound [OF len(1)]
        by (subst unat_add_u64) (auto simp: leak_inv_def)
      ultimately have "leak_inv ?s" by (auto simp: leak_inv_def)
      moreover have "leak_live ?s = insert (p, sz, caller, now) (leak_live s)"
      proof -
        have "q \<in> leak_live ?s \<longleftrightarrow> q = leak_data ?e \<or> q \<in> leak_live s" for q
          using mem_leak_live [of ?s q] len i live [of q] by (auto simp: nth_list_update)
        then show ?thesis by (auto simp: leak_data_def)
      qed
      moreover have "live_blocks s \<noteq> 4096" using Some leak_full_iff [OF inv] by simp
      ultimately show ?thesis using r out by simp
    qed
  qed
qed

lemma last_chain_end:
  assumes "chain pl i (ys @ x # zs)"
  shows "last (LEAK_END # ys) = LEAK_END \<longleftrightarrow> ys = []"
  using chain_bounded [OF assms] pool_index_not_end by (metis Un_iff last.simps last_in_set set_append)

lemma leak_unlink:
  assumes ch: "leak_chains ch pl bk" and b: "b < LEAK_BUCKETS" "ch b = ys @ x # zs"
  defines "prev \<equiv> last (LEAK_END # ys)"
  defines "pl' \<equiv> (if prev = LEAK_END then pl else pl[unat prev := (pl ! unat prev)\<lparr>le_next := le_next (pl ! unat x)\<rparr>])"
    and "bk' \<equiv> (if prev = LEAK_END then bk[b := le_next (pl ! unat x)] else bk)"
  shows "leak_chains (ch(b := ys @ zs)) (pl'[unat x := (pl' ! unat x)\<lparr>le_used := 0, le_ptr := 0\<rparr>]) bk'"
    "le_used (pl' ! j) = le_used (pl ! j)" "leak_data (pl' ! j) = leak_data (pl ! j)" "length pl' = length pl"
proof -
  have len: "length pl = LEAK_POOL_SIZE" "length bk = LEAK_BUCKETS" using ch by (simp_all add: leak_chains_def)
  note C = leak_chainsD [OF ch b(1)]
  have c: "chain pl (bk ! b) (ys @ x # zs)" and d: "distinct (ys @ x # zs)" using C(1,2) b(2) by simp_all
  have e: "prev = LEAK_END \<longleftrightarrow> ys = []" unfolding prev_def by (rule last_chain_end [OF c])
  have same: "le_used (pl' ! j) = le_used (pl ! j) \<and> leak_data (pl' ! j) = leak_data (pl ! j)" for j
    unfolding pl'_def by (cases "unat prev = j"; cases "j < length pl") (auto simp: leak_data_def list_update_beyond)
  then show "le_used (pl' ! j) = le_used (pl ! j)" "leak_data (pl' ! j) = leak_data (pl ! j)" by blast+
  show "length pl' = length pl" by (simp add: pl'_def)
  have other: "unat prev \<notin> unat ` set (ch k)" if "k < LEAK_BUCKETS" "k \<noteq> b" "ys \<noteq> []" for k
  proof
    assume "unat prev \<in> unat ` set (ch k)"
    then have "prev \<in> set (ch k)" by (auto simp: unat_inj_iff)
    moreover have "prev \<in> set (ch b)" using that(3) b(2) by (simp add: prev_def)
    ultimately show False using leak_chainsD(4) [OF ch that(1)] C(4) that(2) by metis
  qed
  show "leak_chains (ch(b := ys @ zs)) (pl'[unat x := (pl' ! unat x)\<lparr>le_used := 0, le_ptr := 0\<rparr>]) bk'"
  proof (rule leak_chains_remove [OF ch b])
    show "length pl' = LEAK_POOL_SIZE" "length bk' = LEAK_BUCKETS" using len by (simp_all add: pl'_def bk'_def)
    show "le_used (pl' ! j) = le_used (pl ! j)" "le_ptr (pl' ! j) = le_ptr (pl ! j)" for j
      using same [of j] by (simp_all add: leak_data_def)
    show "chain pl' (bk' ! b) (ys @ zs)"
    proof (cases "ys = []")
      case True
      then show ?thesis using c b(1) len e by (simp add: pl'_def bk'_def)
    next
      case False
      then show ?thesis using chain_unlink [OF c False d len(1)] e by (simp add: pl'_def bk'_def prev_def)
    qed
    show "chain pl' (bk' ! k) (ch k)" if "k < LEAK_BUCKETS" "k \<noteq> b" for k
      using leak_chainsD(1) [OF ch that(1)] other [OF that] e that
      by (simp add: pl'_def bk'_def chain_update_other)
  qed
qed

lemma leak_unrecord_eq:
  assumes "p \<noteq> 0" "leak_search (lt_pool s) p LEAK_END (lt_buckets s ! b) = Some (Some (prev, x))" "b = unat (leak_hash p)"
  defines "pl' \<equiv> (if prev = LEAK_END then lt_pool s
       else (lt_pool s)[unat prev := (lt_pool s ! unat prev)\<lparr>le_next := le_next (lt_pool s ! unat x)\<rparr>])"
    and "bk' \<equiv> (if prev = LEAK_END then (lt_buckets s)[b := le_next (lt_pool s ! unat x)] else lt_buckets s)"
    and "sz \<equiv> le_size (lt_pool s ! unat x)"
  shows "leak_track_unrecord p s = Some (s\<lparr>lt_pool := pl'[unat x := (pl' ! unat x)\<lparr>le_used := 0, le_ptr := 0\<rparr>],
    lt_buckets := bk', live_blocks := live_blocks s - 1,
    live_bytes := (if live_bytes s \<ge> sz then live_bytes s - sz else 0), unrecord_total := unrecord_total s + 1\<rparr>)"
  using assms(1-3) by (simp add: leak_track_unrecord_def Let_def pl'_def bk'_def sz_def)

lemma leak_unrecord_spec:
  assumes inv: "leak_inv s" and p: "p \<noteq> 0"
  shows "\<exists>s'. leak_track_unrecord p s = Some s' \<and> leak_inv s' \<and> leak_only s s' \<and>
    leak_live s' = {q \<in> leak_live s. fst q \<noteq> p} \<and> lt_dropped s' = lt_dropped s \<and>
    (p \<notin> fst ` leak_live s \<longrightarrow> live_bytes s' = live_bytes s) \<and>
    (\<forall>sz c t. (p, sz, c, t) \<in> leak_live s \<longrightarrow> live_bytes s' = (if live_bytes s \<ge> sz then live_bytes s - sz else 0))"
proof -
  let ?pl = "lt_pool s"
  note len = leak_inv_length [OF inv]
  from inv obtain ch where ch: "leak_chains ch ?pl (lt_buckets s)" by (auto simp: leak_inv_def)
  have live: "q \<in> leak_live s \<longleftrightarrow> (\<exists>i < LEAK_POOL_SIZE. le_used (?pl ! i) \<noteq> 0 \<and> leak_data (?pl ! i) = q)" for q
    by (rule mem_leak_live [OF len(1)])
  from ch show ?thesis
  proof (cases rule: leak_search_cases [where p = p])
    case miss
    then have "leak_track_unrecord p s = Some s" using p by (simp add: leak_track_unrecord_def)
    moreover have "leak_live s = {q \<in> leak_live s. fst q \<noteq> p}" using miss(2) by (auto simp: live leak_data_def)
    moreover have "(p, sz, c, t) \<notin> leak_live s" for sz c t using miss(2) by (auto simp: live leak_data_def)
    ultimately show ?thesis using inv by simp
  next
    case (hit ys x zs)
    note E = leak_unrecord_eq [OF p hit(1) refl] and U = leak_unlink [OF ch unat_hash hit(2)]
    let ?b = "unat (leak_hash p)" and ?prev = "last (LEAK_END # ys)"
    define pl' where "pl' = (if ?prev = LEAK_END then ?pl
      else ?pl[unat ?prev := (?pl ! unat ?prev)\<lparr>le_next := le_next (?pl ! unat x)\<rparr>])"
    let ?q = "pl'[unat x := (pl' ! unat x)\<lparr>le_used := 0, le_ptr := 0\<rparr>]"
    have same: "le_used (pl' ! j) = le_used (?pl ! j)" "leak_data (pl' ! j) = leak_data (?pl ! j)" "length pl' = length ?pl" for j
      using U(2-4) unfolding pl'_def by blast+
    have u: "j = unat x" if "j < LEAK_POOL_SIZE" "le_used (?pl ! j) \<noteq> 0" "le_ptr (?pl ! j) = p" for j
      using ch that hit(3-5) unfolding leak_chains_def by blast
    have px: "p \<in> fst ` leak_live s" "(p, sz, c, t) \<in> leak_live s \<Longrightarrow> sz = le_size (?pl ! unat x)" for sz c t
    proof -
      show "p \<in> fst ` leak_live s" using hit(3-5) live [of "leak_data (?pl ! unat x)"] by (force simp: leak_data_def image_iff)
      assume "(p, sz, c, t) \<in> leak_live s"
      then show "sz = le_size (?pl ! unat x)" unfolding live using u by (auto simp: leak_data_def)
    qed
    have used': "length (leak_used pl') = length (leak_used ?pl)"
      using same(1,3) by (simp add: leak_used_def length_filter_conv_card)
    have cnt: "Suc (length (leak_used ?q)) = length (leak_used ?pl)"
      using leak_used_update [of "unat x" pl' "(pl' ! unat x)\<lparr>le_used := 0, le_ptr := 0\<rparr>"] used' hit(3,4) same len by simp
    obtain s' where s': "leak_track_unrecord p s = Some s'" "lt_pool s' = ?q" "live_blocks s' = live_blocks s - 1"
      "leak_chains (ch(?b := ys @ zs)) (lt_pool s') (lt_buckets s')" "leak_only s s'"
      "lt_dropped s' = lt_dropped s"
      "live_bytes s' = (if live_bytes s \<ge> le_size (?pl ! unat x) then live_bytes s - le_size (?pl ! unat x) else 0)"
      using E U(1) unfolding pl'_def [symmetric] by simp
    have "live_blocks s \<noteq> 0" using inv cnt by (auto simp: leak_inv_def)
    then have "unat (live_blocks s') = length (leak_used (lt_pool s'))"
      using inv cnt s'(2,3) by (simp add: leak_inv_def unat_minus_one)
    then have "leak_inv s'" using s'(4) by (auto simp: leak_inv_def)
    moreover have "leak_live s' = {q \<in> leak_live s. fst q \<noteq> p}"
    proof -
      have "le_used (?q ! i) \<noteq> 0 \<and> leak_data (?q ! i) = q \<longleftrightarrow> i \<noteq> unat x \<and> le_used (?pl ! i) \<noteq> 0 \<and> leak_data (?pl ! i) = q"
        if "i < LEAK_POOL_SIZE" for i q
        using that len same by (cases "i = unat x") simp_all
      then have "q \<in> leak_live s' \<longleftrightarrow> (\<exists>i < LEAK_POOL_SIZE. i \<noteq> unat x \<and> le_used (?pl ! i) \<noteq> 0 \<and> leak_data (?pl ! i) = q)" for q
        using mem_leak_live [of s' q] len s'(2) same(3) by (metis length_list_update)
      moreover have "(\<exists>i < LEAK_POOL_SIZE. i \<noteq> unat x \<and> le_used (?pl ! i) \<noteq> 0 \<and> leak_data (?pl ! i) = q)
        \<longleftrightarrow> q \<in> leak_live s \<and> fst q \<noteq> p" for q
        unfolding live using u hit(5) by (auto simp: leak_data_def)
      ultimately show ?thesis by blast
    qed
    ultimately show ?thesis using s' px by auto
  qed
qed

definition leak_bytes_ok :: "'z kleak_scheme \<Rightarrow> bool" where
  "leak_bytes_ok s \<longleftrightarrow> unat (live_bytes s) = (\<Sum>q \<in> leak_live s. unat (fst (snd q)))"

lemma leak_record_bytes:
  assumes inv: "leak_inv s" and p: "p \<noteq> 0" "p \<notin> fst ` leak_live s" and ok: "leak_bytes_ok s"
    and room: "unat (live_bytes s) + unat sz < 18446744073709551616"
    and res: "leak_track_record now p sz caller s = Some s'"
  shows "leak_bytes_ok s'"
proof -
  from leak_record_spec [OF inv p(1), of now sz caller] res p(2)
  have "leak_live s' = leak_live s \<and> live_bytes s' = live_bytes s \<or>
    leak_live s' = insert (p, sz, caller, now) (leak_live s) \<and> live_bytes s' = live_bytes s + sz"
    by (auto split: if_splits)
  moreover have "(p, sz, caller, now) \<notin> leak_live s" using p(2) by force
  ultimately show ?thesis using ok room by (auto simp: leak_bytes_ok_def unat_add_u64)
qed

lemma leak_unrecord_bytes:
  assumes inv: "leak_inv s" and p: "p \<noteq> 0" and ok: "leak_bytes_ok s"
    and res: "leak_track_unrecord p s = Some s'"
  shows "leak_bytes_ok s'"
proof -
  obtain t where t: "leak_track_unrecord p s = Some t" "leak_live t = {q \<in> leak_live s. fst q \<noteq> p}"
    "p \<notin> fst ` leak_live s \<longrightarrow> live_bytes t = live_bytes s"
    "\<forall>sz c t'. (p, sz, c, t') \<in> leak_live s \<longrightarrow> live_bytes t = (if live_bytes s \<ge> sz then live_bytes s - sz else 0)"
    using leak_unrecord_spec [OF inv p] by blast
  have "t = s'" using t(1) res by simp
  from t(2-4) [unfolded this] have L: "leak_live s' = {q \<in> leak_live s. fst q \<noteq> p}" and same: "p \<notin> fst ` leak_live s \<Longrightarrow> live_bytes s' = live_bytes s"
    and less: "(p, sz, c, t') \<in> leak_live s \<Longrightarrow> live_bytes s' = (if live_bytes s \<ge> sz then live_bytes s - sz else 0)" for sz c t'
    by blast+
  show ?thesis
  proof (cases "p \<in> fst ` leak_live s")
    case False
    then have "leak_live s' = leak_live s" using L by auto
    then show ?thesis using same [OF False] ok by (simp add: leak_bytes_ok_def)
  next
    case True
    then obtain sz c t where q: "(p, sz, c, t) \<in> leak_live s" by auto
    have u: "r = (p, sz, c, t)" if "r \<in> leak_live s" "fst r = p" for r
      using leak_live_functional [OF inv that(1) q] that(2) by simp
    have "leak_live s = insert (p, sz, c, t) (leak_live s')" unfolding L using q u by blast
    moreover have "(p, sz, c, t) \<notin> leak_live s'" unfolding L by simp
    moreover note finite_leak_live [of s']
    ultimately have "(\<Sum>q \<in> leak_live s. unat (fst (snd q))) = unat sz + (\<Sum>q \<in> leak_live s'. unat (fst (snd q)))"
      by (simp add: sum.insert)
    then have sum: "unat (live_bytes s) = unat sz + (\<Sum>q \<in> leak_live s'. unat (fst (snd q)))"
      using ok by (simp add: leak_bytes_ok_def)
    then have "sz \<le> live_bytes s" by (simp add: word_nat)
    then show ?thesis using less [OF q] sum by (simp add: leak_bytes_ok_def unat_sub)
  qed
qed

section \<open>Properties\<close>

definition leak_boot :: kleak where
  "leak_boot = leak_track_init (kframe.extend frame_boot (kleak.fields [] [] 0 0 0 0 0))"

text \<open>C38: the leak tracker's hash table implements the set of live records, and its chain walks end:
  recording a pointer returns and inserts the record (replacing an older record of the same pointer, or
  dropping the new one when all 4096 entries are taken and counting the drop), unrecording returns and
  deletes the pointer's record and no other; both keep the chains intact and the block counter equal to
  the number of live records.\<close>

theorem leak_track_refines_set:
  assumes "leak_inv s" "p \<noteq> 0"
  shows "(\<exists>s'. leak_track_record now p sz caller s = Some s' \<and> leak_inv s' \<and> card (leak_live s') = unat (live_blocks s') \<and>
       (if p \<notin> fst ` leak_live s \<and> live_blocks s = 4096
        then leak_live s' = leak_live s \<and> lt_dropped s' = lt_dropped s + 1
        else leak_live s' = insert (p, sz, caller, now) {q \<in> leak_live s. fst q \<noteq> p} \<and> lt_dropped s' = lt_dropped s)) \<and>
     (\<exists>s'. leak_track_unrecord p s = Some s' \<and> leak_inv s' \<and> card (leak_live s') = unat (live_blocks s') \<and>
        leak_live s' = {q \<in> leak_live s. fst q \<noteq> p})"
proof -
  have e: "{q \<in> leak_live s. fst q \<noteq> p} = leak_live s" if "p \<notin> fst ` leak_live s" using that by auto
  obtain t where t: "leak_track_record now p sz caller s = Some t" "leak_inv t" and
    c: "if p \<in> fst ` leak_live s
     then leak_live t = insert (p, sz, caller, now) {q \<in> leak_live s. fst q \<noteq> p} \<and> live_bytes t = live_bytes s \<and>
          lt_dropped t = lt_dropped s
     else if live_blocks s = 4096
     then leak_live t = leak_live s \<and> live_bytes t = live_bytes s \<and> lt_dropped t = lt_dropped s + 1
     else leak_live t = insert (p, sz, caller, now) (leak_live s) \<and> live_bytes t = live_bytes s + sz \<and>
          lt_dropped t = lt_dropped s"
    using leak_record_spec [OF assms, of now sz caller] by blast
  have "if p \<notin> fst ` leak_live s \<and> live_blocks s = 4096
        then leak_live t = leak_live s \<and> lt_dropped t = lt_dropped s + 1
        else leak_live t = insert (p, sz, caller, now) {q \<in> leak_live s. fst q \<noteq> p} \<and> lt_dropped t = lt_dropped s"
    using c e by (cases "p \<in> fst ` leak_live s") (simp_all split: if_splits)
  moreover obtain u where "leak_track_unrecord p s = Some u" "leak_inv u" "leak_live u = {q \<in> leak_live s. fst q \<noteq> p}"
    using leak_unrecord_spec [OF assms] by blast
  ultimately show ?thesis using t card_leak_live by blast
qed

theorem leak_track_refines_set_witness:
  "(\<exists>s'. leak_track_record 7 0x5000018 32 9 leak_boot = Some s' \<and> leak_inv s' \<and> card (leak_live s') = unat (live_blocks s') \<and>
       (if 0x5000018 \<notin> fst ` leak_live leak_boot \<and> live_blocks leak_boot = 4096
        then leak_live s' = leak_live leak_boot \<and> lt_dropped s' = lt_dropped leak_boot + 1
        else leak_live s' = insert (0x5000018, 32, 9, 7) {q \<in> leak_live leak_boot. fst q \<noteq> 0x5000018} \<and>
             lt_dropped s' = lt_dropped leak_boot)) \<and>
   (\<exists>s'. leak_track_unrecord 0x5000018 leak_boot = Some s' \<and> leak_inv s' \<and> card (leak_live s') = unat (live_blocks s') \<and>
        leak_live s' = {q \<in> leak_live leak_boot. fst q \<noteq> 0x5000018})"
  by (rule leak_track_refines_set) (simp_all add: leak_boot_def leak_init_inv)

end
