(* ===== verification/Memory.thy ===== *)
theory Memory
  imports Leak_Track
begin

text \<open>
  The kernel heap (\<^verbatim>\<open>kernel/mm/memory.c\<close>) with its statistics front end (\<^verbatim>\<open>kernel/mm/heap.c\<close>):
  a first-fit allocator over a singly linked list of blocks that tile the heap, each with a
  24-byte header in front of its payload.  The linked list is a list of blocks with their
  addresses, in the order of the \<^verbatim>\<open>next\<close> pointers; addresses and sizes are 64-bit words.  The
  spin lock is not represented: the operations are the critical sections.
\<close>

section \<open>State\<close>

record memory_block_t =
  mb_addr :: u64
  mb_size :: u64
  mb_free :: bool

record kmem = kleak +
  kernel_heap :: u64
  memory_head :: "memory_block_t list"
  g_memory_heap_size :: u64
  g_memory_used :: u64
  g_memory_high_water_used :: u64
  g_memory_allocs :: u32
  g_memory_frees :: u32

definition KERNEL_HEAP_SIZE :: u64 where "KERNEL_HEAP_SIZE = 32 * 1024 * 1024"
definition KERNEL_BIOS_HEAP_BASE :: u64 where "KERNEL_BIOS_HEAP_BASE = 0x05000000"
definition KMALLOC_ALIGN :: u64 where "KMALLOC_ALIGN = 16"

text \<open>\<^verbatim>\<open>sizeof(memory_block_t)\<close> on x86-64: two 8-byte fields and a padded \<^verbatim>\<open>bool\<close>.\<close>

definition BLOCK_HEADER :: u64 where "BLOCK_HEADER = 24"

section \<open>Operations\<close>

definition align_up :: "u64 \<Rightarrow> u64" where
  "align_up value =
     (if value > 0xFFFFFFFFFFFFFFFF - (KMALLOC_ALIGN - 1) then 0
      else (value + (KMALLOC_ALIGN - 1)) AND NOT (KMALLOC_ALIGN - 1))"

fun coalesce_blocks :: "memory_block_t list \<Rightarrow> memory_block_t list" where
  "coalesce_blocks (b # c # bs) =
     (if mb_free b \<and> mb_free c
      then coalesce_blocks (b\<lparr>mb_size := mb_size b + (BLOCK_HEADER + mb_size c)\<rparr> # bs)
      else b # coalesce_blocks (c # bs))"
| "coalesce_blocks bs = bs"

definition memory_init :: "u64 \<Rightarrow> u64 \<Rightarrow> 'z kmem_scheme \<Rightarrow> 'z kmem_scheme" where
  "memory_init configured_base configured_size s =
     (let (base, sz) =
        (if configured_base = 0 \<or> configured_base > 0xFFFFFFFFFFFFFFFF - configured_size \<or>
            configured_base + configured_size < configured_base \<or> configured_size < BLOCK_HEADER + KMALLOC_ALIGN
         then (KERNEL_BIOS_HEAP_BASE, KERNEL_HEAP_SIZE) else (configured_base, configured_size))
      in s\<lparr>kernel_heap := base, g_memory_heap_size := sz,
           memory_head := [\<lparr>mb_addr = base, mb_size = sz - BLOCK_HEADER, mb_free = True\<rparr>],
           g_memory_used := 0, g_memory_high_water_used := 0, g_memory_allocs := 0, g_memory_frees := 0\<rparr>)"

text \<open>The first-fit loop: the block list afterwards and the block taken.\<close>

fun kmalloc_scan :: "u64 \<Rightarrow> memory_block_t list \<Rightarrow> (memory_block_t list \<times> memory_block_t) option" where
  "kmalloc_scan sz [] = None"
| "kmalloc_scan sz (b # bs) =
     (if mb_free b \<and> mb_size b \<ge> sz
      then if mb_size b - sz \<ge> BLOCK_HEADER + KMALLOC_ALIGN
           then let b' = b\<lparr>mb_size := sz, mb_free := False\<rparr>;
                    next = \<lparr>mb_addr = mb_addr b + BLOCK_HEADER + sz, mb_size = mb_size b - sz - BLOCK_HEADER, mb_free = True\<rparr>
                in Some (b' # next # bs, b')
           else let b' = b\<lparr>mb_free := False\<rparr> in Some (b' # bs, b')
      else map_option (\<lambda>(bs', b'). (b # bs', b')) (kmalloc_scan sz bs))"

definition kmalloc :: "u64 \<Rightarrow> u64 \<Rightarrow> u64 \<Rightarrow> 'z kmem_scheme \<Rightarrow> (u64 \<times> 'z kmem_scheme) option" where
  "kmalloc timer_ticks caller n s =
     (let sz = align_up (if n = 0 then 1 else n) in
      if sz = 0 \<or> sz > g_memory_heap_size s then Some (0, s)
      else case kmalloc_scan sz (memory_head s) of
        None \<Rightarrow> Some (0, s)
      | Some (bs, b) \<Rightarrow>
          let used = g_memory_used s + mb_size b;
              s = s\<lparr>memory_head := bs, g_memory_used := used,
                    g_memory_high_water_used := (if used > g_memory_high_water_used s then used else g_memory_high_water_used s),
                    g_memory_allocs := g_memory_allocs s + 1\<rparr>;
              ret = mb_addr b + BLOCK_HEADER
          in if ret \<noteq> 0 then map_option (\<lambda>s. (ret, s)) (leak_track_record timer_ticks ret sz caller s)
             else Some (ret, s))"

definition kfree :: "u64 \<Rightarrow> 'z kmem_scheme \<Rightarrow> 'z kmem_scheme option" where
  "kfree p s =
     (let heap_start = kernel_heap s; heap_end = heap_start + g_memory_heap_size s in
      if p = 0 then Some s
      else if kernel_heap s = 0 \<or> heap_end < heap_start \<or> p < heap_start + BLOCK_HEADER \<or> p \<ge> heap_end then Some s
      else case find_index (\<lambda>b. mb_addr b = p - BLOCK_HEADER) (memory_head s) of
        None \<Rightarrow> Some s
      | Some i \<Rightarrow>
          let b = memory_head s ! i in
          if mb_size b > heap_end - p then Some s
          else if mb_free b then Some s
          else do {
            s \<leftarrow> leak_track_unrecord p s;
            Some (s\<lparr>g_memory_used := (if g_memory_used s \<ge> mb_size b then g_memory_used s - mb_size b else 0),
                    g_memory_frees := g_memory_frees s + 1,
                    memory_head := coalesce_blocks ((memory_head s)[i := b\<lparr>mb_free := True\<rparr>])\<rparr>)
          })"

fun sum_free :: "u64 \<Rightarrow> memory_block_t list \<Rightarrow> u64" where
  "sum_free acc [] = acc"
| "sum_free acc (b # bs) = sum_free (if mb_free b then acc + mb_size b else acc) bs"

definition memory_total_free :: "'z kmem_scheme \<Rightarrow> u64" where
  "memory_total_free s = sum_free 0 (memory_head s)"

section \<open>Tiling\<close>

fun tiles :: "nat \<Rightarrow> memory_block_t list \<Rightarrow> nat \<Rightarrow> bool" where
  "tiles a [] e \<longleftrightarrow> a = e"
| "tiles a (b # bs) e \<longleftrightarrow> unat (mb_addr b) = a \<and> tiles (a + 24 + unat (mb_size b)) bs e"

fun no_adjacent_free :: "memory_block_t list \<Rightarrow> bool" where
  "no_adjacent_free (b # c # bs) \<longleftrightarrow> \<not> (mb_free b \<and> mb_free c) \<and> no_adjacent_free (c # bs)"
| "no_adjacent_free bs \<longleftrightarrow> True"

definition used_blocks :: "memory_block_t list \<Rightarrow> memory_block_t list" where
  "used_blocks bs = filter (\<lambda>b. \<not> mb_free b) bs"

definition used_bytes :: "memory_block_t list \<Rightarrow> nat" where
  "used_bytes bs = sum_list (map (\<lambda>b. unat (mb_size b)) (used_blocks bs))"

definition free_bytes :: "memory_block_t list \<Rightarrow> nat" where
  "free_bytes bs = sum_list (map (\<lambda>b. if mb_free b then unat (mb_size b) else 0) bs)"

lemma used_blocks_simps [simp]:
  "used_blocks [] = []" "used_blocks (b # bs) = (if mb_free b then used_blocks bs else b # used_blocks bs)"
  "used_blocks (bs @ cs) = used_blocks bs @ used_blocks cs" "set (used_blocks bs) = {b \<in> set bs. \<not> mb_free b}"
  by (auto simp: used_blocks_def)

lemma tiles_le: "tiles a bs e \<Longrightarrow> a \<le> e"
  by (induction bs arbitrary: a) fastforce+

lemma tiles_append: "tiles a (bs @ cs) e \<longleftrightarrow> (\<exists>m. tiles a bs m \<and> tiles m cs e)"
  by (induction bs arbitrary: a) auto

lemma tiles_sum: "tiles a bs e \<Longrightarrow> a + 24 * length bs + used_bytes bs + free_bytes bs = e"
  by (induction bs arbitrary: a) (fastforce simp: used_bytes_def free_bytes_def)+

lemma tiles_member:
  assumes "tiles a bs e" "b \<in> set bs"
  shows "a \<le> unat (mb_addr b)" "unat (mb_addr b) + 24 + unat (mb_size b) \<le> e"
proof -
  obtain xs ys where "bs = xs @ b # ys" using split_list [OF assms(2)] by blast
  with assms(1) obtain m where "tiles a xs m" "tiles m (b # ys) e" by (auto simp: tiles_append)
  then have "a \<le> m" "unat (mb_addr b) = m" "m + 24 + unat (mb_size b) \<le> e" by (auto dest: tiles_le)
  then show "a \<le> unat (mb_addr b)" "unat (mb_addr b) + 24 + unat (mb_size b) \<le> e" by simp_all
qed

lemma tiles_sorted:
  "tiles a bs e \<Longrightarrow> sorted_wrt (\<lambda>b c. unat (mb_addr b) + 24 + unat (mb_size b) \<le> unat (mb_addr c)) bs"
  by (induction bs arbitrary: a) (auto dest: tiles_member(1))

lemma blocks_distinct:
  "sorted_wrt (\<lambda>b c. unat (mb_addr b) + 24 + unat (mb_size b) \<le> unat (mb_addr c)) bs \<Longrightarrow> distinct bs"
  by (induction bs) auto

lemma tiles_apart:
  assumes "tiles a bs e" "b \<in> set bs" "c \<in> set bs" "b \<noteq> c"
  shows "unat (mb_addr b) + 24 + unat (mb_size b) \<le> unat (mb_addr c) \<or> unat (mb_addr c) + 24 + unat (mb_size c) \<le> unat (mb_addr b)"
proof -
  obtain i j where "i < length bs" "j < length bs" "b = bs ! i" "c = bs ! j"
    using assms(2,3) by (auto simp: in_set_conv_nth)
  with tiles_sorted [OF assms(1)] assms(4) show ?thesis
    by (cases i j rule: linorder_cases) (auto simp: sorted_wrt_iff_nth_less)
qed

lemma unat_header_add:
  assumes "unat x + 24 + unat y < 18446744073709551616"
  shows "unat (x + BLOCK_HEADER) = unat x + 24" "unat (x + BLOCK_HEADER + y) = unat x + 24 + unat y"
    "unat (x + (BLOCK_HEADER + y)) = unat x + 24 + unat y"
proof -
  show 1: "unat (x + BLOCK_HEADER) = unat x + 24"
    using assms by (subst unat_add_u64) (simp_all add: BLOCK_HEADER_def)
  show 2: "unat (x + BLOCK_HEADER + y) = unat x + 24 + unat y"
    using assms 1 by (subst unat_add_u64) simp_all
  then show "unat (x + (BLOCK_HEADER + y)) = unat x + 24 + unat y" by (simp only: add.assoc)
qed

section \<open>Coalescing\<close>

lemma coalesce_tiles:
  "tiles a bs e \<Longrightarrow> e < 18446744073709551616 \<Longrightarrow> tiles a (coalesce_blocks bs) e"
proof (induction bs arbitrary: a rule: coalesce_blocks.induct)
  case (1 b c bs)
  show ?case
  proof (cases "mb_free b \<and> mb_free c")
    case True
    have t: "tiles (a + 24 + unat (mb_size b) + 24 + unat (mb_size c)) bs e" "unat (mb_addr b) = a"
      using "1.prems"(1) by simp_all
    have "unat (mb_size b + (BLOCK_HEADER + mb_size c)) = unat (mb_size b) + 24 + unat (mb_size c)"
      using tiles_le [OF t(1)] "1.prems"(2) by (intro unat_header_add) linarith
    then have "tiles a (b\<lparr>mb_size := mb_size b + (BLOCK_HEADER + mb_size c)\<rparr> # bs) e"
      using t by (simp add: algebra_simps)
    then show ?thesis using True "1.IH"(1) "1.prems"(2) by simp
  next
    case False
    then show ?thesis using "1.IH"(2) "1.prems" by auto
  qed
qed simp_all

lemma coalesce_used [simp]: "used_blocks (coalesce_blocks bs) = used_blocks bs"
  by (induction bs rule: coalesce_blocks.induct) auto

lemma coalesce_head: "\<exists>c' bs'. coalesce_blocks (c # bs) = c' # bs' \<and> mb_free c' = mb_free c"
proof (induction "c # bs" arbitrary: c bs rule: coalesce_blocks.induct)
  case (1 b c bs)
  then show ?case by (cases "mb_free b \<and> mb_free c") auto
qed simp

lemma coalesce_no_adjacent: "no_adjacent_free (coalesce_blocks bs)"
proof (induction bs rule: coalesce_blocks.induct)
  case (1 b c bs)
  show ?case
  proof (cases "mb_free b \<and> mb_free c")
    case False
    obtain c' bs' where "coalesce_blocks (c # bs) = c' # bs'" "mb_free c' = mb_free c" using coalesce_head by blast
    with False "1.IH"(2) show ?thesis by auto
  qed (use "1.IH"(1) in simp)
qed simp_all

section \<open>First fit\<close>

lemma unat_align_up:
  "unat (align_up n) = (if unat n + 15 < 18446744073709551616 then (unat n + 15) div 16 * 16 else 0)"
proof -
  have m: "(KMALLOC_ALIGN - 1) = mask 4" by (simp add: KMALLOC_ALIGN_def mask_eq_exp_minus_1)
  have c: "n > 0xFFFFFFFFFFFFFFFF - mask 4 \<longleftrightarrow> \<not> unat n + 15 < 18446744073709551616"
    by (simp add: mask_eq_exp_minus_1 word_less_nat_alt not_less) linarith
  show ?thesis
  proof (cases "unat n + 15 < 18446744073709551616")
    case True
    then have "unat (n + mask 4) = unat n + 15" by (subst unat_add_u64) (simp_all add: mask_eq_exp_minus_1)
    then have "unat ((n + mask 4) AND NOT (mask 4)) = unat n + 15 - (unat n + 15) mod 16"
      unfolding unat_and_not_mask by simp
    also have "\<dots> = (unat n + 15) div 16 * 16" by (simp add: minus_mod_eq_div_mult)
    finally show ?thesis using True c by (simp add: align_up_def m)
  qed (use c in \<open>simp add: align_up_def m\<close>)
qed

lemma align_up_eq: "align_up n \<noteq> 0 \<Longrightarrow> unat (align_up n) = (unat n + 15) div 16 * 16"
  using unat_gt_0 [of "align_up n"] by (simp add: unat_align_up split: if_splits)

lemma align_up_bounds:
  assumes "align_up n \<noteq> 0"
  shows "unat n \<le> unat (align_up n)" "unat (align_up n) < unat n + 16" "16 dvd unat (align_up n)"
proof -
  note align_up_eq [OF assms]
  then show "unat n \<le> unat (align_up n)" "unat (align_up n) < unat n + 16" "16 dvd unat (align_up n)"
    by presburger+
qed

lemma kmalloc_scan_None: "kmalloc_scan sz bs = None \<longleftrightarrow> (\<forall>b \<in> set bs. mb_free b \<longrightarrow> mb_size b < sz)"
  by (induction bs) (auto simp: Let_def not_le)

lemma kmalloc_scan_head:
  "mb_free b \<Longrightarrow> sz \<le> mb_size b \<Longrightarrow> \<exists>bs' b'. kmalloc_scan sz (b # bs) = Some (bs', b') \<and> mb_addr b' = mb_addr b"
  by (simp add: Let_def)

lemma kmalloc_scan_spec:
  assumes "kmalloc_scan sz bs = Some (bs', b)" "tiles a bs e" "e < 18446744073709551616"
  shows "tiles a bs' e \<and> b \<in> set bs' \<and> \<not> mb_free b \<and> sz \<le> mb_size b \<and>
    (\<exists>xs ys. used_blocks bs = xs @ ys \<and> used_blocks bs' = xs @ b # ys)"
  using assms
proof (induction bs arbitrary: bs' a)
  case (Cons c bs)
  show ?case
  proof (cases "mb_free c \<and> sz \<le> mb_size c")
    case fit: True
    have end_: "unat (mb_addr c) + 24 + unat (mb_size c) < 18446744073709551616"
      using tiles_le [of "a + 24 + unat (mb_size c)" bs e] Cons.prems(2,3) by auto
    show ?thesis
    proof (cases "BLOCK_HEADER + KMALLOC_ALIGN \<le> mb_size c - sz")
      case True
      have sub: "unat (mb_size c - sz) = unat (mb_size c) - unat sz" using fit by (simp add: unat_sub)
      have room: "unat sz + 40 \<le> unat (mb_size c)"
        using True fit sub by (simp add: BLOCK_HEADER_def KMALLOC_ALIGN_def word_nat)
      then have "BLOCK_HEADER \<le> mb_size c - sz" using sub by (simp add: BLOCK_HEADER_def word_nat)
      then have rest: "unat (mb_size c - sz - BLOCK_HEADER) = unat (mb_size c) - unat sz - 24"
        using sub by (simp add: unat_sub BLOCK_HEADER_def)
      have addr: "unat (mb_addr c + BLOCK_HEADER + sz) = unat (mb_addr c) + 24 + unat sz"
        using end_ room by (intro unat_header_add) linarith
      let ?b = "c\<lparr>mb_size := sz, mb_free := False\<rparr>" and ?n = "\<lparr>mb_addr = mb_addr c + BLOCK_HEADER + sz,
        mb_size = mb_size c - sz - BLOCK_HEADER, mb_free = True\<rparr>"
      have eq: "bs' = ?b # ?n # bs" "b = ?b" using Cons.prems(1) True fit by (auto simp: Let_def)
      have q: "a + 24 + unat sz + 24 + unat (mb_size ?n) = a + 24 + unat (mb_size c)" using room rest by simp
      have "tiles (a + 24 + unat (mb_size c)) bs e" using Cons.prems(2) by simp
      then have "tiles (a + 24 + unat sz + 24 + unat (mb_size ?n)) bs e" by (simp only: q)
      then have "tiles a (?b # ?n # bs) e" using Cons.prems(2) addr by simp
      moreover have "used_blocks (c # bs) = [] @ used_blocks bs \<and> used_blocks (?b # ?n # bs) = [] @ ?b # used_blocks bs"
        using fit by simp
      ultimately show ?thesis unfolding eq by (intro conjI) (simp, simp, simp, simp, blast)
    next
      case False
      let ?b = "c\<lparr>mb_free := False\<rparr>"
      have eq: "bs' = ?b # bs" "b = ?b" using Cons.prems(1) False fit by (auto simp: Let_def)
      have "used_blocks (c # bs) = [] @ used_blocks bs \<and> used_blocks (?b # bs) = [] @ ?b # used_blocks bs"
        using fit by simp
      moreover have "tiles a (?b # bs) e" using Cons.prems(2) by simp
      ultimately show ?thesis unfolding eq using fit by (intro conjI) (simp, simp, simp, simp, blast)
    qed
  next
    case False
    then obtain cs where cs: "kmalloc_scan sz bs = Some (cs, b)" "bs' = c # cs"
      using Cons.prems(1) by auto
    have "tiles (a + 24 + unat (mb_size c)) bs e" using Cons.prems(2) by simp
    from Cons.IH [OF cs(1) this Cons.prems(3)] cs(2) Cons.prems(2) show ?thesis
      by (auto, metis append_Cons)
  qed
qed simp

lemma kmalloc_scan_no_adjacent:
  assumes "kmalloc_scan sz bs = Some (bs', b)" "no_adjacent_free bs"
  shows "no_adjacent_free bs' \<and> (\<forall>c cs c' cs'. bs = c # cs \<longrightarrow> bs' = c' # cs' \<longrightarrow> mb_free c' \<longrightarrow> mb_free c)"
  using assms
proof (induction bs arbitrary: bs')
  case (Cons c bs)
  show ?case
  proof (cases "mb_free c \<and> sz \<le> mb_size c")
    case True
    then show ?thesis using Cons.prems by (cases bs) (auto simp: Let_def split: if_splits)
  next
    case False
    then obtain cs where cs: "kmalloc_scan sz bs = Some (cs, b)" "bs' = c # cs" using Cons.prems(1) by auto
    then obtain d ds where bs: "bs = d # ds" by (cases bs) auto
    then have "no_adjacent_free bs" "\<not> (mb_free c \<and> mb_free d)" using Cons.prems(2) by auto
    with Cons.IH [OF cs(1)] cs(2) bs show ?thesis by (cases cs) auto
  qed
qed simp

section \<open>Invariant and specification\<close>

text \<open>The regions handed out: payload address and length.\<close>

definition heap_live :: "'z kmem_scheme \<Rightarrow> (nat \<times> nat) set" where
  "heap_live s = (\<lambda>b. (unat (mb_addr b) + 24, unat (mb_size b))) ` set (used_blocks (memory_head s))"

definition heap_inv :: "'z kmem_scheme \<Rightarrow> bool" where
  "heap_inv s \<longleftrightarrow> kernel_heap s \<noteq> 0 \<and> unat (kernel_heap s) + unat (g_memory_heap_size s) < 18446744073709551616 \<and>
     tiles (unat (kernel_heap s)) (memory_head s) (unat (kernel_heap s) + unat (g_memory_heap_size s)) \<and>
     no_adjacent_free (memory_head s) \<and> unat (g_memory_used s) = used_bytes (memory_head s) \<and>
     (\<forall>b \<in> set (used_blocks (memory_head s)). mb_size b \<noteq> 0)"

text \<open>The tracker knows only regions that are in use.\<close>

definition mem_inv :: "'z kmem_scheme \<Rightarrow> bool" where
  "mem_inv s \<longleftrightarrow> heap_inv s \<and> leak_inv s \<and> unat ` fst ` leak_live s \<subseteq> fst ` heap_live s"

lemma kleak_more_eq:
  assumes "leak_only s s'"
  shows "kernel_heap s' = kernel_heap s" "memory_head s' = memory_head s" "g_memory_heap_size s' = g_memory_heap_size s"
    "g_memory_used s' = g_memory_used s" "g_memory_high_water_used s' = g_memory_high_water_used s"
    "g_memory_allocs s' = g_memory_allocs s" "g_memory_frees s' = g_memory_frees s"
  by (subst assms [unfolded leak_only_def], simp)+

lemma heap_inv_cong:
  assumes "leak_only s s'"
  shows "heap_inv s' = heap_inv s" "heap_live s' = heap_live s"
  by (simp_all only: heap_inv_def heap_live_def kleak_more_eq [OF assms])

lemma leak_more_upd [simp]:
  "leak_inv (s\<lparr>memory_head := bs\<rparr>) = leak_inv s" "leak_live (s\<lparr>memory_head := bs\<rparr>) = leak_live s"
  "leak_inv (s\<lparr>g_memory_used := u\<rparr>) = leak_inv s" "leak_live (s\<lparr>g_memory_used := u\<rparr>) = leak_live s"
  "leak_inv (s\<lparr>g_memory_high_water_used := u\<rparr>) = leak_inv s" "leak_live (s\<lparr>g_memory_high_water_used := u\<rparr>) = leak_live s"
  "leak_inv (s\<lparr>g_memory_allocs := c\<rparr>) = leak_inv s" "leak_live (s\<lparr>g_memory_allocs := c\<rparr>) = leak_live s"
  "leak_inv (s\<lparr>g_memory_frees := c\<rparr>) = leak_inv s" "leak_live (s\<lparr>g_memory_frees := c\<rparr>) = leak_live s"
  by (simp_all add: leak_inv_def leak_live_def)

lemma block_unique:
  assumes "tiles a bs e" "b \<in> set bs" "c \<in> set bs" "mb_addr b = mb_addr c"
  shows "b = c"
  using tiles_apart [OF assms(1-3)] assms(4) by fastforce

lemma heap_take:
  fixes hw :: u64 and al :: u32
  assumes inv: "heap_inv s" and scan: "kmalloc_scan sz (memory_head s) = Some (bs, b)" and nz: "sz \<noteq> 0"
  defines "s' \<equiv> s\<lparr>memory_head := bs, g_memory_used := g_memory_used s + mb_size b, g_memory_high_water_used := hw, g_memory_allocs := al\<rparr>"
  shows "heap_inv s'" "heap_live s' = insert (unat (mb_addr b) + 24, unat (mb_size b)) (heap_live s)"
    "unat (mb_addr b + BLOCK_HEADER) = unat (mb_addr b) + 24" "sz \<le> mb_size b"
    "unat (kernel_heap s) \<le> unat (mb_addr b)"
    "unat (mb_addr b) + 24 + unat (mb_size b) \<le> unat (kernel_heap s) + unat (g_memory_heap_size s)"
    "(q, n) \<in> heap_live s \<Longrightarrow> {unat (mb_addr b) + 24..<unat (mb_addr b) + 24 + unat (mb_size b)} \<inter> {q..<q + n} = {} \<and> q \<noteq> unat (mb_addr b) + 24"
proof -
  let ?a = "unat (kernel_heap s)" and ?e = "unat (kernel_heap s) + unat (g_memory_heap_size s)"
  have e: "?e < 18446744073709551616" "tiles ?a (memory_head s) ?e" using inv by (auto simp: heap_inv_def)
  from kmalloc_scan_spec [OF scan e(2,1)] obtain xs ys where
    t: "tiles ?a bs ?e" "b \<in> set bs" "\<not> mb_free b" and sz: "sz \<le> mb_size b"
    and u: "used_blocks (memory_head s) = xs @ ys" "used_blocks bs = xs @ b # ys" by blast
  note M = tiles_member [OF t(1,2)]
  show "sz \<le> mb_size b" "?a \<le> unat (mb_addr b)" "unat (mb_addr b) + 24 + unat (mb_size b) \<le> ?e" using sz M by auto
  have bytes: "used_bytes bs = used_bytes (memory_head s) + unat (mb_size b)" by (simp add: used_bytes_def u)
  have "used_bytes bs \<le> ?e" using tiles_sum [OF t(1)] by linarith
  then have "unat (g_memory_used s + mb_size b) = used_bytes bs"
    using inv e(1) bytes by (subst unat_add_u64) (auto simp: heap_inv_def)
  moreover have "mb_size b \<noteq> 0" using sz nz by (auto simp: word_le_0_iff)
  ultimately show "heap_inv s'"
    using inv t(1) kmalloc_scan_no_adjacent [OF scan] unfolding heap_inv_def s'_def
    by (auto simp: u simp del: used_blocks_simps(4))
  show "heap_live s' = insert (unat (mb_addr b) + 24, unat (mb_size b)) (heap_live s)"
    unfolding heap_live_def s'_def by (simp add: u del: used_blocks_simps(4))
  show "unat (mb_addr b + BLOCK_HEADER) = unat (mb_addr b) + 24"
    using M e(1) by (intro unat_header_add(1) [of _ 0]) simp
  assume "(q, n) \<in> heap_live s"
  then obtain c where c: "c \<in> set xs \<union> set ys" "q = unat (mb_addr c) + 24" "n = unat (mb_size c)"
    unfolding heap_live_def u by auto
  have "sorted_wrt (\<lambda>b c. unat (mb_addr b) + 24 + unat (mb_size b) \<le> unat (mb_addr c)) (used_blocks bs)"
    unfolding used_blocks_def using tiles_sorted [OF t(1)] by (rule sorted_wrt_filter)
  then have "c \<noteq> b" using blocks_distinct c(1) unfolding u by fastforce
  moreover have "c \<in> set bs" using c(1) u(2) used_blocks_simps(4) [of bs] by auto
  ultimately show "{unat (mb_addr b) + 24..<unat (mb_addr b) + 24 + unat (mb_size b)} \<inter> {q..<q + n} = {} \<and> q \<noteq> unat (mb_addr b) + 24"
    using tiles_apart [OF t(1,2)] c(2,3) by fastforce
qed

lemma kmalloc_eq:
  assumes "align_up (if n = 0 then 1 else n) \<noteq> 0" "\<not> align_up (if n = 0 then 1 else n) > g_memory_heap_size s"
    and "kmalloc_scan (align_up (if n = 0 then 1 else n)) (memory_head s) = Some (bs, b)" "mb_addr b + BLOCK_HEADER \<noteq> 0"
  shows "kmalloc now caller n s = map_option (\<lambda>s. (mb_addr b + BLOCK_HEADER, s))
    (leak_track_record now (mb_addr b + BLOCK_HEADER) (align_up (if n = 0 then 1 else n)) caller
      (s\<lparr>memory_head := bs, g_memory_used := g_memory_used s + mb_size b,
         g_memory_high_water_used := (if g_memory_used s + mb_size b > g_memory_high_water_used s
           then g_memory_used s + mb_size b else g_memory_high_water_used s),
         g_memory_allocs := g_memory_allocs s + 1\<rparr>))"
  unfolding kmalloc_def Let_def using assms by (simp only: if_False simp_thms option.case prod.case if_True)

lemma kmalloc_spec:
  assumes inv: "mem_inv s"
  shows "\<exists>r s'. kmalloc now caller n s = Some (r, s') \<and> mem_inv s' \<and> kernel_heap s' = kernel_heap s \<and>
    g_memory_heap_size s' = g_memory_heap_size s \<and>
    (r = 0 \<longrightarrow> s' = s \<and> (\<forall>b \<in> set (memory_head s). mb_free b \<longrightarrow> unat (mb_size b) < (max 1 (unat n) + 15) div 16 * 16)) \<and>
    (r \<noteq> 0 \<longrightarrow> (\<exists>len \<ge> unat n. heap_live s' = insert (unat r, len) (heap_live s) \<and>
       unat (kernel_heap s) + 24 \<le> unat r \<and> unat r + len \<le> unat (kernel_heap s) + unat (g_memory_heap_size s) \<and>
       (\<forall>(q, m) \<in> heap_live s. {unat r..<unat r + len} \<inter> {q..<q + m} = {} \<and> q \<noteq> unat r) \<and>
       (live_blocks s \<noteq> 4096 \<longrightarrow> unat ` fst ` leak_live s' = insert (unat r) (unat ` fst ` leak_live s))))"
proof -
  let ?n = "if n = 0 then 1 else n" and ?sz = "align_up (if n = 0 then 1 else n)"
  have hi: "heap_inv s" and li: "leak_inv s" using inv by (auto simp: mem_inv_def)
  have n: "unat n \<le> unat ?n" "unat ?n \<le> unat n + (if n = 0 then 1 else 0)" by auto
  show ?thesis
  proof (cases "?sz = 0 \<or> ?sz > g_memory_heap_size s \<or> kmalloc_scan ?sz (memory_head s) = None")
    case True
    then have r: "kmalloc now caller n s = Some (0, s)" by (auto simp: kmalloc_def Let_def)
    have "unat (mb_size b) < (max 1 (unat n) + 15) div 16 * 16" if b: "b \<in> set (memory_head s)" "mb_free b" for b
    proof -
      have m: "max 1 (unat n) = unat ?n" using unat_gt_0 [of n] by (simp add: max_def) linarith
      have le: "unat (mb_size b) \<le> unat (g_memory_heap_size s)"
        using hi b(1) tiles_member [of "unat (kernel_heap s)" "memory_head s"] unfolding heap_inv_def by fastforce
      from True consider "?sz = 0" | "?sz \<noteq> 0" "?sz > g_memory_heap_size s" | "?sz \<noteq> 0" "kmalloc_scan ?sz (memory_head s) = None"
        by metis
      then show ?thesis
      proof cases
        case 1
        have a: "(k + 15 < 18446744073709551616 \<longrightarrow> (k + 15) div 16 * 16 = 0) \<Longrightarrow> 1 \<le> k \<Longrightarrow> 18446744073709551616 \<le> (k + 15) div 16 * 16" for k :: nat
          by presburger
        from 1 have "unat ?n + 15 < 18446744073709551616 \<longrightarrow> (unat ?n + 15) div 16 * 16 = 0"
          using unat_align_up [of ?n] by (metis unat_0)
        moreover have "1 \<le> unat ?n" using m by linarith
        ultimately have "18446744073709551616 \<le> (unat ?n + 15) div 16 * 16" by (rule a)
        then show ?thesis using unat_u64_less [of "mb_size b"] unfolding m by linarith
      next
        case 2
        then show ?thesis using le align_up_eq [of ?n] unfolding m by (simp add: word_nat)
      next
        case 3
        then show ?thesis using b align_up_eq [of ?n] unfolding m by (auto simp: kmalloc_scan_None word_nat)
      qed
    qed
    with r inv show ?thesis by auto
  next
    case False
    then obtain bs b where scan: "kmalloc_scan ?sz (memory_head s) = Some (bs, b)" and nz: "?sz \<noteq> 0" by auto
    define u where "u = g_memory_used s + mb_size b"
    define t where "t = s\<lparr>memory_head := bs, g_memory_used := u,
      g_memory_high_water_used := (if u > g_memory_high_water_used s then u else g_memory_high_water_used s),
      g_memory_allocs := g_memory_allocs s + 1\<rparr>"
    let ?p = "mb_addr b + BLOCK_HEADER"
    note T = heap_take(1,2) [where hw = "if u > g_memory_high_water_used s then u else g_memory_high_water_used s"
      and al = "g_memory_allocs s + 1", OF hi scan nz, folded u_def, folded t_def]
      heap_take(3-7) [OF hi scan nz]
    have p0: "?p \<noteq> 0" using T(3) by (metis add_is_0 numeral_neq_zero unat_0)
    have lt: "leak_inv t" "leak_live t = leak_live s" "live_blocks t = live_blocks s" using li by (simp_all add: t_def)
    obtain s' where s': "leak_track_record now ?p ?sz caller t = Some s'" "leak_inv s'" "leak_only t s'"
      and L: "leak_live s' \<subseteq> insert (?p, ?sz, caller, now) (leak_live s)"
        "live_blocks s \<noteq> 4096 \<Longrightarrow> fst ` leak_live s' = insert ?p (fst ` leak_live s)"
    proof -
      obtain s' where "leak_track_record now ?p ?sz caller t = Some s'" "leak_inv s'" "leak_only t s'" and
        c: "if ?p \<in> fst ` leak_live t
         then leak_live s' = insert (?p, ?sz, caller, now) {q \<in> leak_live t. fst q \<noteq> ?p} \<and> live_bytes s' = live_bytes t \<and>
              lt_dropped s' = lt_dropped t
         else if live_blocks t = 4096
         then leak_live s' = leak_live t \<and> live_bytes s' = live_bytes t \<and> lt_dropped s' = lt_dropped t + 1
         else leak_live s' = insert (?p, ?sz, caller, now) (leak_live t) \<and> live_bytes s' = live_bytes t + ?sz \<and>
              lt_dropped s' = lt_dropped t"
        using leak_record_spec [OF lt(1) p0] by blast
      moreover have "leak_live s' \<subseteq> insert (?p, ?sz, caller, now) (leak_live s)" using c lt by (auto split: if_splits)
      moreover have "fst ` leak_live s' = insert ?p (fst ` leak_live s)" if "live_blocks s \<noteq> 4096"
        using c lt that by (auto split: if_splits simp: image_iff)
      ultimately show thesis using that by blast
    qed
    have r: "kmalloc now caller n s = Some (?p, s')"
      using kmalloc_eq [OF nz _ scan p0] False s'(1) unfolding t_def u_def by simp
    have hl: "heap_live s' = insert (unat ?p, unat (mb_size b)) (heap_live s)"
      using T(2,3) heap_inv_cong [OF s'(3)] by simp
    have "heap_inv s'" using T(1) heap_inv_cong [OF s'(3)] by simp
    moreover have "unat ` fst ` leak_live s' \<subseteq> fst ` heap_live s'"
    proof -
      have f: "fst ` leak_live s' \<subseteq> insert ?p (fst ` leak_live s)" using image_mono [OF L(1), of fst] by simp
      have "unat ` fst ` leak_live s' \<subseteq> insert (unat ?p) (unat ` fst ` leak_live s)"
        using image_mono [OF f, of unat] by simp
      also have "\<dots> \<subseteq> insert (unat ?p) (fst ` heap_live s)" using inv by (intro insert_mono) (simp add: mem_inv_def)
      finally show ?thesis by (simp add: hl)
    qed
    ultimately have "mem_inv s'" using s'(2) by (simp add: mem_inv_def)
    moreover have "unat n \<le> unat (mb_size b)" using n(1) align_up_bounds(1) [OF nz] T(4) by (simp add: word_nat)
    moreover have "kernel_heap s' = kernel_heap s" "g_memory_heap_size s' = g_memory_heap_size s"
      using kleak_more_eq [OF s'(3)] by (simp_all add: t_def)
    moreover have "\<forall>(q, m) \<in> heap_live s. {unat ?p..<unat ?p + unat (mb_size b)} \<inter> {q..<q + m} = {} \<and> q \<noteq> unat ?p"
      using T(7) unfolding T(3) by blast
    moreover have "unat ` fst ` leak_live s' = insert (unat ?p) (unat ` fst ` leak_live s)" if "live_blocks s \<noteq> 4096"
      using L(2) [OF that] by simp
    ultimately show ?thesis using r hl p0 T(3,5,6) by auto
  qed
qed

lemma heap_release:
  assumes inv: "heap_inv s" and i: "i < length (memory_head s)" and b: "b = memory_head s ! i" "\<not> mb_free b"
  defines "bs \<equiv> coalesce_blocks ((memory_head s)[i := b\<lparr>mb_free := True\<rparr>])"
  defines "s' \<equiv> s\<lparr>memory_head := bs, g_memory_used := (if g_memory_used s \<ge> mb_size b then g_memory_used s - mb_size b else 0)\<rparr>"
  shows "heap_inv s'" "heap_live s' = heap_live s - {(unat (mb_addr b) + 24, unat (mb_size b))}"
proof -
  let ?a = "unat (kernel_heap s)" and ?e = "unat (kernel_heap s) + unat (g_memory_heap_size s)"
  have e: "?e < 18446744073709551616" "tiles ?a (memory_head s) ?e" using inv by (auto simp: heap_inv_def)
  obtain xs ys where s: "memory_head s = xs @ b # ys" "length xs = i"
    using id_take_nth_drop [OF i] i b(1) by (metis length_take less_imp_le min.absorb2)
  have eq: "(memory_head s)[i := b\<lparr>mb_free := True\<rparr>] = xs @ b\<lparr>mb_free := True\<rparr> # ys"
    using s by (simp add: list_update_append)
  have t: "tiles ?a (xs @ b\<lparr>mb_free := True\<rparr> # ys) ?e" using e(2) s(1) by (auto simp: tiles_append)
  have "used_blocks bs = used_blocks xs @ used_blocks ys" unfolding bs_def eq coalesce_used by simp
  moreover have "used_blocks (memory_head s) = used_blocks xs @ b # used_blocks ys" using b(2) s(1) by simp
  ultimately have u: "used_blocks bs = used_blocks xs @ used_blocks ys"
    "used_blocks (memory_head s) = used_blocks xs @ b # used_blocks ys" by blast+
  have "used_bytes (memory_head s) = used_bytes bs + unat (mb_size b)" by (simp add: used_bytes_def u)
  then have "unat (if g_memory_used s \<ge> mb_size b then g_memory_used s - mb_size b else 0) = used_bytes bs"
    using inv by (auto simp: heap_inv_def word_nat unat_sub)
  moreover have "tiles ?a bs ?e" unfolding bs_def eq by (rule coalesce_tiles [OF t e(1)])
  ultimately show "heap_inv s'" using inv coalesce_no_adjacent unfolding heap_inv_def s'_def
    by (auto simp: u bs_def [symmetric] simp del: used_blocks_simps(4)) (simp add: bs_def)
  have "sorted_wrt (\<lambda>b c. unat (mb_addr b) + 24 + unat (mb_size b) \<le> unat (mb_addr c)) (memory_head s)"
    using tiles_sorted [OF e(2)] .
  then have d: "distinct (memory_head s)" by (rule blocks_distinct)
  have "(unat (mb_addr c) + 24, unat (mb_size c)) \<noteq> (unat (mb_addr b) + 24, unat (mb_size b))"
    if "c \<in> set (used_blocks xs @ used_blocks ys)" for c
  proof -
    have "c \<in> set (memory_head s)" "c \<noteq> b" using that d unfolding s(1) by auto
    then show ?thesis using tiles_apart [OF e(2), of c b] s(1) by auto
  qed
  then show "heap_live s' = heap_live s - {(unat (mb_addr b) + 24, unat (mb_size b))}"
    unfolding heap_live_def s'_def by (auto simp: u simp del: used_blocks_simps(4))
qed

lemma kfree_foreign:
  assumes inv: "heap_inv s" and out: "unat p \<notin> fst ` heap_live s"
  shows "kfree p s = Some s"
proof -
  have "mb_free (memory_head s ! i)" if f: "find_index (\<lambda>b. mb_addr b = p - BLOCK_HEADER) (memory_head s) = Some i"
    "p \<ge> kernel_heap s + BLOCK_HEADER" for i
  proof (rule ccontr)
    let ?b = "memory_head s ! i" and ?e = "unat (kernel_heap s) + unat (g_memory_heap_size s)"
    note F = find_index_SomeD [OF f(1)]
    have m: "unat (mb_addr ?b) + 24 + unat (mb_size ?b) \<le> ?e" "?e < 18446744073709551616"
      using inv tiles_member(2) [OF _ F(3)] by (auto simp: heap_inv_def)
    have "unat (mb_addr ?b + BLOCK_HEADER) = unat (mb_addr ?b) + 24"
      using m by (intro unat_header_add(1) [of _ 0]) simp
    moreover have "mb_addr ?b + BLOCK_HEADER = p" using F(2) by simp
    ultimately have pb: "unat p = unat (mb_addr ?b) + 24" by simp
    assume "\<not> mb_free ?b"
    then have "(unat p, unat (mb_size ?b)) \<in> heap_live s" using F(3) by (auto simp: heap_live_def pb)
    then show False using out by force
  qed
  then show ?thesis by (auto simp: kfree_def Let_def not_less split: option.splits)
qed

lemma kfree_spec:
  assumes inv: "mem_inv s" and live: "(unat p, len) \<in> heap_live s"
  shows "\<exists>s'. kfree p s = Some s' \<and> mem_inv s' \<and> heap_live s' = heap_live s - {(unat p, len)} \<and>
    leak_live s' = {q \<in> leak_live s. fst q \<noteq> p} \<and> kernel_heap s' = kernel_heap s \<and> g_memory_heap_size s' = g_memory_heap_size s"
proof -
  let ?a = "unat (kernel_heap s)" and ?e = "unat (kernel_heap s) + unat (g_memory_heap_size s)"
  have hi: "heap_inv s" and li: "leak_inv s" using inv by (auto simp: mem_inv_def)
  from live obtain b where b: "b \<in> set (memory_head s)" "\<not> mb_free b" "unat p = unat (mb_addr b) + 24" "len = unat (mb_size b)"
    by (auto simp: heap_live_def)
  have e: "?e < 18446744073709551616" and t: "tiles ?a (memory_head s) ?e" using hi by (auto simp: heap_inv_def)
  note M = tiles_member [OF t b(1)]
  have "unat (mb_addr b + BLOCK_HEADER) = unat p"
    using M e b(3) by (subst unat_header_add(1) [of _ 0]) simp_all
  then have pb: "p = mb_addr b + BLOCK_HEADER" by (simp add: unat_inj_iff)
  then have addr: "p - BLOCK_HEADER = mb_addr b" by simp
  obtain i where fi: "find_index (\<lambda>c. mb_addr c = p - BLOCK_HEADER) (memory_head s) = Some i"
    using b(1) addr find_index_None_iff [of "\<lambda>c. mb_addr c = p - BLOCK_HEADER"] by (metis option.exhaust)
  note F = find_index_SomeD [OF fi]
  have bi: "b = memory_head s ! i" using block_unique [OF t b(1) F(3)] F(2) addr by simp
  have he: "unat (kernel_heap s + g_memory_heap_size s) = ?e" using e by (simp add: unat_add_u64)
  have hs: "unat (kernel_heap s + BLOCK_HEADER) = ?a + 24" using M e by (intro unat_header_add(1) [of _ 0]) simp
  have len0: "0 < len" using hi b(1,2,4) unat_gt_0 [of "mb_size b"] by (auto simp: heap_inv_def)
  have p0: "p \<noteq> 0" using b(3) by auto
  obtain t where u: "leak_track_unrecord p s = Some t" "leak_inv t" "leak_only s t"
    "leak_live t = {q \<in> leak_live s. fst q \<noteq> p}"
    using leak_unrecord_spec [OF li p0] by blast
  note K = kleak_more_eq [OF u(3)]
  define bs where "bs = coalesce_blocks ((memory_head s)[i := b\<lparr>mb_free := True\<rparr>])"
  define x where "x = (if g_memory_used s \<ge> mb_size b then g_memory_used s - mb_size b else 0)"
  define s' where "s' = t\<lparr>g_memory_used := x, g_memory_frees := g_memory_frees s + 1, memory_head := bs\<rparr>"
  note R = heap_release [OF hi F(1) bi b(2), folded bs_def, folded x_def]
  have g: "\<not> p < kernel_heap s + BLOCK_HEADER" "p < kernel_heap s + g_memory_heap_size s"
    "\<not> kernel_heap s + g_memory_heap_size s < kernel_heap s"
    using M len0 b(3,4) by (simp_all add: word_nat he hs)
  then have "unat (kernel_heap s + g_memory_heap_size s - p) = ?e - unat p" by (simp add: unat_sub he)
  then have "mb_size b \<le> kernel_heap s + g_memory_heap_size s - p" using M b(3) by (simp add: word_nat)
  moreover have "kernel_heap s \<noteq> 0" using hi by (simp add: heap_inv_def)
  moreover note g p0
  ultimately have k: "kfree p s = Some s'"
    using fi u(1) b(2) by (simp add: kfree_def Let_def bi [symmetric] K s'_def x_def bs_def not_le)
  have hs: "heap_inv s' = heap_inv (s\<lparr>memory_head := bs, g_memory_used := x\<rparr>)"
    "heap_live s' = heap_live (s\<lparr>memory_head := bs, g_memory_used := x\<rparr>)"
    by (simp_all add: heap_inv_def heap_live_def s'_def K)
  have hl: "heap_live s' = heap_live s - {(unat p, len)}" using R(2) hs(2) b(3,4) by simp
  have "unat ` fst ` leak_live s' \<subseteq> fst ` heap_live s'"
  proof
    fix q assume "q \<in> unat ` fst ` leak_live s'"
    then obtain w where w: "w \<in> leak_live s" "q = unat (fst w)" "fst w \<noteq> p" by (auto simp: s'_def u(4))
    then have "q \<in> fst ` heap_live s" "q \<noteq> unat p" using inv by (auto simp: mem_inv_def unat_inj_iff)
    then show "q \<in> fst ` heap_live s'" unfolding hl by force
  qed
  then have "mem_inv s'" using R(1) hs(1) u(2) by (simp add: mem_inv_def s'_def)
  then show ?thesis using k hl u(4) K by (simp add: s'_def)
qed

lemma memory_init_inv:
  assumes "leak_inv s" "leak_live s = {}"
  shows "mem_inv (memory_init base sz s)" "heap_live (memory_init base sz s) = {}"
proof -
  define bz where "bz = (if base = 0 \<or> base > 0xFFFFFFFFFFFFFFFF - sz \<or> base + sz < base \<or> sz < BLOCK_HEADER + KMALLOC_ALIGN
    then (KERNEL_BIOS_HEAP_BASE, KERNEL_HEAP_SIZE) else (base, sz))"
  have bz: "fst bz \<noteq> 0" "unat (fst bz) + unat (snd bz) < 18446744073709551616" "BLOCK_HEADER \<le> snd bz"
  proof -
    have "\<not> base > 0xFFFFFFFFFFFFFFFF - sz \<Longrightarrow> unat base + unat sz < 18446744073709551616"
      using unat_u64_less [of sz] by (simp add: word_nat not_less unat_sub)
    then show "fst bz \<noteq> 0" "unat (fst bz) + unat (snd bz) < 18446744073709551616" "BLOCK_HEADER \<le> snd bz"
      by (auto simp: bz_def KERNEL_BIOS_HEAP_BASE_def KERNEL_HEAP_SIZE_def BLOCK_HEADER_def KMALLOC_ALIGN_def word_nat not_less)
  qed
  then have "24 + unat (snd bz - BLOCK_HEADER) = unat (snd bz)" by (simp add: unat_sub BLOCK_HEADER_def word_nat)
  then have hi: "heap_inv (memory_init base sz s)"
    using bz by (auto simp: memory_init_def bz_def [symmetric] heap_inv_def used_bytes_def split: prod.splits)
  show "heap_live (memory_init base sz s) = {}"
    by (auto simp: memory_init_def heap_live_def split: prod.splits)
  show "mem_inv (memory_init base sz s)"
    using hi assms by (auto simp: mem_inv_def memory_init_def leak_inv_def leak_live_def split: prod.splits)
qed

section \<open>Heap statistics\<close>

record heap_info_t =
  hi_base :: u64
  hi_size :: u64
  hi_used :: u64
  hi_free_bytes :: u64
  hi_high_water_used :: u64
  hi_alloc_count :: u32
  hi_free_count :: u32

record kheap = kmem +
  g_heap_info :: heap_info_t
  g_heap_status :: string

definition heap_refresh :: "'z kheap_scheme \<Rightarrow> 'z kheap_scheme" where
  "heap_refresh s = s\<lparr>g_heap_info := \<lparr>hi_base = kernel_heap s, hi_size = g_memory_heap_size s, hi_used = g_memory_used s,
     hi_free_bytes = memory_total_free s, hi_high_water_used = g_memory_high_water_used s,
     hi_alloc_count = g_memory_allocs s, hi_free_count = g_memory_frees s\<rparr>\<rparr>"

definition heap_init :: "'z kheap_scheme \<Rightarrow> 'z kheap_scheme" where
  "heap_init s = heap_refresh (s\<lparr>g_heap_status := ''heap: online''\<rparr>)"

definition heap_info :: "'z kheap_scheme \<Rightarrow> heap_info_t \<times> 'z kheap_scheme" where
  "heap_info s = (let s = heap_refresh s in (g_heap_info s, s))"

definition heap_status :: "'z kheap_scheme \<Rightarrow> string \<times> 'z kheap_scheme" where
  "heap_status s = (let s = heap_refresh s in (g_heap_status s, s))"

lemma unat_sum_free:
  "unat acc + free_bytes bs < 18446744073709551616 \<Longrightarrow> unat (sum_free acc bs) = unat acc + free_bytes bs"
  by (induction bs arbitrary: acc) (auto simp: free_bytes_def unat_add_u64)

lemma heap_accounts:
  assumes "heap_inv s"
  shows "unat (g_memory_used s) + unat (memory_total_free s) + 24 * length (memory_head s) = unat (g_memory_heap_size s)"
proof -
  let ?a = "unat (kernel_heap s)" and ?e = "unat (kernel_heap s) + unat (g_memory_heap_size s)"
  have e: "?e < 18446744073709551616" "tiles ?a (memory_head s) ?e" "unat (g_memory_used s) = used_bytes (memory_head s)"
    using assms by (auto simp: heap_inv_def)
  note t = tiles_sum [OF e(2)]
  then have "unat (memory_total_free s) = free_bytes (memory_head s)"
    unfolding memory_total_free_def using e(1) by (subst unat_sum_free) simp_all
  then show ?thesis using t e(3) by linarith
qed

section \<open>What the heap operations leave alone\<close>

definition mem_only :: "'z kmem_scheme \<Rightarrow> 'z kmem_scheme \<Rightarrow> bool" where
  "mem_only s s' \<longleftrightarrow> (\<exists>t h u w a f. leak_only s t \<and>
     s' = t\<lparr>memory_head := h, g_memory_used := u, g_memory_high_water_used := w, g_memory_allocs := a, g_memory_frees := f\<rparr>)"

lemma leak_only_fields:
  assumes "leak_only s s'"
  shows "g_bitmap_stats s' = g_bitmap_stats s" "g_frame_bitmap s' = g_frame_bitmap s" "g_frame_info s' = g_frame_info s"
    "g_frame_status s' = g_frame_status s" "g_frame_next_cursor s' = g_frame_next_cursor s" "kleak.more s' = kleak.more s"
  by (subst assms [unfolded leak_only_def], simp)+

lemma kmem_more_kleak: "kleak.more s' = kleak.more s \<Longrightarrow> kmem.more (s' :: 'z kmem_scheme) = kmem.more s"
  by (cases s; cases s') simp

lemma mem_only_frames:
  assumes "mem_only s s'"
  shows "frame_inv s' = frame_inv s" "frames_used s' = frames_used s" "kmem.more s' = kmem.more s"
proof -
  from assms obtain t h u w a f where t: "leak_only s t"
    "s' = t\<lparr>memory_head := h, g_memory_used := u, g_memory_high_water_used := w, g_memory_allocs := a, g_memory_frees := f\<rparr>"
    by (auto simp: mem_only_def)
  note F = leak_only_fields [OF t(1)]
  show "frame_inv s' = frame_inv s" "frames_used s' = frames_used s"
    by (simp_all add: t(2) frame_inv_def frame_map_ok_def frames_used_def F)
  show "kmem.more s' = kmem.more s" using kmem_more_kleak [OF F(6)] by (simp add: t(2))
qed

lemma mem_only_refl [simp]: "mem_only s s"
proof -
  have "leak_only s s" by (simp add: leak_only_def)
  moreover have "s = s\<lparr>memory_head := memory_head s, g_memory_used := g_memory_used s, g_memory_high_water_used := g_memory_high_water_used s,
    g_memory_allocs := g_memory_allocs s, g_memory_frees := g_memory_frees s\<rparr>" by simp
  ultimately show ?thesis unfolding mem_only_def by blast
qed

lemma kfree_only:
  assumes "leak_inv s" "kfree p s = Some s'"
  shows "mem_only s s'"
proof (cases "s' = s")
  case False
  then have p: "p \<noteq> 0" using assms(2) by (auto simp: kfree_def Let_def)
  obtain t where t: "leak_track_unrecord p s = Some t" "leak_only s t" using leak_unrecord_spec [OF assms(1) p] by blast
  from False assms(2) t(1) have "\<exists>h u f. s' = t\<lparr>g_memory_used := u, g_memory_frees := f, memory_head := h\<rparr>"
    by (auto simp: kfree_def Let_def split: if_splits option.splits)
  then obtain h u f where "s' = t\<lparr>g_memory_used := u, g_memory_frees := f, memory_head := h\<rparr>" by blast
  then have "s' = t\<lparr>memory_head := h, g_memory_used := u, g_memory_high_water_used := g_memory_high_water_used t,
    g_memory_allocs := g_memory_allocs t, g_memory_frees := f\<rparr>" by simp
  with t(2) show ?thesis unfolding mem_only_def by blast
qed simp

lemma heap_live_inj:
  assumes "mem_inv s" "(p, len) \<in> heap_live s" "(p, len') \<in> heap_live s"
  shows "len' = len"
proof -
  obtain e where t: "tiles (unat (kernel_heap s)) (memory_head s) e" using assms(1) by (auto simp: mem_inv_def heap_inv_def)
  from assms(2,3) obtain b c where "b \<in> set (memory_head s)" "c \<in> set (memory_head s)" "mb_addr b = mb_addr c"
    "len = unat (mb_size b)" "len' = unat (mb_size c)"
    by (auto simp: heap_live_def unat_inj_iff)
  with tiles_apart [OF t, of b c] show ?thesis by auto
qed

lemma kmalloc_only:
  assumes "leak_inv s" "kmalloc now caller n s = Some (r, s')"
  shows "mem_only s s'"
proof (cases "s' = s")
  case False
  let ?sz = "align_up (if n = 0 then 1 else n)"
  obtain bs b where sc: "kmalloc_scan ?sz (memory_head s) = Some (bs, b)" "?sz \<noteq> 0" "\<not> ?sz > g_memory_heap_size s"
    using False assms(2) unfolding kmalloc_def Let_def by (cases "kmalloc_scan ?sz (memory_head s)") (auto split: if_splits)
  define u w a where defs: "u = g_memory_used s + mb_size b" "w = (if u > g_memory_high_water_used s then u else g_memory_high_water_used s)"
    "a = g_memory_allocs s + 1"
  have t: "r \<noteq> 0 \<longrightarrow> leak_track_record now r ?sz caller
       (s\<lparr>memory_head := bs, g_memory_used := u, g_memory_high_water_used := w, g_memory_allocs := a\<rparr>) = Some s'"
     "r = 0 \<longrightarrow> s' = s\<lparr>memory_head := bs, g_memory_used := u, g_memory_high_water_used := w, g_memory_allocs := a\<rparr>"
    using assms(2) sc unfolding kmalloc_def Let_def defs by (simp_all split: if_splits)
  let ?s = "s\<lparr>memory_head := bs, g_memory_used := u, g_memory_high_water_used := w, g_memory_allocs := a\<rparr>"
  have li: "leak_inv ?s" using assms(1) by simp
  have "leak_only ?s s'"
  proof (cases "r = 0")
    case False
    then show ?thesis using leak_record_spec [OF li False, of now "align_up (if n = 0 then 1 else n)" caller] t(1) by auto
  qed (use t(2) in \<open>simp add: leak_only_def\<close>)
  then have "leak_only s (s'\<lparr>memory_head := memory_head s, g_memory_used := g_memory_used s,
     g_memory_high_water_used := g_memory_high_water_used s, g_memory_allocs := g_memory_allocs s, g_memory_frees := g_memory_frees s\<rparr>)"
    unfolding leak_only_def by (cases s; cases s') simp
  moreover have "s' = (s'\<lparr>memory_head := memory_head s, g_memory_used := g_memory_used s,
     g_memory_high_water_used := g_memory_high_water_used s, g_memory_allocs := g_memory_allocs s, g_memory_frees := g_memory_frees s\<rparr>)
     \<lparr>memory_head := memory_head s', g_memory_used := g_memory_used s', g_memory_high_water_used := g_memory_high_water_used s',
      g_memory_allocs := g_memory_allocs s', g_memory_frees := g_memory_frees s'\<rparr>" by simp
  ultimately show ?thesis unfolding mem_only_def by blast
qed simp

lemma kfree_any:
  assumes "mem_inv s"
  obtains s' where "kfree p s = Some s'" "mem_inv s'" "mem_only s s'" "heap_live s' = {r \<in> heap_live s. fst r \<noteq> unat p}"
proof (cases "unat p \<in> fst ` heap_live s")
  case True
  then obtain len where l: "(unat p, len) \<in> heap_live s" by auto
  from kfree_spec [OF assms l] obtain s' where s': "kfree p s = Some s'" "mem_inv s'" "heap_live s' = heap_live s - {(unat p, len)}" by blast
  have "leak_inv s" using assms by (simp add: mem_inv_def)
  from kfree_only [OF this s'(1)] have "mem_only s s'" .
  moreover have "heap_live s' = {r \<in> heap_live s. fst r \<noteq> unat p}"
  proof -
    have "r \<noteq> (unat p, len) \<longleftrightarrow> fst r \<noteq> unat p" if "r \<in> heap_live s" for r
      using that heap_live_inj [OF assms l, of "snd r"] by (cases r) auto
    then show ?thesis unfolding s'(3) by blast
  qed
  ultimately show ?thesis using s' that by blast
next
  case False
  have "heap_inv s" using assms by (simp add: mem_inv_def)
  from kfree_foreign [OF this False] have "kfree p s = Some s" .
  moreover have "heap_live s = {r \<in> heap_live s. fst r \<noteq> unat p}" using False by force
  ultimately show ?thesis using that assms mem_only_refl by blast
qed

text \<open>What the heap invariant depends on.\<close>

definition mem_view :: "'z kmem_scheme \<Rightarrow> _" where
  "mem_view s = (lt_pool s, lt_buckets s, live_blocks s, live_bytes s, kernel_heap s, memory_head s, g_memory_heap_size s, g_memory_used s)"

lemma mem_view_inv:
  assumes "mem_view s' = mem_view s"
  shows "mem_inv s' = mem_inv s" "heap_live s' = heap_live s"
  using assms by (simp_all add: mem_view_def mem_inv_def heap_inv_def leak_inv_def leak_live_def heap_live_def)

lemma frame_only_mem_view: "frame_only s s' \<Longrightarrow> mem_view s' = mem_view s"
  by (auto simp: mem_view_def elim!: frame_onlyE)

section \<open>Properties\<close>

definition mem_boot :: kmem where
  "mem_boot = memory_init 0 0 (kleak.extend leak_boot (kmem.fields 0 [] 0 0 0 0 0))"

lemma mem_boot_inv: "mem_inv mem_boot" "heap_live mem_boot = {}"
proof -
  let ?s = "kleak.extend leak_boot (kmem.fields 0 [] 0 0 0 0 0) :: kmem"
  have "leak_inv ?s" "leak_live ?s = {}"
    using leak_init_inv by (auto simp: leak_boot_def leak_inv_def leak_live_def kleak.defs kmem.defs leak_track_init_def)
  from memory_init_inv [OF this] show "mem_inv mem_boot" "heap_live mem_boot = {}" unfolding mem_boot_def by blast+
qed

text \<open>C36: the kernel heap allocates correctly: \<^verbatim>\<open>kmalloc\<close> returns and keeps the heap's invariant (the blocks
  tile the heap exactly, no two neighbours are free, the byte counter is the sum of the blocks in use, and
  the leak tracker knows only regions in use); a non-null result is a region of at least the requested
  length inside the heap, disjoint from every region handed out before, and a null result changes nothing
  and is returned only when no free block can hold the request.\<close>

theorem kmalloc_correct:
  assumes "mem_inv s"
  shows "\<exists>r s'. kmalloc now caller n s = Some (r, s') \<and> mem_inv s' \<and>
    (r = 0 \<longrightarrow> s' = s \<and> (\<forall>b \<in> set (memory_head s). mb_free b \<longrightarrow> unat (mb_size b) < (max 1 (unat n) + 15) div 16 * 16)) \<and>
    (r \<noteq> 0 \<longrightarrow> (\<exists>len \<ge> unat n. heap_live s' = insert (unat r, len) (heap_live s) \<and>
       unat (kernel_heap s) + 24 \<le> unat r \<and> unat r + len \<le> unat (kernel_heap s) + unat (g_memory_heap_size s) \<and>
       (\<forall>(q, m) \<in> heap_live s. {unat r..<unat r + len} \<inter> {q..<q + m} = {})))"
  using kmalloc_spec [OF assms, of now caller n] by fast

theorem kmalloc_correct_witness:
  "\<exists>r s'. kmalloc 1 2 100 mem_boot = Some (r, s') \<and> mem_inv s' \<and>
    (r = 0 \<longrightarrow> s' = mem_boot \<and> (\<forall>b \<in> set (memory_head mem_boot). mb_free b \<longrightarrow>
       unat (mb_size b) < (max 1 (unat (100 :: u64)) + 15) div 16 * 16)) \<and>
    (r \<noteq> 0 \<longrightarrow> (\<exists>len \<ge> unat (100 :: u64). heap_live s' = insert (unat r, len) (heap_live mem_boot) \<and>
       unat (kernel_heap mem_boot) + 24 \<le> unat r \<and>
       unat r + len \<le> unat (kernel_heap mem_boot) + unat (g_memory_heap_size mem_boot) \<and>
       (\<forall>(q, m) \<in> heap_live mem_boot. {unat r..<unat r + len} \<inter> {q..<q + m} = {})))"
  by (rule kmalloc_correct [OF mem_boot_inv(1)])

text \<open>C37: freeing is exact: \<^verbatim>\<open>kfree\<close> of a pointer that \<^verbatim>\<open>kmalloc\<close> handed out removes that region and no
  other, keeps the invariant (so the freed block is merged with free neighbours), and deletes exactly that
  pointer from the leak tracker; any other pointer, a second free included, leaves the whole state
  unchanged.\<close>

theorem kfree_correct:
  assumes "mem_inv s"
  shows "((unat p, len) \<in> heap_live s \<longrightarrow> (\<exists>s'. kfree p s = Some s' \<and> mem_inv s' \<and>
       heap_live s' = heap_live s - {(unat p, len)} \<and> leak_live s' = {q \<in> leak_live s. fst q \<noteq> p})) \<and>
    (unat p \<notin> fst ` heap_live s \<longrightarrow> kfree p s = Some s)"
proof (intro conjI impI)
  assume "(unat p, len) \<in> heap_live s"
  from kfree_spec [OF assms this] show "\<exists>s'. kfree p s = Some s' \<and> mem_inv s' \<and>
    heap_live s' = heap_live s - {(unat p, len)} \<and> leak_live s' = {q \<in> leak_live s. fst q \<noteq> p}" by blast
next
  assume "unat p \<notin> fst ` heap_live s"
  then show "kfree p s = Some s" using assms by (intro kfree_foreign) (simp_all add: mem_inv_def)
qed

theorem kfree_correct_witness:
  "kfree 0x5000018 mem_boot = Some mem_boot \<and>
   (\<exists>r s1 s2. kmalloc 1 2 100 mem_boot = Some (r, s1) \<and> r \<noteq> 0 \<and> kfree r s1 = Some s2 \<and> mem_inv s2 \<and> heap_live s2 = {})"
proof -
  have 1: "kfree 0x5000018 mem_boot = Some mem_boot"
    using kfree_correct [OF mem_boot_inv(1), of "0x5000018"] mem_boot_inv(2) by simp
  obtain r s1 where k: "kmalloc 1 2 100 mem_boot = Some (r, s1)" "mem_inv s1"
    and z: "r = 0 \<longrightarrow> (\<forall>b \<in> set (memory_head mem_boot). mb_free b \<longrightarrow> unat (mb_size b) < (max 1 (unat (100 :: u64)) + 15) div 16 * 16)"
    and l: "r \<noteq> 0 \<longrightarrow> (\<exists>len. heap_live s1 = insert (unat r, len) (heap_live mem_boot))"
    using kmalloc_spec [OF mem_boot_inv(1), of 1 2 100] by blast
  have "r \<noteq> 0"
    using z by (auto simp: mem_boot_def memory_init_def KERNEL_BIOS_HEAP_BASE_def KERNEL_HEAP_SIZE_def BLOCK_HEADER_def)
  then obtain len where "heap_live s1 = {(unat r, len)}" using l mem_boot_inv(2) by auto
  then obtain s2 where "kfree r s1 = Some s2" "mem_inv s2" "heap_live s2 = {}"
    using kfree_correct [OF k(2), of r len] by auto
  with 1 k \<open>r \<noteq> 0\<close> show ?thesis by blast
qed

text \<open>The heap statistics are exact: in every state of the heap the bytes in use, the bytes that
  \<^verbatim>\<open>heap_info\<close> computes as free and one 24-byte header for each block add up to the heap size.\<close>

theorem heap_info_accounts:
  assumes "heap_inv s"
  shows "case heap_info s of (info, s') \<Rightarrow>
    unat (hi_used info) + unat (hi_free_bytes info) + 24 * length (memory_head s) = unat (hi_size info) \<and> heap_inv s'"
  using heap_accounts [OF assms] assms
  by (simp add: heap_info_def heap_refresh_def Let_def memory_total_free_def heap_inv_def)

theorem heap_info_accounts_witness:
  "case heap_info (kmem.extend mem_boot (kheap.fields undefined [])) of (info, s') \<Rightarrow>
    unat (hi_used info) + unat (hi_free_bytes info) + 24 * length (memory_head (kmem.extend mem_boot (kheap.fields undefined [])))
      = unat (hi_size info) \<and> heap_inv s'"
  by (rule heap_info_accounts)
    (use mem_boot_inv(1) in \<open>simp add: mem_inv_def heap_inv_def mem_boot_def memory_init_def kmem.defs kheap.defs split: prod.splits\<close>)

text \<open>On the BIOS layout the first allocation after boot, of any size up to 16 MiB, lies at 0x05000018:
  rounding sizes to \<^verbatim>\<open>KMALLOC_ALIGN\<close> does not align the pointers, because the 24-byte header shifts them to
  8 modulo 16.\<close>

theorem kmalloc_first_not_aligned:
  assumes "leak_inv s" "unat n \<le> 16777216"
  shows "\<exists>s'. kmalloc now caller n (memory_init 0 0 s) = Some (0x05000018, s') \<and> (0x05000018 :: u64) mod KMALLOC_ALIGN = 8"
proof -
  let ?n = "if n = 0 then 1 else n" and ?s = "memory_init 0 0 s"
  have a: "unat (align_up ?n) = (unat ?n + 15) div 16 * 16" "1 \<le> unat ?n" "unat ?n \<le> 16777216"
    using assms(2) unat_gt_0 [of n] by (auto simp: unat_align_up)
  have r: "1 \<le> k \<Longrightarrow> k \<le> 16777216 \<Longrightarrow> 1 \<le> (k + 15) div 16 * 16 \<and> (k + 15) div 16 * 16 \<le> 16777216" for k :: nat
    by presburger
  from r [OF a(2,3)] have b: "1 \<le> unat (align_up ?n)" "unat (align_up ?n) \<le> 16777216" unfolding a(1) by blast+
  have c: "KERNEL_HEAP_SIZE = 33554432" "KERNEL_BIOS_HEAP_BASE = 0x05000000" "BLOCK_HEADER = 24"
    by (simp_all add: KERNEL_HEAP_SIZE_def KERNEL_BIOS_HEAP_BASE_def BLOCK_HEADER_def)
  have nz: "align_up ?n \<noteq> 0" using b(1) by auto
  have hs: "\<not> align_up ?n > g_memory_heap_size ?s" using b(2) by (simp add: memory_init_def word_nat c)
  obtain bs x where x: "kmalloc_scan (align_up ?n) (memory_head ?s) = Some (bs, x)" "mb_addr x = 0x05000000"
    using kmalloc_scan_head [of "hd (memory_head ?s)" "align_up ?n" "[]"] b(2) by (auto simp: memory_init_def c word_nat)
  have li: "leak_inv ?s" using assms(1) by (simp add: memory_init_def leak_inv_def)
  have p0: "mb_addr x + BLOCK_HEADER \<noteq> 0" "mb_addr x + BLOCK_HEADER = 0x05000018" by (simp_all add: x(2) c)
  define t where "t = ?s\<lparr>memory_head := bs, g_memory_used := g_memory_used ?s + mb_size x,
    g_memory_high_water_used := (if g_memory_used ?s + mb_size x > g_memory_high_water_used ?s
      then g_memory_used ?s + mb_size x else g_memory_high_water_used ?s),
    g_memory_allocs := g_memory_allocs ?s + 1\<rparr>"
  note E = kmalloc_eq [OF nz hs x(1) p0(1), of now caller, folded t_def]
  have "leak_inv t" using li by (simp add: t_def)
  from leak_record_spec [OF this p0(1)] obtain s' where
    "leak_track_record now (mb_addr x + BLOCK_HEADER) (align_up ?n) caller t = Some s'" by blast
  then have "\<exists>s'. kmalloc now caller n ?s = Some (mb_addr x + BLOCK_HEADER, s')" using E by simp
  then show ?thesis by (auto simp: p0(2) KMALLOC_ALIGN_def)
qed

theorem kmalloc_first_not_aligned_witness:
  "\<exists>s'. kmalloc 0 0 64 (memory_init 0 0 mem_boot) = Some (0x05000018, s') \<and> (0x05000018 :: u64) mod KMALLOC_ALIGN = 8"
  by (rule kmalloc_first_not_aligned) (use mem_boot_inv(1) in \<open>simp_all add: mem_inv_def\<close>)

end
