(* ===== verification/Vm.thy ===== *)
theory Vm
  imports Memory
begin

text \<open>
  Per-process address spaces (\<^verbatim>\<open>kernel/mm/vm.c\<close>): the four-level page tables, the arena of 4 MiB user
  chunks, demand pages and copy-on-write sharing.  Physical memory is an explicit store of 64-bit
  words indexed by their physical address, so that page tables live where the code puts them, in
  frames of the frame allocator.  TLB invalidation has no effect in this model; the control register
  is a field of the state.  The kernel's own tables, which new address spaces clone, are the two
  static arrays of \<^verbatim>\<open>kernel/arch/mmu.c\<close>.  An address-space descriptor is passed in and returned, as
  the code updates it through a pointer.
\<close>

section \<open>State\<close>

record vm_address_space_t =
  as_pml4_phys :: u64
  as_user_phys_base :: u64
  as_active :: bool
  as_cow_shared :: bool
  as_demand_pages :: "u64 list"
  as_demand_count :: u32
  as_pt_pages :: "u64 list"
  as_pt_count :: u32

record kvm = kmem +
  phys_mem :: "u64 \<Rightarrow> u64"
  g_user_chunk_bitmap :: "u8 list"
  g_vm_initialised :: bool
  g_kernel_pml4_phys :: u64
  mmu_pml4_phys :: u64
  mmu_pdpt :: "u64 list"
  mmu_pd0 :: "u64 list"
  reg_cr3 :: u64

definition PAGE_PRESENT :: u64 where "PAGE_PRESENT = 0x001"
definition PAGE_WRITABLE :: u64 where "PAGE_WRITABLE = 0x002"
definition PAGE_USER :: u64 where "PAGE_USER = 0x004"
definition PAGE_LARGE_2M :: u64 where "PAGE_LARGE_2M = 0x080"
definition PAGE_COW_BIT :: u64 where "PAGE_COW_BIT = 0x200"

lemmas page_flags = PAGE_PRESENT_def PAGE_WRITABLE_def PAGE_USER_def PAGE_LARGE_2M_def PAGE_COW_BIT_def

definition VM_USER_BASE :: u64 where "VM_USER_BASE = 0x04000000"
definition VM_USER_SIZE :: u64 where "VM_USER_SIZE = 0x00400000"
definition VM_USER_LIMIT :: u64 where "VM_USER_LIMIT = VM_USER_BASE + VM_USER_SIZE"
definition VM_DEMAND_BEGIN :: u64 where "VM_DEMAND_BEGIN = VM_USER_LIMIT"
definition VM_DEMAND_END :: u64 where "VM_DEMAND_END = 0x100000000"
definition VM_DEMAND_MAX_PAGES :: nat where "VM_DEMAND_MAX_PAGES = 256"
definition VM_DEMAND_MAX_TABLES :: nat where "VM_DEMAND_MAX_TABLES = 64"
definition VM_USER_PHYS_BASE :: u64 where "VM_USER_PHYS_BASE = 0x08000000"
definition VM_USER_PHYS_SIZE :: u64 where "VM_USER_PHYS_SIZE = 0x10000000"
definition VM_USER_CHUNK_SIZE :: u64 where "VM_USER_CHUNK_SIZE = VM_USER_SIZE"
definition VM_USER_CHUNK_COUNT :: nat where "VM_USER_CHUNK_COUNT = 64"

lemmas vm_consts = VM_USER_BASE_def VM_USER_SIZE_def VM_USER_LIMIT_def VM_DEMAND_BEGIN_def VM_DEMAND_END_def
  VM_DEMAND_MAX_PAGES_def VM_DEMAND_MAX_TABLES_def VM_USER_PHYS_BASE_def VM_USER_PHYS_SIZE_def
  VM_USER_CHUNK_SIZE_def VM_USER_CHUNK_COUNT_def

section \<open>Physical memory\<close>

definition pt_read :: "u64 \<Rightarrow> u64 \<Rightarrow> 'z kvm_scheme \<Rightarrow> u64" where
  "pt_read base i s = phys_mem s (base + 8 * i)"

definition pt_write :: "u64 \<Rightarrow> u64 \<Rightarrow> u64 \<Rightarrow> 'z kvm_scheme \<Rightarrow> 'z kvm_scheme" where
  "pt_write base i v s = s\<lparr>phys_mem := (phys_mem s)(base + 8 * i := v)\<rparr>"

definition mem_zero :: "u64 \<Rightarrow> u64 \<Rightarrow> 'z kvm_scheme \<Rightarrow> 'z kvm_scheme" where
  "mem_zero base len s = s\<lparr>phys_mem := (\<lambda>a. if a - base < len then 0 else phys_mem s a)\<rparr>"

definition mem_copy :: "u64 \<Rightarrow> u64 \<Rightarrow> u64 \<Rightarrow> 'z kvm_scheme \<Rightarrow> 'z kvm_scheme" where
  "mem_copy dst src len s = s\<lparr>phys_mem := (\<lambda>a. if a - dst < len then phys_mem s (src + (a - dst)) else phys_mem s a)\<rparr>"

definition mem_load :: "u64 \<Rightarrow> u64 list \<Rightarrow> 'z kvm_scheme \<Rightarrow> 'z kvm_scheme" where
  "mem_load base ws s = s\<lparr>phys_mem := (\<lambda>a. if a - base < 4096 then ws ! (unat (a - base) div 8) else phys_mem s a)\<rparr>"

definition mmu_clone_pdpt :: "u64 \<Rightarrow> 'z kvm_scheme \<Rightarrow> 'z kvm_scheme" where
  "mmu_clone_pdpt dst s = pt_write dst 0 0 (mem_load dst (mmu_pdpt s) s)"

definition mmu_clone_pd0 :: "u64 \<Rightarrow> 'z kvm_scheme \<Rightarrow> 'z kvm_scheme" where
  "mmu_clone_pd0 dst s = pt_write dst 33 0 (pt_write dst 32 0 (mem_load dst (mmu_pd0 s) s))"

definition pml4_idx :: "u64 \<Rightarrow> u64" where "pml4_idx v = drop_bit 39 v AND 0x1FF"
definition pdpt_idx :: "u64 \<Rightarrow> u64" where "pdpt_idx v = drop_bit 30 v AND 0x1FF"
definition pd_idx :: "u64 \<Rightarrow> u64" where "pd_idx v = drop_bit 21 v AND 0x1FF"
definition pt_idx :: "u64 \<Rightarrow> u64" where "pt_idx v = drop_bit 12 v AND 0x1FF"

definition page_base :: "u64 \<Rightarrow> u64" where "page_base e = e AND NOT 0xFFF"

abbreviation present :: "u64 \<Rightarrow> bool" where "present e \<equiv> e AND PAGE_PRESENT \<noteq> 0"

abbreviation user_rw :: u64 where "user_rw \<equiv> PAGE_PRESENT OR PAGE_WRITABLE OR PAGE_USER"

section \<open>User chunks and address spaces\<close>

definition vm_alloc_user_chunk :: "'z kvm_scheme \<Rightarrow> int \<times> 'z kvm_scheme" where
  "vm_alloc_user_chunk s = (case find_index (\<lambda>b. b = 0) (g_user_chunk_bitmap s) of
       None \<Rightarrow> (-1, s)
     | Some i \<Rightarrow> (int i, s\<lparr>g_user_chunk_bitmap := (g_user_chunk_bitmap s)[i := 1]\<rparr>))"

definition vm_free_user_chunk :: "int \<Rightarrow> 'z kvm_scheme \<Rightarrow> 'z kvm_scheme" where
  "vm_free_user_chunk chunk s =
     (if chunk \<ge> 0 \<and> nat chunk < VM_USER_CHUNK_COUNT
      then s\<lparr>g_user_chunk_bitmap := (g_user_chunk_bitmap s)[nat chunk := 0]\<rparr> else s)"

definition vm_init :: "'z kvm_scheme \<Rightarrow> 'z kvm_scheme" where
  "vm_init s = s\<lparr>g_user_chunk_bitmap := replicate VM_USER_CHUNK_COUNT 0,
     g_kernel_pml4_phys := mmu_pml4_phys s, g_vm_initialised := True\<rparr>"

definition vm_empty_space :: vm_address_space_t where
  "vm_empty_space = \<lparr>as_pml4_phys = 0, as_user_phys_base = 0, as_active = False, as_cow_shared = False,
     as_demand_pages = replicate VM_DEMAND_MAX_PAGES 0, as_demand_count = 0,
     as_pt_pages = replicate VM_DEMAND_MAX_TABLES 0, as_pt_count = 0\<rparr>"

definition frame_drop :: "u64 \<Rightarrow> 'z kvm_scheme \<Rightarrow> 'z kvm_scheme" where
  "frame_drop p s = snd (frame_free p 1 s)"

definition vm_wire_tables :: "u64 \<Rightarrow> u64 \<Rightarrow> u64 \<Rightarrow> u64 \<Rightarrow> 'z kvm_scheme \<Rightarrow> 'z kvm_scheme" where
  "vm_wire_tables pml4 pdpt pd0 user_phys s =
     (let s = mem_zero pd0 4096 (mem_zero pdpt 4096 (mem_zero pml4 4096 s));
          s = mmu_clone_pd0 pd0 (mmu_clone_pdpt pdpt s);
          s = pt_write pml4 0 (pdpt OR user_rw) (pt_write pdpt 0 (pd0 OR user_rw) s);
          s = pt_write pd0 32 (user_phys OR user_rw OR PAGE_LARGE_2M) s;
          s = pt_write pd0 33 ((user_phys + 0x200000) OR user_rw OR PAGE_LARGE_2M) s
      in mem_zero user_phys VM_USER_SIZE s)"

definition vm_create_address_space ::
  "vm_address_space_t \<Rightarrow> 'z kvm_scheme \<Rightarrow> (bool \<times> vm_address_space_t \<times> 'z kvm_scheme) option" where
  "vm_create_address_space as s =
     (if \<not> g_vm_initialised s then Some (False, as, s)
      else do {
        (pml4, s) \<leftarrow> frame_alloc 1 s;
        (pdpt, s) \<leftarrow> frame_alloc 1 s;
        (pd0, s) \<leftarrow> frame_alloc 1 s;
        Some (if pml4 = 0 \<or> pdpt = 0 \<or> pd0 = 0
              then (let s = (if pml4 \<noteq> 0 then frame_drop pml4 s else s);
                        s = (if pdpt \<noteq> 0 then frame_drop pdpt s else s);
                        s = (if pd0 \<noteq> 0 then frame_drop pd0 s else s)
                    in (False, vm_empty_space, s))
              else (case vm_alloc_user_chunk s of (chunk, s) \<Rightarrow>
                if chunk < 0 then (False, vm_empty_space, frame_drop pd0 (frame_drop pdpt (frame_drop pml4 s)))
                else let user_phys = VM_USER_PHYS_BASE + word_of_int chunk * VM_USER_CHUNK_SIZE in
                  (True, vm_empty_space\<lparr>as_pml4_phys := pml4, as_user_phys_base := user_phys, as_active := True\<rparr>,
                   vm_wire_tables pml4 pdpt pd0 user_phys s)))
      })"

section \<open>Page-table walks\<close>

text \<open>The walk down to the page-directory entry; \<^const>\<open>None\<close> where an upper level is not present.\<close>

definition vm_walk_pde :: "u64 \<Rightarrow> u64 \<Rightarrow> 'z kvm_scheme \<Rightarrow> u64 option" where
  "vm_walk_pde pml4 vaddr s =
     (let pml4e = pt_read pml4 (pml4_idx vaddr) s in
      if \<not> present pml4e then None
      else let pdpte = pt_read (page_base pml4e) (pdpt_idx vaddr) s in
        if \<not> present pdpte then None
        else Some (pt_read (page_base pdpte) (pd_idx vaddr) s))"

definition vm_get_mapping :: "vm_address_space_t \<Rightarrow> u64 \<Rightarrow> 'z kvm_scheme \<Rightarrow> u64" where
  "vm_get_mapping as vaddr s =
     (if \<not> as_active as then 0
      else let vaddr = page_base vaddr in
        case vm_walk_pde (as_pml4_phys as) vaddr s of
          None \<Rightarrow> 0
        | Some pde \<Rightarrow>
            if \<not> present pde then 0
            else if pde AND 0x80 \<noteq> 0 then (pde AND NOT 0x1FFFFF) OR (vaddr AND 0x1FFFFF)
            else let pte = pt_read (page_base pde) (pt_idx vaddr) s in
              if \<not> present pte then 0 else page_base pte)"

definition vm_track_page_table :: "vm_address_space_t \<Rightarrow> u64 \<Rightarrow> vm_address_space_t" where
  "vm_track_page_table as pt_phys =
     (if unat (as_pt_count as) \<ge> VM_DEMAND_MAX_TABLES then as
      else as\<lparr>as_pt_pages := (as_pt_pages as)[unat (as_pt_count as) := pt_phys], as_pt_count := as_pt_count as + 1\<rparr>)"

definition vm_track_demand_page :: "vm_address_space_t \<Rightarrow> u64 \<Rightarrow> vm_address_space_t" where
  "vm_track_demand_page as vaddr =
     (if unat (as_demand_count as) < VM_DEMAND_MAX_PAGES
      then as\<lparr>as_demand_pages := (as_demand_pages as)[unat (as_demand_count as) := vaddr],
              as_demand_count := as_demand_count as + 1\<rparr>
      else as)"

text \<open>
  One level of the allocating walk: the entry at \<open>tab[i]\<close>, with a fresh zeroed table installed when it
  is not present; \<^const>\<open>None\<close> in the result when no frame is left.
\<close>

definition vm_level :: "u64 \<Rightarrow> u64 \<Rightarrow> vm_address_space_t \<Rightarrow> 'z kvm_scheme \<Rightarrow>
    (u64 option \<times> vm_address_space_t \<times> 'z kvm_scheme) option" where
  "vm_level tab i as s =
     (let e = pt_read tab i s in
      if present e then Some (Some e, as, s)
      else do {
        (new, s) \<leftarrow> frame_alloc 1 s;
        Some (if new = 0 then (None, as, s)
              else let s = pt_write tab i (new OR user_rw) (mem_zero new 4096 s)
                   in (Some (pt_read tab i s), vm_track_page_table as new, s))
      })"

text \<open>The allocating walk of \<^verbatim>\<open>vm_map_page\<close> and \<^verbatim>\<open>vm_cow_share\<close>: the page table for \<open>vaddr\<close>.\<close>

definition vm_walk_alloc :: "vm_address_space_t \<Rightarrow> u64 \<Rightarrow> 'z kvm_scheme \<Rightarrow>
    (u64 option \<times> vm_address_space_t \<times> 'z kvm_scheme) option" where
  "vm_walk_alloc as vaddr s =
     (let pml4e = pt_read (as_pml4_phys as) (pml4_idx vaddr) s in
      if \<not> present pml4e then Some (None, as, s)
      else do {
        (r, as, s) \<leftarrow> vm_level (page_base pml4e) (pdpt_idx vaddr) as s;
        case r of
          None \<Rightarrow> Some (None, as, s)
        | Some pdpte \<Rightarrow> do {
            let large = (present (pt_read (page_base pdpte) (pd_idx vaddr) s) \<and>
                         pt_read (page_base pdpte) (pd_idx vaddr) s AND PAGE_LARGE_2M \<noteq> 0);
            if large then Some (None, as, s)
            else do {
              (r, as, s) \<leftarrow> vm_level (page_base pdpte) (pd_idx vaddr) as s;
              Some (map_option page_base r, as, s)
            }
          }
      })"

definition vm_map_page :: "vm_address_space_t \<Rightarrow> u64 \<Rightarrow> u64 \<Rightarrow> u64 \<Rightarrow> 'z kvm_scheme \<Rightarrow>
    (bool \<times> vm_address_space_t \<times> 'z kvm_scheme) option" where
  "vm_map_page as vaddr paddr flags s =
     (if \<not> as_active as then Some (False, as, s)
      else do {
        let vaddr = page_base vaddr;
        let paddr = page_base paddr;
        (r, as, s) \<leftarrow> vm_walk_alloc as vaddr s;
        Some (case r of
            None \<Rightarrow> (False, as, s)
          | Some pt \<Rightarrow> (True, vm_track_demand_page as vaddr, pt_write pt (pt_idx vaddr) (paddr OR flags) s))
      })"

section \<open>Teardown\<close>

definition vm_free_demand_page :: "u64 \<Rightarrow> u64 \<Rightarrow> 'z kvm_scheme \<Rightarrow> 'z kvm_scheme" where
  "vm_free_demand_page pml4 vaddr s =
     (case vm_walk_pde pml4 vaddr s of
        None \<Rightarrow> s
      | Some pde \<Rightarrow>
          if \<not> present pde \<or> pde AND PAGE_LARGE_2M \<noteq> 0 then s
          else let pte = pt_read (page_base pde) (pt_idx vaddr) s in
            if \<not> present pte then s
            else if pte AND PAGE_COW_BIT = 0 then frame_drop (page_base pte) s else s)"

definition vm_free_table :: "u64 \<Rightarrow> 'z kvm_scheme \<Rightarrow> 'z kvm_scheme" where
  "vm_free_table pt s = (if pt \<noteq> 0 then frame_drop pt s else s)"

definition vm_get_pd0 :: "vm_address_space_t \<Rightarrow> 'z kvm_scheme \<Rightarrow> u64 option" where
  "vm_get_pd0 as s =
     (let pml4e = pt_read (as_pml4_phys as) 0 s in
      if \<not> present pml4e then None
      else let pdpte = pt_read (page_base pml4e) 0 s in
        if \<not> present pdpte then None else Some (page_base pdpte))"

text \<open>The private frames behind one window entry that a copy-on-write fault has split.\<close>

definition vm_free_split :: "u64 \<Rightarrow> u64 \<Rightarrow> 'z kvm_scheme \<Rightarrow> 'z kvm_scheme" where
  "vm_free_split pd0 i s =
     (let pde = pt_read pd0 i s in
      if present pde \<and> pde AND PAGE_LARGE_2M = 0
      then let pt = page_base pde;
               s = fold (\<lambda>j s. let e = pt_read pt (of_nat j) s in
                          if present e then frame_drop (page_base e) s else s) [0..<512] s
           in frame_drop pt s
      else s)"

definition vm_destroy_address_space :: "vm_address_space_t \<Rightarrow> 'z kvm_scheme \<Rightarrow> vm_address_space_t \<times> 'z kvm_scheme" where
  "vm_destroy_address_space as s =
     (if \<not> as_active as then (as, s)
      else let pages = take (min (unat (as_demand_count as)) VM_DEMAND_MAX_PAGES) (as_demand_pages as);
               s = fold (vm_free_demand_page (as_pml4_phys as)) pages s;
               tables = take (min (unat (as_pt_count as)) VM_DEMAND_MAX_TABLES) (as_pt_pages as);
               s = fold vm_free_table tables s;
               s = (if as_cow_shared as
                    then case vm_get_pd0 as s of None \<Rightarrow> s | Some pd0 \<Rightarrow> vm_free_split pd0 33 (vm_free_split pd0 32 s)
                    else if as_user_phys_base as \<ge> VM_USER_PHYS_BASE \<and>
                            as_user_phys_base as < VM_USER_PHYS_BASE + VM_USER_PHYS_SIZE
                    then vm_free_user_chunk (uint ((as_user_phys_base as - VM_USER_PHYS_BASE) div VM_USER_CHUNK_SIZE)) s
                    else s)
           in (as\<lparr>as_demand_count := 0, as_pt_count := 0, as_active := False, as_cow_shared := False,
                  as_pml4_phys := 0, as_user_phys_base := 0\<rparr>, s))"

section \<open>Switching, clearing and copying\<close>

definition vm_switch_to :: "vm_address_space_t option \<Rightarrow> 'z kvm_scheme \<Rightarrow> 'z kvm_scheme" where
  "vm_switch_to as s = s\<lparr>reg_cr3 := (case as of
       Some a \<Rightarrow> if as_active a then as_pml4_phys a else g_kernel_pml4_phys s
     | None \<Rightarrow> g_kernel_pml4_phys s)\<rparr>"

definition vm_current_pml4 :: "'z kvm_scheme \<Rightarrow> u64" where
  "vm_current_pml4 s = reg_cr3 s"

definition vm_zero_user_region :: "vm_address_space_t \<Rightarrow> 'z kvm_scheme \<Rightarrow> 'z kvm_scheme" where
  "vm_zero_user_region as s = (if \<not> as_active as then s else mem_zero (as_user_phys_base as) VM_USER_SIZE s)"

fun vm_copy_pages :: "vm_address_space_t \<Rightarrow> u64 list \<Rightarrow> vm_address_space_t \<Rightarrow> 'z kvm_scheme \<Rightarrow>
    (vm_address_space_t \<times> 'z kvm_scheme) option" where
  "vm_copy_pages src [] dst s = Some (dst, s)"
| "vm_copy_pages src (vpage # ps) dst s =
     (let src_pa = vm_get_mapping src vpage s in
      if src_pa = 0 then vm_copy_pages src ps dst s
      else do {
        (dst_pa, s) \<leftarrow> frame_alloc 1 s;
        if dst_pa = 0 then Some (dst, s)
        else do {
          (ok, dst, s) \<leftarrow> vm_map_page dst vpage dst_pa user_rw (mem_copy dst_pa src_pa 4096 s);
          if \<not> ok then Some (dst, frame_drop dst_pa s) else vm_copy_pages src ps dst s
        }
      })"

definition vm_copy_user_region :: "vm_address_space_t \<Rightarrow> vm_address_space_t \<Rightarrow> 'z kvm_scheme \<Rightarrow>
    (bool \<times> vm_address_space_t \<times> 'z kvm_scheme) option" where
  "vm_copy_user_region dst src s =
     (if \<not> as_active dst \<or> \<not> as_active src then Some (False, dst, s)
      else do {
        let s = mem_copy (as_user_phys_base dst) (as_user_phys_base src) VM_USER_SIZE s;
        (dst, s) \<leftarrow> vm_copy_pages src (take (min (unat (as_demand_count src)) VM_DEMAND_MAX_PAGES) (as_demand_pages src)) dst s;
        Some (True, dst, s)
      })"

section \<open>Copy on write\<close>

definition vm_cow_window :: "u64 \<Rightarrow> u64 \<Rightarrow> 'z kvm_scheme \<Rightarrow> 'z kvm_scheme" where
  "vm_cow_window parent_pd0 child_pd0 s =
     (let share = (\<lambda>i s. let s = pt_write child_pd0 i (pt_read parent_pd0 i s AND NOT (PAGE_WRITABLE OR PAGE_COW_BIT)) s
                          in pt_write child_pd0 i (pt_read child_pd0 i s OR PAGE_COW_BIT) s);
          protect = (\<lambda>i s. let s = pt_write parent_pd0 i (pt_read parent_pd0 i s AND NOT PAGE_WRITABLE) s
                            in pt_write parent_pd0 i (pt_read parent_pd0 i s OR PAGE_COW_BIT) s)
      in protect 33 (protect 32 (share 33 (share 32 s))))"

definition vm_protect_page :: "u64 \<Rightarrow> u64 \<Rightarrow> 'z kvm_scheme \<Rightarrow> 'z kvm_scheme" where
  "vm_protect_page pml4 vpage s =
     (let ppdpt = page_base (pt_read pml4 (pml4_idx vpage) s);
          ppd = page_base (pt_read ppdpt (pdpt_idx vpage) s);
          ppt = page_base (pt_read ppd (pd_idx vpage) s);
          s = pt_write ppt (pt_idx vpage) (pt_read ppt (pt_idx vpage) s AND NOT PAGE_WRITABLE) s
      in pt_write ppt (pt_idx vpage) (pt_read ppt (pt_idx vpage) s OR PAGE_COW_BIT) s)"

fun vm_cow_pages :: "vm_address_space_t \<Rightarrow> u64 list \<Rightarrow> vm_address_space_t \<Rightarrow> 'z kvm_scheme \<Rightarrow>
    (vm_address_space_t \<times> 'z kvm_scheme) option" where
  "vm_cow_pages parent [] child s = Some (child, s)"
| "vm_cow_pages parent (vpage # ps) child s =
     (let src_pa = vm_get_mapping parent vpage s in
      if src_pa = 0 then vm_cow_pages parent ps child s
      else do {
        (r, child, s) \<leftarrow> vm_walk_alloc child vpage s;
        case r of
          None \<Rightarrow> vm_cow_pages parent ps child s
        | Some pt \<Rightarrow>
            let s = pt_write pt (pt_idx vpage) (src_pa OR PAGE_PRESENT OR PAGE_USER OR PAGE_COW_BIT) s
            in vm_cow_pages parent ps (vm_track_demand_page child vpage) (vm_protect_page (as_pml4_phys parent) vpage s)
      })"

definition vm_cow_share :: "vm_address_space_t \<Rightarrow> vm_address_space_t \<Rightarrow> 'z kvm_scheme \<Rightarrow>
    (bool \<times> vm_address_space_t \<times> vm_address_space_t \<times> 'z kvm_scheme) option" where
  "vm_cow_share parent child s =
     (if \<not> as_active parent \<or> \<not> as_active child then Some (False, parent, child, s)
      else case (vm_get_pd0 parent s, vm_get_pd0 child s) of
        (Some parent_pd0, Some child_pd0) \<Rightarrow> do {
          let s = (if as_user_phys_base child \<ge> VM_USER_PHYS_BASE \<and>
                      as_user_phys_base child < VM_USER_PHYS_BASE + VM_USER_PHYS_SIZE
                   then vm_free_user_chunk (uint ((as_user_phys_base child - VM_USER_PHYS_BASE) div VM_USER_CHUNK_SIZE)) s
                   else s);
          let child = child\<lparr>as_user_phys_base := as_user_phys_base parent\<rparr>;
          let s = vm_cow_window parent_pd0 child_pd0 s;
          (child, s) \<leftarrow> vm_cow_pages parent
             (take (min (unat (as_demand_count parent)) VM_DEMAND_MAX_PAGES) (as_demand_pages parent)) child s;
          Some (True, parent\<lparr>as_cow_shared := True\<rparr>, child\<lparr>as_cow_shared := True\<rparr>, s)
        }
      | _ \<Rightarrow> Some (False, parent, child, s))"

fun cow_copy_frames :: "u64 \<Rightarrow> u64 \<Rightarrow> nat \<Rightarrow> nat \<Rightarrow> 'z kvm_scheme \<Rightarrow> (bool \<times> 'z kvm_scheme) option" where
  "cow_copy_frames src_phys new_pt j 0 s = Some (True, s)"
| "cow_copy_frames src_phys new_pt j (Suc n) s = do {
     (new_frame, s) \<leftarrow> frame_alloc 1 s;
     if new_frame = 0
     then Some (False, frame_drop new_pt (fold (\<lambda>k s. frame_drop (page_base (pt_read new_pt (of_nat k) s)) s) [0..<j] s))
     else cow_copy_frames src_phys new_pt (Suc j) n
            (pt_write new_pt (of_nat j) (new_frame OR user_rw) (mem_copy new_frame (src_phys + of_nat j * 4096) 4096 s))
   }"

definition vm_cow_fault_window :: "vm_address_space_t \<Rightarrow> u64 \<Rightarrow> u64 \<Rightarrow> 'z kvm_scheme \<Rightarrow>
    (bool \<times> vm_address_space_t \<times> 'z kvm_scheme) option" where
  "vm_cow_fault_window as pd0 fault_addr s =
     (let i = pd_idx fault_addr; pde = pt_read pd0 i s in
      if i \<noteq> 32 \<and> i \<noteq> 33 then Some (False, as, s)
      else if \<not> present pde \<or> pde AND PAGE_LARGE_2M = 0 \<or> pde AND PAGE_COW_BIT = 0 then Some (False, as, s)
      else do {
        (new_pt, s) \<leftarrow> frame_alloc 1 s;
        if new_pt = 0 then Some (False, as, s)
        else do {
          (ok, s) \<leftarrow> cow_copy_frames (pde AND NOT 0x1FFFFF) new_pt 0 512 (mem_zero new_pt 4096 s);
          Some (if \<not> ok then (False, as, s)
                else (True, vm_track_page_table as new_pt, pt_write pd0 i (new_pt OR user_rw) s))
        }
      })"

definition vm_cow_fault_page :: "vm_address_space_t \<Rightarrow> u64 \<Rightarrow> 'z kvm_scheme \<Rightarrow>
    (bool \<times> vm_address_space_t \<times> 'z kvm_scheme) option" where
  "vm_cow_fault_page as fault_addr s =
     (let vpage = page_base fault_addr in
      case vm_walk_pde (as_pml4_phys as) vpage s of
        None \<Rightarrow> Some (False, as, s)
      | Some pde \<Rightarrow>
          if \<not> present pde \<or> pde AND PAGE_LARGE_2M \<noteq> 0 then Some (False, as, s)
          else let pt = page_base pde; pte = pt_read pt (pt_idx vpage) s in
            if \<not> present pte \<or> pte AND PAGE_COW_BIT = 0 then Some (False, as, s)
            else do {
              (new_frame, s) \<leftarrow> frame_alloc 1 s;
              Some (if new_frame = 0 then (False, as, s)
                    else (True, as, pt_write pt (pt_idx vpage) (new_frame OR user_rw)
                                      (mem_copy new_frame (page_base pte) 4096 s)))
            })"

definition vm_handle_cow_fault :: "vm_address_space_t \<Rightarrow> u64 \<Rightarrow> u64 \<Rightarrow> 'z kvm_scheme \<Rightarrow>
    (bool \<times> vm_address_space_t \<times> 'z kvm_scheme) option" where
  "vm_handle_cow_fault as fault_addr error_code s =
     (if \<not> as_active as \<or> error_code AND 1 = 0 \<or> error_code AND 2 = 0 then Some (False, as, s)
      else case vm_get_pd0 as s of
        None \<Rightarrow> Some (False, as, s)
      | Some pd0 \<Rightarrow>
          if fault_addr \<ge> VM_USER_BASE \<and> fault_addr < VM_USER_LIMIT then vm_cow_fault_window as pd0 fault_addr s
          else if fault_addr \<ge> VM_DEMAND_BEGIN \<and> fault_addr < VM_DEMAND_END then vm_cow_fault_page as fault_addr s
          else Some (False, as, s))"

section \<open>Addresses and table slots\<close>

definition page_aligned :: "u64 \<Rightarrow> bool" where
  "page_aligned p \<longleftrightarrow> page_base p = p"

lemma page_mask: "(0xFFF :: u64) = mask 12"
  by (simp add: mask_eq_exp_minus_1)

lemma unat_page_base: "unat (page_base e) = unat e - unat e mod 4096"
  unfolding page_base_def page_mask unat_and_not_mask by simp

lemma page_aligned_unat: "page_aligned p \<longleftrightarrow> 4096 dvd unat p"
proof -
  have "page_aligned p \<longleftrightarrow> unat (page_base p) = unat p" by (simp add: page_aligned_def unat_inj_iff)
  moreover have "x - m = x \<longleftrightarrow> m = 0" if "m \<le> x" for x m :: nat using that by auto
  ultimately show ?thesis unfolding unat_page_base by (simp add: dvd_eq_mod_eq_0)
qed

lemma page_base_aligned [simp]: "page_aligned (page_base e)"
  unfolding page_aligned_unat unat_page_base by (rule dvd_minus_mod)

lemma idx_bounds [simp]:
  "unat (pml4_idx v) < 512" "unat (pdpt_idx v) < 512" "unat (pd_idx v) < 512" "unat (pt_idx v) < 512"
proof -
  have "unat (w AND 0x1FF) < 512" for w :: u64
  proof -
    have m: "(0x1FF :: u64) = mask 9" by (simp add: mask_eq_exp_minus_1)
    have "unat (take_bit 9 w) < 2 ^ 9" unfolding unsigned_take_bit_eq by (rule take_bit_nat_less_exp)
    then show ?thesis by (simp add: m take_bit_eq_mask)
  qed
  then show "unat (pml4_idx v) < 512" "unat (pdpt_idx v) < 512" "unat (pd_idx v) < 512" "unat (pt_idx v) < 512"
    by (simp_all add: pml4_idx_def pdpt_idx_def pd_idx_def pt_idx_def)
qed

lemma aligned_room:
  assumes "page_aligned p"
  shows "unat p + 4096 \<le> 18446744073709551616"
proof -
  obtain q where "unat p = 4096 * q" using assms unfolding page_aligned_unat by (rule dvdE)
  then show ?thesis using unat_u64_less [of p] by simp
qed

lemma unat_slot:
  assumes "page_aligned p" "unat i < 512"
  shows "unat (p + 8 * i) = unat p + 8 * unat i" "unat (p + 8 * i) div 4096 = unat p div 4096"
proof -
  have "unat (8 * i) = 8 * unat i" using assms(2) by (simp add: unat_word_ariths)
  then show e: "unat (p + 8 * i) = unat p + 8 * unat i"
    using aligned_room [OF assms(1)] assms(2) by (subst unat_add_u64) simp_all
  obtain q where "unat p = 4096 * q" using assms(1) unfolding page_aligned_unat by (rule dvdE)
  then show "unat (p + 8 * i) div 4096 = unat p div 4096" using e assms(2) by simp
qed

lemma in_page:
  assumes "page_aligned q"
  shows "a - q < 4096 \<longleftrightarrow> unat a div 4096 = unat q div 4096"
proof -
  obtain m where m: "unat q = 4096 * m" using assms unfolding page_aligned_unat by (rule dvdE)
  show ?thesis
  proof (cases "q \<le> a")
    case True
    then have u: "unat (a - q) = unat a - 4096 * m" "4096 * m \<le> unat a" using m by (simp_all add: unat_sub word_nat)
    have "(x - 4096 * m < 4096) = (x div 4096 = m)" if "4096 * m \<le> x" for x :: nat
    proof -
      have "x = (x - 4096 * m) + m * 4096" using that by simp
      then have "x div 4096 = (x - 4096 * m) div 4096 + m" by (metis add.commute div_mult_self1 zero_neq_numeral)
      then show ?thesis by (simp add: div_eq_0_iff)
    qed
    then show ?thesis using u m by (simp add: word_less_nat_alt)
  next
    case False
    then have lt: "unat a < 4096 * m" using m by (simp add: word_nat)
    then have "\<not> a - q < 4096"
      using aligned_room [OF assms] m unat_u64_less [of a] by (simp add: word_less_nat_alt unat_sub_if' word_nat)
    moreover have "unat a div 4096 \<noteq> unat q div 4096" using lt m by simp
    ultimately show ?thesis by blast
  qed
qed

lemma page_eq:
  assumes "page_aligned p" "page_aligned q"
  shows "unat p div 4096 = unat q div 4096 \<longleftrightarrow> p = q"
proof -
  obtain a b where "unat p = 4096 * a" "unat q = 4096 * b" using assms unfolding page_aligned_unat by (meson dvdE)
  then have "unat p div 4096 = unat q div 4096 \<longleftrightarrow> unat p = unat q" by simp
  then show ?thesis by (simp add: unat_inj_iff)
qed

lemma slot_eq:
  assumes "page_aligned p" "page_aligned q" "unat i < 512" "unat j < 512"
  shows "p + 8 * i = q + 8 * j \<longleftrightarrow> p = q \<and> i = j"
proof
  assume e: "p + 8 * i = q + 8 * j"
  then have "unat p div 4096 = unat q div 4096"
    using unat_slot(2) [OF assms(1,3)] unat_slot(2) [OF assms(2,4)] by simp
  then have "p = q" using page_eq [OF assms(1,2)] by simp
  moreover from this have "unat i = unat j" using e unat_slot(1) [OF assms(1,3)] unat_slot(1) [OF assms(2,4)] by simp
  ultimately show "p = q \<and> i = j" by (simp add: unat_inj_iff)
qed simp

lemma pt_read_write:
  assumes "page_aligned p" "page_aligned q" "unat i < 512" "unat j < 512"
  shows "pt_read p i (pt_write q j v s) = (if p = q \<and> i = j then v else pt_read p i s)"
  using slot_eq [OF assms] by (auto simp: pt_read_def pt_write_def)

lemma pt_read_zero:
  assumes "page_aligned p" "page_aligned q" "unat i < 512"
  shows "pt_read p i (mem_zero q 4096 s) = (if p = q then 0 else pt_read p i s)"
proof -
  show ?thesis
    using page_eq [OF assms(1,2)] in_page [OF assms(2), of "p + 8 * i"] unat_slot(2) [OF assms(1,3)] by (simp add: pt_read_def mem_zero_def)
qed

lemma present_bit: "present e \<longleftrightarrow> bit e 0"
  using bit_test_mask [of e 0] by (simp add: PAGE_PRESENT_def)

lemma entry_or:
  assumes "page_aligned n" "f AND NOT 0xFFF = 0"
  shows "page_base (n OR f) = n" "bit f 0 \<Longrightarrow> present (n OR f)"
proof -
  have "(n OR f) AND NOT 0xFFF = (n AND NOT 0xFFF) OR (f AND NOT 0xFFF)" by (simp only: bit.conj_disj_distrib2)
  then show "page_base (n OR f) = n" using assms by (simp add: page_base_def page_aligned_def)
  show "present (n OR f)" if "bit f 0" unfolding present_bit using that by (simp add: bit_or_iff)
qed

lemma user_rw_flags: "user_rw AND NOT 0xFFF = (0 :: u64)" "bit user_rw 0"
  by (simp_all add: page_flags)

lemma frame_addr_aligned: "k < 16384 \<Longrightarrow> page_aligned (frame_addr k)"
  using unat_frame_addr [of k] by (simp add: page_aligned_unat)

section \<open>Frames under an address space\<close>

lemma frame_vm_upd [simp]:
  "frame_inv (s\<lparr>phys_mem := m\<rparr>) = frame_inv s" "frames_used (s\<lparr>phys_mem := m\<rparr>) = frames_used s"
  "frame_inv (s\<lparr>g_user_chunk_bitmap := c\<rparr>) = frame_inv s" "frames_used (s\<lparr>g_user_chunk_bitmap := c\<rparr>) = frames_used s"
  by (simp_all add: frame_inv_def frame_map_ok_def frames_used_def)

lemma frame_store_upd [simp]:
  "frame_inv (pt_write b i v s) = frame_inv s" "frames_used (pt_write b i v s) = frames_used s"
  "frame_inv (mem_zero b n s) = frame_inv s" "frames_used (mem_zero b n s) = frames_used s"
  "frame_inv (mem_copy d b n s) = frame_inv s" "frames_used (mem_copy d b n s) = frames_used s"
  "frame_inv (mem_load b ws s) = frame_inv s" "frames_used (mem_load b ws s) = frames_used s"
  by (simp_all add: pt_write_def mem_zero_def mem_copy_def mem_load_def)

lemma chunk_store_upd [simp]:
  "g_user_chunk_bitmap (pt_write b i v s) = g_user_chunk_bitmap s"
  "g_user_chunk_bitmap (mem_zero b n s) = g_user_chunk_bitmap s"
  "g_user_chunk_bitmap (mem_copy d b n s) = g_user_chunk_bitmap s"
  "g_user_chunk_bitmap (mem_load b ws s) = g_user_chunk_bitmap s"
  by (simp_all add: pt_write_def mem_zero_def mem_copy_def mem_load_def)

lemma frame_only_vm:
  assumes "frame_only s s'"
  shows "phys_mem s' = phys_mem s" "g_user_chunk_bitmap s' = g_user_chunk_bitmap s"
    "g_vm_initialised s' = g_vm_initialised s" "g_kernel_pml4_phys s' = g_kernel_pml4_phys s"
    "mmu_pdpt s' = mmu_pdpt s" "mmu_pd0 s' = mmu_pd0 s" "reg_cr3 s' = reg_cr3 s"
  using assms by (auto elim!: frame_onlyE)

lemma pt_read_frame_only: "frame_only s s' \<Longrightarrow> pt_read p i s' = pt_read p i s"
  by (simp add: pt_read_def frame_only_vm)

lemma frame_alloc_one:
  assumes "frame_inv s"
  obtains
    (full) s' where "frame_alloc 1 s = Some (0, s')" "frame_inv s'" "frame_only s s'" "frames_used s' = frames_used s"
      "{..<16384} \<subseteq> frames_used s"
  | (new) k s' where "frame_alloc 1 s = Some (frame_addr k, s')" "frame_inv s'" "frame_only s s'" "k < 16384"
      "k \<notin> frames_used s" "frames_used s' = insert k (frames_used s)" "frame_addr k \<noteq> 0"
proof -
  have "(1 :: u32) \<noteq> 0" "unat (1 :: u32) \<le> 2147483648" by simp_all
  from frames.alloc_total [OF assms this, of 1] obtain r s' where
    a: "frame_alloc 1 s = Some (r, s')" "frame_inv s'" "frame_only s s'"
    and g: "frame_grant 1 (run_align 1) 16384 (frames_used s) r (frames_used s')"
    unfolding frame_alloc_def by auto
  show ?thesis
  proof (cases "r = 0")
    case True
    have "frame_addr k \<noteq> 0" if "k + 1 \<le> 16384" for k using frame_addr_nonzero that by simp
    then have "frames_used s' = frames_used s"
      and "\<forall>i. run_align 1 dvd i \<longrightarrow> i + 1 \<le> 16384 \<longrightarrow> {i..<i + 1} \<inter> frames_used s \<noteq> {}"
      using g True by (auto simp: frame_grant_def)
    moreover have "run_align 1 = 1" by (simp add: run_align_def)
    ultimately have "frames_used s' = frames_used s" "\<forall>i < 16384. i \<in> frames_used s" by auto
    then show ?thesis using full a True by blast
  next
    case False
    then obtain k where k: "r = frame_addr k" "k < 16384" "{k..<k + 1} \<inter> frames_used s = {}"
      "frames_used s' = frames_used s \<union> {k..<k + 1}"
      using g by (auto simp: frame_grant_def)
    moreover have "{k..<k + 1} = {k}" by auto
    ultimately show ?thesis using new a False by auto
  qed
qed

lemma frame_drop_spec:
  assumes "frame_inv s"
  shows "frame_inv (frame_drop p s)" "frame_only s (frame_drop p s)" "frames_used (frame_drop p s) \<subseteq> frames_used s"
    "k < 16384 \<Longrightarrow> k \<in> frames_used s \<Longrightarrow> frames_used (frame_drop (frame_addr k) s) = frames_used s - {k}"
proof -
  note K = frames.free_keeps [OF assms] and I = frames.free_iff [OF assms] and O = frames.free_owned [OF assms]
  obtain ok t where f: "frame_free p 1 s = (ok, t)" by (cases "frame_free p 1 s")
  show "frame_inv (frame_drop p s)" "frame_only s (frame_drop p s)" "frames_used (frame_drop p s) \<subseteq> frames_used s"
    using K [OF f] O [OF f] f by (auto simp: frame_drop_def)
  assume k: "k < 16384" "k \<in> frames_used s"
  obtain ok' u where g: "frame_free (frame_addr k) 1 s = (ok', u)" by (cases "frame_free (frame_addr k) 1 s")
  have one: "{k..<k + unat (1 :: u32)} = {k}" by auto
  have ok' using I [OF g] k one by auto
  then show "frames_used (frame_drop (frame_addr k) s) = frames_used s - {k}"
    using O [OF g] g addr_frames_addr [OF k(1)] one by (simp add: frame_drop_def)
qed

lemma frame_only_drop: "frame_inv s \<Longrightarrow> frame_only t s \<Longrightarrow> frame_only t (frame_drop p s)"
  using frame_drop_spec(2) frame_only_trans by blast

section \<open>Creating an address space\<close>

definition vm_chunks :: "'z kvm_scheme \<Rightarrow> nat set" where
  "vm_chunks s = {i. i < length (g_user_chunk_bitmap s) \<and> g_user_chunk_bitmap s ! i \<noteq> 0}"

definition vm_inv :: "'z kvm_scheme \<Rightarrow> bool" where
  "vm_inv s \<longleftrightarrow> frame_inv s \<and> length (g_user_chunk_bitmap s) = VM_USER_CHUNK_COUNT"

lemma vm_alloc_user_chunk_spec:
  assumes "length (g_user_chunk_bitmap s) = VM_USER_CHUNK_COUNT" "vm_alloc_user_chunk s = (c, s')"
  obtains (full) "c = -1" "s' = s" "vm_chunks s = {..<64}"
  | (new) i where "c = int i" "i < 64" "i \<notin> vm_chunks s" "vm_chunks s' = insert i (vm_chunks s)"
      "s' = s\<lparr>g_user_chunk_bitmap := (g_user_chunk_bitmap s)[i := 1]\<rparr>"
proof (cases "find_index (\<lambda>b. b = 0) (g_user_chunk_bitmap s)")
  case None
  then have "vm_chunks s = {..<64}"
    using assms(1) by (auto simp: find_index_None_iff vm_chunks_def VM_USER_CHUNK_COUNT_def)
  then show ?thesis using full assms(2) None by (simp add: vm_alloc_user_chunk_def)
next
  case (Some i)
  note F = find_index_SomeD [OF Some]
  have "s' = s\<lparr>g_user_chunk_bitmap := (g_user_chunk_bitmap s)[i := 1]\<rparr>" "c = int i"
    using assms(2) Some by (auto simp: vm_alloc_user_chunk_def)
  moreover from this have "vm_chunks s' = insert i (vm_chunks s)"
    using F(1) by (auto simp: vm_chunks_def nth_list_update)
  ultimately show ?thesis using new F assms(1) by (auto simp: vm_chunks_def VM_USER_CHUNK_COUNT_def)
qed

lemma wire_tables_keeps [simp]:
  "frame_inv (vm_wire_tables a b c u s) = frame_inv s" "frames_used (vm_wire_tables a b c u s) = frames_used s"
  "g_user_chunk_bitmap (vm_wire_tables a b c u s) = g_user_chunk_bitmap s"
  by (simp_all add: vm_wire_tables_def mmu_clone_pdpt_def mmu_clone_pd0_def Let_def)

lemma vm_chunks_frame_only: "frame_only s s' \<Longrightarrow> vm_chunks s' = vm_chunks s"
  by (simp add: vm_chunks_def frame_only_vm)

text \<open>Dropping frames that were just handed out restores the allocator.\<close>

lemma drop_new_frames:
  assumes "frame_inv s" "frames_used s = U \<union> frame_set" "U \<inter> frame_set = {}" "distinct ks"
    "set ks = frame_set" "\<forall>k \<in> frame_set. k < 16384"
  shows "frames_used (fold frame_drop (map frame_addr ks) s) = U \<and> frame_inv (fold frame_drop (map frame_addr ks) s) \<and>
    frame_only s (fold frame_drop (map frame_addr ks) s)"
  using assms
proof (induction ks arbitrary: s frame_set)
  case (Cons k ks)
  let ?t = "frame_drop (frame_addr k) s"
  have k: "k < 16384" "k \<in> frames_used s" using Cons.prems(2,5,6) by auto
  note D = frame_drop_spec [OF Cons.prems(1)]
  have "frames_used ?t = U \<union> (frame_set - {k})" using D(4) [OF k] Cons.prems(2,3,5) by auto
  from Cons.IH [OF D(1) this] have "frames_used (fold frame_drop (map frame_addr ks) ?t) = U \<and>
      frame_inv (fold frame_drop (map frame_addr ks) ?t) \<and> frame_only ?t (fold frame_drop (map frame_addr ks) ?t)"
    using Cons.prems(3-6) by auto
  then show ?case using frame_only_trans [OF D(2)] by auto
qed auto

text \<open>Frames \<open>ks\<close> were handed out on top of \<open>U\<close>; \<open>ps\<close> are the results, 0 for a failed request.\<close>

definition frames_grown :: "nat set \<Rightarrow> u64 list \<Rightarrow> nat list \<Rightarrow> 'z kvm_scheme \<Rightarrow> bool" where
  "frames_grown U ps ks s \<longleftrightarrow> frame_inv s \<and> frames_used s = U \<union> set ks \<and> U \<inter> set ks = {} \<and> distinct ks \<and>
     (\<forall>k \<in> set ks. k < 16384) \<and> map frame_addr ks = filter (\<lambda>p. p \<noteq> 0) ps \<and>
     (0 \<in> set ps \<longrightarrow> {..<16384} \<subseteq> frames_used s)"

lemma frames_grow:
  assumes "frames_grown U ps ks s"
  shows "\<exists>p s' ks'. frame_alloc 1 s = Some (p, s') \<and> frame_only s s' \<and> frames_grown U (ps @ [p]) ks' s'"
proof -
  have "frame_inv s" using assms by (simp add: frames_grown_def)
  then show ?thesis
  proof (cases rule: frame_alloc_one)
    case (full s')
    then show ?thesis using assms by (intro exI [of _ 0] exI [of _ s'] exI [of _ ks]) (simp add: frames_grown_def)
  next
    case (new k s')
    then show ?thesis using assms
      by (intro exI [of _ "frame_addr k"] exI [of _ s'] exI [of _ "ks @ [k]"]) (auto simp: frames_grown_def)
  qed
qed

lemma three_frames:
  assumes "frame_inv s"
  obtains p1 p2 p3 s1 s2 s3 ks where "frame_alloc 1 s = Some (p1, s1)" "frame_alloc 1 s1 = Some (p2, s2)"
    "frame_alloc 1 s2 = Some (p3, s3)" "frame_only s s3" "frames_grown (frames_used s) [p1, p2, p3] ks s3"
proof -
  have "frames_grown (frames_used s) [] [] s" using assms by (simp add: frames_grown_def)
  then obtain p1 s1 k1 where 1: "frame_alloc 1 s = Some (p1, s1)" "frame_only s s1" "frames_grown (frames_used s) [p1] k1 s1"
    using frames_grow by fastforce
  then obtain p2 s2 k2 where 2: "frame_alloc 1 s1 = Some (p2, s2)" "frame_only s1 s2" "frames_grown (frames_used s) [p1, p2] k2 s2"
    using frames_grow by fastforce
  then obtain p3 s3 k3 where 3: "frame_alloc 1 s2 = Some (p3, s3)" "frame_only s2 s3" "frames_grown (frames_used s) [p1, p2, p3] k3 s3"
    using frames_grow by fastforce
  show ?thesis using that 1 2 3 frame_only_trans by blast
qed

lemma frames_grown_undo:
  assumes "frames_grown U ps ks s"
  defines "t \<equiv> fold frame_drop (filter (\<lambda>p. p \<noteq> 0) ps) s"
  shows "frames_used t = U" "frame_inv t" "frame_only s t"
  using drop_new_frames [of s U "set ks" ks] assms(1) unfolding frames_grown_def t_def by auto

text \<open>What creating an address space promises: all or nothing.\<close>

definition space_created :: "vm_address_space_t \<Rightarrow> 'z kvm_scheme \<Rightarrow> 'z kvm_scheme \<Rightarrow> bool" where
  "space_created as s s' \<longleftrightarrow> (\<exists>k1 k2 k3 c t. {k1, k2, k3} \<subseteq> {..<16384} - frames_used s \<and> distinct [k1, k2, k3] \<and>
     frames_used s' = frames_used s \<union> {k1, k2, k3} \<and> c < 64 \<and> c \<notin> vm_chunks s \<and> vm_chunks s' = insert c (vm_chunks s) \<and>
     as = vm_empty_space\<lparr>as_pml4_phys := frame_addr k1, as_user_phys_base := VM_USER_PHYS_BASE + of_nat c * VM_USER_CHUNK_SIZE,
            as_active := True\<rparr> \<and>
     mmu_pd0 t = mmu_pd0 s \<and> mmu_pdpt t = mmu_pdpt s \<and>
     s' = vm_wire_tables (frame_addr k1) (frame_addr k2) (frame_addr k3) (as_user_phys_base as) t)"

lemma vm_create_spec:
  assumes inv: "vm_inv s" and ini: "g_vm_initialised s"
  shows "\<exists>ok as' s'. vm_create_address_space as s = Some (ok, as', s') \<and> vm_inv s' \<and>
    (if ok then space_created as' s s'
     else frames_used s' = frames_used s \<and> vm_chunks s' = vm_chunks s \<and> phys_mem s' = phys_mem s \<and> \<not> as_active as' \<and>
       (card ({..<16384} - frames_used s) < 3 \<or> vm_chunks s = {..<64}))"
proof -
  have fi: "frame_inv s" and len: "length (g_user_chunk_bitmap s) = VM_USER_CHUNK_COUNT" using inv by (auto simp: vm_inv_def)
  obtain p1 p2 p3 s1 s2 s3 ks where a: "frame_alloc 1 s = Some (p1, s1)" "frame_alloc 1 s1 = Some (p2, s2)"
    "frame_alloc 1 s2 = Some (p3, s3)" and o3: "frame_only s s3" and g: "frames_grown (frames_used s) [p1, p2, p3] ks s3"
    using three_frames [OF fi] .
  define t where "t = fold frame_drop (filter (\<lambda>p. p \<noteq> 0) [p1, p2, p3]) s3"
  have ot: "frame_only s t" "frames_used t = frames_used s" "frame_inv t"
    using frames_grown_undo [OF g] frame_only_trans [OF o3] unfolding t_def by auto
  have fail: ?thesis if "vm_create_address_space as s = Some (False, vm_empty_space, t)"
    "card ({..<16384} - frames_used s) < 3 \<or> vm_chunks s = {..<64}"
    using that ot frame_only_vm [OF ot(1)] vm_chunks_frame_only [OF ot(1)] len by (auto simp: vm_inv_def vm_empty_space_def)
  show ?thesis
  proof (cases "p1 = 0 \<or> p2 = 0 \<or> p3 = 0")
    case True
    then have "vm_create_address_space as s = Some (False, vm_empty_space, t)"
      using ini a by (auto simp: vm_create_address_space_def t_def Let_def)
    moreover have "card ({..<16384} - frames_used s) < 3"
    proof -
      have "{..<16384} - frames_used s \<subseteq> set ks" using True g by (auto simp: frames_grown_def)
      then have "card ({..<16384} - frames_used s) \<le> length ks" by (meson List.finite_set card_length card_mono order_trans)
      also have "length ks = length (filter (\<lambda>p. p \<noteq> 0) [p1, p2, p3])" using g by (metis frames_grown_def length_map)
      also have "\<dots> < 3" using True by auto
      finally show ?thesis .
    qed
    ultimately show ?thesis using fail by blast
  next
    case False
    then have "map frame_addr ks = [p1, p2, p3]" using g by (simp add: frames_grown_def)
    then obtain k1 k2 k3 where ks: "ks = [k1, k2, k3]" "p1 = frame_addr k1" "p2 = frame_addr k2" "p3 = frame_addr k3"
      by (auto simp: map_eq_Cons_conv)
    obtain c u where c: "vm_alloc_user_chunk s3 = (c, u)" by (cases "vm_alloc_user_chunk s3")
    have len3: "length (g_user_chunk_bitmap s3) = VM_USER_CHUNK_COUNT" using len frame_only_vm(2) [OF o3] by simp
    from len3 c show ?thesis
    proof (cases rule: vm_alloc_user_chunk_spec)
      case full
      then have "vm_create_address_space as s = Some (False, vm_empty_space, t)"
        using False ini a c by (auto simp: vm_create_address_space_def t_def)
      then show ?thesis using fail full(3) vm_chunks_frame_only [OF o3] by blast
    next
      case (new i)
      let ?u = "VM_USER_PHYS_BASE + of_nat i * VM_USER_CHUNK_SIZE"
      let ?as = "vm_empty_space\<lparr>as_pml4_phys := p1, as_user_phys_base := ?u, as_active := True\<rparr>"
      have r: "vm_create_address_space as s = Some (True, ?as, vm_wire_tables p1 p2 p3 ?u u)"
        using False ini a c new(1) by (auto simp: vm_create_address_space_def Let_def)
      have "vm_chunks (vm_wire_tables p1 p2 p3 ?u u) = insert i (vm_chunks s)"
        using new(4) vm_chunks_frame_only [OF o3] by (simp add: vm_chunks_def)
      moreover have "mmu_pd0 u = mmu_pd0 s" "mmu_pdpt u = mmu_pdpt s" using new(5) frame_only_vm [OF o3] by simp_all
      moreover have "frames_used u = frames_used s \<union> {k1, k2, k3}" "{k1, k2, k3} \<subseteq> {..<16384} - frames_used s" "distinct [k1, k2, k3]"
        using g ks(1) new(5) by (auto simp: frames_grown_def)
      ultimately have "space_created ?as s (vm_wire_tables p1 p2 p3 ?u u)"
        using new(2,3) vm_chunks_frame_only [OF o3] unfolding space_created_def ks(2-4)
        by (intro exI [of _ k1] exI [of _ k2] exI [of _ k3] exI [of _ i] exI [of _ u]) simp
      moreover have "vm_inv (vm_wire_tables p1 p2 p3 ?u u)" using g new(5) len3 by (simp add: vm_inv_def frames_grown_def)
      ultimately show ?thesis using r by auto
    qed
  qed
qed

section \<open>Mapping a page\<close>

text \<open>A page that may hold a table: page aligned, and not a frame that the allocator could hand out.\<close>

definition table_page :: "'z kvm_scheme \<Rightarrow> u64 \<Rightarrow> bool" where
  "table_page s p \<longleftrightarrow> page_aligned p \<and> (\<forall>k < 16384. p = frame_addr k \<longrightarrow> k \<in> frames_used s)"

lemma table_page_aligned: "table_page s p \<Longrightarrow> page_aligned p"
  by (simp add: table_page_def)

lemma table_page_fresh: "table_page s p \<Longrightarrow> k < 16384 \<Longrightarrow> k \<notin> frames_used s \<Longrightarrow> p \<noteq> frame_addr k"
  by (auto simp: table_page_def)

lemma table_page_mono: "table_page s p \<Longrightarrow> frames_used s \<subseteq> frames_used s' \<Longrightarrow> table_page s' p"
  by (auto simp: table_page_def)

lemma table_page_frame:
  assumes "k < 16384" "k \<in> frames_used s"
  shows "table_page s (frame_addr k)"
proof -
  have "j = k" if "j < 16384" "frame_addr k = frame_addr j" for j
  proof -
    have "unat (frame_addr k) = unat (frame_addr j)" using that(2) by (rule arg_cong)
    then show ?thesis unfolding unat_frame_addr [OF assms(1)] unat_frame_addr [OF that(1)] by linarith
  qed
  then show ?thesis unfolding table_page_def using assms(2) frame_addr_aligned [OF assms(1)] by blast
qed

lemma vm_level_cases:
  assumes inv: "frame_inv s" and tab: "table_page s tab" "unat i < 512"
  obtains
    (found) "present (pt_read tab i s)" "vm_level tab i as s = Some (Some (pt_read tab i s), as, s)"
  | (full) s' where "\<not> present (pt_read tab i s)" "vm_level tab i as s = Some (None, as, s')" "frame_only s s'"
      "frame_inv s'" "frames_used s' = frames_used s" "{..<16384} \<subseteq> frames_used s"
  | (fresh) k s' where "\<not> present (pt_read tab i s)" "k < 16384" "k \<notin> frames_used s" "frame_inv s'"
      "vm_level tab i as s = Some (Some (frame_addr k OR user_rw), vm_track_page_table as (frame_addr k), s')"
      "frames_used s' = insert k (frames_used s)"
      "\<And>p j. table_page s p \<Longrightarrow> unat j < 512 \<Longrightarrow>
         pt_read p j s' = (if p = tab \<and> j = i then frame_addr k OR user_rw else pt_read p j s)"
      "\<And>j. unat j < 512 \<Longrightarrow> pt_read (frame_addr k) j s' = 0"
proof (cases "present (pt_read tab i s)")
  case True
  then show ?thesis using found by (simp add: vm_level_def)
next
  case False
  from inv show ?thesis
  proof (cases rule: frame_alloc_one)
    case (full s')
    then show ?thesis using that(2) False by (simp add: vm_level_def)
  next
    case (new k t)
    let ?s = "pt_write tab i (frame_addr k OR user_rw) (mem_zero (frame_addr k) 4096 t)"
    note al = table_page_aligned [OF tab(1)] frame_addr_aligned [OF new(4)]
    have ne: "p \<noteq> frame_addr k" if "table_page s p" for p using table_page_fresh [OF that new(4,5)] .
    have rd: "pt_read p j ?s = (if p = tab \<and> j = i then frame_addr k OR user_rw else pt_read p j s)"
      if "table_page s p" "unat j < 512" for p j
      using ne [OF that(1)] table_page_aligned [OF that(1)] al tab(2) that(2) pt_read_frame_only [OF new(3)]
      by (simp add: pt_read_write pt_read_zero)
    have rn: "pt_read (frame_addr k) j ?s = 0" if "unat j < 512" for j
      using ne [OF tab(1)] al tab(2) that by (simp add: pt_read_write pt_read_zero)
    have L: "vm_level tab i as s = Some (Some (frame_addr k OR user_rw), vm_track_page_table as (frame_addr k), ?s)"
      using False new(1,7) rd [OF tab] by (simp add: vm_level_def Let_def)
    show ?thesis by (rule fresh [OF False new(4,5) _ L _ rd rn]) (use new(2,6) in simp_all)
  qed
qed

text \<open>The tables on the walk to \<open>v\<close> lie on different pages, none of them free.\<close>

definition vm_path_ok :: "u64 \<Rightarrow> u64 \<Rightarrow> 'z kvm_scheme \<Rightarrow> bool" where
  "vm_path_ok p4 v s \<longleftrightarrow> table_page s p4 \<and>
     (let e4 = pt_read p4 (pml4_idx v) s; p3 = page_base e4 in present e4 \<longrightarrow> table_page s p3 \<and> p3 \<noteq> p4 \<and>
       (let e3 = pt_read p3 (pdpt_idx v) s; p2 = page_base e3 in present e3 \<longrightarrow> table_page s p2 \<and> p2 \<notin> {p3, p4} \<and>
         (let e2 = pt_read p2 (pd_idx v) s; p1 = page_base e2 in present e2 \<and> e2 AND PAGE_LARGE_2M = 0 \<longrightarrow>
            table_page s p1 \<and> p1 \<notin> {p2, p3, p4})))"

lemma track_table_fields [simp]:
  "as_active (vm_track_page_table as t) = as_active as" "as_pml4_phys (vm_track_page_table as t) = as_pml4_phys as"
  "as_active (vm_track_demand_page as v) = as_active as" "as_pml4_phys (vm_track_demand_page as v) = as_pml4_phys as"
  "as_cow_shared (vm_track_page_table as t) = as_cow_shared as" "as_cow_shared (vm_track_demand_page as v) = as_cow_shared as"
  "as_user_phys_base (vm_track_page_table as t) = as_user_phys_base as"
  "as_user_phys_base (vm_track_demand_page as v) = as_user_phys_base as"
  by (simp_all add: vm_track_page_table_def vm_track_demand_page_def)

lemma new_entry:
  assumes "k < 16384"
  defines "e \<equiv> frame_addr k OR user_rw"
  shows "present e" "page_base e = frame_addr k" "e AND PAGE_LARGE_2M = 0"
proof -
  note al = frame_addr_aligned [OF assms(1)]
  show "present e" "page_base e = frame_addr k"
    using entry_or [OF al user_rw_flags(1)] user_rw_flags(2) unfolding e_def by blast+
  have "frame_addr k AND PAGE_LARGE_2M = (frame_addr k AND NOT 0xFFF) AND PAGE_LARGE_2M"
    using al by (simp add: page_aligned_def page_base_def)
  also have "\<dots> = frame_addr k AND (NOT 0xFFF AND PAGE_LARGE_2M)" by (simp add: and.assoc)
  also have "NOT 0xFFF AND PAGE_LARGE_2M = (0 :: u64)" by (simp add: PAGE_LARGE_2M_def)
  finally have "frame_addr k AND PAGE_LARGE_2M = 0" by simp
  moreover have "user_rw AND PAGE_LARGE_2M = 0" by (simp add: page_flags)
  ultimately show "e AND PAGE_LARGE_2M = 0" unfolding e_def by (simp add: bit.conj_disj_distrib2)
qed

lemma vm_walk_alloc_path:
  assumes inv: "frame_inv s" and ok: "vm_path_ok (as_pml4_phys as) v s"
    and res: "vm_walk_alloc as v s = Some (Some pt, as', s')"
  defines "p4 \<equiv> as_pml4_phys as"
  shows "\<exists>p3 p2 e4 e3 e2. pt_read p4 (pml4_idx v) s' = e4 \<and> present e4 \<and> p3 = page_base e4 \<and>
    pt_read p3 (pdpt_idx v) s' = e3 \<and> present e3 \<and> p2 = page_base e3 \<and>
    pt_read p2 (pd_idx v) s' = e2 \<and> present e2 \<and> e2 AND PAGE_LARGE_2M = 0 \<and> pt = page_base e2 \<and>
    page_aligned p4 \<and> pt \<notin> {p2, p3, p4} \<and> as_active as' = as_active as \<and> as_pml4_phys as' = p4"
proof -
  let ?e4 = "pt_read p4 (pml4_idx v) s"
  have e4: "present ?e4" using res by (auto simp: vm_walk_alloc_def p4_def Let_def split: if_splits)
  define p3 where "p3 = page_base ?e4"
  have P: "table_page s p4" "table_page s p3" "p3 \<noteq> p4" using ok e4 by (auto simp: vm_path_ok_def p4_def p3_def Let_def)
  obtain e3 as1 s1 where l3: "vm_level p3 (pdpt_idx v) as s = Some (Some e3, as1, s1)"
    and large: "\<not> (present (pt_read (page_base e3) (pd_idx v) s1) \<and> pt_read (page_base e3) (pd_idx v) s1 AND PAGE_LARGE_2M \<noteq> 0)"
    and l2: "\<exists>e2. vm_level (page_base e3) (pd_idx v) as1 s1 = Some (Some e2, as', s') \<and> pt = page_base e2"
    using res e4 unfolding vm_walk_alloc_def Let_def p4_def [symmetric] p3_def [symmetric]
    by (auto split: Option.bind_splits option.splits if_splits)
  define p2 where "p2 = page_base e3"
  \<comment> \<open>after the first level\<close>
  have 1: "frame_inv s1 \<and> present e3 \<and> pt_read p3 (pdpt_idx v) s1 = e3 \<and> pt_read p4 (pml4_idx v) s1 = ?e4 \<and>
    table_page s1 p4 \<and> table_page s1 p3 \<and> table_page s1 p2 \<and> p2 \<notin> {p3, p4} \<and>
    (present (pt_read p2 (pd_idx v) s1) \<longrightarrow> table_page s1 (page_base (pt_read p2 (pd_idx v) s1)) \<and>
       page_base (pt_read p2 (pd_idx v) s1) \<notin> {p2, p3, p4}) \<and>
    as_active as1 = as_active as \<and> as_pml4_phys as1 = p4"
    using inv P(2) idx_bounds(2)
  proof (cases rule: vm_level_cases [where as = as and i = "pdpt_idx v"])
    case found
    then have "e3 = pt_read p3 (pdpt_idx v) s" "as1 = as" "s1 = s" using l3 by simp_all
    then show ?thesis using found(1) ok e4 P inv large unfolding vm_path_ok_def p4_def [symmetric] p3_def [symmetric] p2_def Let_def
      by (auto simp: p4_def p2_def)
  next
    case (full t)
    then show ?thesis using l3 by simp
  next
    case (fresh k t)
    then have eq: "e3 = frame_addr k OR user_rw" "as1 = vm_track_page_table as (frame_addr k)" "s1 = t" using l3 by simp_all
    have p2: "p2 = frame_addr k" using new_entry [OF fresh(2)] eq(1) by (simp add: p2_def)
    have t: "table_page s1 p4" "table_page s1 p3" "table_page s1 p2"
      using table_page_mono P(1,2) fresh(2,6) eq(3) table_page_frame [OF fresh(2)] p2 by blast+
    have "p2 \<noteq> p3" "p2 \<noteq> p4" using table_page_fresh [OF _ fresh(2,3)] P(1,2) p2 by blast+
    moreover have "pt_read p2 (pd_idx v) s1 = 0" using fresh(8) [OF idx_bounds(3)] eq(3) p2 by simp
    ultimately show ?thesis
      using t fresh(4,7) P new_entry(1) [OF fresh(2)] eq by (simp add: p4_def)
  qed
  obtain e2 where e2: "vm_level p2 (pd_idx v) as1 s1 = Some (Some e2, as', s')" "pt = page_base e2" using l2 p2_def by blast
  have inv1: "frame_inv s1" and tp: "table_page s1 p2" using 1 by blast+
  from inv1 tp idx_bounds(3) have "present e2 \<and> e2 AND PAGE_LARGE_2M = 0 \<and> pt_read p2 (pd_idx v) s' = e2 \<and> pt_read p3 (pdpt_idx v) s' = e3 \<and>
    pt_read p4 (pml4_idx v) s' = ?e4 \<and> pt \<notin> {p2, p3, p4} \<and> as_active as' = as_active as \<and> as_pml4_phys as' = p4"
  proof (cases rule: vm_level_cases [where as = as1 and i = "pd_idx v"])
    case found
    then have "e2 = pt_read p2 (pd_idx v) s1" "as' = as1" "s' = s1" using e2(1) by simp_all
    then show ?thesis using found(1) 1 large e2(2) by (auto simp: p2_def)
  next
    case (full t)
    then show ?thesis using e2 by simp
  next
    case (fresh k t)
    then have eq: "e2 = frame_addr k OR user_rw" "as' = vm_track_page_table as1 (frame_addr k)" "s' = t" using e2(1) by simp_all
    have pt: "pt = frame_addr k" using new_entry [OF fresh(2)] eq(1) e2(2) by simp
    have "pt \<notin> {p2, p3, p4}" using table_page_fresh [OF _ fresh(2,3)] 1 pt by blast
    moreover have "pt_read p2 (pd_idx v) s' = e2" "pt_read p3 (pdpt_idx v) s' = e3" "pt_read p4 (pml4_idx v) s' = ?e4"
      using fresh(7) 1 eq by auto
    ultimately show ?thesis using 1 eq new_entry [OF fresh(2)] by simp
  qed
  then show ?thesis using 1 e4 e2(2) table_page_aligned [OF P(1)] unfolding p3_def p2_def by blast
qed

lemma vm_map_get:
  assumes inv: "frame_inv s" and ok: "vm_path_ok (as_pml4_phys as) (page_base v) s"
    and fl: "flags AND NOT 0xFFF = 0" "bit flags 0"
    and res: "vm_map_page as v p flags s = Some (True, as', s')"
  shows "vm_get_mapping as' v s' = page_base p"
proof -
  let ?v = "page_base v" and ?val = "page_base p OR flags"
  obtain pt as1 s1 where w: "vm_walk_alloc as ?v s = Some (Some pt, as1, s1)" and act: "as_active as"
    and eq: "as' = vm_track_demand_page as1 ?v" "s' = pt_write pt (pt_idx ?v) ?val s1"
    using res by (auto simp: vm_map_page_def Let_def split: Option.bind_splits option.splits if_splits)
  from vm_walk_alloc_path [OF inv ok w] obtain p3 p2 e4 e3 e2 where
    P: "pt_read (as_pml4_phys as) (pml4_idx ?v) s1 = e4" "present e4" "p3 = page_base e4"
    "pt_read p3 (pdpt_idx ?v) s1 = e3" "present e3" "p2 = page_base e3"
    "pt_read p2 (pd_idx ?v) s1 = e2" "present e2" "e2 AND PAGE_LARGE_2M = 0" "pt = page_base e2"
    "page_aligned (as_pml4_phys as)" "pt \<notin> {p2, p3, as_pml4_phys as}" "as_active as1 = as_active as"
    "as_pml4_phys as1 = as_pml4_phys as" by blast
  have al: "page_aligned pt" "page_aligned p3" "page_aligned p2" using P by simp_all
  have "pt_read (as_pml4_phys as) (pml4_idx ?v) s' = e4" "pt_read p3 (pdpt_idx ?v) s' = e3" "pt_read p2 (pd_idx ?v) s' = e2"
    "pt_read pt (pt_idx ?v) s' = ?val"
    using P al unfolding eq(2) by (auto simp: pt_read_write)
  moreover have "page_base ?val = page_base p" "present ?val"
    using entry_or [OF page_base_aligned fl(1)] fl(2) by simp_all
  ultimately show ?thesis
    using P act eq(1) by (simp add: vm_get_mapping_def vm_walk_pde_def PAGE_LARGE_2M_def Let_def)
qed

section \<open>What tearing down leaves alone\<close>

text \<open>The allocator stays consistent and the user chunks stay as they are.\<close>

definition chunks_kept :: "'z kvm_scheme \<Rightarrow> 'z kvm_scheme \<Rightarrow> bool" where
  "chunks_kept s s' \<longleftrightarrow> frame_inv s' \<and> g_user_chunk_bitmap s' = g_user_chunk_bitmap s \<and>
     mem_view s' = mem_view s \<and> kvm.more s' = kvm.more s"

lemma frame_only_kvm_more: "frame_only s s' \<Longrightarrow> kvm.more s' = kvm.more s"
  by (auto elim!: frame_onlyE)

lemma store_view [simp]:
  "mem_view (pt_write b i v s) = mem_view s" "kvm.more (pt_write b i v s) = kvm.more s"
  "mem_view (mem_zero b n s) = mem_view s" "kvm.more (mem_zero b n s) = kvm.more s"
  "mem_view (mem_copy d b n s) = mem_view s" "kvm.more (mem_copy d b n s) = kvm.more s"
  by (simp_all add: pt_write_def mem_zero_def mem_copy_def mem_view_def)

lemma chunks_kept_store [simp]:
  "chunks_kept s (mem_zero b n t) = chunks_kept s t" "chunks_kept s (mem_copy d b n t) = chunks_kept s t"
  by (simp_all add: chunks_kept_def)

lemma chunks_kept_trans: "chunks_kept s t \<Longrightarrow> chunks_kept t u \<Longrightarrow> chunks_kept s u"
  by (simp add: chunks_kept_def)

lemma chunks_kept_refl: "frame_inv s \<Longrightarrow> chunks_kept s s"
  by (simp add: chunks_kept_def)

lemma chunks_kept_write [simp]: "chunks_kept s (pt_write b i v t) = chunks_kept s t"
  by (simp add: chunks_kept_def)

lemma frame_drop_kept:
  assumes "chunks_kept s t"
  shows "chunks_kept s (frame_drop p t)"
proof -
  have "frame_inv t" using assms by (simp add: chunks_kept_def)
  note D = frame_drop_spec(1,2) [OF this, of p]
  from D(1) frame_only_vm(2) [OF D(2)] frame_only_mem_view [OF D(2)] frame_only_kvm_more [OF D(2)] assms
  show ?thesis by (simp add: chunks_kept_def)
qed

lemma frame_alloc_kept:
  assumes "frame_inv s" "frame_alloc 1 s = Some (p, s')"
  shows "chunks_kept s s'"
  using assms(1)
  by (cases rule: frame_alloc_one)
    (use assms(2) frame_only_vm(2) frame_only_mem_view frame_only_kvm_more in \<open>auto simp: chunks_kept_def\<close>)

lemma fold_kept:
  assumes "\<And>x t. chunks_kept s t \<Longrightarrow> chunks_kept s (f x t)" "chunks_kept s t"
  shows "chunks_kept s (fold f xs t)"
  using assms(2) by (induction xs arbitrary: t) (auto intro: assms(1))

lemma vm_free_demand_page_kept: "chunks_kept s t \<Longrightarrow> chunks_kept s (vm_free_demand_page p v t)"
  by (auto simp: vm_free_demand_page_def Let_def frame_drop_kept split: option.splits)

lemma vm_free_table_kept: "chunks_kept s t \<Longrightarrow> chunks_kept s (vm_free_table p t)"
  by (auto simp: vm_free_table_def frame_drop_kept)

lemma vm_free_split_kept: "chunks_kept s t \<Longrightarrow> chunks_kept s (vm_free_split pd i t)"
  by (auto simp: vm_free_split_def Let_def intro!: frame_drop_kept fold_kept)

lemma vm_destroy_shared_kept:
  assumes "frame_inv s" "as_cow_shared as" "vm_destroy_address_space as s = (as', s')"
  shows "chunks_kept s s'"
proof -
  let ?t = "fold vm_free_table (take (min (unat (as_pt_count as)) VM_DEMAND_MAX_TABLES) (as_pt_pages as))
    (fold (vm_free_demand_page (as_pml4_phys as)) (take (min (unat (as_demand_count as)) VM_DEMAND_MAX_PAGES) (as_demand_pages as)) s)"
  have "chunks_kept s ?t"
    by (intro fold_kept vm_free_table_kept vm_free_demand_page_kept chunks_kept_refl assms(1))
  then show ?thesis using assms
    by (auto simp: vm_destroy_address_space_def Let_def intro: chunks_kept_refl vm_free_split_kept split: if_splits option.splits)
qed

lemma vm_level_kept:
  assumes "frame_inv s" "vm_level tab i as s = Some (r, as', s')"
  shows "chunks_kept s s'"
  using assms frame_alloc_kept [OF assms(1)]
  by (auto simp: vm_level_def Let_def chunks_kept_refl chunks_kept_def split: if_splits Option.bind_splits)

lemma vm_walk_alloc_kept:
  assumes "frame_inv s" "vm_walk_alloc as v s = Some (r, as', s')"
  shows "chunks_kept s s'"
proof -
  have 1: "chunks_kept s t" "frame_inv t" if "vm_level tab i a s = Some (q, a', t)" for tab i a q a' t
    using vm_level_kept [OF assms(1) that] by (simp_all add: chunks_kept_def)
  have "chunks_kept s u" if "vm_level tab i a s = Some (q, a', t)" "vm_level tab' i' a' t = Some (q', a'', u)"
    for tab i a q a' t tab' i' q' a'' u
    using 1 [OF that(1)] vm_level_kept [OF _ that(2)] chunks_kept_trans by blast
  then show ?thesis using assms 1
    by (auto simp: vm_walk_alloc_def Let_def chunks_kept_refl split: if_splits Option.bind_splits option.splits)
qed

lemma vm_cow_pages_kept:
  "frame_inv s \<Longrightarrow> vm_cow_pages parent ps child s = Some (child', s') \<Longrightarrow> chunks_kept s s'"
proof (induction parent ps child s rule: vm_cow_pages.induct)
  case (2 parent vpage ps child s)
  show ?case
  proof (cases "vm_get_mapping parent vpage s = 0")
    case True
    then show ?thesis using "2.IH"(1) "2.prems" by simp
  next
    case False
    then obtain r c t where w: "vm_walk_alloc child vpage s = Some (r, c, t)" using "2.prems"(2)
      by (auto split: Option.bind_splits)
    have k: "chunks_kept s t" using vm_walk_alloc_kept [OF "2.prems"(1) w] .
    have ft: "frame_inv t" using k by (simp add: chunks_kept_def)
    show ?thesis
    proof (cases r)
      case None
      have "chunks_kept t s'" using "2.IH"(2) [OF refl False w refl refl None ft] "2.prems"(2) w None False by simp
      then show ?thesis using k chunks_kept_trans by blast
    next
      case (Some pt)
      let ?u = "vm_protect_page (as_pml4_phys parent) vpage
        (pt_write pt (pt_idx vpage) (vm_get_mapping parent vpage s OR PAGE_PRESENT OR PAGE_USER OR PAGE_COW_BIT) t)"
      have u: "frame_inv ?u" "chunks_kept s ?u" using k ft by (simp_all add: vm_protect_page_def Let_def)
      have "vm_cow_pages parent ps (vm_track_demand_page c vpage) ?u = Some (child', s')"
        using "2.prems"(2) False w Some by (simp add: Let_def)
      then have "chunks_kept ?u s'" by (rule "2.IH"(3) [OF refl False w refl refl Some refl u(1)])
      then show ?thesis using u(2) chunks_kept_trans by blast
    qed
  qed
qed (simp add: chunks_kept_refl)

lemma vm_map_page_kept:
  assumes "frame_inv s" "vm_map_page as v p f s = Some (ok, as', s')"
  shows "chunks_kept s s'"
  using assms vm_walk_alloc_kept [OF assms(1)]
  by (auto simp: vm_map_page_def Let_def chunks_kept_refl split: if_splits Option.bind_splits option.splits)

lemma cow_copy_frames_kept:
  "frame_inv s \<Longrightarrow> cow_copy_frames src pt j n s = Some (ok, s') \<Longrightarrow> chunks_kept s s'"
proof (induction src pt j n s rule: cow_copy_frames.induct)
  case (2 src pt j n s)
  obtain f t where a: "frame_alloc 1 s = Some (f, t)" using "2.prems"(2) by (auto split: Option.bind_splits)
  have k: "chunks_kept s t" "frame_inv t" using frame_alloc_kept [OF "2.prems"(1) a] by (simp_all add: chunks_kept_def)
  show ?case
  proof (cases "f = 0")
    case True
    then show ?thesis using "2.prems"(2) a k(1) by (auto intro!: frame_drop_kept fold_kept)
  next
    case False
    have "chunks_kept (pt_write pt (of_nat j) (f OR user_rw) (mem_copy f (src + of_nat j * 4096) 4096 t)) s'"
      using "2.IH" [OF a refl False] "2.prems"(2) a k(2) False by simp
    then show ?thesis using k(1) by (simp add: chunks_kept_def)
  qed
qed (simp add: chunks_kept_refl)

lemma vm_handle_cow_fault_kept:
  assumes "frame_inv s" "vm_handle_cow_fault as v e s = Some (ok, as', s')"
  shows "chunks_kept s s'"
proof -
  have "chunks_kept s s'" if "vm_cow_fault_page as v s = Some (ok, as', s')"
    using that assms(1) frame_alloc_kept [OF assms(1)]
    by (auto simp: vm_cow_fault_page_def Let_def chunks_kept_refl split: if_splits Option.bind_splits option.splits)
  moreover have "chunks_kept s s'" if "vm_cow_fault_window as pd v s = Some (ok, as', s')" for pd
  proof -
    have "chunks_kept s u" if "frame_alloc 1 s = Some (f, t)" "cow_copy_frames src f 0 512 (mem_zero f 4096 t) = Some (r, u)"
      for f t r u src
      using frame_alloc_kept [OF assms(1) that(1)] cow_copy_frames_kept [OF _ that(2)] by (auto simp: chunks_kept_def)
    then show ?thesis
      using that assms(1) frame_alloc_kept [OF assms(1)]
      by (auto simp: vm_cow_fault_window_def Let_def chunks_kept_refl split: if_splits Option.bind_splits)
  qed
  ultimately show ?thesis using assms
    by (auto simp: vm_handle_cow_fault_def chunks_kept_refl split: if_splits option.splits)
qed

section \<open>Tables of a fresh address space\<close>

text \<open>The kernel's first page directory as \<^verbatim>\<open>init_page_tables\<close> fills it: 2 MiB identity mappings throughout.\<close>

definition init_pd0 :: "u64 list" where
  "init_pd0 = (let t = map (\<lambda>i. (of_nat i * 0x200000) OR PAGE_PRESENT OR PAGE_WRITABLE OR PAGE_LARGE_2M) [0..<512]
               in t[32 := t ! 32 OR PAGE_USER, 33 := t ! 33 OR PAGE_USER])"

lemma init_pd0_large:
  assumes "i < 512"
  shows "present (init_pd0 ! i)" "init_pd0 ! i AND PAGE_LARGE_2M \<noteq> 0"
proof -
  have b: "bit (init_pd0 ! i) 0 \<and> bit (init_pd0 ! i) 7"
    using assms by (simp add: init_pd0_def Let_def nth_list_update page_flags bit_or_iff)
  then show "present (init_pd0 ! i)" by (simp add: present_bit)
  show "init_pd0 ! i AND PAGE_LARGE_2M \<noteq> 0" using b bit_test_mask [of "init_pd0 ! i" 7] by (simp add: PAGE_LARGE_2M_def)
qed

lemma pt_read_load:
  assumes "page_aligned p" "page_aligned q" "unat i < 512"
  shows "pt_read p i (mem_load q ws s) = (if p = q then ws ! unat i else pt_read p i s)"
proof -
  have "unat (8 * i) = 8 * unat i" using assms(3) by (simp add: unat_word_ariths)
  then show ?thesis
    using page_eq [OF assms(1,2)] in_page [OF assms(2), of "p + 8 * i"] unat_slot(2) [OF assms(1,3)]
    by (simp add: pt_read_def mem_load_def)
qed

lemma pt_read_user_zero:
  assumes "k < 16384" "c < 64" "unat i < 512"
  shows "pt_read (frame_addr k) i (mem_zero (VM_USER_PHYS_BASE + of_nat c * VM_USER_CHUNK_SIZE) VM_USER_SIZE s) = pt_read (frame_addr k) i s"
proof -
  let ?u = "VM_USER_PHYS_BASE + of_nat c * VM_USER_CHUNK_SIZE" and ?a = "frame_addr k + 8 * i"
  have a: "unat ?a \<le> 83890176" using unat_slot(1) [OF frame_addr_aligned assms(3)] unat_frame_addr assms by simp
  have "unat (of_nat c * VM_USER_CHUNK_SIZE) = c * 4194304"
    using assms(2) by (simp add: VM_USER_CHUNK_SIZE_def VM_USER_SIZE_def unat_word_ariths unat_of_nat_u64)
  then have u: "unat ?u = 134217728 + c * 4194304"
    using assms(2) by (subst unat_add_u64) (simp_all add: VM_USER_PHYS_BASE_def)
  then have "\<not> ?a - ?u < VM_USER_SIZE" using a assms(2) by (simp add: word_less_nat_alt VM_USER_SIZE_def unat_sub_if')
  then show ?thesis by (simp add: pt_read_def mem_zero_def)
qed

definition space_tables :: "nat \<Rightarrow> nat \<Rightarrow> nat \<Rightarrow> vm_address_space_t \<Rightarrow> 'z kvm_scheme \<Rightarrow> 'z kvm_scheme \<Rightarrow> bool" where
  "space_tables k1 k2 k3 as s s' \<longleftrightarrow> as_active as \<and> as_pml4_phys as = frame_addr k1 \<and> frame_addr k2 \<noteq> frame_addr k1 \<and>
     k1 < 16384 \<and> k2 < 16384 \<and> frames_used s' = frames_used s \<union> {k1, k2, k3} \<and>
     present (pt_read (frame_addr k1) 0 s') \<and> page_base (pt_read (frame_addr k1) 0 s') = frame_addr k2 \<and>
     present (pt_read (frame_addr k2) 0 s') \<and> page_base (pt_read (frame_addr k2) 0 s') = frame_addr k3 \<and>
     (\<forall>j. unat j < 512 \<longrightarrow> j \<noteq> 0 \<longrightarrow> pt_read (frame_addr k2) j s' = mmu_pdpt s ! unat j) \<and>
     (\<forall>j. unat j < 512 \<longrightarrow> pt_read (frame_addr k3) j s' =
       (if j = 33 then (as_user_phys_base as + 0x200000) OR user_rw OR PAGE_LARGE_2M
        else if j = 32 then as_user_phys_base as OR user_rw OR PAGE_LARGE_2M else mmu_pd0 s ! unat j))"

lemma space_created_tables:
  assumes "space_created as s s'"
  shows "\<exists>k1 k2 k3. space_tables k1 k2 k3 as s s'"
proof -
  from assms obtain k1 k2 k3 c t where
    k: "k1 < 16384" "k2 < 16384" "k3 < 16384" "distinct [k1, k2, k3]" "c < 64"
    and as: "as = vm_empty_space\<lparr>as_pml4_phys := frame_addr k1, as_user_phys_base := VM_USER_PHYS_BASE + of_nat c * VM_USER_CHUNK_SIZE,
       as_active := True\<rparr>" and pd0: "mmu_pd0 t = mmu_pd0 s" "mmu_pdpt t = mmu_pdpt s" and fu: "frames_used s' = frames_used s \<union> {k1, k2, k3}"
    and s': "s' = vm_wire_tables (frame_addr k1) (frame_addr k2) (frame_addr k3) (as_user_phys_base as) t"
    unfolding space_created_def by auto
  have ne: "frame_addr k1 \<noteq> frame_addr k2" "frame_addr k1 \<noteq> frame_addr k3" "frame_addr k2 \<noteq> frame_addr k3"
    using k unat_frame_addr [OF k(1)] unat_frame_addr [OF k(2)] unat_frame_addr [OF k(3)] by (metis add_left_cancel distinct_length_2_or_more mult_cancel2 zero_neq_numeral)+
  note al = frame_addr_aligned [OF k(1)] frame_addr_aligned [OF k(2)] frame_addr_aligned [OF k(3)]
  have small: "unat (0 :: u64) < 512" "unat (32 :: u64) < 512" "unat (33 :: u64) < 512" by simp_all
  have ub: "as_user_phys_base as = VM_USER_PHYS_BASE + of_nat c * VM_USER_CHUNK_SIZE" "as_pml4_phys as = frame_addr k1" using as by simp_all
  note rd = pt_read_write pt_read_load pt_read_zero pt_read_user_zero [OF _ k(5)] al small ne ne [symmetric] k(1-3)
  have m: "mmu_pd0 (mmu_clone_pdpt q u) = mmu_pd0 u" "mmu_pd0 (mem_zero q n u) = mmu_pd0 u" "mmu_pdpt (mem_zero q n u) = mmu_pdpt u"
    for q n and u :: "'a kvm_scheme" by (simp_all add: mmu_clone_pdpt_def pt_write_def mem_load_def mem_zero_def)
  have "pt_read (frame_addr k1) 0 s' = frame_addr k2 OR user_rw" "pt_read (frame_addr k2) 0 s' = frame_addr k3 OR user_rw"
    unfolding s' ub vm_wire_tables_def Let_def mmu_clone_pd0_def by (simp_all add: rd)
  moreover have "pt_read (frame_addr k3) j s' = (if j = 33 then (as_user_phys_base as + 0x200000) OR user_rw OR PAGE_LARGE_2M
        else if j = 32 then as_user_phys_base as OR user_rw OR PAGE_LARGE_2M else mmu_pd0 s ! unat j)" if "unat j < 512" for j
    unfolding s' ub vm_wire_tables_def Let_def mmu_clone_pd0_def using that by (simp add: rd m pd0)
  moreover have "pt_read (frame_addr k2) j s' = mmu_pdpt s ! unat j" if "unat j < 512" "j \<noteq> 0" for j
    unfolding s' ub vm_wire_tables_def Let_def mmu_clone_pd0_def mmu_clone_pdpt_def using that by (simp add: rd m pd0)
  moreover note new_entry [OF k(2)] new_entry [OF k(3)]
  ultimately have "space_tables k1 k2 k3 as s s'" using ub(2) k(1,2) ne(1) fu as unfolding space_tables_def by simp
  then show ?thesis by blast
qed

section \<open>Destroying an address space\<close>

definition vm_shrunk :: "'z kvm_scheme \<Rightarrow> 'z kvm_scheme \<Rightarrow> bool" where
  "vm_shrunk s s' \<longleftrightarrow> vm_inv s' \<and> frames_used s' \<subseteq> frames_used s \<and> vm_chunks s' \<subseteq> vm_chunks s \<and>
     mem_view s' = mem_view s \<and> kvm.more s' = kvm.more s"

lemma vm_shrunk_refl: "vm_inv s \<Longrightarrow> vm_shrunk s s"
  by (simp add: vm_shrunk_def)

lemma vm_shrunk_drop:
  assumes "vm_shrunk s t"
  shows "vm_shrunk s (frame_drop p t)"
proof -
  have f: "frame_inv t" using assms by (simp add: vm_shrunk_def vm_inv_def)
  note D = frame_drop_spec(1,2,3) [OF f, of p]
  from frame_only_vm(2) [OF D(2)] frame_only_mem_view [OF D(2)] frame_only_kvm_more [OF D(2)] D(1,3) assms
  show ?thesis by (auto simp: vm_shrunk_def vm_inv_def vm_chunks_def)
qed

lemma vm_shrunk_chunk:
  assumes "vm_shrunk s t"
  shows "vm_shrunk s (vm_free_user_chunk c t)"
proof -
  have "vm_chunks (vm_free_user_chunk c t) \<subseteq> vm_chunks t"
    by (auto simp: vm_free_user_chunk_def vm_chunks_def nth_update_lt split: if_splits)
  moreover have "mem_view (vm_free_user_chunk c t) = mem_view t" "kvm.more (vm_free_user_chunk c t) = kvm.more t"
    "vm_inv (vm_free_user_chunk c t) = vm_inv t" "frames_used (vm_free_user_chunk c t) = frames_used t"
    by (simp_all add: vm_free_user_chunk_def mem_view_def vm_inv_def)
  ultimately show ?thesis using assms by (auto simp: vm_shrunk_def)
qed

lemma vm_shrunk_fold:
  assumes "\<And>x t. vm_shrunk s t \<Longrightarrow> vm_shrunk s (f x t)" "vm_shrunk s t"
  shows "vm_shrunk s (fold f xs t)"
  using assms(2) by (induction xs arbitrary: t) (auto intro: assms(1))

lemma vm_destroy_shrinks:
  assumes "vm_inv s" "vm_destroy_address_space as s = (as', s')"
  shows "vm_shrunk s s'" "\<not> as_active as'"
proof -
  have 1: "vm_shrunk s (vm_free_demand_page p v t)" if "vm_shrunk s t" for p v t
    using that by (auto simp: vm_free_demand_page_def Let_def vm_shrunk_drop split: option.splits)
  have 2: "vm_shrunk s (vm_free_table p t)" if "vm_shrunk s t" for p t
    using that by (simp add: vm_free_table_def vm_shrunk_drop)
  have 3: "vm_shrunk s (vm_free_split pd i t)" if "vm_shrunk s t" for pd i t
    using that by (auto simp: vm_free_split_def Let_def intro!: vm_shrunk_drop vm_shrunk_fold)
  let ?t = "fold vm_free_table (take (min (unat (as_pt_count as)) VM_DEMAND_MAX_TABLES) (as_pt_pages as))
    (fold (vm_free_demand_page (as_pml4_phys as)) (take (min (unat (as_demand_count as)) VM_DEMAND_MAX_PAGES) (as_demand_pages as)) s)"
  have t: "vm_shrunk s ?t" by (intro vm_shrunk_fold 1 2 vm_shrunk_refl assms(1))
  show "vm_shrunk s s'" using assms t
    by (auto simp: vm_destroy_address_space_def Let_def intro: vm_shrunk_refl 3 vm_shrunk_chunk split: if_splits option.splits)
  show "\<not> as_active as'" using assms(2)
    by (auto simp: vm_destroy_address_space_def Let_def split: if_splits)
qed

section \<open>Properties\<close>

definition vm_boot :: kvm where
  "vm_boot = vm_init (kmem.extend mem_boot (kvm.fields (\<lambda>_. 0) [] False 0 0x1000 (replicate 512 0) init_pd0 0))"

lemma vm_boot_inv: "vm_inv vm_boot" "frames_used vm_boot = {}" "vm_chunks vm_boot = {}" "g_vm_initialised vm_boot"
  "mmu_pd0 vm_boot = init_pd0"
proof -
  show "vm_inv vm_boot" "frames_used vm_boot = {}"
    using frame_boot_inv
    by (simp_all add: vm_boot_def vm_init_def vm_inv_def frame_inv_def frame_map_ok_def frames_used_def mem_boot_def
        memory_init_def leak_boot_def leak_track_init_def frame_boot_def frame_init_def kmem.defs kvm.defs kleak.defs kframe.defs)
  show "vm_chunks vm_boot = {}" "g_vm_initialised vm_boot" "mmu_pd0 vm_boot = init_pd0"
    by (auto simp: vm_boot_def vm_init_def vm_chunks_def kmem.defs kvm.defs)
qed

text \<open>C12: creating an address space is all or nothing: the call returns; when it succeeds, the space
  owns three frames that were free, for its top tables, and a 4 MiB chunk that was free; when it fails, every
  frame and chunk it took has been given back, physical memory is untouched, and fewer than three frames or no
  chunk was left.\<close>

theorem vm_create_all_or_nothing:
  assumes "vm_inv s" "g_vm_initialised s"
  shows "\<exists>ok as' s'. vm_create_address_space as s = Some (ok, as', s') \<and> vm_inv s' \<and>
    (if ok then space_created as' s s'
     else frames_used s' = frames_used s \<and> vm_chunks s' = vm_chunks s \<and> phys_mem s' = phys_mem s \<and> \<not> as_active as' \<and>
       (card ({..<16384} - frames_used s) < 3 \<or> vm_chunks s = {..<64}))"
  by (rule vm_create_spec [OF assms])

theorem vm_create_all_or_nothing_witness:
  "\<exists>as' s'. vm_create_address_space vm_empty_space vm_boot = Some (True, as', s') \<and> vm_inv s' \<and> space_created as' vm_boot s'"
proof -
  have "\<not> (card ({..<16384} - frames_used vm_boot) < 3 \<or> vm_chunks vm_boot = {..<64})"
    unfolding vm_boot_inv by (auto simp: set_eq_iff intro: exI [of _ 0])
  then show ?thesis using vm_create_all_or_nothing [OF vm_boot_inv(1,4), of vm_empty_space] by (metis (full_types))
qed

text \<open>C13: a mapped page can be looked up: when \<^verbatim>\<open>vm_map_page\<close> succeeds with flags that contain the present
  bit, also where it had to allocate tables on the way, \<^verbatim>\<open>vm_get_mapping\<close> returns the page's physical address
  (provided the tables on the walk are distinct pages that the frame allocator does not consider free).\<close>

theorem vm_map_get_roundtrip:
  assumes "frame_inv s" "vm_path_ok (as_pml4_phys as) (page_base v) s"
    and "flags AND NOT 0xFFF = 0" "bit flags 0"
    and "vm_map_page as v p flags s = Some (True, as', s')"
  shows "vm_get_mapping as' v s' = page_base p"
  by (rule vm_map_get [OF assms])

lemma vm_level_room:
  assumes "frame_inv s" "table_page s tab" "unat i < 512" "\<not> present (pt_read tab i s)" "\<not> {..<16384} \<subseteq> frames_used s"
  shows "\<exists>k s'. vm_level tab i as s = Some (Some (frame_addr k OR user_rw), vm_track_page_table as (frame_addr k), s') \<and>
    k < 16384 \<and> frame_inv s' \<and> frames_used s' = insert k (frames_used s) \<and> pt_read (frame_addr k) j s' = 0 \<or> \<not> unat j < 512"
  using assms(1-3) by (cases rule: vm_level_cases [where as = as and i = i]) (use assms(4,5) in blast)+

lemma fresh_space_maps:
  assumes inv: "vm_inv s'" and sc: "space_created as s s'" and fin: "finite (frames_used s)" "card (frames_used s) \<le> 16000"
    and z: "mmu_pdpt s ! 5 = 0"
  shows "vm_path_ok (as_pml4_phys as) 0x140000000 s'" "\<exists>as'' s''. vm_map_page as 0x140000000 p fl s' = Some (True, as'', s'')"
proof -
  let ?v = "0x140000000 :: u64"
  have ix: "pml4_idx ?v = 0" "pdpt_idx ?v = 5" "page_base ?v = ?v" "pd_idx ?v = 0"
    by (simp_all add: pml4_idx_def pdpt_idx_def page_base_def pd_idx_def)
  obtain k1 k2 k3 where T: "space_tables k1 k2 k3 as s s'" using space_created_tables [OF sc] by blast
  then have k: "as_pml4_phys as = frame_addr k1" "frame_addr k2 \<noteq> frame_addr k1" "k1 < 16384" "k2 < 16384"
    "frames_used s' = frames_used s \<union> {k1, k2, k3}" "as_active as"
    and e3: "\<And>j. unat j < 512 \<Longrightarrow> j \<noteq> 0 \<Longrightarrow> pt_read (frame_addr k2) j s' = mmu_pdpt s ! unat j"
    and e4: "present (pt_read (as_pml4_phys as) 0 s')" "page_base (pt_read (as_pml4_phys as) 0 s') = frame_addr k2"
    by (simp_all add: space_tables_def)
  have fi: "frame_inv s'" using inv by (simp add: vm_inv_def)
  have tp: "table_page s' (frame_addr k1)" "table_page s' (frame_addr k2)" using table_page_frame k by blast+
  have np: "\<not> present (pt_read (frame_addr k2) 5 s')" using e3 [of 5] z by (simp add: present_bit)
  have big: "\<not> {..<16384} \<subseteq> insert k (frames_used s \<union> {k1, k2, k3})" "\<not> {..<16384} \<subseteq> frames_used s'" for k
  proof -
    have "card (insert k (frames_used s \<union> {k1, k2, k3})) \<le> card (frames_used s) + 4"
      using fin(1) by (simp add: card_insert_if)
    then show "\<not> {..<16384} \<subseteq> insert k (frames_used s \<union> {k1, k2, k3})"
      using card_mono [of "insert k (frames_used s \<union> {k1, k2, k3})" "{..<16384}"] fin by auto
    then show "\<not> {..<16384} \<subseteq> frames_used s'" using k(5) by blast
  qed
  show "vm_path_ok (as_pml4_phys as) ?v s'" using tp k(1,2) e4 np by (simp add: vm_path_ok_def ix Let_def)
  have "unat (5 :: u64) < 512" "unat (0 :: u64) < 512" by simp_all
  then obtain k t where l3: "vm_level (frame_addr k2) 5 as s' = Some (Some (frame_addr k OR user_rw), vm_track_page_table as (frame_addr k), t)"
    "k < 16384" "frame_inv t" "frames_used t = insert k (frames_used s')" "pt_read (frame_addr k) 0 t = 0"
    using vm_level_room [OF fi tp(2) _ np big(2), of as 0] by blast
  have tk: "table_page t (frame_addr k)" using table_page_frame l3 by blast
  have nk: "\<not> present (pt_read (frame_addr k) 0 t)" using l3(5) by simp
  have bt: "\<not> {..<16384} \<subseteq> frames_used t" using big(1) [of k] l3(4) k(5) by simp
  obtain k' u where l2: "vm_level (frame_addr k) 0 (vm_track_page_table as (frame_addr k)) t =
      Some (Some (frame_addr k' OR user_rw), vm_track_page_table (vm_track_page_table as (frame_addr k)) (frame_addr k'), u)"
    using vm_level_room [OF l3(3) tk _ nk bt, of "vm_track_page_table as (frame_addr k)" 0] by auto
  have "\<exists>as1 s1 pt. vm_walk_alloc as ?v s' = Some (Some pt, as1, s1)"
    using e4 l3(1,5) l2 new_entry(2) [OF l3(2)] k(1) by (simp add: vm_walk_alloc_def ix Let_def)
  then show "\<exists>as'' s''. vm_map_page as ?v p fl s' = Some (True, as'', s'')"
    using k(6) by (auto simp: vm_map_page_def ix Let_def)
qed

lemma boot_space:
  obtains as s where "vm_create_address_space vm_empty_space vm_boot = Some (True, as, s)" "vm_inv s" "space_created as vm_boot s"
proof -
  have "\<not> (card ({..<16384} - frames_used vm_boot) < 3 \<or> vm_chunks vm_boot = {..<64})"
    unfolding vm_boot_inv by (auto simp: set_eq_iff intro: exI [of _ 0])
  then show ?thesis using vm_create_spec [OF vm_boot_inv(1,4), of vm_empty_space] that by (metis (full_types))
qed

theorem vm_map_get_roundtrip_witness:
  "\<exists>as s as' s'. vm_create_address_space vm_empty_space vm_boot = Some (True, as, s) \<and>
     vm_map_page as 0x140000000 0x1005000 user_rw s = Some (True, as', s') \<and> vm_get_mapping as' 0x140000000 s' = 0x1005000"
proof -
  obtain as s where c: "vm_create_address_space vm_empty_space vm_boot = Some (True, as, s)" "vm_inv s" "space_created as vm_boot s"
    using boot_space .
  have z: "mmu_pdpt vm_boot ! 5 = 0" by (simp add: vm_boot_def vm_init_def kmem.defs kvm.defs)
  note F = fresh_space_maps [OF c(2,3) _ _ z]
  have fu: "finite (frames_used vm_boot)" "card (frames_used vm_boot) \<le> 16000" by (simp_all add: vm_boot_inv)
  obtain as' s' where m: "vm_map_page as 0x140000000 0x1005000 user_rw s = Some (True, as', s')" using F(2) [OF fu] by blast
  have pb: "page_base 0x140000000 = 0x140000000" "page_base 0x1005000 = 0x1005000" by (simp_all add: page_base_def)
  have "vm_get_mapping as' 0x140000000 s' = page_base 0x1005000"
    using F(1) [OF fu] c(2) user_rw_flags by (intro vm_map_get_roundtrip [OF _ _ _ _ m]) (simp_all add: pb vm_inv_def)
  then show ?thesis using c(1) m pb by metis
qed

lemma low_indices:
  assumes "unat v < 1073741824"
  shows "pml4_idx (page_base v) = 0" "pdpt_idx (page_base v) = 0"
proof -
  have u: "unat (page_base v) < 1073741824" using assms unat_page_base [of v] by linarith
  have "unat (drop_bit n (page_base v)) = 0" if "30 \<le> n" for n
  proof -
    have "(2 :: nat) ^ 30 \<le> 2 ^ n" using that by (rule power_increasing) simp
    then have "unat (page_base v) < 2 ^ n" using u by simp
    then show ?thesis unfolding unat_drop_bit_eq by (simp add: drop_bit_eq_div)
  qed
  then have "drop_bit n (page_base v) = 0" if "30 \<le> n" for n using that by (metis unat_0 unat_inj_iff)
  from this [of 39] this [of 30] show "pml4_idx (page_base v) = 0" "pdpt_idx (page_base v) = 0"
    by (simp_all add: pml4_idx_def pdpt_idx_def)
qed

text \<open>Below 1 GiB, an address space whose first page directory holds 2 MiB pages only refuses every mapping.\<close>

definition low_large :: "vm_address_space_t \<Rightarrow> 'z kvm_scheme \<Rightarrow> bool" where
  "low_large as s \<longleftrightarrow> as_active as \<and> (case vm_get_pd0 as s of None \<Rightarrow> False
     | Some pd \<Rightarrow> \<forall>j. unat j < 512 \<longrightarrow> present (pt_read pd j s) \<and> pt_read pd j s AND PAGE_LARGE_2M \<noteq> 0)"

lemma low_large_refused:
  assumes "low_large as s" "unat v < 1073741824"
  shows "vm_map_page as v p flags s = Some (False, as, s)"
proof -
  obtain pd where pd: "vm_get_pd0 as s = Some pd" and k: "as_active as"
    and d: "\<And>j. unat j < 512 \<Longrightarrow> present (pt_read pd j s) \<and> pt_read pd j s AND PAGE_LARGE_2M \<noteq> 0"
    using assms(1) by (auto simp: low_large_def split: option.splits)
  have e: "present (pt_read (as_pml4_phys as) 0 s)" "present (pt_read (page_base (pt_read (as_pml4_phys as) 0 s)) 0 s)"
    "page_base (pt_read (page_base (pt_read (as_pml4_phys as) 0 s)) 0 s) = pd"
    using pd by (auto simp: vm_get_pd0_def Let_def split: if_splits)
  have "vm_walk_alloc as (page_base v) s = Some (None, as, s)"
    using e d [OF idx_bounds(3), of "page_base v"] low_indices [OF assms(2)] by (simp add: vm_walk_alloc_def vm_level_def Let_def)
  then show ?thesis using k by (simp add: vm_map_page_def Let_def)
qed

lemma space_created_low_large:
  assumes sc: "space_created as s s'" and pd: "mmu_pd0 s = init_pd0"
  shows "low_large as s'"
proof -
  obtain k1 k2 k3 where T: "space_tables k1 k2 k3 as s s'" using space_created_tables [OF sc] by blast
  then have k: "as_active as"
    and e: "present (pt_read (as_pml4_phys as) 0 s')" "page_base (pt_read (as_pml4_phys as) 0 s') = frame_addr k2"
      "present (pt_read (frame_addr k2) 0 s')" "page_base (pt_read (frame_addr k2) 0 s') = frame_addr k3"
    and d: "\<And>j. unat j < 512 \<Longrightarrow> pt_read (frame_addr k3) j s' =
       (if j = 33 then (as_user_phys_base as + 0x200000) OR user_rw OR PAGE_LARGE_2M
        else if j = 32 then as_user_phys_base as OR user_rw OR PAGE_LARGE_2M else mmu_pd0 s ! unat j)"
    by (simp_all add: space_tables_def)
  have l: "present (x OR user_rw OR PAGE_LARGE_2M)" "(x OR user_rw OR PAGE_LARGE_2M) AND PAGE_LARGE_2M \<noteq> 0" for x
  proof -
    have p7: "PAGE_LARGE_2M = 2 ^ 7" by (simp add: PAGE_LARGE_2M_def)
    have "bit (x OR user_rw OR 2 ^ 7) 0" "bit (x OR user_rw OR 2 ^ 7) 7" by (simp_all add: page_flags bit_or_iff bit_exp_iff)
    then show "present (x OR user_rw OR PAGE_LARGE_2M)" "(x OR user_rw OR PAGE_LARGE_2M) AND PAGE_LARGE_2M \<noteq> 0"
      unfolding p7 bit_test_mask present_bit by blast+
  qed
  have "present (pt_read (frame_addr k3) j s') \<and> pt_read (frame_addr k3) j s' AND PAGE_LARGE_2M \<noteq> 0" if "unat j < 512" for j
    unfolding d [OF that] pd using l init_pd0_large that by simp
  moreover have "vm_get_pd0 as s' = Some (frame_addr k3)" using e by (simp add: vm_get_pd0_def Let_def)
  ultimately show ?thesis using k by (simp add: low_large_def)
qed

text \<open>Mapping only adds to the frames in use.\<close>

lemma frame_alloc_grows:
  assumes "frame_inv s" "frame_alloc 1 s = Some (p, s')"
  shows "frames_used s \<subseteq> frames_used s'"
  using assms(1) by (cases rule: frame_alloc_one) (use assms(2) in auto)

lemma vm_level_grows:
  assumes "frame_inv s" "vm_level tab i as s = Some (r, as', s')"
  shows "frames_used s \<subseteq> frames_used s'"
  using assms frame_alloc_grows [OF assms(1)]
  by (auto simp: vm_level_def Let_def split: if_splits Option.bind_splits) blast+

lemma vm_walk_alloc_grows:
  assumes "frame_inv s" "vm_walk_alloc as v s = Some (r, as', s')"
  shows "frames_used s \<subseteq> frames_used s'"
proof -
  have 1: "frames_used s \<subseteq> frames_used t" "frame_inv t" if "vm_level tab i a s = Some (q, a', t)" for tab i a q a' t
    using vm_level_grows [OF assms(1) that] vm_level_kept [OF assms(1) that] by (simp_all add: chunks_kept_def)
  have "frames_used s \<subseteq> frames_used u" if "vm_level tab i a s = Some (q, a', t)" "vm_level tab' i' a' t = Some (q', a'', u)"
    for tab i a q a' t tab' i' q' a'' u
    using 1 [OF that(1)] vm_level_grows [OF _ that(2)] by blast
  then show ?thesis using assms 1(1)
    by (auto simp: vm_walk_alloc_def Let_def split: if_splits Option.bind_splits option.splits) blast+
qed

lemma vm_map_page_grows:
  assumes "frame_inv s" "vm_map_page as v p f s = Some (ok, as', s')"
  shows "frames_used s \<subseteq> frames_used s'"
  using assms vm_walk_alloc_grows [OF assms(1)]
  by (auto simp: vm_map_page_def Let_def split: if_splits Option.bind_splits option.splits) blast+

text \<open>A fresh address space refuses every 4 KiB mapping below 1 GiB: its first page directory is a clone
  of the kernel's 2 MiB identity mappings, which \<^verbatim>\<open>vm_map_page\<close> does not clobber, so the demand region from
  0x04400000 and the shared-memory window at 0x08000000 can never be backed there.\<close>

lemma vm_low_mapping_refused:
  assumes "space_created as s s'" "mmu_pd0 s = init_pd0" "unat v < 1073741824"
  shows "vm_map_page as v p flags s' = Some (False, as, s')"
  using low_large_refused [OF space_created_low_large] assms by blast

lemma vm_low_mapping_refused_witness:
  "\<exists>as s. vm_create_address_space vm_empty_space vm_boot = Some (True, as, s) \<and>
     vm_map_page as 0x08000000 0x1005000 user_rw s = Some (False, as, s)"
proof -
  obtain as s where c: "vm_create_address_space vm_empty_space vm_boot = Some (True, as, s)" "space_created as vm_boot s"
    using boot_space by metis
  have "vm_map_page as 0x08000000 0x1005000 user_rw s = Some (False, as, s)"
    by (rule vm_low_mapping_refused [OF c(2) vm_boot_inv(5)]) simp
  then show ?thesis using c(1) by blast
qed

lemma vm_cow_share_spec:
  assumes "frame_inv s" "vm_cow_share parent child s = Some (True, parent', child', s')"
    and "c \<in> vm_chunks s" "as_user_phys_base child \<noteq> VM_USER_PHYS_BASE + of_nat c * VM_USER_CHUNK_SIZE"
    and "\<exists>c'. c' < 64 \<and> as_user_phys_base child = VM_USER_PHYS_BASE + of_nat c' * VM_USER_CHUNK_SIZE"
  shows "frame_inv s'" "c \<in> vm_chunks s'" "as_cow_shared parent'" "as_cow_shared child'"
proof -
  obtain c' where c': "c' < 64" "as_user_phys_base child = VM_USER_PHYS_BASE + of_nat c' * VM_USER_CHUNK_SIZE" using assms(5) by blast
  then have ne: "c' \<noteq> c" using assms(4) by auto
  have u: "unat (of_nat c' * VM_USER_CHUNK_SIZE) = c' * 4194304"
    using c'(1) by (simp add: VM_USER_CHUNK_SIZE_def VM_USER_SIZE_def unat_word_ariths unat_of_nat_u64)
  have "uint ((as_user_phys_base child - VM_USER_PHYS_BASE) div VM_USER_CHUNK_SIZE) = int c'"
  proof -
    have "unat ((as_user_phys_base child - VM_USER_PHYS_BASE) div VM_USER_CHUNK_SIZE) = c'"
      using u by (simp add: c'(2) unat_div VM_USER_CHUNK_SIZE_def VM_USER_SIZE_def)
    then show ?thesis by (metis uint_nat)
  qed
  then obtain t pd0 pd0' child1 where t: "chunks_kept t s'"
    "g_user_chunk_bitmap t = (g_user_chunk_bitmap s)[c' := 0] \<or> g_user_chunk_bitmap t = g_user_chunk_bitmap s"
    "as_cow_shared parent'" "as_cow_shared child'"
  proof -
    assume e: "uint ((as_user_phys_base child - VM_USER_PHYS_BASE) div VM_USER_CHUNK_SIZE) = int c'"
    let ?s1 = "if as_user_phys_base child \<ge> VM_USER_PHYS_BASE \<and> as_user_phys_base child < VM_USER_PHYS_BASE + VM_USER_PHYS_SIZE
                   then vm_free_user_chunk (int c') s else s"
    obtain pp cp where p: "vm_get_pd0 parent s = Some pp" "vm_get_pd0 child s = Some cp"
      using assms(2) by (auto simp: vm_cow_share_def split: if_splits option.splits)
    obtain ch where l: "vm_cow_pages parent (take (min (unat (as_demand_count parent)) VM_DEMAND_MAX_PAGES) (as_demand_pages parent))
        (child\<lparr>as_user_phys_base := as_user_phys_base parent\<rparr>) (vm_cow_window pp cp ?s1) = Some (ch, s')"
      "parent' = parent\<lparr>as_cow_shared := True\<rparr>" "child' = ch\<lparr>as_cow_shared := True\<rparr>"
      using assms(2) p unfolding vm_cow_share_def e Let_def by (auto split: if_splits Option.bind_splits)
    have w: "frame_inv (vm_cow_window pp cp ?s1)" "g_user_chunk_bitmap (vm_cow_window pp cp ?s1) = g_user_chunk_bitmap ?s1"
      using assms(1) by (simp_all add: vm_cow_window_def Let_def vm_free_user_chunk_def)
    from vm_cow_pages_kept [OF w(1) l(1)] have "chunks_kept (vm_cow_window pp cp ?s1) s'" .
    moreover have "g_user_chunk_bitmap ?s1 = (g_user_chunk_bitmap s)[c' := 0] \<or> g_user_chunk_bitmap ?s1 = g_user_chunk_bitmap s"
      by (simp add: vm_free_user_chunk_def)
    ultimately show thesis using that [of "vm_cow_window pp cp ?s1"] w(2) l(2,3) by simp
  qed
  then show "frame_inv s'" "as_cow_shared parent'" "as_cow_shared child'" by (auto simp: chunks_kept_def)
  show "c \<in> vm_chunks s'" using assms(3) t(1,2) ne by (auto simp: vm_chunks_def chunks_kept_def)
qed

text \<open>A copy-on-write fork loses the parent's 4 MiB chunk: \<^verbatim>\<open>vm_cow_share\<close> marks both address spaces as
  sharing and nothing ever clears that mark, so after both of them have been destroyed the chunk is still
  marked as in use, although no address space refers to it.\<close>

theorem vm_cow_fork_leaks_chunk:
  assumes "vm_inv s" "c \<in> vm_chunks s" "as_user_phys_base parent = VM_USER_PHYS_BASE + of_nat c * VM_USER_CHUNK_SIZE"
    and "as_user_phys_base child \<noteq> as_user_phys_base parent"
    and "\<exists>c' < 64. as_user_phys_base child = VM_USER_PHYS_BASE + of_nat c' * VM_USER_CHUNK_SIZE"
    and "vm_cow_share parent child s = Some (True, parent', child', s1)"
    and "vm_destroy_address_space child' s1 = (child'', s2)" "vm_destroy_address_space parent' s2 = (parent'', s3)"
  shows "c \<in> vm_chunks s3"
proof -
  have "frame_inv s" using assms(1) by (simp add: vm_inv_def)
  note S = vm_cow_share_spec [OF this assms(6,2)]
  have 1: "frame_inv s1" "c \<in> vm_chunks s1" "as_cow_shared parent'" "as_cow_shared child'"
    using S assms(3-5) by auto
  have 2: "chunks_kept s1 s2" by (rule vm_destroy_shared_kept [OF 1(1,4) assms(7)])
  then have "chunks_kept s2 s3" using vm_destroy_shared_kept [OF _ 1(3) assms(8)] by (simp add: chunks_kept_def)
  then show ?thesis using 1(2) 2 by (simp add: chunks_kept_def vm_chunks_def)
qed

definition cow_parent :: vm_address_space_t where
  "cow_parent = vm_empty_space\<lparr>as_pml4_phys := 0x1000, as_user_phys_base := 0x08000000, as_active := True\<rparr>"

definition cow_child :: vm_address_space_t where
  "cow_child = vm_empty_space\<lparr>as_pml4_phys := 0x4000, as_user_phys_base := 0x08400000, as_active := True\<rparr>"

definition cow_state :: kvm where
  "cow_state = vm_boot\<lparr>g_user_chunk_bitmap := (replicate 64 0)[0 := 1, 1 := 1],
     phys_mem := (\<lambda>_. 0)(0x1000 := 0x2001, 0x2000 := 0x3001, 0x4000 := 0x5001, 0x5000 := 0x6001)\<rparr>"

theorem vm_cow_fork_leaks_chunk_witness:
  "\<exists>parent child s1. vm_cow_share cow_parent cow_child cow_state = Some (True, parent, child, s1) \<and>
     0 \<in> vm_chunks (snd (vm_destroy_address_space parent (snd (vm_destroy_address_space child s1))))"
proof -
  have "vm_inv cow_state" using vm_boot_inv(1) by (simp add: cow_state_def vm_inv_def VM_USER_CHUNK_COUNT_def)
  moreover have "0 \<in> vm_chunks cow_state" by (simp add: cow_state_def vm_chunks_def)
  moreover have "as_user_phys_base cow_parent = VM_USER_PHYS_BASE + of_nat 0 * VM_USER_CHUNK_SIZE"
    by (simp add: cow_parent_def VM_USER_PHYS_BASE_def)
  moreover have "as_user_phys_base cow_child \<noteq> as_user_phys_base cow_parent" by (simp add: cow_parent_def cow_child_def)
  moreover have "\<exists>c' < 64. as_user_phys_base cow_child = VM_USER_PHYS_BASE + of_nat c' * VM_USER_CHUNK_SIZE"
    by (rule exI [of _ 1]) (simp add: cow_child_def VM_USER_PHYS_BASE_def VM_USER_CHUNK_SIZE_def VM_USER_SIZE_def)
  moreover obtain parent child s1 where "vm_cow_share cow_parent cow_child cow_state = Some (True, parent, child, s1)"
    by (simp add: vm_cow_share_def vm_get_pd0_def cow_parent_def cow_child_def cow_state_def vm_empty_space_def
        pt_read_def page_base_def PAGE_PRESENT_def Let_def)
  ultimately show ?thesis using vm_cow_fork_leaks_chunk [of cow_state 0 cow_parent cow_child parent child s1] by (metis prod.collapse)
qed

end
