(* ===== verification/Pcb.thy ===== *)
theory Pcb
  imports Vm
begin

text \<open>
  The process table (\<^verbatim>\<open>kernel/sched/pcb.c\<close>): process creation and termination, waiting and
  reaping, process groups and sessions, the per-process descriptor table, and the preemptive
  scheduler's bookkeeping.  A pointer to an entry of the static table is the index of that entry.
  The timer reading that several operations take is an argument.  The theory ends with the page
  fault handler of \<^verbatim>\<open>kernel/mm/vm.c\<close>, which acts on the current process.
\<close>

section \<open>State\<close>

datatype pcb_state_t =
  PCB_STATE_FREE | PCB_STATE_READY | PCB_STATE_RUNNING | PCB_STATE_EXITED
| PCB_STATE_ABORTED | PCB_STATE_STOPPED | PCB_STATE_ZOMBIE | PCB_STATE_WAITING

definition SCHED_PRIORITY_IDLE :: u32 where "SCHED_PRIORITY_IDLE = 0"
definition SCHED_PRIORITY_NORMAL :: u32 where "SCHED_PRIORITY_NORMAL = 2"
definition SCHED_PRIORITY_HIGH :: u32 where "SCHED_PRIORITY_HIGH = 3"
definition SCHED_PRIORITY_REALTIME :: u32 where "SCHED_PRIORITY_REALTIME = 4"
definition SCHED_PRIORITY_DEFAULT :: u32 where "SCHED_PRIORITY_DEFAULT = SCHED_PRIORITY_NORMAL"
definition SCHED_TIMESLICE_TICKS :: u32 where "SCHED_TIMESLICE_TICKS = 10"
definition PCB_FD_MAX :: nat where "PCB_FD_MAX = 64"
definition PCB_FD_CLOEXEC_WORDS :: nat where "PCB_FD_CLOEXEC_WORDS = (PCB_FD_MAX + 7) div 8"
definition PCB_MAX :: nat where "PCB_MAX = 64"

lemmas sched_consts = SCHED_PRIORITY_IDLE_def SCHED_PRIORITY_NORMAL_def SCHED_PRIORITY_HIGH_def
  SCHED_PRIORITY_REALTIME_def SCHED_PRIORITY_DEFAULT_def SCHED_TIMESLICE_TICKS_def

text \<open>The eighteen saved registers, from \<^verbatim>\<open>reg_rax\<close> to \<^verbatim>\<open>reg_rflags\<close>, are one list: the process table only clears them.\<close>

record pcb_t =
  p_used :: bool
  p_slot :: u32
  p_pid :: u32
  p_name :: string
  p_path :: string
  p_state :: pcb_state_t
  p_exit_code :: int
  p_start_tick :: u64
  p_end_tick :: u64
  p_pending_signals :: u32
  p_fault_vector :: u8
  p_fault_error_code :: u64
  p_cpu_user_ticks :: u64
  p_cpu_kernel_ticks :: u64
  p_mem_pages :: u32
  p_parent_pid :: int
  p_thread_count :: u32
  p_priority :: u32
  p_time_slice :: u32
  p_remaining_ticks :: u32
  p_uid :: u32
  p_gid :: u32
  p_euid :: u32
  p_egid :: u32
  p_addr_space :: vm_address_space_t
  p_regs :: "u64 list"
  p_kernel_stack :: u64
  p_kernel_stack_size :: u64
  p_pgid :: int
  p_sid :: int
  p_session_leader :: bool
  p_wait_target_pid :: int
  p_fd_table :: "int list"
  p_fd_cloexec :: "u8 list"

record kpcb = kvm +
  g_pcbs :: "pcb_t list"
  g_pcb_pool :: pool_t
  g_next_pid :: u32
  g_current_pid :: int
  g_pcb_status :: string
  g_preemptive_enabled :: bool
  g_rr_cursor :: u32

record process_info_t =
  pi_pid :: int
  pi_parent_pid :: int
  pi_name :: string
  pi_state_name :: string
  pi_state :: pcb_state_t
  pi_cpu_user_ticks :: u64
  pi_cpu_kernel_ticks :: u64
  pi_cpu_total_ticks :: u64
  pi_uptime_ticks :: u64
  pi_mem_pages :: u32
  pi_mem_kb :: u32
  pi_thread_count :: u32

definition pcb_zero :: pcb_t where
  "pcb_zero = \<lparr>p_used = False, p_slot = 0, p_pid = 0, p_name = [], p_path = [], p_state = PCB_STATE_FREE,
     p_exit_code = 0, p_start_tick = 0, p_end_tick = 0, p_pending_signals = 0, p_fault_vector = 0,
     p_fault_error_code = 0, p_cpu_user_ticks = 0, p_cpu_kernel_ticks = 0, p_mem_pages = 0, p_parent_pid = 0,
     p_thread_count = 0, p_priority = 0, p_time_slice = 0, p_remaining_ticks = 0, p_uid = 0, p_gid = 0,
     p_euid = 0, p_egid = 0, p_addr_space = vm_empty_space, p_regs = replicate 18 0, p_kernel_stack = 0,
     p_kernel_stack_size = 0, p_pgid = 0, p_sid = 0, p_session_leader = False, p_wait_target_pid = 0,
     p_fd_table = replicate PCB_FD_MAX 0, p_fd_cloexec = replicate PCB_FD_CLOEXEC_WORDS 0\<rparr>"

definition pcb_upd :: "nat \<Rightarrow> (pcb_t \<Rightarrow> pcb_t) \<Rightarrow> 'z kpcb_scheme \<Rightarrow> 'z kpcb_scheme" where
  "pcb_upd i f s = s\<lparr>g_pcbs := (g_pcbs s)[i := f (g_pcbs s ! i)]\<rparr>"

section \<open>Names and lookup\<close>

definition pcb_copy_text :: "nat \<Rightarrow> string option \<Rightarrow> string" where
  "pcb_copy_text sz src = copy_text sz src"

fun path_tail :: "string \<Rightarrow> string \<Rightarrow> string" where
  "path_tail name [] = name"
| "path_tail name (c # cs) = path_tail (if c = CHR ''/'' \<or> c = CHR 0x5C then cs else name) cs"

definition pcb_copy_name_from_path :: "nat \<Rightarrow> string option \<Rightarrow> string" where
  "pcb_copy_name_from_path sz path = (case path of
       None \<Rightarrow> pcb_copy_text sz (Some ''kernel'')
     | Some p \<Rightarrow> let name = path_tail p p in pcb_copy_text sz (Some (if name \<noteq> [] then name else p)))"

definition pcb_find_by_pid :: "int \<Rightarrow> 'z kpcb_scheme \<Rightarrow> nat option" where
  "pcb_find_by_pid pid s = find_index (\<lambda>p. p_used p \<and> sint (p_pid p) = pid) (g_pcbs s)"

definition pcb_claim_slot :: "'z kpcb_scheme \<Rightarrow> int \<times> 'z kpcb_scheme" where
  "pcb_claim_slot s =
     (case pool_alloc_slot (g_pcb_pool s) s of (slot, pool, s) \<Rightarrow>
        let s = s\<lparr>g_pcb_pool := pool\<rparr> in
        if slot \<ge> 0 then (slot, s)
        else case find_index (\<lambda>p. p_used p \<and> p_state p \<noteq> PCB_STATE_RUNNING) (g_pcbs s) of
          None \<Rightarrow> (-1, s)
        | Some i \<Rightarrow>
            (case pool_free_slot (g_pcb_pool s) (of_nat i) s of (_, pool, s) \<Rightarrow>
               let s = s\<lparr>g_pcb_pool := pool, g_pcbs := (g_pcbs s)[i := pcb_zero]\<rparr> in
               case pool_alloc_slot (g_pcb_pool s) s of (slot, pool, s) \<Rightarrow> (slot, s\<lparr>g_pcb_pool := pool\<rparr>)))"

definition pcb_state_name :: "pcb_state_t \<Rightarrow> string" where
  "pcb_state_name state = (case state of
       PCB_STATE_READY \<Rightarrow> ''ready'' | PCB_STATE_RUNNING \<Rightarrow> ''running'' | PCB_STATE_EXITED \<Rightarrow> ''exited''
     | PCB_STATE_ABORTED \<Rightarrow> ''aborted'' | PCB_STATE_STOPPED \<Rightarrow> ''stopped'' | PCB_STATE_ZOMBIE \<Rightarrow> ''zombie''
     | _ \<Rightarrow> ''free'')"

definition pcb_init :: "u32 list \<Rightarrow> 'z kpcb_scheme \<Rightarrow> 'z kpcb_scheme" where
  "pcb_init storage s =
     (case pool_init (Some ''pcb'') (Some storage) (of_nat PCB_MAX) (s\<lparr>g_pcbs := replicate PCB_MAX pcb_zero\<rparr>) of (pool, s) \<Rightarrow>
        s\<lparr>g_pcb_pool := pool, g_next_pid := 1, g_current_pid := -1, g_pcb_status := ''pcb: ready''\<rparr>)"

section \<open>Descriptor tables\<close>

definition pcb_fd_init :: "pcb_t \<Rightarrow> pcb_t" where
  "pcb_fd_init p = p\<lparr>p_fd_table := (replicate PCB_FD_MAX (-1))[0 := 0, 1 := 1, 2 := 2],
                     p_fd_cloexec := replicate PCB_FD_CLOEXEC_WORDS 0\<rparr>"

definition pcb_fd_alloc :: "pcb_t \<Rightarrow> int \<times> pcb_t" where
  "pcb_fd_alloc p = (case find_index (\<lambda>h. h = -1) (drop 3 (p_fd_table p)) of
       None \<Rightarrow> (-1, p)
     | Some i \<Rightarrow> (int (i + 3), p\<lparr>p_fd_table := (p_fd_table p)[i + 3 := -2]\<rparr>))"

definition pcb_fd_free :: "int \<Rightarrow> pcb_t \<Rightarrow> pcb_t" where
  "pcb_fd_free fd p =
     (if fd < 0 \<or> fd \<ge> int PCB_FD_MAX then p
      else let b = nat fd div 8; m = NOT (push_bit (nat fd mod 8) 1) in
        p\<lparr>p_fd_table := (p_fd_table p)[nat fd := -1], p_fd_cloexec := (p_fd_cloexec p)[b := p_fd_cloexec p ! b AND m]\<rparr>)"

definition pcb_fd_get_handle :: "pcb_t \<Rightarrow> int \<Rightarrow> int" where
  "pcb_fd_get_handle p fd = (if fd < 0 \<or> fd \<ge> int PCB_FD_MAX then -1 else p_fd_table p ! nat fd)"

definition pcb_fd_set :: "int \<Rightarrow> int \<Rightarrow> pcb_t \<Rightarrow> pcb_t" where
  "pcb_fd_set fd handle p =
     (if fd < 0 \<or> fd \<ge> int PCB_FD_MAX then p else p\<lparr>p_fd_table := (p_fd_table p)[nat fd := handle]\<rparr>)"

definition pcb_fd_copy :: "pcb_t \<Rightarrow> pcb_t option \<Rightarrow> pcb_t" where
  "pcb_fd_copy dst src = (case src of
       None \<Rightarrow> pcb_fd_init dst
     | Some p \<Rightarrow> dst\<lparr>p_fd_table := p_fd_table p, p_fd_cloexec := p_fd_cloexec p\<rparr>)"

section \<open>Process life cycle\<close>

definition pcb_process_start :: "u64 \<Rightarrow> string option \<Rightarrow> 'z kpcb_scheme \<Rightarrow> int \<times> 'z kpcb_scheme" where
  "pcb_process_start timer_ticks path s =
     (case pcb_claim_slot s of (slot, s) \<Rightarrow>
        if slot < 0 then (-1, s\<lparr>g_pcb_status := ''pcb: pool full''\<rparr>)
        else let pid = g_next_pid s;
                 p = pcb_zero\<lparr>p_used := True, p_slot := word_of_int slot, p_pid := pid, p_state := PCB_STATE_RUNNING,
                       p_start_tick := timer_ticks, p_path := pcb_copy_text 128 path,
                       p_name := pcb_copy_name_from_path 32 path, p_uid := 0, p_gid := 0, p_euid := 0, p_egid := 0,
                       p_parent_pid := -1, p_pgid := sint pid, p_sid := sint pid, p_session_leader := True,
                       p_wait_target_pid := -1\<rparr>;
                 p = (pcb_fd_init p)\<lparr>p_priority := SCHED_PRIORITY_DEFAULT, p_time_slice := SCHED_TIMESLICE_TICKS,
                       p_remaining_ticks := SCHED_TIMESLICE_TICKS\<rparr>
             in (sint pid, s\<lparr>g_pcbs := (g_pcbs s)[nat slot := p], g_next_pid := g_next_pid s + 1,
                             g_current_pid := sint pid, g_pcb_status := ''pcb: process running''\<rparr>))"

definition wait_matches :: "pcb_t \<Rightarrow> pcb_t \<Rightarrow> int \<Rightarrow> bool" where
  "wait_matches parent p pid =
     (let target = p_wait_target_pid parent in
      if target = -1 then True
      else if target > 0 then target = pid
      else if target = 0 then p_pgid parent = p_pgid p
      else - target = p_pgid p)"

definition pcb_finish_process :: "u64 \<Rightarrow> int \<Rightarrow> pcb_state_t \<Rightarrow> int \<Rightarrow> 'z kpcb_scheme \<Rightarrow> 'z kpcb_scheme" where
  "pcb_finish_process timer_ticks pid state exit_code s =
     (case pcb_find_by_pid pid s of
        None \<Rightarrow> s
      | Some i \<Rightarrow>
          let s = pcb_upd i (\<lambda>p. p\<lparr>p_state := state, p_exit_code := exit_code, p_end_tick := timer_ticks\<rparr>) s;
              s = (if g_current_pid s = pid then s\<lparr>g_current_pid := -1\<rparr> else s);
              p = g_pcbs s ! i;
              s = (case pcb_find_by_pid (p_parent_pid p) s of
                     None \<Rightarrow> s
                   | Some j \<Rightarrow>
                       if p_state (g_pcbs s ! j) = PCB_STATE_WAITING \<and> wait_matches (g_pcbs s ! j) p pid
                       then pcb_upd j (\<lambda>q. q\<lparr>p_state := PCB_STATE_READY, p_wait_target_pid := -1\<rparr>) s
                       else s)
          in s\<lparr>g_pcb_status := ''pcb: process completed''\<rparr>)"

definition pcb_process_exit :: "u64 \<Rightarrow> int \<Rightarrow> int \<Rightarrow> 'z kpcb_scheme \<Rightarrow> 'z kpcb_scheme" where
  "pcb_process_exit ticks pid exit_code s = pcb_finish_process ticks pid PCB_STATE_EXITED exit_code s"

definition pcb_process_abort :: "u64 \<Rightarrow> int \<Rightarrow> int \<Rightarrow> 'z kpcb_scheme \<Rightarrow> 'z kpcb_scheme" where
  "pcb_process_abort ticks pid exit_code s = pcb_finish_process ticks pid PCB_STATE_ABORTED exit_code s"

definition pcb_process_fault :: "u64 \<Rightarrow> int \<Rightarrow> u8 \<Rightarrow> u64 \<Rightarrow> int \<Rightarrow> 'z kpcb_scheme \<Rightarrow> 'z kpcb_scheme" where
  "pcb_process_fault ticks pid vector error_code exit_code s =
     (case pcb_find_by_pid pid s of
        None \<Rightarrow> s
      | Some i \<Rightarrow> pcb_finish_process ticks pid PCB_STATE_ABORTED exit_code
           (pcb_upd i (\<lambda>p. p\<lparr>p_fault_vector := vector, p_fault_error_code := error_code\<rparr>) s))"

definition pcb_process_stop :: "u64 \<Rightarrow> int \<Rightarrow> 'z kpcb_scheme \<Rightarrow> 'z kpcb_scheme" where
  "pcb_process_stop ticks pid s = pcb_finish_process ticks pid PCB_STATE_STOPPED (-1) s"

fun count_used :: "u32 \<Rightarrow> pcb_t list \<Rightarrow> u32" where
  "count_used n [] = n"
| "count_used n (p # ps) = count_used (if p_used p then n + 1 else n) ps"

definition pcb_count :: "'z kpcb_scheme \<Rightarrow> u32" where
  "pcb_count s = count_used 0 (g_pcbs s)"

definition pcb_snapshot :: "u32 \<Rightarrow> 'z kpcb_scheme \<Rightarrow> pcb_t option" where
  "pcb_snapshot index s = (if unat index \<ge> PCB_MAX then None else Some (g_pcbs s ! unat index))"

text \<open>The setters that update one field of the entry of a process, if it exists.\<close>

definition pcb_modify :: "int \<Rightarrow> (pcb_t \<Rightarrow> pcb_t) \<Rightarrow> 'z kpcb_scheme \<Rightarrow> bool \<times> 'z kpcb_scheme" where
  "pcb_modify pid f s = (case pcb_find_by_pid pid s of None \<Rightarrow> (False, s) | Some i \<Rightarrow> (True, pcb_upd i f s))"

definition pcb_pending_signal_mask :: "int \<Rightarrow> 'z kpcb_scheme \<Rightarrow> u32" where
  "pcb_pending_signal_mask pid s = (case pcb_find_by_pid pid s of None \<Rightarrow> 0 | Some i \<Rightarrow> p_pending_signals (g_pcbs s ! i))"

definition pcb_signal_or :: "int \<Rightarrow> u32 \<Rightarrow> 'z kpcb_scheme \<Rightarrow> bool \<times> 'z kpcb_scheme" where
  "pcb_signal_or pid m s = pcb_modify pid (\<lambda>p. p\<lparr>p_pending_signals := p_pending_signals p OR m\<rparr>) s"

definition pcb_signal_set :: "int \<Rightarrow> u32 \<Rightarrow> 'z kpcb_scheme \<Rightarrow> bool \<times> 'z kpcb_scheme" where
  "pcb_signal_set pid m s = pcb_modify pid (\<lambda>p. p\<lparr>p_pending_signals := m\<rparr>) s"

definition pcb_set_parent :: "int \<Rightarrow> int \<Rightarrow> 'z kpcb_scheme \<Rightarrow> 'z kpcb_scheme" where
  "pcb_set_parent pid parent s = snd (pcb_modify pid (\<lambda>p. p\<lparr>p_parent_pid := parent\<rparr>) s)"

definition pcb_account_cpu :: "int \<Rightarrow> bool \<Rightarrow> u64 \<Rightarrow> 'z kpcb_scheme \<Rightarrow> 'z kpcb_scheme" where
  "pcb_account_cpu pid in_kernel ticks s = snd (pcb_modify pid (\<lambda>p.
     if in_kernel then p\<lparr>p_cpu_kernel_ticks := p_cpu_kernel_ticks p + ticks\<rparr>
     else p\<lparr>p_cpu_user_ticks := p_cpu_user_ticks p + ticks\<rparr>) s)"

definition pcb_set_mem_pages :: "int \<Rightarrow> u32 \<Rightarrow> 'z kpcb_scheme \<Rightarrow> 'z kpcb_scheme" where
  "pcb_set_mem_pages pid pages s = snd (pcb_modify pid (\<lambda>p. p\<lparr>p_mem_pages := pages\<rparr>) s)"

definition pcb_add_thread :: "int \<Rightarrow> int \<Rightarrow> 'z kpcb_scheme \<Rightarrow> 'z kpcb_scheme" where
  "pcb_add_thread pid delta s = snd (pcb_modify pid (\<lambda>p.
     if delta < 0 \<and> p_thread_count p \<noteq> 0 then p\<lparr>p_thread_count := p_thread_count p - 1\<rparr>
     else if delta > 0 then p\<lparr>p_thread_count := p_thread_count p + 1\<rparr> else p) s)"

definition pcb_fill_info :: "u64 \<Rightarrow> pcb_t \<Rightarrow> process_info_t" where
  "pcb_fill_info now p = \<lparr>pi_pid = sint (p_pid p), pi_parent_pid = p_parent_pid p,
     pi_name = pcb_copy_text 32 (Some (p_name p)), pi_state_name = pcb_copy_text 12 (Some (pcb_state_name (p_state p))),
     pi_state = p_state p, pi_cpu_user_ticks = p_cpu_user_ticks p, pi_cpu_kernel_ticks = p_cpu_kernel_ticks p,
     pi_cpu_total_ticks = p_cpu_user_ticks p + p_cpu_kernel_ticks p,
     pi_uptime_ticks = (if p_end_tick p \<noteq> 0 then p_end_tick p - p_start_tick p else now - p_start_tick p),
     pi_mem_pages = p_mem_pages p, pi_mem_kb = p_mem_pages p * 4, pi_thread_count = p_thread_count p\<rparr>"

fun enum_loop :: "u64 \<Rightarrow> nat \<Rightarrow> pcb_t list \<Rightarrow> process_info_t list" where
  "enum_loop now room [] = []"
| "enum_loop now room (p # ps) =
     (if room = 0 then []
      else if \<not> p_used p \<or> p_state p = PCB_STATE_FREE then enum_loop now room ps
      else pcb_fill_info now p # enum_loop now (room - 1) ps)"

definition process_enum :: "u64 \<Rightarrow> u32 \<Rightarrow> 'z kpcb_scheme \<Rightarrow> process_info_t list" where
  "process_enum now max_entries s = enum_loop now (unat max_entries) (g_pcbs s)"

definition process_enum_all :: "u64 \<Rightarrow> 'z kpcb_scheme \<Rightarrow> process_info_t list" where
  "process_enum_all now s = process_enum now 16 s"

definition process_stats :: "u64 \<Rightarrow> int \<Rightarrow> 'z kpcb_scheme \<Rightarrow> process_info_t option" where
  "process_stats now pid s = map_option (\<lambda>i. pcb_fill_info now (g_pcbs s ! i)) (pcb_find_by_pid pid s)"

definition process_terminate :: "u64 \<Rightarrow> int \<Rightarrow> 'z kpcb_scheme \<Rightarrow> int \<times> 'z kpcb_scheme" where
  "process_terminate ticks pid s =
     (if pcb_find_by_pid pid s = None \<or> pid \<le> 0 then (-1, s) else (0, pcb_process_abort ticks pid 1 s))"

definition pcb_get_current :: "'z kpcb_scheme \<Rightarrow> nat option" where
  "pcb_get_current s = (if g_current_pid s < 0 then None else pcb_find_by_pid (g_current_pid s) s)"

definition pcb_alloc_pid :: "'z kpcb_scheme \<Rightarrow> int \<times> 'z kpcb_scheme" where
  "pcb_alloc_pid s = (sint (g_next_pid s), s\<lparr>g_next_pid := g_next_pid s + 1\<rparr>)"

definition pcb_create_child :: "u64 \<Rightarrow> int \<Rightarrow> 'z kpcb_scheme \<Rightarrow> nat option \<times> 'z kpcb_scheme" where
  "pcb_create_child timer_ticks parent_pid s =
     (case pcb_claim_slot s of (slot, s) \<Rightarrow>
        if slot < 0 then (None, s)
        else case pcb_alloc_pid s of (pid, s) \<Rightarrow>
          let p = pcb_zero\<lparr>p_used := True, p_slot := word_of_int slot, p_pid := word_of_int pid, p_state := PCB_STATE_READY,
                    p_parent_pid := parent_pid, p_start_tick := timer_ticks, p_uid := 0, p_gid := 0, p_euid := 0, p_egid := 0\<rparr>;
              s = s\<lparr>g_pcbs := (g_pcbs s)[nat slot := p]\<rparr>;
              p = (case pcb_find_by_pid parent_pid s of
                     Some j \<Rightarrow> let par = g_pcbs s ! j in
                       pcb_fd_copy (p\<lparr>p_priority := p_priority par, p_pgid := p_pgid par, p_sid := p_sid par\<rparr>) (Some par)
                   | None \<Rightarrow> pcb_fd_init (p\<lparr>p_priority := SCHED_PRIORITY_DEFAULT, p_pgid := pid, p_sid := pid\<rparr>));
              p = p\<lparr>p_session_leader := False, p_wait_target_pid := -1, p_time_slice := SCHED_TIMESLICE_TICKS,
                    p_remaining_ticks := SCHED_TIMESLICE_TICKS\<rparr>
          in (Some (nat slot), s\<lparr>g_pcbs := (g_pcbs s)[nat slot := p]\<rparr>))"

definition pcb_set_current :: "int \<Rightarrow> 'z kpcb_scheme \<Rightarrow> 'z kpcb_scheme" where
  "pcb_set_current pid s = s\<lparr>g_current_pid := pid\<rparr>"

definition pcb_set_credentials :: "int \<Rightarrow> u32 \<Rightarrow> u32 \<Rightarrow> u32 \<Rightarrow> u32 \<Rightarrow> 'z kpcb_scheme \<Rightarrow> 'z kpcb_scheme" where
  "pcb_set_credentials pid uid gid euid egid s =
     snd (pcb_modify pid (\<lambda>p. p\<lparr>p_uid := uid, p_gid := gid, p_euid := euid, p_egid := egid\<rparr>) s)"

definition pcb_set_state :: "int \<Rightarrow> pcb_state_t \<Rightarrow> 'z kpcb_scheme \<Rightarrow> 'z kpcb_scheme" where
  "pcb_set_state pid state s = snd (pcb_modify pid (\<lambda>p. p\<lparr>p_state := state\<rparr>) s)"

section \<open>Waiting and reaping\<close>

definition pcb_has_zombie_child :: "int \<Rightarrow> 'z kpcb_scheme \<Rightarrow> bool" where
  "pcb_has_zombie_child parent_pid s \<longleftrightarrow>
     find_index (\<lambda>p. p_used p \<and> p_state p = PCB_STATE_ZOMBIE \<and> p_parent_pid p = parent_pid) (g_pcbs s) \<noteq> None"

definition reapable :: "pcb_t \<Rightarrow> bool" where
  "reapable p \<longleftrightarrow> p_state p = PCB_STATE_ZOMBIE \<or> p_state p = PCB_STATE_EXITED \<or> p_state p = PCB_STATE_ABORTED"

text \<open>Release the resources of entry \<open>i\<close> and its slot.\<close>

definition pcb_release :: "nat \<Rightarrow> 'z kpcb_scheme \<Rightarrow> 'z kpcb_scheme option" where
  "pcb_release i s = do {
     let p = g_pcbs s ! i;
     let s = (if as_active (p_addr_space p)
              then case vm_destroy_address_space (p_addr_space p) s of (as, s) \<Rightarrow> pcb_upd i (\<lambda>p. p\<lparr>p_addr_space := as\<rparr>) s
              else s);
     s \<leftarrow> (if p_kernel_stack p \<noteq> 0
          then map_option (pcb_upd i (\<lambda>p. p\<lparr>p_kernel_stack := 0\<rparr>)) (kfree (p_kernel_stack p) s) else Some s);
     let s = s\<lparr>g_pcbs := (g_pcbs s)[i := pcb_zero]\<rparr>;
     case pool_free_slot (g_pcb_pool s) (of_nat i) s of (_, pool, s) \<Rightarrow> Some (s\<lparr>g_pcb_pool := pool\<rparr>)
   }"

text \<open>The result is the reaped pid (or -1), the exit code stored through the pointer, and the state.\<close>

definition pcb_wait_child :: "int \<Rightarrow> 'z kpcb_scheme \<Rightarrow> (int \<times> int option \<times> 'z kpcb_scheme) option" where
  "pcb_wait_child parent_pid s =
     (case find_index (\<lambda>p. p_used p \<and> p_parent_pid p = parent_pid \<and> reapable p) (g_pcbs s) of
        None \<Rightarrow> Some (-1, None, s)
      | Some i \<Rightarrow> let p = g_pcbs s ! i in
          map_option (\<lambda>s. (sint (p_pid p), Some (p_exit_code p), s)) (pcb_release i s))"

definition pcb_reap_child :: "int \<Rightarrow> int \<Rightarrow> 'z kpcb_scheme \<Rightarrow> (int \<times> int option \<times> 'z kpcb_scheme) option" where
  "pcb_reap_child parent_pid child_pid s =
     (case find_index (\<lambda>p. p_used p \<and> p_parent_pid p = parent_pid \<and> sint (p_pid p) = child_pid) (g_pcbs s) of
        None \<Rightarrow> Some (-1, None, s)
      | Some i \<Rightarrow> let p = g_pcbs s ! i in
          if \<not> reapable p then Some (-1, None, s)
          else map_option (\<lambda>s. (sint (p_pid p), Some (p_exit_code p), s)) (pcb_release i s))"

section \<open>Process groups and sessions\<close>

definition pcb_setpgid :: "int \<Rightarrow> int \<Rightarrow> 'z kpcb_scheme \<Rightarrow> int \<times> 'z kpcb_scheme" where
  "pcb_setpgid pid pgid s =
     (if pid \<le> 0 then (-1, s)
      else case pcb_find_by_pid pid s of
        None \<Rightarrow> (-1, s)
      | Some i \<Rightarrow>
          let pgid = (if pgid = 0 then pid else pgid) in
          if pgid \<noteq> pid \<and> pcb_find_by_pid pgid s = None then (-1, s)
          else (0, pcb_upd i (\<lambda>p. p\<lparr>p_pgid := pgid\<rparr>) s))"

definition pcb_getpgid :: "int \<Rightarrow> 'z kpcb_scheme \<Rightarrow> int" where
  "pcb_getpgid pid s = (case pcb_find_by_pid pid s of None \<Rightarrow> -1 | Some i \<Rightarrow> p_pgid (g_pcbs s ! i))"

definition pcb_setsid :: "'z kpcb_scheme \<Rightarrow> int \<times> 'z kpcb_scheme" where
  "pcb_setsid s = (case pcb_get_current s of
       None \<Rightarrow> (-1, s)
     | Some i \<Rightarrow> let p = g_pcbs s ! i in
         if p_session_leader p then (-1, s)
         else (sint (p_pid p), pcb_upd i (\<lambda>p. p\<lparr>p_sid := sint (p_pid p), p_pgid := sint (p_pid p), p_session_leader := True\<rparr>) s))"

section \<open>Scheduling\<close>

definition scheduler_set_preemptive :: "bool \<Rightarrow> 'z kpcb_scheme \<Rightarrow> 'z kpcb_scheme" where
  "scheduler_set_preemptive enabled s = s\<lparr>g_preemptive_enabled := enabled\<rparr>"

definition pcb_set_priority :: "int \<Rightarrow> u32 \<Rightarrow> 'z kpcb_scheme \<Rightarrow> 'z kpcb_scheme" where
  "pcb_set_priority pid priority s = snd (pcb_modify pid (\<lambda>p.
     p\<lparr>p_priority := (if priority > SCHED_PRIORITY_REALTIME then SCHED_PRIORITY_REALTIME else priority),
       p_remaining_ticks := p_time_slice p\<rparr>) s)"

definition pcb_get_priority :: "int \<Rightarrow> 'z kpcb_scheme \<Rightarrow> u32" where
  "pcb_get_priority pid s =
     (case pcb_find_by_pid pid s of None \<Rightarrow> SCHED_PRIORITY_DEFAULT | Some i \<Rightarrow> p_priority (g_pcbs s ! i))"

definition pcb_reset_time_slice :: "pcb_t \<Rightarrow> pcb_t" where
  "pcb_reset_time_slice p =
     (let mult = (if p_priority p \<ge> SCHED_PRIORITY_REALTIME then 4 else if p_priority p \<ge> SCHED_PRIORITY_HIGH then 2 else 1);
          slice = SCHED_TIMESLICE_TICKS * mult
      in p\<lparr>p_time_slice := slice, p_remaining_ticks := slice\<rparr>)"

text \<open>One iteration of the selection loop: the index of the best entry so far and its priority.\<close>

definition pick_step :: "'z kpcb_scheme \<Rightarrow> u32 \<Rightarrow> nat \<Rightarrow> nat option \<times> u32 \<Rightarrow> nat option \<times> u32" where
  "pick_step s current_pid i acc =
     (case acc of (best, best_priority) \<Rightarrow>
        let p = g_pcbs s ! i in
        if \<not> p_used p \<or> p_state p \<noteq> PCB_STATE_READY then acc
        else if p_pid p = current_pid then acc
        else if p_priority p > best_priority then (Some i, p_priority p)
        else if p_priority p = best_priority then
          (case best of
             Some b \<Rightarrow> if of_nat i > g_rr_cursor s \<and> p_slot (g_pcbs s ! b) \<le> g_rr_cursor s then (Some i, best_priority) else acc
           | None \<Rightarrow> acc)
        else acc)"

definition scheduler_pick_next :: "'z kpcb_scheme \<Rightarrow> nat option" where
  "scheduler_pick_next s =
     (let current_pid = (if g_current_pid s \<ge> 0 then word_of_int (g_current_pid s) else 0xFFFFFFFF)
      in fst (fold (pick_step s current_pid) [0..<PCB_MAX] (None, SCHED_PRIORITY_IDLE - 1)))"

definition scheduler_tick :: "'z kpcb_scheme \<Rightarrow> bool \<times> 'z kpcb_scheme" where
  "scheduler_tick s =
     (if \<not> g_preemptive_enabled s then (False, s)
      else case pcb_get_current s of
        None \<Rightarrow> (False, s)
      | Some i \<Rightarrow>
          let s = pcb_upd i (\<lambda>p. p\<lparr>p_cpu_user_ticks := p_cpu_user_ticks p + 1,
                    p_remaining_ticks := (if p_remaining_ticks p > 0 then p_remaining_ticks p - 1 else p_remaining_ticks p)\<rparr>) s in
          if p_remaining_ticks (g_pcbs s ! i) = 0
          then case scheduler_pick_next s of
              Some _ \<Rightarrow> (True, pcb_upd i pcb_reset_time_slice
                                 (s\<lparr>g_rr_cursor := (p_slot (g_pcbs s ! i) + 1) mod of_nat PCB_MAX\<rparr>))
            | None \<Rightarrow> (False, pcb_upd i pcb_reset_time_slice s)
          else (False, s))"

definition sys_sched_yield :: "'z kpcb_scheme \<Rightarrow> 'z kpcb_scheme" where
  "sys_sched_yield s = (case pcb_get_current s of
       None \<Rightarrow> s
     | Some i \<Rightarrow> pcb_upd i (\<lambda>p. pcb_reset_time_slice (p\<lparr>p_remaining_ticks := 0\<rparr>)) s)"

section \<open>Page faults\<close>

definition vm_handle_page_fault :: "u64 \<Rightarrow> u64 \<Rightarrow> 'z kpcb_scheme \<Rightarrow> (bool \<times> 'z kpcb_scheme) option" where
  "vm_handle_page_fault fault_addr error_code s =
     (if error_code AND 4 = 0 then Some (False, s)
      else case pcb_get_current s of
        None \<Rightarrow> Some (False, s)
      | Some i \<Rightarrow>
          let as = p_addr_space (g_pcbs s ! i) in
          if \<not> as_active as then Some (False, s)
          else if error_code AND 1 \<noteq> 0 then do {
            (ok, as, s) \<leftarrow> vm_handle_cow_fault as fault_addr error_code s;
            Some (ok, pcb_upd i (\<lambda>p. p\<lparr>p_addr_space := as\<rparr>) s)
          }
          else if fault_addr < VM_DEMAND_BEGIN \<or> fault_addr \<ge> VM_DEMAND_END then Some (False, s)
          else do {
            (frame, s) \<leftarrow> frame_alloc 1 s;
            if frame = 0 then Some (False, s)
            else do {
              (ok, as, s) \<leftarrow> vm_map_page as (page_base fault_addr) frame user_rw (mem_zero frame 4096 s);
              let s = pcb_upd i (\<lambda>p. p\<lparr>p_addr_space := as\<rparr>) s;
              Some (if \<not> ok then (False, frame_drop frame s) else (True, s))
            }
          })"

section \<open>Invariant\<close>

definition pcb_entry_ok :: "nat \<Rightarrow> u32 \<Rightarrow> pcb_t \<Rightarrow> bool" where
  "pcb_entry_ok i next_pid p \<longleftrightarrow> length (p_fd_table p) = PCB_FD_MAX \<and> length (p_fd_cloexec p) = PCB_FD_CLOEXEC_WORDS \<and>
     (p_used p \<longrightarrow> p_slot p = of_nat i \<and> 0 < unat (p_pid p) \<and> unat (p_pid p) < unat next_pid)"

definition pids_distinct :: "pcb_t list \<Rightarrow> bool" where
  "pids_distinct ps \<longleftrightarrow> (\<forall>i j. i < length ps \<longrightarrow> j < length ps \<longrightarrow> p_used (ps ! i) \<longrightarrow> p_used (ps ! j) \<longrightarrow>
     p_pid (ps ! i) = p_pid (ps ! j) \<longrightarrow> i = j)"

definition pcb_inv :: "'z kpcb_scheme \<Rightarrow> bool" where
  "pcb_inv s \<longleftrightarrow> length (g_pcbs s) = PCB_MAX \<and> pool_inv (g_pcb_pool s) \<and> pl_capacity (g_pcb_pool s) = of_nat PCB_MAX \<and>
     table_synced p_used (g_pcbs s) (pool_slots (g_pcb_pool s)) \<and>
     (\<forall>i < PCB_MAX. pcb_entry_ok i (g_next_pid s) (g_pcbs s ! i)) \<and> pids_distinct (g_pcbs s) \<and> 0 < unat (g_next_pid s)"

text \<open>The invariants of the process table and of the allocators below it.\<close>

definition proc_inv :: "'z kpcb_scheme \<Rightarrow> bool" where
  "proc_inv s \<longleftrightarrow> vm_inv s \<and> mem_inv s \<and> pcb_inv s"

text \<open>Updates of an entry that keep its identity and the shape of its descriptor table.\<close>

definition pcb_quiet :: "(pcb_t \<Rightarrow> pcb_t) \<Rightarrow> bool" where
  "pcb_quiet f \<longleftrightarrow> (\<forall>p. p_used (f p) = p_used p \<and> p_slot (f p) = p_slot p \<and> p_pid (f p) = p_pid p \<and>
     length (p_fd_table (f p)) = length (p_fd_table p) \<and> length (p_fd_cloexec (f p)) = length (p_fd_cloexec p))"

lemma pcb_quietI:
  assumes "\<And>p. p_used (f p) = p_used p" "\<And>p. p_slot (f p) = p_slot p" "\<And>p. p_pid (f p) = p_pid p"
    "\<And>p. length (p_fd_table (f p)) = length (p_fd_table p)" "\<And>p. length (p_fd_cloexec (f p)) = length (p_fd_cloexec p)"
  shows "pcb_quiet f"
  using assms by (simp add: pcb_quiet_def)

lemma pcb_quiet_entry: "pcb_quiet f \<Longrightarrow> pcb_entry_ok i n p \<Longrightarrow> pcb_entry_ok i n (f p)"
  by (simp add: pcb_quiet_def pcb_entry_ok_def)

lemma pcb_upd_sel [simp]:
  "length (g_pcbs (pcb_upd i f s)) = length (g_pcbs s)" "g_pcb_pool (pcb_upd i f s) = g_pcb_pool s"
  "g_next_pid (pcb_upd i f s) = g_next_pid s" "g_current_pid (pcb_upd i f s) = g_current_pid s"
  "vm_inv (pcb_upd i f s) = vm_inv s" "mem_inv (pcb_upd i f s) = mem_inv s" "frames_used (pcb_upd i f s) = frames_used s"
  "vm_chunks (pcb_upd i f s) = vm_chunks s" "heap_live (pcb_upd i f s) = heap_live s" "mem_view (pcb_upd i f s) = mem_view s"
  by (simp_all add: pcb_upd_def vm_inv_def frame_inv_def frame_map_ok_def frames_used_def mem_view_inv mem_view_def vm_chunks_def
      heap_live_def mem_inv_def heap_inv_def leak_inv_def leak_live_def)

lemma nth_pcb_upd: "j < length (g_pcbs s) \<Longrightarrow> g_pcbs (pcb_upd i f s) ! j = (if i = j then f (g_pcbs s ! j) else g_pcbs s ! j)"
  by (simp add: pcb_upd_def)

lemma pcb_quiet_at:
  assumes "pcb_quiet f" "j < length (g_pcbs s)"
  shows "p_used (g_pcbs (pcb_upd i f s) ! j) = p_used (g_pcbs s ! j)" "p_pid (g_pcbs (pcb_upd i f s) ! j) = p_pid (g_pcbs s ! j)"
  using assms by (simp_all add: nth_pcb_upd pcb_quiet_def)

lemma pcb_inv_upd:
  assumes "pcb_inv s" "pcb_quiet f"
  shows "pcb_inv (pcb_upd i f s)"
proof -
  have len: "length (g_pcbs s) = PCB_MAX" using assms(1) by (simp add: pcb_inv_def)
  have "pcb_entry_ok j (g_next_pid s) (g_pcbs (pcb_upd i f s) ! j)" if "j < PCB_MAX" for j
    using that assms by (simp add: nth_pcb_upd len pcb_inv_def pcb_quiet_entry)
  moreover have "table_synced p_used (g_pcbs (pcb_upd i f s)) (pool_slots (g_pcb_pool s))"
    "pids_distinct (g_pcbs (pcb_upd i f s))"
    using assms(1) by (simp_all add: pcb_inv_def table_synced_def pids_distinct_def pcb_quiet_at [OF assms(2)])
  ultimately show ?thesis using assms(1) by (simp add: pcb_inv_def)
qed

lemma proc_inv_upd: "proc_inv s \<Longrightarrow> pcb_quiet f \<Longrightarrow> proc_inv (pcb_upd i f s)"
  by (simp add: proc_inv_def pcb_inv_upd)

lemma proc_inv_misc [simp]:
  "proc_inv (s\<lparr>g_current_pid := c\<rparr>) = proc_inv s" "proc_inv (s\<lparr>g_pcb_status := st\<rparr>) = proc_inv s"
  "proc_inv (s\<lparr>g_preemptive_enabled := b\<rparr>) = proc_inv s" "proc_inv (s\<lparr>g_rr_cursor := r\<rparr>) = proc_inv s"
  by (simp_all add: proc_inv_def vm_inv_def frame_inv_def frame_map_ok_def frames_used_def mem_inv_def heap_inv_def leak_inv_def
      leak_live_def heap_live_def pcb_inv_def)

lemma find_by_pid_SomeD:
  assumes "pcb_find_by_pid pid s = Some i"
  shows "i < length (g_pcbs s)" "p_used (g_pcbs s ! i)" "sint (p_pid (g_pcbs s ! i)) = pid"
  using find_index_SomeD [OF assms [unfolded pcb_find_by_pid_def]] by auto

lemma find_by_pid_unique:
  assumes "pcb_inv s" "i < PCB_MAX" "p_used (g_pcbs s ! i)"
  shows "pcb_find_by_pid (sint (p_pid (g_pcbs s ! i))) s = Some i"
proof -
  have len: "length (g_pcbs s) = PCB_MAX" using assms(1) by (simp add: pcb_inv_def)
  then have "pcb_find_by_pid (sint (p_pid (g_pcbs s ! i))) s \<noteq> None"
    using assms(2,3) unfolding pcb_find_by_pid_def find_index_None_iff by (metis nth_mem)
  then obtain j where j: "pcb_find_by_pid (sint (p_pid (g_pcbs s ! i))) s = Some j" by auto
  note J = find_by_pid_SomeD [OF j]
  then have "p_pid (g_pcbs s ! j) = p_pid (g_pcbs s ! i)" by (simp add: signed_word_eqI)
  then have "j = i" using assms J len by (auto simp: pcb_inv_def pids_distinct_def)
  then show ?thesis using j by simp
qed

section \<open>Claiming a slot\<close>

text \<open>The state between claiming slot \<open>k\<close> and writing its entry.\<close>

definition slot_claimed :: "nat \<Rightarrow> 'z kpcb_scheme \<Rightarrow> bool" where
  "slot_claimed k s \<longleftrightarrow> length (g_pcbs s) = PCB_MAX \<and> pool_inv (g_pcb_pool s) \<and> pl_capacity (g_pcb_pool s) = of_nat PCB_MAX \<and>
     k < PCB_MAX \<and> \<not> p_used (g_pcbs s ! k) \<and> (\<forall>i < PCB_MAX. p_used (g_pcbs s ! i) \<or> i = k \<longleftrightarrow> i \<in> pool_slots (g_pcb_pool s)) \<and>
     (\<forall>i < PCB_MAX. pcb_entry_ok i (g_next_pid s) (g_pcbs s ! i)) \<and> pids_distinct (g_pcbs s) \<and> 0 < unat (g_next_pid s)"

definition claim_frame :: "'z kpcb_scheme \<Rightarrow> 'z kpcb_scheme \<Rightarrow> bool" where
  "claim_frame s s' \<longleftrightarrow> (\<exists>bs ps tab pool. s' = s\<lparr>g_bitmap_stats := bs, g_pool_stats := ps, g_pcb_pool := pool, g_pcbs := tab\<rparr>)"

lemma claim_frameI: "pool_stats_only s t \<Longrightarrow> claim_frame s (t\<lparr>g_pcb_pool := pool, g_pcbs := tab\<rparr>)"
  unfolding claim_frame_def by (elim pool_stats_onlyE) blast

lemma claim_frame_sel:
  assumes "claim_frame s s'"
  shows "vm_inv s' = vm_inv s" "mem_inv s' = mem_inv s" "frames_used s' = frames_used s" "vm_chunks s' = vm_chunks s"
    "heap_live s' = heap_live s" "g_next_pid s' = g_next_pid s" "g_current_pid s' = g_current_pid s"
proof -
  from assms obtain bs ps tab pool where s': "s' = s\<lparr>g_bitmap_stats := bs, g_pool_stats := ps, g_pcb_pool := pool, g_pcbs := tab\<rparr>"
    by (auto simp: claim_frame_def)
  have v: "mem_view s' = mem_view s" by (simp add: s' mem_view_def)
  show "mem_inv s' = mem_inv s" "heap_live s' = heap_live s" by (rule mem_view_inv [OF v])+
  show "vm_inv s' = vm_inv s" "frames_used s' = frames_used s" "vm_chunks s' = vm_chunks s"
    "g_next_pid s' = g_next_pid s" "g_current_pid s' = g_current_pid s"
    by (simp_all add: s' vm_inv_def frame_inv_def frame_map_ok_def frames_used_def vm_chunks_def)
qed

lemma pcb_zero_ok [simp]: "pcb_entry_ok i n pcb_zero" "\<not> p_used pcb_zero"
  by (simp_all add: pcb_entry_ok_def pcb_zero_def)

lemma pcb_claim_slot_spec:
  assumes inv: "pcb_inv s" and res: "pcb_claim_slot s = (r, s')"
  obtains
    (full) "r = -1" "g_pcbs s' = g_pcbs s" "claim_frame s s'" "pcb_inv s'"
      "\<forall>p \<in> set (g_pcbs s). p_used p \<and> p_state p = PCB_STATE_RUNNING"
  | (fresh) k where "r = int k" "slot_claimed k s'" "g_pcbs s' = g_pcbs s" "claim_frame s s'"
  | (evicted) k where "r = int k" "slot_claimed k s'" "claim_frame s s'" "\<forall>p \<in> set (g_pcbs s). p_used p"
      "find_index (\<lambda>p. p_used p \<and> p_state p \<noteq> PCB_STATE_RUNNING) (g_pcbs s) = Some k" "g_pcbs s' = (g_pcbs s)[k := pcb_zero]"
proof -
  from inv have len: "length (g_pcbs s) = PCB_MAX" and pi: "pool_inv (g_pcb_pool s)"
    and cap: "pl_capacity (g_pcb_pool s) = of_nat PCB_MAX" and sy: "table_synced p_used (g_pcbs s) (pool_slots (g_pcb_pool s))"
    and ok: "\<forall>i < PCB_MAX. pcb_entry_ok i (g_next_pid s) (g_pcbs s ! i)" and pd: "pids_distinct (g_pcbs s)" and np: "0 < unat (g_next_pid s)"
    by (simp_all add: pcb_inv_def)
  have cap': "unat (pl_capacity (g_pcb_pool s)) = PCB_MAX" by (simp add: cap PCB_MAX_def)
  obtain slot pool t where a: "pool_alloc_slot (g_pcb_pool s) s = (slot, pool, t)" by (cases "pool_alloc_slot (g_pcb_pool s) s")
  note S = pool_alloc_slot_spec [OF pi a]
  obtain bs ps where t: "t = s\<lparr>g_bitmap_stats := bs, g_pool_stats := ps\<rparr>" using S(3) by (rule pool_stats_onlyE)
  show ?thesis
  proof (cases "slot \<ge> 0")
    case True
    then obtain k where k: "slot = int k" "k < PCB_MAX" "k \<notin> pool_slots (g_pcb_pool s)" "pool_slots pool = insert k (pool_slots (g_pcb_pool s))"
      using S(4) cap' by auto
    have "pcb_claim_slot s = (int k, t\<lparr>g_pcb_pool := pool\<rparr>)" unfolding pcb_claim_slot_def a using k(1) by simp
    then have r: "r = int k" "s' = t\<lparr>g_pcb_pool := pool, g_pcbs := g_pcbs t\<rparr>" using res by simp_all
    have "p_used (g_pcbs s ! i) \<or> i = k \<longleftrightarrow> i \<in> pool_slots pool" if "i < PCB_MAX" for i
      using sy that len k(4) by (auto simp: table_synced_def)
    moreover have "\<not> p_used (g_pcbs s ! k)" using sy k(2,3) len by (simp add: table_synced_def)
    ultimately have "slot_claimed k s'"
      using S(1,2) k(2) ok pd np len cap unfolding r(2) t slot_claimed_def by simp
    moreover have "claim_frame s s'" unfolding r(2) by (rule claim_frameI [OF S(3)])
    moreover have "g_pcbs s' = g_pcbs s" by (simp add: r(2) t)
    ultimately show ?thesis using fresh [OF r(1)] by blast
  next
    case False
    then have sl: "pool_slots pool = pool_slots (g_pcb_pool s)" "pool_slots (g_pcb_pool s) = {..<PCB_MAX}" using S(4) cap' by auto
    have all: "\<forall>p \<in> set (g_pcbs s). p_used p" using sy len sl(2) by (auto simp: table_synced_def in_set_conv_nth)
    show ?thesis
    proof (cases "find_index (\<lambda>p. p_used p \<and> p_state p \<noteq> PCB_STATE_RUNNING) (g_pcbs s)")
      case None
      then have "pcb_claim_slot s = (-1, t\<lparr>g_pcb_pool := pool\<rparr>)" unfolding pcb_claim_slot_def a t using False by simp
      then have r: "r = -1" "s' = t\<lparr>g_pcb_pool := pool, g_pcbs := g_pcbs t\<rparr>" using res by simp_all
      have "pcb_inv s'" using inv S(1,2) sl(1) unfolding r(2) t pcb_inv_def by simp
      moreover have "claim_frame s s'" unfolding r(2) by (rule claim_frameI [OF S(3)])
      moreover have "g_pcbs s' = g_pcbs s" by (simp add: r(2) t)
      ultimately show ?thesis using full [OF r(1)] None all by (auto simp: find_index_None_iff)
    next
      case (Some i)
      note F = find_index_SomeD [OF Some]
      have i: "i < PCB_MAX" "unat (of_nat i :: u32) = i" using F(1) len by (simp_all add: PCB_MAX_def unat_of_nat_u32)
      let ?t = "t\<lparr>g_pcb_pool := pool\<rparr>"
      obtain fr pool1 u where f: "pool_free_slot pool (of_nat i) ?t = (fr, pool1, u)" by (cases "pool_free_slot pool (of_nat i) ?t")
      note P = pool_free_slot_spec [OF S(1) f]
      let ?u = "u\<lparr>g_pcb_pool := pool1, g_pcbs := (g_pcbs u)[i := pcb_zero]\<rparr>"
      obtain slot2 pool2 v where b: "pool_alloc_slot pool1 ?u = (slot2, pool2, v)" by (cases "pool_alloc_slot pool1 ?u")
      note Q = pool_alloc_slot_spec [OF P(1) b]
      obtain bu pu where u: "u = ?t\<lparr>g_bitmap_stats := bu, g_pool_stats := pu\<rparr>" using P(3) by (rule pool_stats_onlyE)
      obtain bv pv where v: "v = ?u\<lparr>g_bitmap_stats := bv, g_pool_stats := pv\<rparr>" using Q(3) by (rule pool_stats_onlyE)
      have p1: "pool_slots pool1 = {..<PCB_MAX} - {i}" using P(5) sl i(2) by simp
      have c1: "unat (pl_capacity pool1) = PCB_MAX" using P(2) S(2) cap' by simp
      have "slot2 = int i \<and> pool_slots pool2 = {..<PCB_MAX}"
      proof -
        have "pool_slots pool1 \<noteq> {..<PCB_MAX}" using p1 i(1) by auto
        then obtain k where "slot2 = int k" "k < PCB_MAX" "k \<notin> pool_slots pool1" "pool_slots pool2 = insert k (pool_slots pool1)"
          using Q(4) c1 by auto
        then show ?thesis using p1 i(1) by auto
      qed
      then have q: "slot2 = int i" "pool_slots pool2 = {..<PCB_MAX}" by auto
      have gp: "g_pcbs ?t = g_pcbs s" "g_pcb_pool ?t = pool" "g_pcb_pool ?u = pool1" by (simp_all add: t)
      have "pcb_claim_slot s = (slot2, v\<lparr>g_pcb_pool := pool2\<rparr>)"
        unfolding pcb_claim_slot_def a Let_def prod.case using False by (simp only: gp Some f b prod.case option.case if_False)
      then have r: "r = int i" "s' = v\<lparr>g_pcb_pool := pool2\<rparr>" using res q(1) by simp_all
      have sv: "s' = s\<lparr>g_bitmap_stats := bv, g_pool_stats := pv, g_pcb_pool := pool2, g_pcbs := (g_pcbs s)[i := pcb_zero]\<rparr>"
        unfolding r(2) v u t by simp
      then have fr: "claim_frame s s'" unfolding claim_frame_def by blast
      have "\<forall>j < PCB_MAX. p_used (g_pcbs s ! j)" using all len by simp
      then have "p_used ((g_pcbs s)[i := pcb_zero] ! j) \<or> j = i" if "j < PCB_MAX" for j using that len by (simp add: nth_update_lt)
      moreover have "pids_distinct ((g_pcbs s)[i := pcb_zero])" using pd by (auto simp: pids_distinct_def nth_update_lt)
      moreover have "pcb_entry_ok j (g_next_pid s) ((g_pcbs s)[i := pcb_zero] ! j)" if "j < PCB_MAX" for j
        using ok that len by (simp add: nth_update_lt)
      ultimately have "slot_claimed i s'" using Q(1,2) P(2) S(2) q(2) np len cap i(1) unfolding sv slot_claimed_def by simp
      then show ?thesis using evicted [OF r(1) _ fr all Some] sv by simp
    qed
  qed
qed

lemma install_entry:
  assumes c: "slot_claimed k s" and p: "p_used p" "p_slot p = of_nat k" "p_pid p = g_next_pid s"
    "length (p_fd_table p) = PCB_FD_MAX" "length (p_fd_cloexec p) = PCB_FD_CLOEXEC_WORDS" and room: "unat (g_next_pid s) < 2147483647"
    and s': "g_pcbs s' = (g_pcbs s)[k := p]" "g_pcb_pool s' = g_pcb_pool s" "g_next_pid s' = g_next_pid s + 1"
  shows "pcb_inv s'"
proof -
  have n: "unat (g_next_pid s + 1) = Suc (unat (g_next_pid s))" using room by (subst unat_add_u32) simp_all
  have len: "length (g_pcbs s) = PCB_MAX" "k < PCB_MAX" using c by (simp_all add: slot_claimed_def)
  have old: "unat (p_pid (g_pcbs s ! i)) < unat (g_next_pid s)" if "i < PCB_MAX" "p_used (g_pcbs s ! i)" for i
    using c that by (simp add: slot_claimed_def pcb_entry_ok_def)
  have "pcb_entry_ok i (g_next_pid s') (g_pcbs s' ! i)" if "i < PCB_MAX" for i
    using c that p n unfolding s' slot_claimed_def by (cases "i = k") (auto simp: pcb_entry_ok_def)
  moreover have "pids_distinct (g_pcbs s')"
    unfolding pids_distinct_def
  proof (intro allI impI)
    fix i j assume h: "i < length (g_pcbs s')" "j < length (g_pcbs s')" "p_used (g_pcbs s' ! i)" "p_used (g_pcbs s' ! j)"
      "p_pid (g_pcbs s' ! i) = p_pid (g_pcbs s' ! j)"
    then show "i = j"
      using c p(3) old [of i] old [of j] len unfolding s' slot_claimed_def pids_distinct_def
      by (cases "i = k"; cases "j = k") (auto simp: nth_list_update)
  qed
  moreover have "table_synced p_used (g_pcbs s') (pool_slots (g_pcb_pool s'))"
    using c p(1) unfolding table_synced_def s' slot_claimed_def by (auto simp: nth_list_update)
  ultimately show ?thesis using c n unfolding pcb_inv_def slot_claimed_def s' by simp
qed

section \<open>Starting and finishing\<close>

lemma fd_init_length [simp]:
  "length (p_fd_table (pcb_fd_init p)) = PCB_FD_MAX" "length (p_fd_cloexec (pcb_fd_init p)) = PCB_FD_CLOEXEC_WORDS"
  by (simp_all add: pcb_fd_init_def)

lemma fd_init_keeps [simp]:
  "p_used (pcb_fd_init p) = p_used p" "p_slot (pcb_fd_init p) = p_slot p" "p_pid (pcb_fd_init p) = p_pid p"
  by (simp_all add: pcb_fd_init_def)

lemma vm_mem_cong:
  assumes "mem_view s' = mem_view s" "g_frame_bitmap s' = g_frame_bitmap s" "g_frame_info s' = g_frame_info s"
    "g_frame_next_cursor s' = g_frame_next_cursor s" "g_user_chunk_bitmap s' = g_user_chunk_bitmap s"
  shows "vm_inv s' = vm_inv s" "mem_inv s' = mem_inv s" "frames_used s' = frames_used s" "vm_chunks s' = vm_chunks s"
    "heap_live s' = heap_live s"
  using assms(2-5) mem_view_inv [OF assms(1)]
  by (simp_all add: vm_inv_def frame_inv_def frame_map_ok_def frames_used_def vm_chunks_def)

text \<open>
  The outcome of starting a process: a new entry in a free slot; in a full table, in the slot of the first
  process that is not running; and no entry only when all 64 are running.
\<close>

definition started :: "int \<Rightarrow> 'z kpcb_scheme \<Rightarrow> 'z kpcb_scheme \<Rightarrow> bool" where
  "started pid s s' \<longleftrightarrow> pid = -1 \<and> g_pcbs s' = g_pcbs s \<and> (\<forall>p \<in> set (g_pcbs s). p_used p \<and> p_state p = PCB_STATE_RUNNING) \<or>
     (\<exists>k p. pid = int (unat (g_next_pid s)) \<and> g_current_pid s' = pid \<and> k < PCB_MAX \<and> g_pcbs s' = (g_pcbs s)[k := p] \<and>
        p_used p \<and> p_state p = PCB_STATE_RUNNING \<and> sint (p_pid p) = pid \<and> p_parent_pid p = -1 \<and>
        (if \<forall>q \<in> set (g_pcbs s). p_used q
         then find_index (\<lambda>q. p_used q \<and> p_state q \<noteq> PCB_STATE_RUNNING) (g_pcbs s) = Some k
         else \<not> p_used (g_pcbs s ! k)))"

lemma pcb_process_start_spec:
  assumes inv: "proc_inv s" and room: "unat (g_next_pid s) < 2147483647" and res: "pcb_process_start now path s = (pid, s')"
  shows "proc_inv s'" "frames_used s' = frames_used s" "vm_chunks s' = vm_chunks s" "heap_live s' = heap_live s"
    "started pid s s'"
proof -
  have pinv: "pcb_inv s" and v: "vm_inv s" "mem_inv s" using inv by (simp_all add: proc_inv_def)
  obtain r t where c: "pcb_claim_slot s = (r, t)" by (cases "pcb_claim_slot s")
  have pidn: "sint (g_next_pid s) = int (unat (g_next_pid s))" using room by (intro sint_small_u32) simp
  have main: "proc_inv s' \<and> frames_used s' = frames_used s \<and> vm_chunks s' = vm_chunks s \<and> heap_live s' = heap_live s \<and>
     (\<exists>p. pid = int (unat (g_next_pid s)) \<and> g_current_pid s' = pid \<and> g_pcbs s' = (g_pcbs t)[k := p] \<and>
        p_used p \<and> p_state p = PCB_STATE_RUNNING \<and> sint (p_pid p) = pid \<and> p_parent_pid p = -1)"
    if k: "r = int k" "slot_claimed k t" "claim_frame s t" for k
  proof -
    note F = claim_frame_sel [OF k(3)]
    define p where "p = (pcb_fd_init (pcb_zero\<lparr>p_used := True, p_slot := word_of_int (int k), p_pid := g_next_pid t,
       p_state := PCB_STATE_RUNNING, p_start_tick := now, p_path := pcb_copy_text 128 path,
       p_name := pcb_copy_name_from_path 32 path, p_uid := 0, p_gid := 0, p_euid := 0, p_egid := 0,
       p_parent_pid := -1, p_pgid := sint (g_next_pid t), p_sid := sint (g_next_pid t), p_session_leader := True,
       p_wait_target_pid := -1\<rparr>))\<lparr>p_priority := SCHED_PRIORITY_DEFAULT, p_time_slice := SCHED_TIMESLICE_TICKS,
       p_remaining_ticks := SCHED_TIMESLICE_TICKS\<rparr>"
    have s': "s' = t\<lparr>g_pcbs := (g_pcbs t)[k := p], g_next_pid := g_next_pid t + 1, g_current_pid := sint (g_next_pid t),
        g_pcb_status := ''pcb: process running''\<rparr>" and pid: "pid = sint (g_next_pid t)"
      using res unfolding pcb_process_start_def c prod.case Let_def p_def [symmetric] k(1) by auto
    have pf: "p_used p" "p_slot p = of_nat k" "p_pid p = g_next_pid t" "p_state p = PCB_STATE_RUNNING" "p_parent_pid p = -1"
      "length (p_fd_table p) = PCB_FD_MAX" "length (p_fd_cloexec p) = PCB_FD_CLOEXEC_WORDS"
      by (simp_all add: p_def pcb_fd_init_def)
    have "pcb_inv s'" using k(2) pf room F(6) by (intro install_entry [where k = k and p = p and s = t]) (simp_all add: s')
    moreover have "mem_view s' = mem_view t" "g_frame_bitmap s' = g_frame_bitmap t" "g_frame_info s' = g_frame_info t"
      "g_frame_next_cursor s' = g_frame_next_cursor t" "g_user_chunk_bitmap s' = g_user_chunk_bitmap t" by (simp_all add: s' mem_view_def)
    note C = vm_mem_cong [OF this]
    ultimately show ?thesis using v F(1-6) pf pidn pid by (simp add: proc_inv_def C) (auto simp: s' intro!: exI [of _ p])
  qed
  have idx: "\<exists>q \<in> set (g_pcbs s). \<not> p_used q" if "slot_claimed k t" "g_pcbs t = g_pcbs s" for k
    using that by (auto simp: slot_claimed_def intro!: bexI [of _ "g_pcbs s ! k"])
  have "proc_inv s' \<and> frames_used s' = frames_used s \<and> vm_chunks s' = vm_chunks s \<and> heap_live s' = heap_live s \<and>
    started pid s s'"
    using pinv c
  proof (cases rule: pcb_claim_slot_spec)
    case full
    note F = claim_frame_sel [OF full(3)]
    have s': "s' = t\<lparr>g_pcb_status := ''pcb: pool full''\<rparr>" "pid = -1" using res full(1) by (simp_all add: pcb_process_start_def c)
    have "mem_view s' = mem_view t" "g_frame_bitmap s' = g_frame_bitmap t" "g_frame_info s' = g_frame_info t"
      "g_frame_next_cursor s' = g_frame_next_cursor t" "g_user_chunk_bitmap s' = g_user_chunk_bitmap t" by (simp_all add: s' mem_view_def)
    note C = vm_mem_cong [OF this]
    have "proc_inv t" using full(4) v F by (simp add: proc_inv_def)
    then have "proc_inv s'" by (simp add: s')
    then show ?thesis using C F full(2,5) s' by (simp add: started_def)
  next
    case (fresh k)
    have "k < PCB_MAX" "\<not> p_used (g_pcbs s ! k)" using fresh(2,3) by (simp_all add: slot_claimed_def)
    then show ?thesis using main [OF fresh(1,2,4)] idx [OF fresh(2,3)] fresh(3) unfolding started_def by auto
  next
    case (evicted k)
    have "k < PCB_MAX" using evicted(2) by (simp add: slot_claimed_def)
    then show ?thesis using main [OF evicted(1-3)] evicted(4-6) unfolding started_def by auto
  qed
  then show "proc_inv s'" "frames_used s' = frames_used s" "vm_chunks s' = vm_chunks s" "heap_live s' = heap_live s"
    "started pid s s'" by blast+
qed

lemma pcb_create_child_inv:
  assumes inv: "proc_inv s" and room: "unat (g_next_pid s) < 2147483647" and res: "pcb_create_child now parent s = (r, s')"
  shows "proc_inv s'"
proof -
  have pinv: "pcb_inv s" and v: "vm_inv s" "mem_inv s" using inv by (simp_all add: proc_inv_def)
  obtain q t where c: "pcb_claim_slot s = (q, t)" by (cases "pcb_claim_slot s")
  have main: "proc_inv s'" if k: "q = int k" "slot_claimed k t" "claim_frame s t" for k
  proof -
    note F = claim_frame_sel [OF k(3)]
    define p0 where "p0 = pcb_zero\<lparr>p_used := True, p_slot := word_of_int (int k), p_pid := word_of_int (sint (g_next_pid t)),
      p_state := PCB_STATE_READY, p_parent_pid := parent, p_start_tick := now, p_uid := 0, p_gid := 0, p_euid := 0, p_egid := 0\<rparr>"
    define t1 where "t1 = t\<lparr>g_next_pid := g_next_pid t + 1, g_pcbs := (g_pcbs t)[k := p0]\<rparr>"
    define p where "p = (case pcb_find_by_pid parent t1 of
         Some j \<Rightarrow> pcb_fd_copy (p0\<lparr>p_priority := p_priority (g_pcbs t1 ! j), p_pgid := p_pgid (g_pcbs t1 ! j), p_sid := p_sid (g_pcbs t1 ! j)\<rparr>)
                     (Some (g_pcbs t1 ! j))
       | None \<Rightarrow> pcb_fd_init (p0\<lparr>p_priority := SCHED_PRIORITY_DEFAULT, p_pgid := sint (g_next_pid t), p_sid := sint (g_next_pid t)\<rparr>))
       \<lparr>p_session_leader := False, p_wait_target_pid := -1, p_time_slice := SCHED_TIMESLICE_TICKS,
         p_remaining_ticks := SCHED_TIMESLICE_TICKS\<rparr>"
    have s': "s' = t1\<lparr>g_pcbs := (g_pcbs t1)[k := p]\<rparr>"
    proof -
      have "pcb_create_child now parent s = (Some k, t1\<lparr>g_pcbs := (g_pcbs t1)[k := p]\<rparr>)"
        unfolding pcb_create_child_def c prod.case Let_def k(1) pcb_alloc_pid_def p_def t1_def p0_def
        by (simp cong: option.case_cong)
      then show ?thesis using res by simp
    qed
    have l0: "length (p_fd_table p0) = PCB_FD_MAX" "length (p_fd_cloexec p0) = PCB_FD_CLOEXEC_WORDS"
      by (simp_all add: p0_def pcb_zero_def)
    have lj: "length (p_fd_table (g_pcbs t1 ! j)) = PCB_FD_MAX" "length (p_fd_cloexec (g_pcbs t1 ! j)) = PCB_FD_CLOEXEC_WORDS"
      if "pcb_find_by_pid parent t1 = Some j" for j
      using find_by_pid_SomeD(1) [OF that] k(2) l0 unfolding t1_def
      by (auto simp: slot_claimed_def pcb_entry_ok_def nth_update_lt)
    have pf: "p_used p" "p_slot p = of_nat k" "p_pid p = g_next_pid t"
      "length (p_fd_table p) = PCB_FD_MAX" "length (p_fd_cloexec p) = PCB_FD_CLOEXEC_WORDS"
      using lj by (auto simp: p_def p0_def pcb_fd_copy_def split: option.splits)
    have "pcb_inv s'"
      using k(2) pf room F(6) by (intro install_entry [where k = k and p = p and s = t]) (simp_all add: s' t1_def)
    moreover have "mem_view s' = mem_view t" "g_frame_bitmap s' = g_frame_bitmap t" "g_frame_info s' = g_frame_info t"
      "g_frame_next_cursor s' = g_frame_next_cursor t" "g_user_chunk_bitmap s' = g_user_chunk_bitmap t"
      by (simp_all add: s' t1_def mem_view_def)
    note C = vm_mem_cong [OF this]
    ultimately show ?thesis using v F by (simp add: proc_inv_def C)
  qed
  from pinv c show ?thesis
  proof (cases rule: pcb_claim_slot_spec)
    case full
    then show ?thesis using res v claim_frame_sel [OF full(3)] by (simp add: pcb_create_child_def c proc_inv_def)
  qed (use main in blast)+
qed

lemma pcb_modify_inv: "proc_inv s \<Longrightarrow> pcb_quiet f \<Longrightarrow> proc_inv (snd (pcb_modify pid f s))"
  by (auto simp: pcb_modify_def proc_inv_upd split: option.splits)

lemma pcb_finish_process_inv:
  assumes "proc_inv s"
  shows "proc_inv (pcb_finish_process now pid st code s)"
proof -
  have 1: "pcb_quiet (\<lambda>p. p\<lparr>p_state := a, p_exit_code := b, p_end_tick := c\<rparr>)"
    "pcb_quiet (\<lambda>q. q\<lparr>p_state := PCB_STATE_READY, p_wait_target_pid := -1\<rparr>)" for a b c
    by (simp_all add: pcb_quiet_def)
  show ?thesis using assms
    by (auto simp: pcb_finish_process_def Let_def proc_inv_upd 1 split: option.splits)
qed

section \<open>Releasing an entry\<close>

lemma kpcb_more:
  assumes "kvm.more s' = kvm.more s"
  shows "g_pcbs s' = g_pcbs s" "g_pcb_pool s' = g_pcb_pool s" "g_next_pid s' = g_next_pid s" "g_current_pid s' = g_current_pid s"
  using assms by (cases s; cases s'; simp)+

lemma kvm_more_kmem:
  assumes "kmem.more s' = kmem.more s"
  shows "kvm.more s' = kvm.more s" "g_user_chunk_bitmap s' = g_user_chunk_bitmap s"
  using assms by (cases s; cases s'; simp)+

lemma mem_only_kvm:
  assumes "mem_only s s'"
  shows "vm_inv s' = vm_inv s" "frames_used s' = frames_used s" "vm_chunks s' = vm_chunks s" "kvm.more s' = kvm.more s"
  using mem_only_frames [OF assms] kvm_more_kmem [OF mem_only_frames(3) [OF assms]] by (simp_all add: vm_inv_def vm_chunks_def)

lemma pcb_inv_more:
  assumes "kvm.more s' = kvm.more s"
  shows "pcb_inv s' = pcb_inv s"
  by (simp only: pcb_inv_def kpcb_more [OF assms])

lemma erase_entry:
  assumes inv: "proc_inv s" and i: "i < PCB_MAX" "p_used (g_pcbs s ! i)"
    and f: "pool_free_slot (g_pcb_pool s) (of_nat i) (s\<lparr>g_pcbs := (g_pcbs s)[i := pcb_zero]\<rparr>) = (ok, pool, t)"
  shows "proc_inv (t\<lparr>g_pcb_pool := pool\<rparr>)" "g_pcbs t = (g_pcbs s)[i := pcb_zero]" "frames_used t = frames_used s"
    "vm_chunks t = vm_chunks s" "heap_live t = heap_live s" "g_next_pid t = g_next_pid s" "g_current_pid t = g_current_pid s"
proof -
  have pinv: "pcb_inv s" using inv by (simp add: proc_inv_def)
  then have pi: "pool_inv (g_pcb_pool s)" and len: "length (g_pcbs s) = PCB_MAX" by (simp_all add: pcb_inv_def)
  note P = pool_free_slot_spec [OF pi f]
  have u: "unat (of_nat i :: u32) = i" using i(1) by (simp add: PCB_MAX_def unat_of_nat_u32)
  obtain bs ps where t: "t = s\<lparr>g_pcbs := (g_pcbs s)[i := pcb_zero], g_bitmap_stats := bs, g_pool_stats := ps\<rparr>"
    using P(3) by (rule pool_stats_onlyE)
  then have t': "t\<lparr>g_pcb_pool := pool\<rparr> = s\<lparr>g_pcbs := (g_pcbs s)[i := pcb_zero], g_bitmap_stats := bs, g_pool_stats := ps, g_pcb_pool := pool\<rparr>" by simp
  have "pids_distinct ((g_pcbs s)[i := pcb_zero])" "\<forall>j < PCB_MAX. pcb_entry_ok j (g_next_pid s) ((g_pcbs s)[i := pcb_zero] ! j)"
    using pinv by (auto simp: pcb_inv_def pids_distinct_def nth_update_lt)
  moreover have "table_synced p_used ((g_pcbs s)[i := pcb_zero]) (pool_slots pool)"
    using pool.release_erase [OF pi f, of p_used "g_pcbs s" pcb_zero] pinv u by (simp add: pcb_inv_def PCB_MAX_def)
  ultimately have "pcb_inv (t\<lparr>g_pcb_pool := pool\<rparr>)" using P(1,2) pinv by (simp add: t' pcb_inv_def)
  moreover have v: "mem_view (t\<lparr>g_pcb_pool := pool\<rparr>) = mem_view s" "g_frame_bitmap (t\<lparr>g_pcb_pool := pool\<rparr>) = g_frame_bitmap s"
    "g_frame_info (t\<lparr>g_pcb_pool := pool\<rparr>) = g_frame_info s" "g_frame_next_cursor (t\<lparr>g_pcb_pool := pool\<rparr>) = g_frame_next_cursor s"
    "g_user_chunk_bitmap (t\<lparr>g_pcb_pool := pool\<rparr>) = g_user_chunk_bitmap s" by (simp_all add: t' mem_view_def)
  note C = vm_mem_cong [OF v]
  ultimately show "proc_inv (t\<lparr>g_pcb_pool := pool\<rparr>)" using inv C by (simp add: proc_inv_def)
  have v: "mem_view t = mem_view s" "g_frame_bitmap t = g_frame_bitmap s"
    "g_frame_info t = g_frame_info s" "g_frame_next_cursor t = g_frame_next_cursor s"
    "g_user_chunk_bitmap t = g_user_chunk_bitmap s" by (simp_all add: t mem_view_def)
  note C = vm_mem_cong [OF v]
  show "frames_used t = frames_used s" "vm_chunks t = vm_chunks s" "heap_live t = heap_live s" by (rule C)+
  show "g_pcbs t = (g_pcbs s)[i := pcb_zero]" "g_next_pid t = g_next_pid s" "g_current_pid t = g_current_pid s" by (simp_all add: t)
qed

lemma chunk_of_base:
  assumes "c < 64" and b: "base = VM_USER_PHYS_BASE + of_nat c * VM_USER_CHUNK_SIZE"
  shows "base \<ge> VM_USER_PHYS_BASE" "base < VM_USER_PHYS_BASE + VM_USER_PHYS_SIZE"
    "uint ((base - VM_USER_PHYS_BASE) div VM_USER_CHUNK_SIZE) = int c"
proof -
  have m: "unat (of_nat c * VM_USER_CHUNK_SIZE :: u64) = c * 0x400000"
    using assms(1) by (simp add: vm_consts unat_word_ariths unat_of_nat_u64)
  have u: "unat base = 0x8000000 + c * 0x400000"
    using assms(1) m unfolding b by (subst unat_add_u64) (simp_all add: vm_consts)
  show "base \<ge> VM_USER_PHYS_BASE" "base < VM_USER_PHYS_BASE + VM_USER_PHYS_SIZE"
    using u assms(1) by (simp_all add: word_nat vm_consts)
  have "unat ((base - VM_USER_PHYS_BASE) div VM_USER_CHUNK_SIZE) = c"
    unfolding b using m by (simp add: unat_div vm_consts)
  then show "uint ((base - VM_USER_PHYS_BASE) div VM_USER_CHUNK_SIZE) = int c"
    by (metis of_nat_unat)
qed

lemma vm_destroy_frees_chunk:
  assumes "vm_inv s" "vm_destroy_address_space as s = (as', s')" "as_active as" "\<not> as_cow_shared as"
    and c: "c < 64" "as_user_phys_base as = VM_USER_PHYS_BASE + of_nat c * VM_USER_CHUNK_SIZE"
  shows "c \<notin> vm_chunks s'"
proof -
  note B = chunk_of_base [OF c]
  obtain t where "s' = vm_free_user_chunk (int c) t"
    using assms(2-4) B by (auto simp: vm_destroy_address_space_def Let_def)
  then show ?thesis using c(1)
    by (auto simp: vm_free_user_chunk_def vm_chunks_def VM_USER_CHUNK_COUNT_def)
qed

text \<open>What a release gives back.\<close>

definition released :: "nat \<Rightarrow> 'z kpcb_scheme \<Rightarrow> 'z kpcb_scheme \<Rightarrow> bool" where
  "released i s s' \<longleftrightarrow> (let p = g_pcbs s ! i; as = p_addr_space p in
     g_pcbs s' = (g_pcbs s)[i := pcb_zero] \<and> pcb_inv s' \<and> vm_inv s' \<and> mem_inv s' \<and> g_current_pid s' = g_current_pid s \<and>
     heap_live s' = (if p_kernel_stack p = 0 then heap_live s else {r \<in> heap_live s. fst r \<noteq> unat (p_kernel_stack p)}) \<and>
     frames_used s' \<subseteq> frames_used s \<and> vm_chunks s' \<subseteq> vm_chunks s \<and>
     (\<forall>c < 64. as_active as \<and> \<not> as_cow_shared as \<and> as_user_phys_base as = VM_USER_PHYS_BASE + of_nat c * VM_USER_CHUNK_SIZE \<longrightarrow>
        c \<notin> vm_chunks s'))"

lemma release_space:
  assumes inv: "proc_inv s" and "as = p_addr_space (g_pcbs s ! i)"
    and t: "t = (if as_active as then case vm_destroy_address_space as s of (as, s) \<Rightarrow> pcb_upd i (\<lambda>p. p\<lparr>p_addr_space := as\<rparr>) s else s)"
  shows "proc_inv t" "(g_pcbs t)[i := x] = (g_pcbs s)[i := x]" "g_current_pid t = g_current_pid s" "heap_live t = heap_live s"
    "frames_used t \<subseteq> frames_used s" "vm_chunks t \<subseteq> vm_chunks s" "j < PCB_MAX \<Longrightarrow> p_used (g_pcbs t ! j) = p_used (g_pcbs s ! j)"
    "c < 64 \<Longrightarrow> as_active as \<Longrightarrow> \<not> as_cow_shared as \<Longrightarrow>
     as_user_phys_base as = VM_USER_PHYS_BASE + of_nat c * VM_USER_CHUNK_SIZE \<Longrightarrow> c \<notin> vm_chunks t"
proof -
  obtain as' u where d: "vm_destroy_address_space as s = (as', u)" by (cases "vm_destroy_address_space as s")
  have v: "vm_inv s" "mem_inv s" "pcb_inv s" using inv by (simp_all add: proc_inv_def)
  note D = vm_destroy_shrinks(1) [OF v(1) d]
  have q: "pcb_quiet (\<lambda>p. p\<lparr>p_addr_space := as'\<rparr>)" by (simp add: pcb_quiet_def)
  have more: "kvm.more u = kvm.more s" and view: "mem_view u = mem_view s" and vu: "vm_inv u"
    and sub: "frames_used u \<subseteq> frames_used s" "vm_chunks u \<subseteq> vm_chunks s" using D by (simp_all add: vm_shrunk_def)
  note K = kpcb_more [OF more]
  have pu: "proc_inv u" using vu v(2,3) pcb_inv_more [OF more] mem_view_inv [OF view] by (simp add: proc_inv_def)
  have len: "length (g_pcbs s) = PCB_MAX" using v(3) by (simp add: pcb_inv_def)
  have t': "t = (if as_active as then pcb_upd i (\<lambda>p. p\<lparr>p_addr_space := as'\<rparr>) u else s)" by (simp add: t d)
  show "proc_inv t" using inv proc_inv_upd [OF pu q] by (simp add: t')
  show "(g_pcbs t)[i := x] = (g_pcbs s)[i := x]" "g_current_pid t = g_current_pid s" by (simp_all add: t' K pcb_upd_def)
  show "heap_live t = heap_live s" "frames_used t \<subseteq> frames_used s" "vm_chunks t \<subseteq> vm_chunks s"
    using mem_view_inv(2) [OF view] sub by (simp_all add: t')
  show "p_used (g_pcbs t ! j) = p_used (g_pcbs s ! j)" if "j < PCB_MAX"
    using that len by (simp add: t' K nth_pcb_upd)
  show "c \<notin> vm_chunks t" if "c < 64" "as_active as" "\<not> as_cow_shared as"
    "as_user_phys_base as = VM_USER_PHYS_BASE + of_nat c * VM_USER_CHUNK_SIZE"
    using vm_destroy_frees_chunk [OF v(1) d that(2,3,1,4)] that(2) by (simp add: t')
qed

lemma pcb_release_spec:
  assumes inv: "proc_inv s" and i: "i < PCB_MAX" "p_used (g_pcbs s ! i)"
  shows "\<exists>s'. pcb_release i s = Some s' \<and> released i s s'"
proof -
  let ?p = "g_pcbs s ! i" and ?as = "p_addr_space (g_pcbs s ! i)"
  define t where "t = (if as_active ?as then case vm_destroy_address_space ?as s of (as, s) \<Rightarrow>
     pcb_upd i (\<lambda>p. p\<lparr>p_addr_space := as\<rparr>) s else s)"
  note R = release_space [OF inv refl t_def]
  have "mem_inv t" using R(1) by (simp add: proc_inv_def)
  then obtain u0 where k: "kfree (p_kernel_stack ?p) t = Some u0" "mem_inv u0" "mem_only t u0"
    "heap_live u0 = {r \<in> heap_live t. fst r \<noteq> unat (p_kernel_stack ?p)}" by (rule kfree_any)
  note M = mem_only_kvm [OF k(3)]
  have pu0: "proc_inv u0" using R(1) k(2) M(1) pcb_inv_more [OF M(4)] by (simp add: proc_inv_def)
  have q: "pcb_quiet (\<lambda>p. p\<lparr>p_kernel_stack := 0\<rparr>)" by (simp add: pcb_quiet_def)
  define u where "u = (if p_kernel_stack ?p \<noteq> 0 then pcb_upd i (\<lambda>p. p\<lparr>p_kernel_stack := 0\<rparr>) u0 else t)"
  have pu: "proc_inv u" using proc_inv_upd [OF pu0 q] R(1) by (simp add: u_def)
  note K = kpcb_more [OF M(4)]
  have len: "length (g_pcbs t) = PCB_MAX" using R(1) by (simp add: proc_inv_def pcb_inv_def)
  have gu: "(g_pcbs u)[i := pcb_zero] = (g_pcbs s)[i := pcb_zero]" "g_current_pid u = g_current_pid s" "p_used (g_pcbs u ! i)"
    using R(2) R(3) R(7) [OF i(1)] i len by (auto simp: u_def K nth_pcb_upd) (simp add: pcb_upd_def K)
  obtain ok pool w where f: "pool_free_slot (g_pcb_pool u) (of_nat i) (u\<lparr>g_pcbs := (g_pcbs u)[i := pcb_zero]\<rparr>) = (ok, pool, w)"
    by (cases "pool_free_slot (g_pcb_pool u) (of_nat i) (u\<lparr>g_pcbs := (g_pcbs u)[i := pcb_zero]\<rparr>)")
  note E = erase_entry [OF pu i(1) gu(3) f]
  have r: "pcb_release i s = Some (w\<lparr>g_pcb_pool := pool\<rparr>)"
    using k(1) f by (simp add: pcb_release_def Let_def flip: t_def) (simp add: u_def split: if_splits)
  have c: "frames_used u \<subseteq> frames_used s" "vm_chunks u = vm_chunks t"
    "heap_live u = (if p_kernel_stack ?p = 0 then heap_live s else {r \<in> heap_live s. fst r \<noteq> unat (p_kernel_stack ?p)})"
    using R(4,5) M k(4) by (simp_all add: u_def)
  have "mem_view (w\<lparr>g_pcb_pool := pool\<rparr>) = mem_view w" by (simp add: mem_view_def)
  from vm_mem_cong [OF this] have W: "frames_used (w\<lparr>g_pcb_pool := pool\<rparr>) = frames_used w" "vm_chunks (w\<lparr>g_pcb_pool := pool\<rparr>) = vm_chunks w"
    "heap_live (w\<lparr>g_pcb_pool := pool\<rparr>) = heap_live w" by simp_all
  have "released i s (w\<lparr>g_pcb_pool := pool\<rparr>)"
    unfolding released_def Let_def W E(3-5) c
    using E(1,2,7) gu(1,2) c(1) R(6,8) by (simp add: proc_inv_def)
  then show ?thesis using r by blast
qed

section \<open>Every step of the process table\<close>

text \<open>
  One call into the process table, by any part of the kernel and in any order.  The pid counter is
  assumed not to have reached the largest \<^verbatim>\<open>int32_t\<close> yet; \<open>own\<close> is a caller filling in the fields it
  owns through the pointer it was given (address space, registers, kernel stack, descriptors).
\<close>

inductive pcb_step :: "'z kpcb_scheme \<Rightarrow> 'z kpcb_scheme \<Rightarrow> bool" where
  start: "unat (g_next_pid s) < 2147483647 \<Longrightarrow> pcb_process_start now path s = (r, s') \<Longrightarrow> pcb_step s s'"
| child: "unat (g_next_pid s) < 2147483647 \<Longrightarrow> pcb_create_child now parent s = (c, s') \<Longrightarrow> pcb_step s s'"
| exit: "pcb_step s (pcb_process_exit now pid code s)"
| abort: "pcb_step s (pcb_process_abort now pid code s)"
| fault: "pcb_step s (pcb_process_fault now pid vec err code s)"
| stop: "pcb_step s (pcb_process_stop now pid s)"
| terminate: "pcb_step s (snd (process_terminate now pid s))"
| signal_or: "pcb_step s (snd (pcb_signal_or pid m s))"
| signal_set: "pcb_step s (snd (pcb_signal_set pid m s))"
| set_parent: "pcb_step s (pcb_set_parent pid parent s)"
| account: "pcb_step s (pcb_account_cpu pid in_kernel n s)"
| mem_pages: "pcb_step s (pcb_set_mem_pages pid pages s)"
| thread: "pcb_step s (pcb_add_thread pid delta s)"
| current: "pcb_step s (pcb_set_current pid s)"
| credentials: "pcb_step s (pcb_set_credentials pid u g eu eg s)"
| set_state: "pcb_step s (pcb_set_state pid st s)"
| priority: "pcb_step s (pcb_set_priority pid prio s)"
| wait_child: "pcb_wait_child parent s = Some (r, code, s') \<Longrightarrow> pcb_step s s'"
| reap: "pcb_reap_child parent pid s = Some (r, code, s') \<Longrightarrow> pcb_step s s'"
| setpgid: "pcb_step s (snd (pcb_setpgid pid pgid s))"
| setsid: "pcb_step s (snd (pcb_setsid s))"
| preemptive: "pcb_step s (scheduler_set_preemptive b s)"
| tick: "pcb_step s (snd (scheduler_tick s))"
| yield: "pcb_step s (sys_sched_yield s)"
| fd_alloc: "pcb_step s (pcb_upd i (\<lambda>p. snd (pcb_fd_alloc p)) s)"
| fd_free: "pcb_step s (pcb_upd i (pcb_fd_free fd) s)"
| fd_set: "pcb_step s (pcb_upd i (pcb_fd_set fd h) s)"
| page_fault: "vm_handle_page_fault addr err s = Some (ok, s') \<Longrightarrow> pcb_step s s'"
| own: "pcb_step s (pcb_upd i (\<lambda>p. p\<lparr>p_addr_space := as, p_regs := regs, p_kernel_stack := st, p_kernel_stack_size := n\<rparr>) s)"

lemma quiet_ops:
  "pcb_quiet (\<lambda>p. p\<lparr>p_fault_vector := a, p_fault_error_code := b\<rparr>)"
  "pcb_quiet (\<lambda>p. p\<lparr>p_pending_signals := p_pending_signals p OR m\<rparr>)" "pcb_quiet (\<lambda>p. p\<lparr>p_pending_signals := m\<rparr>)"
  "pcb_quiet (\<lambda>p. p\<lparr>p_parent_pid := c\<rparr>)" "pcb_quiet (\<lambda>p. p\<lparr>p_mem_pages := w\<rparr>)"
  "pcb_quiet (\<lambda>p. if k then p\<lparr>p_cpu_kernel_ticks := p_cpu_kernel_ticks p + n\<rparr> else p\<lparr>p_cpu_user_ticks := p_cpu_user_ticks p + n\<rparr>)"
  "pcb_quiet (\<lambda>p. if d < 0 \<and> p_thread_count p \<noteq> 0 then p\<lparr>p_thread_count := p_thread_count p - 1\<rparr>
     else if d > 0 then p\<lparr>p_thread_count := p_thread_count p + 1\<rparr> else p)"
  "pcb_quiet (\<lambda>p. p\<lparr>p_uid := u, p_gid := g, p_euid := eu, p_egid := eg\<rparr>)" "pcb_quiet (\<lambda>p. p\<lparr>p_state := st\<rparr>)"
  "pcb_quiet (\<lambda>p. p\<lparr>p_priority := (if pr > SCHED_PRIORITY_REALTIME then SCHED_PRIORITY_REALTIME else pr), p_remaining_ticks := p_time_slice p\<rparr>)"
  "pcb_quiet (\<lambda>p. p\<lparr>p_pgid := e\<rparr>)" "pcb_quiet (\<lambda>p. p\<lparr>p_sid := sint (p_pid p), p_pgid := sint (p_pid p), p_session_leader := True\<rparr>)"
  "pcb_quiet pcb_reset_time_slice" "pcb_quiet (\<lambda>p. pcb_reset_time_slice (p\<lparr>p_remaining_ticks := 0\<rparr>))"
  "pcb_quiet (\<lambda>p. p\<lparr>p_cpu_user_ticks := p_cpu_user_ticks p + 1,
     p_remaining_ticks := (if p_remaining_ticks p > 0 then p_remaining_ticks p - 1 else p_remaining_ticks p)\<rparr>)"
  "pcb_quiet (\<lambda>p. snd (pcb_fd_alloc p))" "pcb_quiet (pcb_fd_free fd)" "pcb_quiet (pcb_fd_set fd h)"
  "pcb_quiet (\<lambda>p. p\<lparr>p_addr_space := as\<rparr>)"
  "pcb_quiet (\<lambda>p. p\<lparr>p_addr_space := as, p_regs := regs, p_kernel_stack := sk, p_kernel_stack_size := sz\<rparr>)"
  by (auto simp: pcb_quiet_def pcb_reset_time_slice_def Let_def pcb_fd_alloc_def pcb_fd_free_def pcb_fd_set_def split: option.splits)

lemma pcb_wait_child_spec:
  assumes inv: "proc_inv s"
  shows "\<exists>pid code s'. pcb_wait_child parent s = Some (pid, code, s') \<and>
    (case find_index (\<lambda>p. p_used p \<and> p_parent_pid p = parent \<and> reapable p) (g_pcbs s) of
       None \<Rightarrow> pid = -1 \<and> code = None \<and> s' = s
     | Some i \<Rightarrow> pid = sint (p_pid (g_pcbs s ! i)) \<and> code = Some (p_exit_code (g_pcbs s ! i)) \<and> released i s s')"
proof (cases "find_index (\<lambda>p. p_used p \<and> p_parent_pid p = parent \<and> reapable p) (g_pcbs s)")
  case (Some i)
  have "length (g_pcbs s) = PCB_MAX" using inv by (simp add: proc_inv_def pcb_inv_def)
  then have "i < PCB_MAX" "p_used (g_pcbs s ! i)" using find_index_SomeD [OF Some] by auto
  from pcb_release_spec [OF inv this] Some show ?thesis by (auto simp: pcb_wait_child_def Let_def)
qed (simp add: pcb_wait_child_def)

lemma pcb_reap_child_spec:
  assumes inv: "proc_inv s"
  shows "\<exists>pid code s'. pcb_reap_child parent child s = Some (pid, code, s') \<and>
    (case find_index (\<lambda>p. p_used p \<and> p_parent_pid p = parent \<and> sint (p_pid p) = child) (g_pcbs s) of
       None \<Rightarrow> pid = -1 \<and> code = None \<and> s' = s
     | Some i \<Rightarrow> if reapable (g_pcbs s ! i)
         then pid = child \<and> code = Some (p_exit_code (g_pcbs s ! i)) \<and> released i s s'
         else pid = -1 \<and> code = None \<and> s' = s)"
proof (cases "find_index (\<lambda>p. p_used p \<and> p_parent_pid p = parent \<and> sint (p_pid p) = child) (g_pcbs s)")
  case (Some i)
  have "length (g_pcbs s) = PCB_MAX" using inv by (simp add: proc_inv_def pcb_inv_def)
  then have "i < PCB_MAX" "p_used (g_pcbs s ! i)" using find_index_SomeD [OF Some] by auto
  from pcb_release_spec [OF inv this] Some find_index_SomeD(2) [OF Some] show ?thesis by (auto simp: pcb_reap_child_def Let_def)
qed (simp add: pcb_reap_child_def)

lemma released_inv: "released i s s' \<Longrightarrow> proc_inv s'"
  by (simp add: released_def proc_inv_def Let_def)

lemma proc_inv_kept:
  assumes "proc_inv s" "chunks_kept s s'"
  shows "proc_inv s'"
proof -
  have k: "mem_view s' = mem_view s" "kvm.more s' = kvm.more s" using assms(2) by (simp_all add: chunks_kept_def)
  show ?thesis using assms mem_view_inv [OF k(1)] pcb_inv_more [OF k(2)] by (auto simp: proc_inv_def chunks_kept_def vm_inv_def)
qed

lemma page_fault_inv:
  assumes inv: "proc_inv s" and res: "vm_handle_page_fault addr err s = Some (ok, s')"
  shows "proc_inv s'"
proof -
  have f: "frame_inv s" using inv by (simp add: proc_inv_def vm_inv_def)
  note U = proc_inv_upd [OF _ quiet_ops(19)]
  have 1: "proc_inv (pcb_upd i (\<lambda>p. p\<lparr>p_addr_space := as'\<rparr>) t)"
    if "vm_handle_cow_fault as a e s = Some (r, as', t)" for as a e r as' t i
    using U [OF proc_inv_kept [OF inv vm_handle_cow_fault_kept [OF f that]]] .
  have 2: "proc_inv t" if "frame_alloc 1 s = Some (fr, t)" for fr t
    using proc_inv_kept [OF inv frame_alloc_kept [OF f that]] .
  have 3: "proc_inv (pcb_upd i (\<lambda>p. p\<lparr>p_addr_space := as'\<rparr>) u)" "frame_inv u"
    if "frame_alloc 1 s = Some (fr, t)" "vm_map_page as a fr fl (mem_zero fr 4096 t) = Some (r, as', u)" for fr t as a fl r as' u i
  proof -
    have z: "chunks_kept s (mem_zero fr 4096 t)" using frame_alloc_kept [OF f that(1)] by simp
    then have "frame_inv (mem_zero fr 4096 t)" by (simp add: chunks_kept_def)
    from chunks_kept_trans [OF z vm_map_page_kept [OF this that(2)]] have k: "chunks_kept s u" .
    show "proc_inv (pcb_upd i (\<lambda>p. p\<lparr>p_addr_space := as'\<rparr>) u)" using U [OF proc_inv_kept [OF inv k]] .
    show "frame_inv u" using k by (simp add: chunks_kept_def)
  qed
  have 4: "proc_inv (frame_drop fr t)" if "proc_inv t" for fr t
    using that by (intro proc_inv_kept [OF that] frame_drop_kept chunks_kept_refl) (simp add: proc_inv_def vm_inv_def)
  have 5: "proc_inv (frame_drop q (pcb_upd i (\<lambda>p. p\<lparr>p_addr_space := as'\<rparr>) u))"
    if "frame_alloc 1 s = Some (fr, t)" "vm_map_page as a fr fl (mem_zero fr 4096 t) = Some (r, as', u)" for fr t as a fl r as' u i q
    by (rule 4 [OF 3(1) [OF that]])
  show ?thesis using res inv 1 2 3(1) 5
    by (auto simp: vm_handle_page_fault_def Let_def split: if_splits option.splits Option.bind_splits)
qed

lemma scheduler_tick_inv: "proc_inv s \<Longrightarrow> proc_inv (snd (scheduler_tick s))"
  by (auto simp: scheduler_tick_def Let_def split: option.splits intro!: proc_inv_upd quiet_ops)

lemma pcb_setters_inv:
  assumes "proc_inv s"
  shows "proc_inv (snd (pcb_signal_or pid m s))" "proc_inv (snd (pcb_signal_set pid m s))" "proc_inv (pcb_set_parent pid parent s)"
    "proc_inv (pcb_account_cpu pid in_kernel n s)" "proc_inv (pcb_set_mem_pages pid pages s)" "proc_inv (pcb_add_thread pid delta s)"
    "proc_inv (pcb_set_credentials pid u g eu eg s)" "proc_inv (pcb_set_state pid st s)" "proc_inv (pcb_set_priority pid prio s)"
  unfolding pcb_signal_or_def pcb_signal_set_def pcb_set_parent_def pcb_account_cpu_def pcb_set_mem_pages_def
    pcb_add_thread_def pcb_set_credentials_def pcb_set_state_def pcb_set_priority_def
  by (intro pcb_modify_inv assms quiet_ops)+

lemma pcb_group_inv:
  assumes "proc_inv s"
  shows "proc_inv (snd (pcb_setpgid pid pgid s))" "proc_inv (snd (pcb_setsid s))" "proc_inv (sys_sched_yield s)"
    "proc_inv (pcb_process_fault now pid vec err code s)" "proc_inv (snd (process_terminate now pid s))"
  using assms
  by (auto simp: pcb_setpgid_def pcb_setsid_def sys_sched_yield_def pcb_process_fault_def process_terminate_def
      pcb_process_abort_def Let_def split: option.splits intro!: proc_inv_upd quiet_ops pcb_finish_process_inv)

lemma pcb_step_inv:
  assumes "pcb_step s s'" "proc_inv s"
  shows "proc_inv s'"
  using assms
proof (induction rule: pcb_step.induct)
  case (wait_child parent s r code s')
  then show ?case using pcb_wait_child_spec [OF wait_child(2), of parent] by (auto intro: released_inv split: option.splits)
next
  case (reap parent pid s r code s')
  then show ?case using pcb_reap_child_spec [OF reap(2), of parent pid] by (auto intro: released_inv split: option.splits if_splits)
next
  case (start s now path r s')
  then show ?case by (blast intro: pcb_process_start_spec(1))
next
  case (child s now parent c s')
  then show ?case by (blast intro: pcb_create_child_inv)
next
  case (page_fault addr err s ok s')
  then show ?case by (blast intro: page_fault_inv)
qed (simp_all add: scheduler_tick_inv pcb_setters_inv pcb_group_inv
      pcb_finish_process_inv pcb_process_exit_def pcb_process_abort_def pcb_process_stop_def pcb_set_current_def
      scheduler_set_preemptive_def proc_inv_upd quiet_ops)

section \<open>Properties\<close>

definition pcb_cold :: kpcb where
  "pcb_cold = kvm.extend vm_boot (kpcb.fields [] pool_zero 0 0 [] True 0)"

definition pcb_boot :: kpcb where
  "pcb_boot = pcb_init [0, 0] pcb_cold"

text \<open>A waiting parent with pid 1 and its child with pid 2, in a given state.\<close>

definition pcb_family :: "pcb_state_t \<Rightarrow> kpcb" where
  "pcb_family st = pcb_boot\<lparr>
     g_pcbs := [pcb_zero\<lparr>p_used := True, p_slot := 0, p_pid := 1, p_state := PCB_STATE_WAITING, p_parent_pid := -1, p_wait_target_pid := -1\<rparr>,
                (pcb_fd_init pcb_zero)\<lparr>p_used := True, p_slot := 1, p_pid := 2, p_state := st, p_exit_code := 5, p_parent_pid := 1\<rparr>] @ replicate 62 pcb_zero,
     g_pcb_pool := pool_zero\<lparr>pl_map := \<lparr>words = Some [3, 0], bit_count = 64\<rparr>, pl_capacity := 64, pl_used := 2\<rparr>,
     g_next_pid := 3, g_current_pid := 2\<rparr>"

lemma pcb_init_inv:
  assumes "vm_inv s" "mem_inv s" "2 \<le> length storage"
  shows "proc_inv (pcb_init storage s)"
proof -
  obtain pool t where i: "pool_init (Some ''pcb'') (Some storage) (of_nat PCB_MAX) (s\<lparr>g_pcbs := replicate PCB_MAX pcb_zero\<rparr>) = (pool, t)"
    by (cases "pool_init (Some ''pcb'') (Some storage) (of_nat PCB_MAX) (s\<lparr>g_pcbs := replicate PCB_MAX pcb_zero\<rparr>)")
  have c: "unat (of_nat PCB_MAX :: u32) < 2147483648" "unat (of_nat PCB_MAX :: u32) \<le> 32 * length storage"
    using assms(3) by (simp_all add: PCB_MAX_def)
  note P = pool_init_spec [OF c i]
  obtain bs ps where t: "t = s\<lparr>g_pcbs := replicate PCB_MAX pcb_zero, g_bitmap_stats := bs, g_pool_stats := ps\<rparr>"
    using P(4) by (rule pool_stats_onlyE)
  have r: "pcb_init storage s = t\<lparr>g_pcb_pool := pool, g_next_pid := 1, g_current_pid := -1, g_pcb_status := ''pcb: ready''\<rparr>"
    unfolding pcb_init_def i by simp
  have v: "mem_view (pcb_init storage s) = mem_view s" "g_frame_bitmap (pcb_init storage s) = g_frame_bitmap s"
    "g_frame_info (pcb_init storage s) = g_frame_info s" "g_frame_next_cursor (pcb_init storage s) = g_frame_next_cursor s"
    "g_user_chunk_bitmap (pcb_init storage s) = g_user_chunk_bitmap s" unfolding r t by (simp_all add: mem_view_def)
  have "pcb_inv (pcb_init storage s)"
    unfolding r t pcb_inv_def using P by (simp add: table_synced_def pids_distinct_def)
  then show ?thesis using vm_mem_cong(1,2) [OF v] assms(1,2) by (simp add: proc_inv_def)
qed

lemma pcb_cold_inv: "vm_inv pcb_cold" "mem_inv pcb_cold"
proof -
  have "mem_view pcb_cold = mem_view mem_boot" by (simp add: mem_view_def pcb_cold_def vm_boot_def vm_init_def kvm.defs kmem.defs)
  then show "mem_inv pcb_cold" using mem_boot_inv(1)
    by (simp add: mem_view_def mem_inv_def heap_inv_def leak_inv_def leak_live_def heap_live_def)
  show "vm_inv pcb_cold" using vm_boot_inv(1)
    by (simp add: pcb_cold_def vm_inv_def frame_inv_def frame_map_ok_def frames_used_def kvm.defs)
qed

lemma pcb_boot_inv: "proc_inv pcb_boot"
  unfolding pcb_boot_def by (intro pcb_init_inv pcb_cold_inv) simp

lemma nth_family:
  "i < PCB_MAX \<Longrightarrow> ([p, q] @ replicate 62 pcb_zero) ! i = (if i = 0 then p else if i = 1 then q else pcb_zero)"
  by (auto simp: nth_append nth_Cons' PCB_MAX_def)

lemma family_pool: "pool_slots (g_pcb_pool (pcb_family st)) = {0, 1}"
proof -
  have m: "(3 :: u32) = mask 2" by (simp add: mask_eq_exp_minus_1)
  have b: "bit (([3, 0] :: u32 list) ! (i div 32)) (i mod 32) \<longleftrightarrow> i = 0 \<or> i = 1" if "i < 64" for i
  proof (cases "i < 32")
    case True
    then show ?thesis unfolding m by (simp add: bit_mask_iff) auto
  next
    case False
    with that have "i div 32 = 1" by simp
    with False show ?thesis by simp
  qed
  have "pool_slots (g_pcb_pool (pcb_family st)) = {i. i < 64 \<and> bit (([3, 0] :: u32 list) ! (i div 32)) (i mod 32)}"
    by (simp add: pcb_family_def pool_slots_def bitmap_bits_def)
  also have "\<dots> = {i. i < 64 \<and> (i = 0 \<or> i = 1)}" using b by blast
  also have "\<dots> = {0, 1}" by auto
  finally show ?thesis .
qed

lemma pcb_family_inv: "proc_inv (pcb_family st)"
proof -
  have v: "mem_view (pcb_family st) = mem_view pcb_boot" "g_frame_bitmap (pcb_family st) = g_frame_bitmap pcb_boot"
    "g_frame_info (pcb_family st) = g_frame_info pcb_boot" "g_frame_next_cursor (pcb_family st) = g_frame_next_cursor pcb_boot"
    "g_user_chunk_bitmap (pcb_family st) = g_user_chunk_bitmap pcb_boot" by (simp_all add: pcb_family_def mem_view_def)
  have len: "length (g_pcbs (pcb_family st)) = PCB_MAX" by (simp add: pcb_family_def PCB_MAX_def)
  have nth: "g_pcbs (pcb_family st) ! i = (if i = 0 then g_pcbs (pcb_family st) ! 0 else if i = 1 then g_pcbs (pcb_family st) ! 1 else pcb_zero)"
    if "i < PCB_MAX" for i using nth_family [OF that] unfolding pcb_family_def by (simp add: nth_append nth_Cons')
  have e: "g_pcbs (pcb_family st) ! 0 = pcb_zero\<lparr>p_used := True, p_slot := 0, p_pid := 1, p_state := PCB_STATE_WAITING, p_parent_pid := -1, p_wait_target_pid := -1\<rparr>"
    "g_pcbs (pcb_family st) ! 1 = (pcb_fd_init pcb_zero)\<lparr>p_used := True, p_slot := 1, p_pid := 2, p_state := st, p_exit_code := 5, p_parent_pid := 1\<rparr>"
    by (simp_all add: pcb_family_def)
  have "pcb_entry_ok i (g_next_pid (pcb_family st)) (g_pcbs (pcb_family st) ! i)" if "i < PCB_MAX" for i
    using nth [OF that] e by (auto simp: pcb_entry_ok_def) (simp_all add: pcb_zero_def pcb_family_def)
  moreover have "p_used (g_pcbs (pcb_family st) ! i) \<longleftrightarrow> i = 0 \<or> i = 1" if "i < PCB_MAX" for i
    using nth [OF that] e by auto
  moreover from this have "pids_distinct (g_pcbs (pcb_family st))" unfolding pids_distinct_def len
    using e by auto
  moreover have "pool_inv (g_pcb_pool (pcb_family st))" "pl_capacity (g_pcb_pool (pcb_family st)) = of_nat PCB_MAX" "0 < unat (g_next_pid (pcb_family st))"
    using family_pool [of st] by (simp_all add: pool_inv_def pcb_family_def bitmap_wf_def PCB_MAX_def)
  ultimately have "pcb_inv (pcb_family st)" unfolding pcb_inv_def table_synced_def family_pool len by simp
  then show ?thesis using pcb_boot_inv vm_mem_cong [OF v] by (simp add: proc_inv_def)
qed





text \<open>C4: starting a process: the new process gets the next pid and becomes current; it takes a free slot, or, when
  the table is full, the slot of the first process that is not running, whose address space, user chunk and kernel
  stack stay allocated with no entry left that refers to them.\<close>

theorem pcb_process_start_correct:
  assumes "proc_inv s" "unat (g_next_pid s) < 2147483647" "pcb_process_start now path s = (pid, s')"
  shows "proc_inv s' \<and> started pid s s' \<and> frames_used s' = frames_used s \<and> vm_chunks s' = vm_chunks s \<and> heap_live s' = heap_live s"
  using pcb_process_start_spec [OF assms] by blast

theorem pcb_process_start_correct_witness:
  "\<exists>s'. pcb_process_start 7 (Some ''/bin/sh'') pcb_boot = (1, s') \<and> proc_inv s' \<and> started 1 pcb_boot s' \<and> heap_live s' = heap_live pcb_boot"
proof -
  have n: "g_next_pid pcb_boot = 1" "pcb_zero \<in> set (g_pcbs pcb_boot)"
    by (simp_all add: pcb_boot_def pcb_init_def pool_init_def PCB_MAX_def)
  obtain pid s' where r: "pcb_process_start 7 (Some ''/bin/sh'') pcb_boot = (pid, s')" by (cases "pcb_process_start 7 (Some ''/bin/sh'') pcb_boot")
  have "unat (g_next_pid pcb_boot) < 2147483647" by (simp add: n)
  from pcb_process_start_correct [OF pcb_boot_inv this r] have S: "proc_inv s'" "started pid pcb_boot s'" "heap_live s' = heap_live pcb_boot" by blast+
  moreover from S(2) have "pid = 1" using n by (auto simp: started_def)
  ultimately show ?thesis using r by blast
qed

lemma find_index_map_id: "find_index P xs = find_index id (map P xs)"
  by (induction xs) auto

lemma find_by_pid_quiet:
  assumes "pcb_quiet f"
  shows "pcb_find_by_pid pid (pcb_upd i f s) = pcb_find_by_pid pid s"
proof -
  have "map (\<lambda>p. p_used p \<and> sint (p_pid p) = pid) (g_pcbs (pcb_upd i f s)) = map (\<lambda>p. p_used p \<and> sint (p_pid p) = pid) (g_pcbs s)"
    by (rule nth_equalityI) (simp_all add: pcb_quiet_at [OF assms])
  then show ?thesis by (simp only: pcb_find_by_pid_def find_index_map_id [of "\<lambda>p. p_used p \<and> sint (p_pid p) = pid"])
qed

text \<open>C3: an exiting child wakes its parent: the child's entry records the exit, the parent becomes ready exactly when
  it is blocked in a wait that this child satisfies (any child, this pid, the parent's group, or the named group), and
  no other process is touched.\<close>

theorem pcb_exit_wakes_parent:
  assumes inv: "pcb_inv s" and i: "i < PCB_MAX" "p_used (g_pcbs s ! i)" "pid = sint (p_pid (g_pcbs s ! i))"
    and other: "p_parent_pid (g_pcbs s ! i) \<noteq> pid" and j: "j < PCB_MAX"
  shows "g_pcbs (pcb_process_exit now pid code s) ! j =
    (let p = g_pcbs s ! i; q = g_pcbs s ! j in
     if j = i then p\<lparr>p_state := PCB_STATE_EXITED, p_exit_code := code, p_end_tick := now\<rparr>
     else if p_used q \<and> sint (p_pid q) = p_parent_pid p \<and> p_state q = PCB_STATE_WAITING \<and>
        (p_wait_target_pid q = -1 \<or> p_wait_target_pid q > 0 \<and> p_wait_target_pid q = pid \<or>
         p_wait_target_pid q = 0 \<and> p_pgid q = p_pgid p \<or> p_wait_target_pid q < -1 \<and> - p_wait_target_pid q = p_pgid p)
     then q\<lparr>p_state := PCB_STATE_READY, p_wait_target_pid := -1\<rparr> else q)"
proof -
  let ?f = "\<lambda>p. p\<lparr>p_state := PCB_STATE_EXITED, p_exit_code := code, p_end_tick := now\<rparr>"
  let ?g = "\<lambda>q. q\<lparr>p_state := PCB_STATE_READY, p_wait_target_pid := -1\<rparr>"
  have len: "length (g_pcbs s) = PCB_MAX" using inv by (simp add: pcb_inv_def)
  have fi: "pcb_find_by_pid pid s = Some i" unfolding i(3) by (rule find_by_pid_unique [OF inv i(1,2)])
  have q: "pcb_quiet ?f" by (simp add: pcb_quiet_def)
  let ?t = "if g_current_pid s = pid then (pcb_upd i ?f s)\<lparr>g_current_pid := -1\<rparr> else pcb_upd i ?f s"
  have t: "g_pcbs ?t = g_pcbs (pcb_upd i ?f s)" "pcb_find_by_pid x ?t = pcb_find_by_pid x s" for x
    using find_by_pid_quiet [OF q, of x i s] by (simp_all add: pcb_find_by_pid_def)
  have pi: "g_pcbs ?t ! i = ?f (g_pcbs s ! i)" using i(1) len by (simp add: t nth_pcb_upd)
  have wm: "wait_matches q p pid \<longleftrightarrow> (p_wait_target_pid q = -1 \<or> p_wait_target_pid q > 0 \<and> p_wait_target_pid q = pid \<or>
      p_wait_target_pid q = 0 \<and> p_pgid q = p_pgid p \<or> p_wait_target_pid q < -1 \<and> - p_wait_target_pid q = p_pgid p)" for q p
    by (auto simp: wait_matches_def Let_def)
  show ?thesis
  proof (cases "pcb_find_by_pid (p_parent_pid (g_pcbs s ! i)) s")
    case None
    have no: "\<not> (p_used (g_pcbs s ! j) \<and> sint (p_pid (g_pcbs s ! j)) = p_parent_pid (g_pcbs s ! i))"
      using None j len by (simp add: pcb_find_by_pid_def find_index_None_iff)
    have "g_pcbs (pcb_process_exit now pid code s) = g_pcbs (pcb_upd i ?f s)"
      using None t pi by (simp add: pcb_process_exit_def pcb_finish_process_def fi Let_def)
    then show ?thesis using no j len by (auto simp: nth_pcb_upd Let_def)
  next
    case (Some k)
    note K = find_by_pid_SomeD [OF Some]
    have ki: "k \<noteq> i" using K(3) other i(3) by auto
    have uniq: "p_used (g_pcbs s ! j) \<and> sint (p_pid (g_pcbs s ! j)) = p_parent_pid (g_pcbs s ! i) \<longleftrightarrow> j = k"
      using find_by_pid_unique [OF inv j] K Some by auto
    have pk: "g_pcbs ?t ! k = g_pcbs s ! k" using K(1) ki by (simp add: t nth_pcb_upd)
    have "g_pcbs (pcb_process_exit now pid code s) =
      (if p_state (g_pcbs s ! k) = PCB_STATE_WAITING \<and> wait_matches (g_pcbs s ! k) (g_pcbs s ! i) pid
       then (g_pcbs (pcb_upd i ?f s))[k := ?g (g_pcbs s ! k)] else g_pcbs (pcb_upd i ?f s))"
    proof -
      have "wait_matches a (?f b) pid = wait_matches a b pid" for a b by (simp add: wait_matches_def)
      then show ?thesis
        using Some t pi pk by (auto simp: pcb_process_exit_def pcb_finish_process_def fi Let_def pcb_upd_def)
    qed
    then show ?thesis using j len ki K(1) uniq by (auto simp: nth_pcb_upd nth_update_lt Let_def wm)
  qed
qed

theorem pcb_exit_wakes_parent_witness:
  "g_pcbs (pcb_process_exit 9 2 5 (pcb_family PCB_STATE_RUNNING)) ! 0 =
     (g_pcbs (pcb_family PCB_STATE_RUNNING) ! 0)\<lparr>p_state := PCB_STATE_READY, p_wait_target_pid := -1\<rparr>"
proof -
  have e: "g_pcbs (pcb_family PCB_STATE_RUNNING) ! 0 = pcb_zero\<lparr>p_used := True, p_slot := 0, p_pid := 1, p_state := PCB_STATE_WAITING, p_parent_pid := -1, p_wait_target_pid := -1\<rparr>"
    "g_pcbs (pcb_family PCB_STATE_RUNNING) ! 1 = (pcb_fd_init pcb_zero)\<lparr>p_used := True, p_slot := 1, p_pid := 2, p_state := PCB_STATE_RUNNING, p_exit_code := 5, p_parent_pid := 1\<rparr>"
    by (simp_all add: pcb_family_def)
  have "pcb_inv (pcb_family PCB_STATE_RUNNING)" using pcb_family_inv by (simp add: proc_inv_def)
  from pcb_exit_wakes_parent [OF this, of 1 2 0 9 5] show ?thesis using e by (simp add: PCB_MAX_def Let_def)
qed

lemma pick_step_none: "pick_step s c i (None, 0xFFFFFFFF) = (None, 0xFFFFFFFF)"
proof -
  have "\<not> p_priority (g_pcbs s ! i) > (0xFFFFFFFF :: u32)"
    using unat_u32_less [of "p_priority (g_pcbs s ! i)"] by (simp add: word_less_nat_alt)
  then show ?thesis by (simp add: pick_step_def Let_def)
qed

lemma pick_next_none: "scheduler_pick_next s = None"
proof -
  have "(-1 :: u32) = 0xFFFFFFFF" by simp
  then have "pick_step s c i (None, -1) = (None, -1)" for c i by (simp only: pick_step_none)
  then have "fold (pick_step s c) xs (None, -1) = (None, -1)" for c xs by (induction xs) simp_all
  then show ?thesis by (simp add: scheduler_pick_next_def Let_def SCHED_PRIORITY_IDLE_def)
qed

text \<open>C11: the preemptive scheduler never preempts: the search for the next process starts with the best priority
  at \<^verbatim>\<open>SCHED_PRIORITY_IDLE - 1u\<close>, which is the largest 32-bit number, so no ready process is ever
  selected, and the timer tick never reports that a switch is due.\<close>

theorem scheduler_never_preempts:
  "scheduler_pick_next s = None \<and> \<not> fst (scheduler_tick s)"
  by (auto simp: scheduler_tick_def Let_def pick_next_none split: option.splits)

text \<open>Descriptors: an allocated descriptor is at least 3 and was free; after a handle has been stored under
  it the lookup returns that handle, every other descriptor still has its own, and closing it restores the table;
  allocation fails, changing nothing, only when all descriptors from 3 to 63 are taken.\<close>

lemma pcb_fd_roundtrip:
  assumes "length (p_fd_table p) = PCB_FD_MAX" "pcb_fd_alloc p = (fd, p')"
  shows "if fd = -1 then p' = p \<and> (\<forall>k. 3 \<le> k \<longrightarrow> k < 64 \<longrightarrow> pcb_fd_get_handle p k \<noteq> -1)
    else 3 \<le> fd \<and> fd < 64 \<and> pcb_fd_get_handle p fd = -1 \<and> pcb_fd_get_handle (pcb_fd_set fd h p') fd = h \<and>
      (\<forall>k. k \<noteq> fd \<longrightarrow> pcb_fd_get_handle (pcb_fd_set fd h p') k = pcb_fd_get_handle p k) \<and>
      p_fd_table (pcb_fd_free fd (pcb_fd_set fd h p')) = p_fd_table p"
proof (cases "find_index (\<lambda>h. h = -1) (drop 3 (p_fd_table p))")
  case None
  then have r: "fd = -1" "p' = p" using assms(2) by (simp_all add: pcb_fd_alloc_def)
  have "p_fd_table p ! nat k \<noteq> -1" if "3 \<le> k" "k < 64" for k
  proof -
    have "drop 3 (p_fd_table p) ! (nat k - 3) \<in> set (drop 3 (p_fd_table p))"
      using that assms(1) by (intro nth_mem) (simp add: PCB_FD_MAX_def)
    then show ?thesis using None that assms(1) by (auto simp: find_index_None_iff PCB_FD_MAX_def)
  qed
  then show ?thesis using r by (simp add: pcb_fd_get_handle_def PCB_FD_MAX_def)
next
  case (Some i)
  note F = find_index_SomeD [OF Some]
  have r: "fd = int (i + 3)" "p' = p\<lparr>p_fd_table := (p_fd_table p)[i + 3 := -2]\<rparr>" using assms(2) Some by (auto simp: pcb_fd_alloc_def)
  have i: "i + 3 < 64" "p_fd_table p ! (i + 3) = -1" using F assms(1) by (auto simp: PCB_FD_MAX_def add.commute)
  have n: "nat (int i + 3) = i + 3" by simp
  have old: "(p_fd_table p)[i + 3 := -1] = p_fd_table p" using i(2) list_update_id [of "p_fd_table p" "i + 3"] by simp
  have "nat k \<noteq> i + 3" if "k \<noteq> fd" "0 \<le> k" for k using that r(1) by simp
  then show ?thesis using i assms(1) old r
    by (auto simp: pcb_fd_get_handle_def pcb_fd_set_def pcb_fd_free_def PCB_FD_MAX_def Let_def n)
qed

lemma pcb_fd_roundtrip_witness:
  "pcb_fd_get_handle (pcb_fd_set 3 77 (snd (pcb_fd_alloc (pcb_fd_init pcb_zero)))) 3 = 77 \<and>
   p_fd_table (pcb_fd_free 3 (pcb_fd_set 3 77 (snd (pcb_fd_alloc (pcb_fd_init pcb_zero))))) = p_fd_table (pcb_fd_init pcb_zero)"
proof -
  have "find_index (\<lambda>h. h = -1) (drop 3 (p_fd_table (pcb_fd_init pcb_zero))) = Some 0"
    by (simp add: pcb_fd_init_def PCB_FD_MAX_def numeral_eq_Suc)
  then have a: "pcb_fd_alloc (pcb_fd_init pcb_zero) = (3, snd (pcb_fd_alloc (pcb_fd_init pcb_zero)))"
    by (simp add: pcb_fd_alloc_def)
  from pcb_fd_roundtrip [OF fd_init_length(1) a, of 77] show ?thesis by simp
qed

end
