(* ===== verification/Signal.thy ===== *)
theory Signal
  imports Pcb
begin

text \<open>
  Signals (\<^verbatim>\<open>kernel/sched/signal.c\<close>): a process has a 32-bit mask of pending signals, of which signal
  \<open>n\<close> is bit \<open>n - 1\<close>; sending sets a bit, taking returns and clears the mask.
\<close>

record signal_info_t =
  si_sent_count :: u32
  si_fetch_count :: u32
  si_clear_count :: u32

record ksignal = kpcb +
  g_signal_info :: signal_info_t
  g_signal_status :: string

definition signal_init :: "'z ksignal_scheme \<Rightarrow> 'z ksignal_scheme" where
  "signal_init s = s\<lparr>g_signal_info := \<lparr>si_sent_count = 0, si_fetch_count = 0, si_clear_count = 0\<rparr>,
                      g_signal_status := ''signal: ready''\<rparr>"

definition signal_send :: "int \<Rightarrow> u8 \<Rightarrow> 'z ksignal_scheme \<Rightarrow> bool \<times> 'z ksignal_scheme" where
  "signal_send pid signo s =
     (if signo = 0 \<or> signo > 32 then (False, s\<lparr>g_signal_status := ''signal: bad signo''\<rparr>)
      else let m = push_bit (unat signo - 1) (1 :: u32) in
        case pcb_signal_or pid m s of (ok, s) \<Rightarrow>
          if \<not> ok then (False, s\<lparr>g_signal_status := ''signal: pid missing''\<rparr>)
          else (True, s\<lparr>g_signal_info := (g_signal_info s)\<lparr>si_sent_count := si_sent_count (g_signal_info s) + 1\<rparr>,
                        g_signal_status := ''signal: queued''\<rparr>))"

definition signal_pending :: "int \<Rightarrow> 'z ksignal_scheme \<Rightarrow> u32" where
  "signal_pending pid s = pcb_pending_signal_mask pid s"

definition signal_take_pending :: "int \<Rightarrow> 'z ksignal_scheme \<Rightarrow> u32 \<times> 'z ksignal_scheme" where
  "signal_take_pending pid s =
     (let m = pcb_pending_signal_mask pid s in
      if m = 0 then (m, s)
      else case pcb_signal_set pid 0 s of (ok, s) \<Rightarrow>
        (m, if ok then s\<lparr>g_signal_info := (g_signal_info s)\<lparr>si_fetch_count := si_fetch_count (g_signal_info s) + 1\<rparr>,
                         g_signal_status := ''signal: fetched''\<rparr> else s))"

definition signal_clear :: "int \<Rightarrow> 'z ksignal_scheme \<Rightarrow> 'z ksignal_scheme" where
  "signal_clear pid s = (case pcb_signal_set pid 0 s of (ok, s) \<Rightarrow>
     if ok then s\<lparr>g_signal_info := (g_signal_info s)\<lparr>si_clear_count := si_clear_count (g_signal_info s) + 1\<rparr>,
                  g_signal_status := ''signal: cleared''\<rparr> else s)"

section \<open>What signals do to the process table\<close>

lemma find_by_pid_signal [simp]:
  "pcb_find_by_pid pid (s\<lparr>g_signal_info := i\<rparr>) = pcb_find_by_pid pid s" "pcb_find_by_pid pid (s\<lparr>g_signal_status := t\<rparr>) = pcb_find_by_pid pid s"
  by (simp_all add: pcb_find_by_pid_def)

lemma proc_inv_signal [simp]:
  "proc_inv (s\<lparr>g_signal_info := i\<rparr>) = proc_inv s" "proc_inv (s\<lparr>g_signal_status := t\<rparr>) = proc_inv s"
  by (simp_all add: proc_inv_def vm_inv_def frame_inv_def frame_map_ok_def frames_used_def mem_inv_def heap_inv_def leak_inv_def
      leak_live_def heap_live_def pcb_inv_def)

lemma pending_upd:
  assumes "pcb_find_by_pid pid s = Some i" "pcb_quiet f"
  shows "pcb_pending_signal_mask pid' (pcb_upd i f s) =
    (if pid' = pid then p_pending_signals (f (g_pcbs s ! i)) else pcb_pending_signal_mask pid' s)"
proof -
  have i: "i < length (g_pcbs s)" "sint (p_pid (g_pcbs s ! i)) = pid" using find_by_pid_SomeD [OF assms(1)] by auto
  show ?thesis
  proof (cases "pid' = pid")
    case True
    then show ?thesis using assms(1) i(1) by (simp add: pcb_pending_signal_mask_def find_by_pid_quiet [OF assms(2)] nth_pcb_upd)
  next
    case False
    have "g_pcbs (pcb_upd i f s) ! j = g_pcbs s ! j" if "pcb_find_by_pid pid' s = Some j" for j
      using find_by_pid_SomeD(1,3) [OF that] i(2) False nth_pcb_upd [of j s i f] by (cases "i = j") auto
    then show ?thesis using False
      by (simp add: pcb_pending_signal_mask_def find_by_pid_quiet [OF assms(2)] split: option.split)
  qed
qed

lemma pending_signal_misc [simp]:
  "pcb_pending_signal_mask pid (s\<lparr>g_signal_info := i\<rparr>) = pcb_pending_signal_mask pid s"
  "pcb_pending_signal_mask pid (s\<lparr>g_signal_status := t\<rparr>) = pcb_pending_signal_mask pid s"
  by (simp_all add: pcb_pending_signal_mask_def split: option.split)

lemma signal_send_inv: "proc_inv s \<Longrightarrow> proc_inv (snd (signal_send pid n s))"
  using pcb_setters_inv(1) [of s pid "push_bit (unat n - 1) 1"]
  by (auto simp: signal_send_def Let_def split: prod.splits)

lemma signal_send_spec:
  assumes "signal_send pid n s = (ok, s')"
  shows "ok \<longleftrightarrow> 1 \<le> unat n \<and> unat n \<le> 32 \<and> pcb_find_by_pid pid s \<noteq> None"
    "pcb_pending_signal_mask pid' s' = (if ok \<and> pid' = pid then pcb_pending_signal_mask pid s OR push_bit (unat n - 1) 1
                                        else pcb_pending_signal_mask pid' s)"
proof -
  have n: "n = 0 \<or> n > 32 \<longleftrightarrow> \<not> (1 \<le> unat n \<and> unat n \<le> 32)"
    by (auto simp: word_less_nat_alt Suc_le_eq unat_gt_0)
  show "ok \<longleftrightarrow> 1 \<le> unat n \<and> unat n \<le> 32 \<and> pcb_find_by_pid pid s \<noteq> None"
    using assms n by (auto simp: signal_send_def Let_def pcb_signal_or_def pcb_modify_def split: option.splits if_splits)
  show "pcb_pending_signal_mask pid' s' = (if ok \<and> pid' = pid then pcb_pending_signal_mask pid s OR push_bit (unat n - 1) 1
                                        else pcb_pending_signal_mask pid' s)"
    using assms pending_upd [OF _ quiet_ops(2), of pid s _ pid' "push_bit (unat n - 1) 1"]
    by (auto simp: signal_send_def Let_def pcb_signal_or_def pcb_modify_def pcb_pending_signal_mask_def [of pid s]
        split: option.splits if_splits)
qed

section \<open>Properties\<close>

text \<open>Signals are delivered once: after a signal has been sent to an existing process, taking its pending
  signals yields the mask that was pending before with the signal's bit added, leaves none pending for it, and
  does not affect any other process; signal numbers outside 1 to 32 and unknown pids are refused.\<close>

theorem signal_send_take:
  assumes "signal_send pid n s = (ok, s1)" "signal_take_pending pid s1 = (m, s2)"
  shows "(ok \<longleftrightarrow> 1 \<le> unat n \<and> unat n \<le> 32 \<and> pcb_find_by_pid pid s \<noteq> None) \<and>
    (ok \<longrightarrow> m = signal_pending pid s OR push_bit (unat n - 1) 1 \<and> bit m (unat n - 1) \<and> signal_pending pid s2 = 0) \<and>
    (pid' \<noteq> pid \<longrightarrow> signal_pending pid' s2 = signal_pending pid' s)"
proof -
  note S = signal_send_spec [OF assms(1)]
  have T: "m = pcb_pending_signal_mask pid s1"
    "pcb_pending_signal_mask q s2 = (if q = pid then 0 else pcb_pending_signal_mask q s1)" for q
    using assms(2) pending_upd [OF _ quiet_ops(3), of pid s1 _ q 0]
    by (auto simp: signal_take_pending_def Let_def pcb_signal_set_def pcb_modify_def pcb_pending_signal_mask_def
        split: option.splits if_splits)
  have "bit (pcb_pending_signal_mask pid s OR push_bit k 1) k" if "k < 32" for k
    using that by (simp add: bit_or_iff bit_exp_iff)
  moreover have "unat n - 1 < 32" if ok using S(1) that by auto
  ultimately show ?thesis using S T by (auto simp: signal_pending_def)
qed

definition signal_boot :: "pcb_state_t \<Rightarrow> ksignal" where
  "signal_boot st = signal_init (kpcb.extend (pcb_family st) (ksignal.fields \<lparr>si_sent_count = 0, si_fetch_count = 0, si_clear_count = 0\<rparr> []))"

theorem signal_send_take_witness:
  "fst (signal_take_pending 2 (snd (signal_send 2 13 (signal_boot PCB_STATE_RUNNING)))) = 0x1000"
proof -
  let ?s = "signal_boot PCB_STATE_RUNNING"
  have f: "pcb_find_by_pid 2 ?s = Some 1" "g_pcbs ?s ! 1 = (pcb_fd_init pcb_zero)\<lparr>p_used := True, p_slot := 1, p_pid := 2, p_state := PCB_STATE_RUNNING, p_exit_code := 5, p_parent_pid := 1\<rparr>"
    by (simp_all add: pcb_find_by_pid_def signal_boot_def signal_init_def pcb_family_def kpcb.defs)
  have p: "signal_pending 2 ?s = 0" using f by (simp add: signal_pending_def pcb_pending_signal_mask_def pcb_zero_def pcb_fd_init_def)
  obtain ok s1 where a: "signal_send 2 13 ?s = (ok, s1)" by (cases "signal_send 2 13 ?s")
  obtain m s2 where b: "signal_take_pending 2 s1 = (m, s2)" by (cases "signal_take_pending 2 s1")
  from signal_send_take [OF a b] p f(1) have "m = 0x1000" by simp
  then show ?thesis using a b by simp
qed

end
