(* ===== verification/Ring.thy ===== *)
theory Ring
  imports Kernel_Prelude
begin

text \<open>
  Ring buffers, as the IPC ports (\<^verbatim>\<open>kernel/ipc/ipc.c\<close>) and the pipes (\<^verbatim>\<open>kernel/ipc/pipe.c\<close>) use them:
  an array of \<open>n\<close> cells with a read index, a write index and a fill count.  The theory gives the sequence
  that such a ring holds, the effect of the block transfers of the code on that sequence, and the
  contract of a bounded first-in first-out channel as a locale, with the law that no sequence of
  operations loses, duplicates or reorders data.
\<close>

section \<open>The sequence in a ring\<close>

definition ring_contents :: "'a list \<Rightarrow> nat \<Rightarrow> nat \<Rightarrow> 'a list" where
  "ring_contents xs head count = map (\<lambda>k. xs ! ((head + k) mod length xs)) [0..<count]"

definition ring_ok :: "'a list \<Rightarrow> nat \<Rightarrow> nat \<Rightarrow> nat \<Rightarrow> bool" where
  "ring_ok xs head tail count \<longleftrightarrow> head < length xs \<and> count \<le> length xs \<and> tail = (head + count) mod length xs"

lemma length_ring_contents [simp]: "length (ring_contents xs head count) = count"
  by (simp add: ring_contents_def)

lemma ring_contents_0 [simp]: "ring_contents xs head 0 = []"
  by (simp add: ring_contents_def)

lemma nth_ring_contents [simp]: "k < count \<Longrightarrow> ring_contents xs head count ! k = xs ! ((head + k) mod length xs)"
  by (simp add: ring_contents_def)

text \<open>Taking a block that does not cross the end of the array.\<close>

lemma ring_take:
  assumes "ring_ok xs head tail count" "c \<le> count" "head + c \<le> length xs"
  shows "ring_ok xs ((head + c) mod length xs) tail (count - c)"
    "take c (ring_contents xs head count) = take c (drop head xs)"
    "drop c (ring_contents xs head count) = ring_contents xs ((head + c) mod length xs) (count - c)"
proof -
  show "ring_ok xs ((head + c) mod length xs) tail (count - c)"
  proof -
    have "0 < length xs" using assms(1) by (auto simp: ring_ok_def)
    moreover have "((head + c) mod length xs + (count - c)) mod length xs = (head + count) mod length xs"
      using assms(2) mod_add_left_eq [of "head + c" "length xs" "count - c"] by simp
    moreover have "count - c \<le> length xs" using assms(1) by (auto simp: ring_ok_def)
    ultimately show ?thesis using assms by (simp add: ring_ok_def)
  qed
  show "take c (ring_contents xs head count) = take c (drop head xs)"
    using assms by (intro nth_equalityI) (auto simp: ring_ok_def)
  show "drop c (ring_contents xs head count) = ring_contents xs ((head + c) mod length xs) (count - c)"
    using assms by (intro nth_equalityI) (auto simp: mod_simps add.assoc)
qed

text \<open>Storing a block that does not cross the end of the array.\<close>

lemma ring_put:
  assumes ok: "ring_ok xs head tail count" and c: "count + length ys \<le> length xs" "tail + length ys \<le> length xs"
  defines "zs \<equiv> take tail xs @ ys @ drop (tail + length ys) xs"
  shows "length zs = length xs" "ring_ok zs head ((tail + length ys) mod length xs) (count + length ys)"
    "ring_contents zs head (count + length ys) = ring_contents xs head count @ ys"
proof -
  let ?n = "length xs" and ?c = "length ys"
  have h: "head < ?n" and t: "tail = (head + count) mod ?n" and tl: "tail < ?n"
    using ok by (auto simp: ring_ok_def intro!: mod_less_divisor)
  show len: "length zs = ?n" using c(2) by (simp add: zs_def)
  show "ring_ok zs head ((tail + ?c) mod ?n) (count + ?c)"
    using h c(1) len by (simp add: ring_ok_def t mod_simps add.assoc)
  have z: "zs ! i = (if i < tail then xs ! i else if i < tail + ?c then ys ! (i - tail) else xs ! i)" if "i < ?n" for i
    using that c(2) by (auto simp: zs_def nth_append min_def)
  show "ring_contents zs head (count + ?c) = ring_contents xs head count @ ys"
  proof (rule nth_equalityI)
    fix k assume "k < length (ring_contents zs head (count + ?c))"
    then have k: "k < count + ?c" by simp
    show "ring_contents zs head (count + ?c) ! k = (ring_contents xs head count @ ys) ! k"
    proof (cases "k < count")
      case True
      let ?i = "(head + k) mod ?n"
      have i: "?i < ?n" using h by (intro mod_less_divisor) linarith
      have "\<not> (tail \<le> ?i \<and> ?i < tail + ?c)"
      proof (cases "head + count < ?n")
        case True
        then show ?thesis using \<open>k < count\<close> t by simp
      next
        case False
        then have tt: "tail = head + count - ?n" using t h c(1) by (simp add: mod_if)
        show ?thesis
        proof (cases "head + k < ?n")
          case True
          then show ?thesis using tt c(1) False by simp linarith
        next
          case False
          then have "?i = head + k - ?n" using h \<open>k < count\<close> c(1) by (simp add: mod_if)
          then show ?thesis using tt \<open>k < count\<close> False by simp
        qed
      qed
      then show ?thesis using True i z [OF i] k by (auto simp: nth_append len)
    next
      case False
      then obtain m where m: "k = count + m" "m < ?c" using k by (auto simp: not_less le_iff_add)
      have "(head + k) mod ?n = (tail + m) mod ?n" by (simp add: t m(1) mod_simps add.assoc)
      also have "\<dots> = tail + m" using m(2) c(2) by simp
      finally have "(head + k) mod ?n = tail + m" .
      then show ?thesis using m c(2) z [of "tail + m"] by (simp add: nth_append len)
    qed
  qed simp
qed

section \<open>First-in first-out channels\<close>

datatype ('x, 'g) chan_op = Put 'x | Get 'g

text \<open>Run a sequence of operations: what was accepted, what was delivered, and the final state.\<close>

fun chan_run :: "('x \<Rightarrow> 's \<Rightarrow> nat \<times> 's) \<Rightarrow> ('g \<Rightarrow> 's \<Rightarrow> 'm list \<times> 's) \<Rightarrow> ('x \<Rightarrow> 'm list) \<Rightarrow>
    ('x, 'g) chan_op list \<Rightarrow> 's \<Rightarrow> 'm list \<times> 'm list \<times> 's" where
  "chan_run put get items [] s = ([], [], s)"
| "chan_run put get items (Put x # ops) s =
     (case put x s of (n, s) \<Rightarrow> case chan_run put get items ops s of (a, d, s) \<Rightarrow> (take n (items x) @ a, d, s))"
| "chan_run put get items (Get g # ops) s =
     (case get g s of (ys, s) \<Rightarrow> case chan_run put get items ops s of (a, d, s) \<Rightarrow> (a, ys @ d, s))"

locale fifo_channel =
  fixes inv :: "'s \<Rightarrow> bool"
    and contents :: "'s \<Rightarrow> 'm list"
    and items :: "'x \<Rightarrow> 'm list"
    and put :: "'x \<Rightarrow> 's \<Rightarrow> nat \<times> 's"
    and get :: "'g \<Rightarrow> 's \<Rightarrow> 'm list \<times> 's"
    and cap :: nat
  assumes put_inv: "inv s \<Longrightarrow> put x s = (n, s') \<Longrightarrow> inv s'"
    and put_contents: "inv s \<Longrightarrow> put x s = (n, s') \<Longrightarrow> contents s' = contents s @ take n (items x)"
    and put_full: "inv s \<Longrightarrow> put x s = (n, s') \<Longrightarrow> n < length (items x) \<Longrightarrow> length (contents s') = cap"
    and get_inv: "inv s \<Longrightarrow> get g s = (ys, s') \<Longrightarrow> inv s'"
    and get_contents: "inv s \<Longrightarrow> get g s = (ys, s') \<Longrightarrow> contents s = ys @ contents s'"
    and bounded: "inv s \<Longrightarrow> length (contents s) \<le> cap"
begin

lemma run_fifo:
  "inv s \<Longrightarrow> chan_run put get items ops s = (a, d, s') \<Longrightarrow> inv s' \<and> contents s @ a = d @ contents s'"
proof (induction ops arbitrary: s a d)
  case (Cons op ops)
  show ?case
  proof (cases op)
    case (Put x)
    obtain n t where p: "put x s = (n, t)" by (cases "put x s")
    obtain a' d' u where r: "chan_run put get items ops t = (a', d', u)" by (cases "chan_run put get items ops t")
    have e: "a = take n (items x) @ a'" "d = d'" "s' = u" using Cons.prems(2) Put p r by auto
    from Cons.IH [OF put_inv [OF Cons.prems(1) p] r [folded e(3)]] put_contents [OF Cons.prems(1) p] show ?thesis
      using e by simp
  next
    case (Get g)
    obtain ys t where p: "get g s = (ys, t)" by (cases "get g s")
    obtain a' d' u where r: "chan_run put get items ops t = (a', d', u)" by (cases "chan_run put get items ops t")
    have e: "a = a'" "d = ys @ d'" "s' = u" using Cons.prems(2) Get p r by auto
    from Cons.IH [OF get_inv [OF Cons.prems(1) p] r [folded e(3)]] get_contents [OF Cons.prems(1) p] show ?thesis
      using e by simp
  qed
qed simp

text \<open>From an empty channel on, what has been delivered is a prefix of what has been accepted, and at most
  \<open>cap\<close> items are still under way.\<close>

lemma run_from_empty:
  assumes "inv s" "contents s = []" "chan_run put get items ops s = (a, d, s')"
  shows "a = d @ contents s'" "length a \<le> length d + cap"
  using run_fifo [OF assms(1,3)] assms(2) bounded [of s'] by auto

end

end
