(* ===== verification/Pipe.thy ===== *)
theory Pipe
  imports Signal Ring
begin

text \<open>
  Anonymous pipes (\<^verbatim>\<open>kernel/ipc/pipe.c\<close>): sixteen pipes, each a 4 KiB ring buffer in the kernel heap,
  which a process reaches through two descriptors of its table.  The pointer to the buffer is a heap
  address, so creation and release go through the heap model; the bytes behind it are the list
  \<open>pp_data\<close> of the entry (distinct heap regions do not overlap).  What a fresh heap region happens to
  hold is an argument of \<^verbatim>\<open>pipe_create\<close>.
\<close>

section \<open>State\<close>

definition PIPE_BUF_SIZE :: u32 where "PIPE_BUF_SIZE = 4096"
definition PIPE_MAX_PIPES :: nat where "PIPE_MAX_PIPES = 16"
definition PIPE_HANDLE_BASE :: int where "PIPE_HANDLE_BASE = 10000"
definition PIPE_SIGPIPE :: u8 where "PIPE_SIGPIPE = 13"

record pipe_entry_t =
  pp_used :: bool
  pp_buffer :: u64
  pp_data :: "u8 list"
  pp_head :: u32
  pp_tail :: u32
  pp_count :: u32
  pp_read_refs :: u32
  pp_write_refs :: u32

record kpipe = ksignal +
  g_pipes :: "pipe_entry_t list"

definition pipe_upd :: "nat \<Rightarrow> (pipe_entry_t \<Rightarrow> pipe_entry_t) \<Rightarrow> 'z kpipe_scheme \<Rightarrow> 'z kpipe_scheme" where
  "pipe_upd i f s = s\<lparr>g_pipes := (g_pipes s)[i := f (g_pipes s ! i)]\<rparr>"

section \<open>Operations\<close>

definition pipe_init :: "'z kpipe_scheme \<Rightarrow> 'z kpipe_scheme" where
  "pipe_init s = s\<lparr>g_pipes := replicate PIPE_MAX_PIPES \<lparr>pp_used = False, pp_buffer = 0, pp_data = [], pp_head = 0, pp_tail = 0,
     pp_count = 0, pp_read_refs = 0, pp_write_refs = 0\<rparr>\<rparr>"

text \<open>The slot and the direction (0 read, 1 write) that a handle encodes.\<close>

definition pipe_decode_handle :: "int \<Rightarrow> (nat \<times> int) option" where
  "pipe_decode_handle handle =
     (if handle < PIPE_HANDLE_BASE then None
      else let adjusted = handle - PIPE_HANDLE_BASE; slot = adjusted div 2 in
        if slot < 0 \<or> slot \<ge> int PIPE_MAX_PIPES then None else Some (nat slot, adjusted mod 2))"

definition pipe_free_if_idle :: "nat \<Rightarrow> 'z kpipe_scheme \<Rightarrow> 'z kpipe_scheme option" where
  "pipe_free_if_idle i s =
     (let pipe = g_pipes s ! i in
      if pp_read_refs pipe = 0 \<and> pp_write_refs pipe = 0 then do {
        s \<leftarrow> (if pp_buffer pipe \<noteq> 0 then map_option (pipe_upd i (\<lambda>p. p\<lparr>pp_buffer := 0\<rparr>)) (kfree (pp_buffer pipe) s) else Some s);
        Some (pipe_upd i (\<lambda>p. p\<lparr>pp_used := False, pp_head := 0, pp_tail := 0, pp_count := 0\<rparr>) s)
      } else Some s)"

definition pipe_create :: "u64 \<Rightarrow> u64 \<Rightarrow> u8 list \<Rightarrow> 'z kpipe_scheme \<Rightarrow> (int \<times> (int \<times> int) option \<times> 'z kpipe_scheme) option" where
  "pipe_create now caller garbage s =
     (case pcb_get_current s of
        None \<Rightarrow> Some (-1, None, s)
      | Some c \<Rightarrow>
        (case find_index (\<lambda>p. \<not> pp_used p) (g_pipes s) of
           None \<Rightarrow> Some (-1, None, s)
         | Some i \<Rightarrow> do {
             (buf, s) \<leftarrow> kmalloc now caller (ucast PIPE_BUF_SIZE) s;
             let s = pipe_upd i (\<lambda>p. p\<lparr>pp_buffer := buf\<rparr>) s;
             if buf = 0 then Some (-1, None, s)
             else do {
               let (rfd, p) = pcb_fd_alloc (g_pcbs s ! c);
               let (wfd, p) = pcb_fd_alloc p;
               if rfd < 0 \<or> wfd < 0 then do {
                 let p = (if rfd \<ge> 0 then pcb_fd_free rfd p else p);
                 let p = (if wfd \<ge> 0 then pcb_fd_free wfd p else p);
                 s \<leftarrow> kfree buf (pcb_upd c (\<lambda>_. p) s);
                 Some (-1, None, pipe_upd i (\<lambda>p. p\<lparr>pp_buffer := 0\<rparr>) s)
               } else do {
                 let s = pipe_upd i (\<lambda>p. p\<lparr>pp_used := True, pp_data := garbage, pp_head := 0, pp_tail := 0, pp_count := 0,
                                           pp_read_refs := 1, pp_write_refs := 1\<rparr>) s;
                 let p = pcb_fd_set rfd (PIPE_HANDLE_BASE + int i * 2) p;
                 let p = pcb_fd_set wfd (PIPE_HANDLE_BASE + int i * 2 + 1) p;
                 Some (0, Some (rfd, wfd), pcb_upd c (\<lambda>_. p) s)
               }
             }
           }))"

text \<open>The copy loops: the bytes moved so far, and the pipe.\<close>

partial_function (option) pipe_read_loop :: "u32 \<Rightarrow> u32 \<Rightarrow> u8 list \<Rightarrow> pipe_entry_t \<Rightarrow> (u32 \<times> u8 list \<times> pipe_entry_t) option" where
  "pipe_read_loop count done out pipe =
     (if done < count \<and> pp_count pipe > 0 then
        let chunk = count - done;
            avail = PIPE_BUF_SIZE - pp_head pipe;
            chunk = (if chunk > avail then avail else chunk);
            chunk = (if chunk > pp_count pipe then pp_count pipe else chunk)
        in pipe_read_loop count (done + chunk) (out @ take (unat chunk) (drop (unat (pp_head pipe)) (pp_data pipe)))
             (pipe\<lparr>pp_head := (pp_head pipe + chunk) mod PIPE_BUF_SIZE, pp_count := pp_count pipe - chunk\<rparr>)
      else Some (done, out, pipe))"

partial_function (option) pipe_write_loop :: "u8 list \<Rightarrow> u32 \<Rightarrow> u32 \<Rightarrow> pipe_entry_t \<Rightarrow> (u32 \<times> pipe_entry_t) option" where
  "pipe_write_loop buf count done pipe =
     (if done < count \<and> PIPE_BUF_SIZE - pp_count pipe > 0 then
        let chunk = count - done;
            avail = PIPE_BUF_SIZE - pp_tail pipe;
            space = PIPE_BUF_SIZE - pp_count pipe;
            chunk = (if chunk > avail then avail else chunk);
            chunk = (if chunk > space then space else chunk)
        in pipe_write_loop buf count (done + chunk)
             (pipe\<lparr>pp_data := take (unat (pp_tail pipe)) (pp_data pipe) @ take (unat chunk) (drop (unat done) buf) @
                                drop (unat (pp_tail pipe) + unat chunk) (pp_data pipe),
                   pp_tail := (pp_tail pipe + chunk) mod PIPE_BUF_SIZE, pp_count := pp_count pipe + chunk\<rparr>)
      else Some (done, pipe))"

text \<open>Reading returns the result code and the bytes stored in the caller's buffer.\<close>

definition pipe_read :: "int \<Rightarrow> u32 \<Rightarrow> 'z kpipe_scheme \<Rightarrow> (int \<times> u8 list \<times> 'z kpipe_scheme) option" where
  "pipe_read fd count s =
     (case pcb_get_current s of
        None \<Rightarrow> Some (-1, [], s)
      | Some c \<Rightarrow>
          if count = 0 then Some (-1, [], s)
          else case pipe_decode_handle (pcb_fd_get_handle (g_pcbs s ! c) fd) of
            None \<Rightarrow> Some (-1, [], s)
          | Some (i, direction) \<Rightarrow>
              if direction \<noteq> 0 \<or> \<not> pp_used (g_pipes s ! i) then Some (-1, [], s)
              else do {
                (done, out, pipe) \<leftarrow> pipe_read_loop count 0 [] (g_pipes s ! i);
                let s = pipe_upd i (\<lambda>_. pipe) s;
                Some (if done = 0 \<and> pp_count pipe = 0 \<and> pp_write_refs pipe = 0 then (0, out, s) else (sint done, out, s))
              })"

definition pipe_write :: "int \<Rightarrow> u8 list \<Rightarrow> u32 \<Rightarrow> 'z kpipe_scheme \<Rightarrow> (int \<times> 'z kpipe_scheme) option" where
  "pipe_write fd buf count s =
     (case pcb_get_current s of
        None \<Rightarrow> Some (-1, s)
      | Some c \<Rightarrow>
          if count = 0 then Some (-1, s)
          else case pipe_decode_handle (pcb_fd_get_handle (g_pcbs s ! c) fd) of
            None \<Rightarrow> Some (-1, s)
          | Some (i, direction) \<Rightarrow>
              if direction \<noteq> 1 \<or> \<not> pp_used (g_pipes s ! i) then Some (-1, s)
              else if pp_read_refs (g_pipes s ! i) = 0
              then Some (-1, snd (signal_send (sint (p_pid (g_pcbs s ! c))) PIPE_SIGPIPE s))
              else do {
                (done, pipe) \<leftarrow> pipe_write_loop buf count 0 (g_pipes s ! i);
                Some (sint done, pipe_upd i (\<lambda>_. pipe) s)
              })"

definition pipe_close_fd :: "int \<Rightarrow> 'z kpipe_scheme \<Rightarrow> 'z kpipe_scheme option" where
  "pipe_close_fd fd s =
     (case pcb_get_current s of
        None \<Rightarrow> Some s
      | Some c \<Rightarrow>
          case pipe_decode_handle (pcb_fd_get_handle (g_pcbs s ! c) fd) of
            None \<Rightarrow> Some s
          | Some (i, direction) \<Rightarrow>
              if \<not> pp_used (g_pipes s ! i) then Some s
              else let s = pipe_upd i (\<lambda>p.
                         if direction = 0 then (if pp_read_refs p > 0 then p\<lparr>pp_read_refs := pp_read_refs p - 1\<rparr> else p)
                         else (if pp_write_refs p > 0 then p\<lparr>pp_write_refs := pp_write_refs p - 1\<rparr> else p)) s;
                       s = pcb_upd c (pcb_fd_free fd) s
                   in pipe_free_if_idle i s)"

section \<open>The byte stream of a pipe\<close>

definition pipe_ok :: "pipe_entry_t \<Rightarrow> bool" where
  "pipe_ok p \<longleftrightarrow> length (pp_data p) = 4096 \<and> ring_ok (pp_data p) (unat (pp_head p)) (unat (pp_tail p)) (unat (pp_count p))"

definition pipe_contents :: "pipe_entry_t \<Rightarrow> u8 list" where
  "pipe_contents p = ring_contents (pp_data p) (unat (pp_head p)) (unat (pp_count p))"

lemma pipe_bounds:
  assumes "pipe_ok p"
  shows "unat (pp_head p) < 4096" "unat (pp_count p) \<le> 4096" "unat (pp_tail p) < 4096" "length (pp_data p) = 4096"
proof -
  show "unat (pp_head p) < 4096" "unat (pp_count p) \<le> 4096" "length (pp_data p) = 4096"
    using assms by (auto simp: pipe_ok_def ring_ok_def)
  have "unat (pp_tail p) = (unat (pp_head p) + unat (pp_count p)) mod 4096" using assms by (auto simp: pipe_ok_def ring_ok_def)
  then show "unat (pp_tail p) < 4096" by simp
qed

lemma unat_buf_minus: "unat w \<le> 4096 \<Longrightarrow> unat (PIPE_BUF_SIZE - w) = 4096 - unat w"
  by (subst unat_sub) (simp_all add: PIPE_BUF_SIZE_def word_le_nat_alt)

lemma unat_ring_step: "unat w < 4096 \<Longrightarrow> unat c \<le> 4096 \<Longrightarrow> unat ((w + c) mod PIPE_BUF_SIZE) = (unat w + unat c) mod 4096"
  by (simp add: unat_mod PIPE_BUF_SIZE_def unat_add_u32)

lemma of_nat_unat_self: "of_nat (unat w) = (w :: u32)"
  by simp

lemma chunk_min:
  fixes a b c :: u32
  shows "unat (let x = (if a > b then b else a) in if x > c then c else x) = min (unat a) (min (unat b) (unat c))"
  by (simp add: Let_def word_less_nat_alt min_def)

lemma pipe_read_step:
  assumes ok: "pipe_ok p" and c: "unat chunk \<le> unat (pp_count p)" "unat (pp_head p) + unat chunk \<le> 4096"
    and p': "p' = p\<lparr>pp_head := (pp_head p + chunk) mod PIPE_BUF_SIZE, pp_count := pp_count p - chunk\<rparr>"
  shows "pipe_ok p'" "pipe_contents p = take (unat chunk) (drop (unat (pp_head p)) (pp_data p)) @ pipe_contents p'"
    "unat (pp_count p') = unat (pp_count p) - unat chunk"
proof -
  note B = pipe_bounds [OF ok]
  have ro: "ring_ok (pp_data p) (unat (pp_head p)) (unat (pp_tail p)) (unat (pp_count p))" using ok by (simp add: pipe_ok_def)
  have h: "unat (pp_head p') = (unat (pp_head p) + unat chunk) mod 4096" using B c by (simp add: p' unat_ring_step)
  show n: "unat (pp_count p') = unat (pp_count p) - unat chunk" using c(1) by (simp add: p' unat_sub word_le_nat_alt)
  have c': "unat (pp_head p) + unat chunk \<le> length (pp_data p)" using c(2) B(4) by simp
  note R = ring_take [OF ro c(1) c', unfolded B(4)]
  have f: "pp_data p' = pp_data p" "pp_tail p' = pp_tail p" by (simp_all add: p')
  show "pipe_ok p'" using R(1) B(4) unfolding pipe_ok_def h n f by simp
  have "pipe_contents p = take (unat chunk) (pipe_contents p) @ drop (unat chunk) (pipe_contents p)" by simp
  then show "pipe_contents p = take (unat chunk) (drop (unat (pp_head p)) (pp_data p)) @ pipe_contents p'"
    using R(2,3) unfolding pipe_contents_def h n f by metis
qed

lemma pipe_read_loop_spec:
  assumes "pipe_ok p" "done \<le> count"
  shows "\<exists>p'. pipe_read_loop count done out p =
      Some (of_nat (min (unat count) (unat done + unat (pp_count p))), out @ take (unat count - unat done) (pipe_contents p), p') \<and>
    pipe_ok p' \<and> pipe_contents p' = drop (unat count - unat done) (pipe_contents p) \<and>
    (\<exists>h n. p' = p\<lparr>pp_head := h, pp_count := n\<rparr>)"
  using assms
proof (induction "unat (pp_count p)" arbitrary: p "done" out rule: less_induct)
  case less
  note B = pipe_bounds [OF less.prems(1)]
  have len: "length (pipe_contents p) = unat (pp_count p)" by (simp add: pipe_contents_def)
  show ?case
  proof (cases "done < count \<and> pp_count p > 0")
    case False
    have "min (unat count) (unat done + unat (pp_count p)) = unat done" "take (unat count - unat done) (pipe_contents p) = []"
      "drop (unat count - unat done) (pipe_contents p) = pipe_contents p"
      using False less.prems(2) len by (auto simp: word_nat word_gt_0 min_def unat_eq_0)
    moreover have "pipe_read_loop count done out p = Some (done, out, p)" unfolding pipe_read_loop.simps [of count "done" out p] by (rule if_not_P [OF False])
    moreover have "p = p\<lparr>pp_head := pp_head p, pp_count := pp_count p\<rparr>" by simp
    ultimately show ?thesis using less.prems(1) by (simp only: append_Nil2 of_nat_unat_self) blast
  next
    case True
    define chunk where "chunk = (let x = (if count - done > PIPE_BUF_SIZE - pp_head p then PIPE_BUF_SIZE - pp_head p else count - done)
      in if x > pp_count p then pp_count p else x)"
    define q where "q = p\<lparr>pp_head := (pp_head p + chunk) mod PIPE_BUF_SIZE, pp_count := pp_count p - chunk\<rparr>"
    have cd: "unat (count - done) = unat count - unat done" using less.prems(2) by (simp add: unat_sub word_le_nat_alt)
    have ch: "unat chunk = min (unat count - unat done) (min (4096 - unat (pp_head p)) (unat (pp_count p)))"
      unfolding chunk_def chunk_min cd using B(1) by (simp add: unat_buf_minus)
    have pos: "0 < unat chunk" using True B(1) unfolding ch by (simp add: word_nat unat_gt_0 word_gt_0)
    have c: "unat chunk \<le> unat (pp_count p)" "unat (pp_head p) + unat chunk \<le> 4096" "unat chunk \<le> unat count - unat done"
      using B(1) by (simp_all add: ch)
    note R = pipe_read_step [OF less.prems(1) c(1,2) q_def]
    have dn: "unat (done + chunk) = unat done + unat chunk" using c(3) unat_u32_less [of count] less.prems(2)
      by (subst unat_add_u32) (simp_all add: word_nat)
    have lt: "unat (pp_count q) < unat (pp_count p)" using R(3) pos c(1) by simp
    have le: "done + chunk \<le> count" using c(3) less.prems(2) by (simp add: word_nat dn)
    let ?x = "take (unat chunk) (drop (unat (pp_head p)) (pp_data p))"
    have xl: "length ?x = unat chunk" using c(2) B(4) by simp
    from less.hyps [OF lt R(1) le, of "out @ ?x"] obtain p' where
      I: "pipe_read_loop count (done + chunk) (out @ ?x) q =
        Some (of_nat (min (unat count) (unat (done + chunk) + unat (pp_count q))), (out @ ?x) @ take (unat count - unat (done + chunk)) (pipe_contents q), p')"
      "pipe_ok p'" "pipe_contents p' = drop (unat count - unat (done + chunk)) (pipe_contents q)" "\<exists>h n. p' = q\<lparr>pp_head := h, pp_count := n\<rparr>"
      by blast
    have "pipe_read_loop count done out p = pipe_read_loop count (done + chunk) (out @ ?x) q"
      using True unfolding pipe_read_loop.simps [of count "done" out p] by (simp add: Let_def chunk_def q_def)
    moreover have "unat (done + chunk) + unat (pp_count q) = unat done + unat (pp_count p)" using dn R(3) c(1) by simp
    moreover have "?x @ take (unat count - unat (done + chunk)) (pipe_contents q) = take (unat count - unat done) (pipe_contents p)"
      "drop (unat count - unat (done + chunk)) (pipe_contents q) = drop (unat count - unat done) (pipe_contents p)"
      using R(2) xl c(3) by (simp_all add: dn)
    moreover have "\<exists>h n. p' = p\<lparr>pp_head := h, pp_count := n\<rparr>" using I(4) unfolding q_def by auto
    ultimately show ?thesis using I by (simp only: append_assoc) blast
  qed
qed

lemma pipe_write_step:
  assumes ok: "pipe_ok p" and c: "unat (pp_count p) + unat chunk \<le> 4096" "unat (pp_tail p) + unat chunk \<le> 4096" "length ys = unat chunk"
    and p': "p' = p\<lparr>pp_data := take (unat (pp_tail p)) (pp_data p) @ ys @ drop (unat (pp_tail p) + unat chunk) (pp_data p),
      pp_tail := (pp_tail p + chunk) mod PIPE_BUF_SIZE, pp_count := pp_count p + chunk\<rparr>"
  shows "pipe_ok p'" "pipe_contents p' = pipe_contents p @ ys" "unat (pp_count p') = unat (pp_count p) + unat chunk"
proof -
  note B = pipe_bounds [OF ok]
  have ro: "ring_ok (pp_data p) (unat (pp_head p)) (unat (pp_tail p)) (unat (pp_count p))" using ok by (simp add: pipe_ok_def)
  have t: "unat (pp_tail p') = (unat (pp_tail p) + unat chunk) mod 4096" using B c by (simp add: p' unat_ring_step)
  show n: "unat (pp_count p') = unat (pp_count p) + unat chunk" using c(1) by (simp add: p' unat_add_u32)
  have c': "unat (pp_count p) + length ys \<le> length (pp_data p)" "unat (pp_tail p) + length ys \<le> length (pp_data p)" using c B(4) by simp_all
  note R = ring_put [OF ro c', unfolded B(4) c(3)]
  have f: "pp_data p' = take (unat (pp_tail p)) (pp_data p) @ ys @ drop (unat (pp_tail p) + unat chunk) (pp_data p)" "pp_head p' = pp_head p"
    by (simp_all add: p')
  show "pipe_ok p'" using R(1,2) unfolding pipe_ok_def t n f by simp
  show "pipe_contents p' = pipe_contents p @ ys" using R(3) unfolding pipe_contents_def n f .
qed

lemma pipe_write_loop_spec:
  assumes "pipe_ok p" "done \<le> count" "unat count \<le> length buf"
  shows "\<exists>p'. pipe_write_loop buf count done p = Some (of_nat (unat done + min (unat count - unat done) (4096 - unat (pp_count p))), p') \<and>
    pipe_ok p' \<and> pipe_contents p' = pipe_contents p @ take (min (unat count - unat done) (4096 - unat (pp_count p))) (drop (unat done) buf) \<and>
    (\<exists>d t n. p' = p\<lparr>pp_data := d, pp_tail := t, pp_count := n\<rparr>)"
  using assms(1,2)
proof (induction "4096 - unat (pp_count p)" arbitrary: p "done" rule: less_induct)
  case less
  note B = pipe_bounds [OF less.prems(1)]
  have sp: "unat (PIPE_BUF_SIZE - pp_count p) = 4096 - unat (pp_count p)" by (rule unat_buf_minus [OF B(2)])
  show ?case
  proof (cases "done < count \<and> PIPE_BUF_SIZE - pp_count p > 0")
    case False
    then have "min (unat count - unat done) (4096 - unat (pp_count p)) = 0"
      using less.prems(2) by (simp add: word_nat sp) linarith
    moreover have "pipe_write_loop buf count done p = Some (done, p)"
      unfolding pipe_write_loop.simps [of buf count "done" p] by (rule if_not_P [OF False])
    moreover have "p = p\<lparr>pp_data := pp_data p, pp_tail := pp_tail p, pp_count := pp_count p\<rparr>" by simp
    ultimately show ?thesis using less.prems(1) by (simp only: append_Nil2 take_0 add_0_right of_nat_unat_self) blast
  next
    case True
    define chunk where "chunk = (let x = (if count - done > PIPE_BUF_SIZE - pp_tail p then PIPE_BUF_SIZE - pp_tail p else count - done)
      in if x > PIPE_BUF_SIZE - pp_count p then PIPE_BUF_SIZE - pp_count p else x)"
    let ?ys = "take (unat chunk) (drop (unat done) buf)"
    define q where "q = p\<lparr>pp_data := take (unat (pp_tail p)) (pp_data p) @ ?ys @ drop (unat (pp_tail p) + unat chunk) (pp_data p),
      pp_tail := (pp_tail p + chunk) mod PIPE_BUF_SIZE, pp_count := pp_count p + chunk\<rparr>"
    have cd: "unat (count - done) = unat count - unat done" using less.prems(2) by (simp add: unat_sub word_le_nat_alt)
    have ch: "unat chunk = min (unat count - unat done) (min (4096 - unat (pp_tail p)) (4096 - unat (pp_count p)))"
      unfolding chunk_def chunk_min cd sp using B(3) by (simp add: unat_buf_minus)
    have room: "0 < 4096 - unat (pp_count p)" using True by (simp add: word_nat sp)
    have pos: "0 < unat chunk" using True B(3) room unfolding ch by (simp add: word_nat)
    have c: "unat (pp_count p) + unat chunk \<le> 4096" "unat (pp_tail p) + unat chunk \<le> 4096" "unat chunk \<le> unat count - unat done"
      using B by (simp_all add: ch)
    have yl: "length ?ys = unat chunk" using c(3) assms(3) by simp
    note R = pipe_write_step [OF less.prems(1) c(1,2) yl q_def]
    have dn: "unat (done + chunk) = unat done + unat chunk" using c(3) unat_u32_less [of count] less.prems(2)
      by (subst unat_add_u32) (simp_all add: word_nat)
    have lt: "4096 - unat (pp_count q) < 4096 - unat (pp_count p)" using R(3) pos room by simp
    have le: "done + chunk \<le> count" using c(3) less.prems(2) by (simp add: word_nat dn)
    let ?m = "min (unat count - unat (done + chunk)) (4096 - unat (pp_count q))"
    from less.hyps [OF lt R(1) le] obtain p' where
      I: "pipe_write_loop buf count (done + chunk) q = Some (of_nat (unat (done + chunk) + ?m), p')"
      "pipe_ok p'" "pipe_contents p' = pipe_contents q @ take ?m (drop (unat (done + chunk)) buf)"
      "\<exists>d t n. p' = q\<lparr>pp_data := d, pp_tail := t, pp_count := n\<rparr>"
      by blast
    have m: "min (unat count - unat done) (4096 - unat (pp_count p)) = unat chunk + ?m"
      using c(1,3) R(3) by (simp add: dn)
    have "pipe_write_loop buf count done p = pipe_write_loop buf count (done + chunk) q"
      using True unfolding pipe_write_loop.simps [of buf count "done" p] by (simp add: Let_def chunk_def q_def)
    moreover have "unat (done + chunk) + ?m = unat done + min (unat count - unat done) (4096 - unat (pp_count p))" unfolding m dn by simp
    moreover have "pipe_contents p' = pipe_contents p @ take (min (unat count - unat done) (4096 - unat (pp_count p))) (drop (unat done) buf)"
      unfolding I(3) R(2) m dn by (simp add: take_add add.commute)
    moreover have "\<exists>d t n. p' = p\<lparr>pp_data := d, pp_tail := t, pp_count := n\<rparr>" using I(4) unfolding q_def by auto
    ultimately show ?thesis using I(1,2) by simp
  qed
qed

text \<open>Writing and reading as operations of a channel; a write offers \<^verbatim>\<open>(uint32_t) length\<close> bytes.\<close>

definition pipe_items :: "u8 list \<Rightarrow> u8 list" where
  "pipe_items buf = take (unat (of_nat (length buf) :: u32)) buf"

definition pipe_put :: "u8 list \<Rightarrow> pipe_entry_t \<Rightarrow> nat \<times> pipe_entry_t" where
  "pipe_put buf p = (case pipe_write_loop buf (of_nat (length buf)) 0 p of None \<Rightarrow> (0, p) | Some (n, p') \<Rightarrow> (unat n, p'))"

definition pipe_get :: "u32 \<Rightarrow> pipe_entry_t \<Rightarrow> u8 list \<times> pipe_entry_t" where
  "pipe_get count p = (case pipe_read_loop count 0 [] p of None \<Rightarrow> ([], p) | Some (n, out, p') \<Rightarrow> (out, p'))"

lemma unat_of_nat_le: "unat (of_nat n :: u32) \<le> n"
  by (simp add: unat_of_nat take_bit_eq_mod)

lemma pipe_put_spec:
  assumes ok: "pipe_ok p" and res: "pipe_put buf p = (n, p')"
  shows "pipe_ok p'" "n = min (length (pipe_items buf)) (4096 - unat (pp_count p))" "pipe_contents p' = pipe_contents p @ take n (pipe_items buf)"
proof -
  let ?c = "of_nat (length buf) :: u32"
  have le: "unat ?c \<le> length buf" by (rule unat_of_nat_le)
  let ?m = "min (unat ?c) (4096 - unat (pp_count p))"
  from pipe_write_loop_spec [OF ok _ le, of 0] obtain q where
    q: "pipe_write_loop buf ?c 0 p = Some (of_nat ?m, q)" "pipe_ok q" "pipe_contents q = pipe_contents p @ take ?m buf" by auto
  have u: "unat (of_nat ?m :: u32) = ?m" by (intro unat_of_nat_u32) simp
  have l: "length (pipe_items buf) = unat ?c" using le by (simp add: pipe_items_def)
  have e: "n = ?m" "p' = q" using res q(1) u by (auto simp: pipe_put_def)
  then show "pipe_ok p'" "n = min (length (pipe_items buf)) (4096 - unat (pp_count p))" using q(2) l by simp_all
  show "pipe_contents p' = pipe_contents p @ take n (pipe_items buf)" using q(3) e by (simp add: pipe_items_def min.commute min.left_commute)
qed

lemma pipe_get_spec:
  assumes ok: "pipe_ok p" and res: "pipe_get count p = (out, p')"
  shows "pipe_ok p'" "out = take (unat count) (pipe_contents p)" "pipe_contents p' = drop (unat count) (pipe_contents p)"
  using pipe_read_loop_spec [OF ok, of 0 count "[]"] res by (auto simp: pipe_get_def)

interpretation stream: fifo_channel pipe_ok pipe_contents pipe_items pipe_put pipe_get 4096
proof unfold_locales
  fix p p' :: pipe_entry_t and buf n
  assume a: "pipe_ok p" "pipe_put buf p = (n, p')"
  note S = pipe_put_spec [OF a]
  show "pipe_ok p'" "pipe_contents p' = pipe_contents p @ take n (pipe_items buf)" by (rule S)+
  have "unat (pp_count p) \<le> 4096" using pipe_bounds [OF a(1)] by simp
  then show "length (pipe_contents p') = 4096" if "n < length (pipe_items buf)"
    using that S(2,3) by (simp add: pipe_contents_def)
next
  fix p p' :: pipe_entry_t and count out
  assume a: "pipe_ok p" "pipe_get count p = (out, p')"
  note S = pipe_get_spec [OF a]
  show "pipe_ok p'" "pipe_contents p = out @ pipe_contents p'" using S by simp_all
next
  fix p assume "pipe_ok p"
  then show "length (pipe_contents p) \<le> 4096" using pipe_bounds by (simp add: pipe_contents_def)
qed

section \<open>Pipes and the rest of the kernel\<close>

definition pipe_inv :: "'z kpipe_scheme \<Rightarrow> bool" where
  "pipe_inv s \<longleftrightarrow> proc_inv s \<and> length (g_pipes s) = PIPE_MAX_PIPES \<and> (\<forall>p \<in> set (g_pipes s). pp_used p \<longrightarrow> pipe_ok p)"

lemma pipe_upd_sel [simp]:
  "g_pcbs (pipe_upd i f s) = g_pcbs s" "g_current_pid (pipe_upd i f s) = g_current_pid s" "pcb_find_by_pid pid (pipe_upd i f s) = pcb_find_by_pid pid s"
  "pcb_get_current (pipe_upd i f s) = pcb_get_current s" "length (g_pipes (pipe_upd i f s)) = length (g_pipes s)"
  "mem_view (pipe_upd i f s) = mem_view s" "kernel_heap (pipe_upd i f s) = kernel_heap s"
  by (simp_all add: pipe_upd_def pcb_find_by_pid_def pcb_get_current_def mem_view_def)

lemma pipe_upd_inv [simp]: "proc_inv (pipe_upd i f s) = proc_inv s" "mem_inv (pipe_upd i f s) = mem_inv s" "heap_live (pipe_upd i f s) = heap_live s"
proof -
  have v: "mem_view (pipe_upd i f s) = mem_view s" "g_frame_bitmap (pipe_upd i f s) = g_frame_bitmap s" "g_frame_info (pipe_upd i f s) = g_frame_info s"
    "g_frame_next_cursor (pipe_upd i f s) = g_frame_next_cursor s" "g_user_chunk_bitmap (pipe_upd i f s) = g_user_chunk_bitmap s"
    by (simp_all add: pipe_upd_def mem_view_def)
  note C = vm_mem_cong [OF v]
  show "mem_inv (pipe_upd i f s) = mem_inv s" "heap_live (pipe_upd i f s) = heap_live s" by (rule C)+
  have "pcb_inv (pipe_upd i f s) = pcb_inv s" by (simp add: pcb_inv_def pipe_upd_def)
  then show "proc_inv (pipe_upd i f s) = proc_inv s" using C by (simp add: proc_inv_def)
qed

lemma pipes_pcb_upd [simp]: "g_pipes (pcb_upd c f s) = g_pipes s"
  by (simp add: pcb_upd_def)

lemma nth_pipe_upd: "j < length (g_pipes s) \<Longrightarrow> g_pipes (pipe_upd i f s) ! j = (if i = j then f (g_pipes s ! j) else g_pipes s ! j)"
  by (simp add: pipe_upd_def)

lemma kpipe_more: "kvm.more s' = kvm.more s \<Longrightarrow> g_pipes s' = g_pipes s"
  by (cases s; cases s') simp

lemma pipe_inv_upd:
  assumes "pipe_inv s" "pp_used (f (g_pipes s ! i)) \<Longrightarrow> pipe_ok (f (g_pipes s ! i))"
  shows "pipe_inv (pipe_upd i f s)"
proof -
  have "pp_used p \<longrightarrow> pipe_ok p" if "p \<in> set (g_pipes (pipe_upd i f s))" for p
    using that set_update_cases [of p "g_pipes s" i "f (g_pipes s ! i)"] assms by (auto simp: pipe_upd_def pipe_inv_def)
  then show ?thesis using assms(1) by (simp add: pipe_inv_def)
qed

lemma pipe_inv_pcb: "pipe_inv s \<Longrightarrow> pcb_quiet f \<Longrightarrow> pipe_inv (pcb_upd c f s)"
  by (simp add: pipe_inv_def proc_inv_upd)

text \<open>The open end of a pipe behind a descriptor of the current process.\<close>

definition pipe_end :: "'z kpipe_scheme \<Rightarrow> int \<Rightarrow> nat \<Rightarrow> int \<Rightarrow> bool" where
  "pipe_end s fd i direction \<longleftrightarrow> (\<exists>c. pcb_get_current s = Some c \<and>
     pipe_decode_handle (pcb_fd_get_handle (g_pcbs s ! c) fd) = Some (i, direction)) \<and> pp_used (g_pipes s ! i)"

lemma decode_slot: "pipe_decode_handle h = Some (i, d) \<Longrightarrow> i < PIPE_MAX_PIPES"
  by (auto simp: pipe_decode_handle_def Let_def split: if_splits)

lemma decode_encoded:
  assumes "i < PIPE_MAX_PIPES"
  shows "pipe_decode_handle (PIPE_HANDLE_BASE + int i * 2) = Some (i, 0)" "pipe_decode_handle (PIPE_HANDLE_BASE + int i * 2 + 1) = Some (i, 1)"
  using assms by (simp_all add: pipe_decode_handle_def Let_def)

lemma pipe_write_spec:
  assumes inv: "pipe_inv s" and e: "pipe_end s fd i 1" and n: "count \<noteq> 0" "length buf = unat count" "pp_read_refs (g_pipes s ! i) \<noteq> 0"
  shows "\<exists>m s'. pipe_write fd buf count s = Some (int m, s') \<and> m = min (unat count) (4096 - length (pipe_contents (g_pipes s ! i))) \<and>
    pipe_inv s' \<and> pipe_contents (g_pipes s' ! i) = pipe_contents (g_pipes s ! i) @ take m buf \<and>
    (\<exists>p'. s' = pipe_upd i (\<lambda>_. p') s \<and> pp_used p' \<and> pp_write_refs p' = pp_write_refs (g_pipes s ! i))"
proof -
  obtain c where c: "pcb_get_current s = Some c" "pipe_decode_handle (pcb_fd_get_handle (g_pcbs s ! c) fd) = Some (i, 1)" and u: "pp_used (g_pipes s ! i)"
    using e by (auto simp: pipe_end_def)
  have i: "i < length (g_pipes s)" using decode_slot [OF c(2)] inv by (simp add: pipe_inv_def)
  have ok: "pipe_ok (g_pipes s ! i)" using inv i u by (simp add: pipe_inv_def)
  let ?m = "min (unat count) (4096 - unat (pp_count (g_pipes s ! i)))"
  from pipe_write_loop_spec [OF ok _ eq_refl [OF n(2) [symmetric]], of 0] obtain p' where
    p: "pipe_write_loop buf count 0 (g_pipes s ! i) = Some (of_nat ?m, p')" "pipe_ok p'" "pipe_contents p' = pipe_contents (g_pipes s ! i) @ take ?m buf"
    "\<exists>d t n. p' = (g_pipes s ! i)\<lparr>pp_data := d, pp_tail := t, pp_count := n\<rparr>" by auto
  have "sint (of_nat ?m :: u32) = int ?m" by (intro sint_of_nat_u32) simp
  then have "pipe_write fd buf count s = Some (int ?m, pipe_upd i (\<lambda>_. p') s)"
    using c u n p(1) by (simp add: pipe_write_def)
  moreover have "pipe_inv (pipe_upd i (\<lambda>_. p') s)" using inv p(2) by (intro pipe_inv_upd) simp
  moreover have "pipe_contents (g_pipes (pipe_upd i (\<lambda>_. p') s) ! i) = pipe_contents (g_pipes s ! i) @ take ?m buf" using i p(3) by (simp add: nth_pipe_upd)
  moreover have "pp_used p' \<and> pp_write_refs p' = pp_write_refs (g_pipes s ! i)" using p(4) u by auto
  ultimately show ?thesis by (auto simp: pipe_contents_def)
qed

lemma pipe_read_spec:
  assumes inv: "pipe_inv s" and e: "pipe_end s fd i 0" and n: "count \<noteq> 0"
  shows "\<exists>s'. pipe_read fd count s = Some (int (min (unat count) (length (pipe_contents (g_pipes s ! i)))), take (unat count) (pipe_contents (g_pipes s ! i)), s') \<and>
    pipe_inv s' \<and> pipe_contents (g_pipes s' ! i) = drop (unat count) (pipe_contents (g_pipes s ! i)) \<and> (\<exists>p'. s' = pipe_upd i (\<lambda>_. p') s)"
proof -
  obtain c where c: "pcb_get_current s = Some c" "pipe_decode_handle (pcb_fd_get_handle (g_pcbs s ! c) fd) = Some (i, 0)" and u: "pp_used (g_pipes s ! i)"
    using e by (auto simp: pipe_end_def)
  have i: "i < length (g_pipes s)" using decode_slot [OF c(2)] inv by (simp add: pipe_inv_def)
  have ok: "pipe_ok (g_pipes s ! i)" using inv i u by (simp add: pipe_inv_def)
  let ?m = "min (unat count) (unat (pp_count (g_pipes s ! i)))"
  from pipe_read_loop_spec [OF ok, of 0 count "[]"] obtain p' where
    p: "pipe_read_loop count 0 [] (g_pipes s ! i) = Some (of_nat ?m, take (unat count) (pipe_contents (g_pipes s ! i)), p')" "pipe_ok p'"
      "pipe_contents p' = drop (unat count) (pipe_contents (g_pipes s ! i))" by auto
  have b: "unat (pp_count (g_pipes s ! i)) \<le> 4096" by (rule pipe_bounds [OF ok])
  have sm: "sint (of_nat ?m :: u32) = int ?m" using b by (intro sint_of_nat_u32) simp
  have z: "int ?m = 0" if "(of_nat ?m :: u32) = 0" using that sm by simp
  have "pipe_read fd count s = Some (int ?m, take (unat count) (pipe_contents (g_pipes s ! i)), pipe_upd i (\<lambda>_. p') s)"
    using c u n p(1) sm z by (simp add: pipe_read_def Let_def)
  moreover have "pipe_inv (pipe_upd i (\<lambda>_. p') s)" using inv p(2) by (intro pipe_inv_upd) simp
  moreover have "pipe_contents (g_pipes (pipe_upd i (\<lambda>_. p') s) ! i) = drop (unat count) (pipe_contents (g_pipes s ! i))" using i p(3) by (simp add: nth_pipe_upd)
  ultimately show ?thesis by (auto simp: pipe_contents_def)
qed

section \<open>Creating and closing\<close>

lemma pcb_fd_alloc_cases:
  assumes "pcb_fd_alloc p = (fd, p')" "0 \<le> fd" "length (p_fd_table p) = PCB_FD_MAX"
  obtains k where "fd = int k" "3 \<le> k" "k < PCB_FD_MAX" "p_fd_table p ! k = -1" "p' = p\<lparr>p_fd_table := (p_fd_table p)[k := -2]\<rparr>"
proof (cases "find_index (\<lambda>h. h = -1) (drop 3 (p_fd_table p))")
  case (Some i)
  note F = find_index_SomeD [OF Some]
  show ?thesis by (rule that [of "i + 3"]) (use F assms Some in \<open>auto simp: pcb_fd_alloc_def add.commute\<close>)
qed (use assms in \<open>simp add: pcb_fd_alloc_def\<close>)

text \<open>The two descriptors of a new pipe, and what closing them makes of the table.\<close>

lemma two_fds:
  assumes a: "pcb_fd_alloc p = (rfd, p1)" "pcb_fd_alloc p1 = (wfd, p2)" "0 \<le> rfd" "0 \<le> wfd"
    and l: "length (p_fd_table p) = PCB_FD_MAX"
    and q: "q = pcb_fd_set wfd hw (pcb_fd_set rfd hr p2)"
  shows "rfd \<noteq> wfd" "pcb_fd_get_handle q rfd = hr" "pcb_fd_get_handle (pcb_fd_free rfd q) wfd = hw" "pcb_fd_get_handle q wfd = hw"
    "p_fd_table (pcb_fd_free wfd (pcb_fd_free rfd q)) = p_fd_table p"
proof -
  obtain r where r: "rfd = int r" "3 \<le> r" "r < PCB_FD_MAX" "p_fd_table p ! r = -1" "p1 = p\<lparr>p_fd_table := (p_fd_table p)[r := -2]\<rparr>"
    using pcb_fd_alloc_cases [OF a(1,3) l] by blast
  have l1: "length (p_fd_table p1) = PCB_FD_MAX" using l r(5) by simp
  obtain w where w: "wfd = int w" "3 \<le> w" "w < PCB_FD_MAX" "p_fd_table p1 ! w = -1" "p2 = p1\<lparr>p_fd_table := (p_fd_table p1)[w := -2]\<rparr>"
    using pcb_fd_alloc_cases [OF a(2,4) l1] by blast
  have rw: "r \<noteq> w" using w(3,4) r(5) l by auto
  then show "rfd \<noteq> wfd" by (simp add: r(1) w(1))
  have qt: "p_fd_table q = (p_fd_table p)[r := hr, w := hw]"
    using r w rw by (simp add: q pcb_fd_set_def list_update_swap)
  show "pcb_fd_get_handle q rfd = hr" "pcb_fd_get_handle q wfd = hw"
    using r(1,3) w(1,3) rw l by (simp_all add: pcb_fd_get_handle_def qt)
  show "pcb_fd_get_handle (pcb_fd_free rfd q) wfd = hw"
    using r(1,3) w(1,3) rw l by (simp add: pcb_fd_get_handle_def pcb_fd_free_def qt Let_def)
  have "p_fd_table p ! w = -1" using w(4) r(5) rw by simp
  then have "(p_fd_table p)[r := -1, w := -1] = p_fd_table p" using r(4) by (metis list_update_id)
  moreover have "(p_fd_table p)[r := hr, w := hw, r := -1, w := -1] = (p_fd_table p)[r := -1, w := -1]"
    using rw by (metis list_update_overwrite list_update_swap)
  ultimately show "p_fd_table (pcb_fd_free wfd (pcb_fd_free rfd q)) = p_fd_table p"
    using r(1,3) w(1,3) by (simp add: pcb_fd_free_def qt Let_def)
qed

lemma get_current_quiet: "pcb_quiet f \<Longrightarrow> pcb_get_current (pcb_upd i f s) = pcb_get_current s"
  by (simp add: pcb_get_current_def find_by_pid_quiet)

lemma quiet_const:
  assumes "p_used q = p_used (g_pcbs s ! c)" "p_slot q = p_slot (g_pcbs s ! c)" "p_pid q = p_pid (g_pcbs s ! c)"
    "length (p_fd_table q) = length (p_fd_table (g_pcbs s ! c))" "length (p_fd_cloexec q) = length (p_fd_cloexec (g_pcbs s ! c))"
  obtains f where "pcb_quiet f" "pcb_upd c (\<lambda>_. q) s = pcb_upd c f s"
proof -
  let ?f = "\<lambda>p. if p = g_pcbs s ! c then q else p"
  have "pcb_quiet ?f" using assms by (simp add: pcb_quiet_def)
  moreover have "pcb_upd c (\<lambda>_. q) s = pcb_upd c ?f s" by (simp add: pcb_upd_def)
  ultimately show ?thesis by (rule that)
qed

lemma fd_ops_keep [simp]:
  "p_used (pcb_fd_set fd h p) = p_used p" "p_slot (pcb_fd_set fd h p) = p_slot p" "p_pid (pcb_fd_set fd h p) = p_pid p"
  "length (p_fd_table (pcb_fd_set fd h p)) = length (p_fd_table p)" "p_fd_cloexec (pcb_fd_set fd h p) = p_fd_cloexec p"
  "p_used (pcb_fd_free fd p) = p_used p" "p_slot (pcb_fd_free fd p) = p_slot p" "p_pid (pcb_fd_free fd p) = p_pid p"
  "length (p_fd_table (pcb_fd_free fd p)) = length (p_fd_table p)" "length (p_fd_cloexec (pcb_fd_free fd p)) = length (p_fd_cloexec p)"
  by (simp_all add: pcb_fd_set_def pcb_fd_free_def Let_def)

lemma fd_alloc_keeps:
  assumes "pcb_fd_alloc p = (fd, p')"
  shows "p_used p' = p_used p" "p_slot p' = p_slot p" "p_pid p' = p_pid p" "length (p_fd_table p') = length (p_fd_table p)"
    "p_fd_cloexec p' = p_fd_cloexec p"
  using assms by (auto simp: pcb_fd_alloc_def split: option.splits)

text \<open>
  A state in which the current process (entry \<open>c\<close>) has just got pipe \<open>i\<close>: the buffer is a new heap region,
  and the two new descriptors lead to its ends.
\<close>

definition pipe_made :: "nat \<Rightarrow> nat \<Rightarrow> int \<Rightarrow> int \<Rightarrow> 'z kpipe_scheme \<Rightarrow> 'z kpipe_scheme \<Rightarrow> bool" where
  "pipe_made c i rfd wfd s s' \<longleftrightarrow> pcb_get_current s' = Some c \<and> c < PCB_MAX \<and> i < PIPE_MAX_PIPES \<and> rfd \<noteq> wfd \<and> \<not> pp_used (g_pipes s ! i) \<and>
     (let p = g_pipes s' ! i; q = g_pcbs s' ! c in
      pp_used p \<and> pp_buffer p \<noteq> 0 \<and> pp_read_refs p = 1 \<and> pp_write_refs p = 1 \<and> pipe_contents p = [] \<and>
      pcb_fd_get_handle q rfd = PIPE_HANDLE_BASE + int i * 2 \<and> pcb_fd_get_handle q wfd = PIPE_HANDLE_BASE + int i * 2 + 1 \<and>
      pcb_fd_get_handle (pcb_fd_free rfd q) wfd = PIPE_HANDLE_BASE + int i * 2 + 1 \<and>
      p_fd_table (pcb_fd_free wfd (pcb_fd_free rfd q)) = p_fd_table (g_pcbs s ! c) \<and>
      unat (pp_buffer p) \<notin> fst ` heap_live s \<and> {r \<in> heap_live s'. fst r \<noteq> unat (pp_buffer p)} = heap_live s)"

lemma pipe_create_spec:
  assumes inv: "pipe_inv s" and g: "length garbage = 4096" and res: "pipe_create now caller garbage s = Some (0, Some (rfd, wfd), s')"
  shows "pipe_inv s' \<and> (\<exists>c i. pcb_get_current s = Some c \<and> pipe_made c i rfd wfd s s')"
proof -
  have pinv: "proc_inv s" "mem_inv s" "pcb_inv s" using inv by (simp_all add: pipe_inv_def proc_inv_def)
  obtain c where c: "pcb_get_current s = Some c" using res by (auto simp: pipe_create_def split: option.splits)
  obtain i where i: "find_index (\<lambda>p. \<not> pp_used p) (g_pipes s) = Some i" using res c by (auto simp: pipe_create_def split: option.splits)
  have cl: "c < PCB_MAX" using find_by_pid_SomeD(1) [of "g_current_pid s" s c] c pinv(3)
    by (auto simp: pcb_get_current_def pcb_inv_def split: if_splits)
  have il: "i < PIPE_MAX_PIPES" "\<not> pp_used (g_pipes s ! i)" "i < length (g_pipes s)"
    using find_index_SomeD [OF i] inv by (auto simp: pipe_inv_def)
  obtain buf t where k: "kmalloc now caller (ucast PIPE_BUF_SIZE) s = Some (buf, t)" "mem_inv t"
    "buf \<noteq> 0 \<longrightarrow> (\<exists>len. heap_live t = insert (unat buf, len) (heap_live s) \<and> (\<forall>(q, m) \<in> heap_live s. q \<noteq> unat buf))"
    using kmalloc_spec [OF pinv(2), of now caller "ucast PIPE_BUF_SIZE"] by fast
  have "leak_inv s" using pinv(2) by (simp add: mem_inv_def)
  note M = mem_only_kvm [OF kmalloc_only [OF this k(1)]]
  note K = kpcb_more [OF M(4)] kpipe_more [OF M(4)]
  have pt: "proc_inv t" using pinv k(2) M(1) pcb_inv_more [OF M(4)] by (simp add: proc_inv_def)
  have b: "buf \<noteq> 0" using res c i k(1) by auto (simp add: pipe_create_def)
  obtain r p1 where f1: "pcb_fd_alloc (g_pcbs s ! c) = (r, p1)" by (cases "pcb_fd_alloc (g_pcbs s ! c)")
  obtain w p2 where f2: "pcb_fd_alloc p1 = (w, p2)" by (cases "pcb_fd_alloc p1")
  have rw: "\<not> (r < 0 \<or> w < 0)"
  proof
    assume "r < 0 \<or> w < 0"
    then show False using res c i k(1) b f1 f2 K by (auto simp: pipe_create_def Let_def split: Option.bind_splits)
  qed
  define q where "q = pcb_fd_set w (PIPE_HANDLE_BASE + int i * 2 + 1) (pcb_fd_set r (PIPE_HANDLE_BASE + int i * 2) p2)"
  define np where "np = (g_pipes s ! i)\<lparr>pp_buffer := buf, pp_used := True, pp_data := garbage, pp_head := 0, pp_tail := 0, pp_count := 0,
      pp_read_refs := 1, pp_write_refs := 1\<rparr>"
  have s': "rfd = r" "wfd = w" "s' = pcb_upd c (\<lambda>_. q) (pipe_upd i (\<lambda>_. np) t)"
    using res c i k(1) b f1 f2 rw K il(3) by (auto simp: pipe_create_def Let_def q_def np_def pipe_upd_def)
  have lf: "length (p_fd_table (g_pcbs s ! c)) = PCB_FD_MAX" using pinv(3) cl by (simp add: pcb_inv_def pcb_entry_ok_def)
  note T = two_fds [OF f1 f2 _ _ lf q_def]
  have qk: "p_used q = p_used (g_pcbs s ! c)" "p_slot q = p_slot (g_pcbs s ! c)" "p_pid q = p_pid (g_pcbs s ! c)"
    "length (p_fd_table q) = length (p_fd_table (g_pcbs s ! c))" "length (p_fd_cloexec q) = length (p_fd_cloexec (g_pcbs s ! c))"
    using fd_alloc_keeps [OF f1] fd_alloc_keeps [OF f2] by (simp_all add: q_def)
  obtain f where f: "pcb_quiet f" "s' = pcb_upd c f (pipe_upd i (\<lambda>_. np) t)"
    using quiet_const [of q "pipe_upd i (\<lambda>_. np) t" c] qk s'(3) K by (metis pipe_upd_sel(1))
  have okn: "pipe_ok np" using g by (simp add: np_def pipe_ok_def ring_ok_def)
  have "pipe_inv t" using inv pt K by (simp add: pipe_inv_def)
  then have "pipe_inv (pipe_upd i (\<lambda>_. np) t)" using okn by (intro pipe_inv_upd)
  then have pi: "pipe_inv s'" using f by (simp add: pipe_inv_def proc_inv_upd)
  have cur: "pcb_get_current s' = Some c" using c K by (simp add: f(2) get_current_quiet [OF f(1)]) (auto simp: pcb_get_current_def pcb_find_by_pid_def split: if_splits)
  have pp: "g_pipes s' ! i = np" using il(3) K by (simp add: s'(3) nth_pipe_upd)
  have "length (g_pcbs s) = PCB_MAX" using pinv(3) by (simp add: pcb_inv_def)
  then have qq: "g_pcbs s' ! c = q" using cl K by (simp add: s'(3) nth_pcb_upd)
  have hl: "heap_live s' = heap_live t" by (simp add: s'(3))
  obtain len where len: "heap_live t = insert (unat buf, len) (heap_live s)" "\<forall>(q, m) \<in> heap_live s. q \<noteq> unat buf" using k(3) b by blast
  have h: "{r \<in> heap_live s'. fst r \<noteq> unat buf} = heap_live s" "unat buf \<notin> fst ` heap_live s" unfolding hl len(1) using len(2) by auto
  have "pp_buffer np = buf" "pp_used np" "pp_read_refs np = 1" "pp_write_refs np = 1" "pipe_contents np = []" by (simp_all add: np_def pipe_contents_def)
  then have "pipe_made c i rfd wfd s s'"
    unfolding pipe_made_def Let_def pp qq s'(1,2) using cur cl il T rw b h by simp
  then show ?thesis using pi c by blast
qed

text \<open>Closing one end, and closing the last one.\<close>

lemma pipe_close_keep:
  assumes c: "pcb_get_current s = Some c" "pipe_decode_handle (pcb_fd_get_handle (g_pcbs s ! c) fd) = Some (i, 0)"
    and p: "pp_used (g_pipes s ! i)" "pp_read_refs (g_pipes s ! i) = 1" "pp_write_refs (g_pipes s ! i) \<noteq> 0" "i < length (g_pipes s)"
  shows "pipe_close_fd fd s = Some (pcb_upd c (pcb_fd_free fd) (pipe_upd i (\<lambda>p. p\<lparr>pp_read_refs := 0\<rparr>) s))"
proof -
  have e: "pipe_upd i (\<lambda>p. if pp_read_refs p > 0 then p\<lparr>pp_read_refs := pp_read_refs p - 1\<rparr> else p) s = pipe_upd i (\<lambda>p. p\<lparr>pp_read_refs := 0\<rparr>) s"
    using p(2) by (simp add: pipe_upd_def)
  show ?thesis using c p e by (simp add: pipe_close_fd_def pipe_free_if_idle_def Let_def nth_pipe_upd)
qed

lemma pipe_close_last:
  assumes inv: "proc_inv s" and c: "pcb_get_current s = Some c" "pipe_decode_handle (pcb_fd_get_handle (g_pcbs s ! c) fd) = Some (i, 1)"
    and p: "pp_used (g_pipes s ! i)" "pp_read_refs (g_pipes s ! i) = 0" "pp_write_refs (g_pipes s ! i) = 1" "pp_buffer (g_pipes s ! i) \<noteq> 0"
      "i < length (g_pipes s)"
  obtains t s' where "kfree (pp_buffer (g_pipes s ! i)) (pcb_upd c (pcb_fd_free fd) (pipe_upd i (\<lambda>p. p\<lparr>pp_write_refs := 0\<rparr>) s)) = Some t"
    "mem_only (pcb_upd c (pcb_fd_free fd) (pipe_upd i (\<lambda>p. p\<lparr>pp_write_refs := 0\<rparr>) s)) t" "mem_inv t"
    "heap_live t = {r \<in> heap_live s. fst r \<noteq> unat (pp_buffer (g_pipes s ! i))}"
    "pipe_close_fd fd s = Some s'"
    "s' = pipe_upd i (\<lambda>p. p\<lparr>pp_used := False, pp_head := 0, pp_tail := 0, pp_count := 0\<rparr>) (pipe_upd i (\<lambda>p. p\<lparr>pp_buffer := 0\<rparr>) t)"
proof -
  let ?u = "pcb_upd c (pcb_fd_free fd) (pipe_upd i (\<lambda>p. p\<lparr>pp_write_refs := 0\<rparr>) s)"
  have mi: "mem_inv ?u" using inv by (simp add: proc_inv_def)
  obtain t where t: "kfree (pp_buffer (g_pipes s ! i)) ?u = Some t" "mem_inv t" "mem_only ?u t"
    "heap_live t = {r \<in> heap_live ?u. fst r \<noteq> unat (pp_buffer (g_pipes s ! i))}" using kfree_any [OF mi] by blast
  have e: "pipe_upd i (\<lambda>p. if pp_write_refs p > 0 then p\<lparr>pp_write_refs := pp_write_refs p - 1\<rparr> else p) s = pipe_upd i (\<lambda>p. p\<lparr>pp_write_refs := 0\<rparr>) s"
    using p(3) by (simp add: pipe_upd_def)
  have "pipe_close_fd fd s = Some (pipe_upd i (\<lambda>p. p\<lparr>pp_used := False, pp_head := 0, pp_tail := 0, pp_count := 0\<rparr>) (pipe_upd i (\<lambda>p. p\<lparr>pp_buffer := 0\<rparr>) t))"
    using c p e t(1) by (simp add: pipe_close_fd_def pipe_free_if_idle_def Let_def nth_pipe_upd)
  moreover have "heap_live t = {r \<in> heap_live s. fst r \<noteq> unat (pp_buffer (g_pipes s ! i))}" using t(4) by simp
  ultimately show ?thesis using that t by blast
qed

section \<open>Properties\<close>

text \<open>C5: a pipe is a byte stream: for every sequence of writes and reads on an empty pipe, the bytes delivered
  followed by the bytes still buffered are exactly the bytes accepted, in order, and at most 4096 are buffered.  This
  holds for the block copies of the code, which split a transfer where it crosses the end of the ring.\<close>

theorem pipe_stream_fifo:
  assumes "pipe_ok p" "pipe_contents p = []" "chan_run pipe_put pipe_get pipe_items ops p = (accepted, delivered, p')"
  shows "accepted = delivered @ pipe_contents p' \<and> length accepted \<le> length delivered + 4096"
  using stream.run_from_empty [OF assms] by blast

definition pipe_fresh :: pipe_entry_t where
  "pipe_fresh = \<lparr>pp_used = True, pp_buffer = 0x5000018, pp_data = replicate 4096 0, pp_head = 0, pp_tail = 0, pp_count = 0,
     pp_read_refs = 1, pp_write_refs = 1\<rparr>"

lemma pipe_fresh_ok: "pipe_ok pipe_fresh" "pipe_contents pipe_fresh = []"
  by (simp_all add: pipe_fresh_def pipe_ok_def ring_ok_def pipe_contents_def)

theorem pipe_stream_fifo_witness:
  "\<exists>a d p'. chan_run pipe_put pipe_get pipe_items [Put [1, 2, 3], Get 2, Put [4], Get 9] pipe_fresh = (a, d, p') \<and>
     a = d @ pipe_contents p' \<and> length a \<le> length d + 4096"
proof -
  let ?ops = "[Put [1, 2, 3], Get 2, Put [4], Get 9]"
  obtain a d p' where r: "chan_run pipe_put pipe_get pipe_items ?ops pipe_fresh = (a, d, p')"
    by (cases "chan_run pipe_put pipe_get pipe_items ?ops pipe_fresh")
  from pipe_stream_fifo [OF pipe_fresh_ok r] r show ?thesis by blast
qed

text \<open>C6: writing to and reading from a pipe through descriptors: the write accepts as many bytes as there is room
  for and reports that number; a read of any size afterwards delivers the oldest buffered bytes first, then the
  bytes just written, and both calls return.\<close>

theorem pipe_write_read:
  assumes "pipe_inv s" "pipe_end s wfd i 1" "pipe_end s rfd i 0" "pp_read_refs (g_pipes s ! i) \<noteq> 0"
    and "wcount \<noteq> 0" "length buf = unat wcount" "rcount \<noteq> 0" and old: "old = pipe_contents (g_pipes s ! i)"
  shows "\<exists>m s1 k s2. pipe_write wfd buf wcount s = Some (int m, s1) \<and> m = min (unat wcount) (4096 - length old) \<and>
    pipe_read rfd rcount s1 = Some (int k, take (unat rcount) (old @ take m buf), s2) \<and> k = min (unat rcount) (length old + m) \<and>
    pipe_contents (g_pipes s2 ! i) = drop (unat rcount) (old @ take m buf) \<and> pipe_inv s2 \<and> g_pcbs s2 = g_pcbs s \<and> heap_live s2 = heap_live s"
proof -
  from pipe_write_spec [OF assms(1,2,5,6,4)] obtain m s1 p' where
    w: "pipe_write wfd buf wcount s = Some (int m, s1)" "m = min (unat wcount) (4096 - length old)" "pipe_inv s1"
    "pipe_contents (g_pipes s1 ! i) = old @ take m buf" "s1 = pipe_upd i (\<lambda>_. p') s" "pp_used p'" unfolding old by blast
  have il: "i < length (g_pipes s)" using assms(1,2) decode_slot by (auto simp: pipe_end_def pipe_inv_def)
  have e: "pipe_end s1 rfd i 0" using assms(3) w(6) il by (auto simp: pipe_end_def w(5) nth_pipe_upd)
  from pipe_read_spec [OF w(3) e assms(7)] obtain s2 q where
    r: "pipe_read rfd rcount s1 = Some (int (min (unat rcount) (length (old @ take m buf))), take (unat rcount) (old @ take m buf), s2)"
    "pipe_inv s2" "pipe_contents (g_pipes s2 ! i) = drop (unat rcount) (old @ take m buf)" "s2 = pipe_upd i (\<lambda>_. q) s1"
    unfolding w(4) by blast
  have "length (old @ take m buf) = length old + m" using w(2) assms(6) by simp
  then show ?thesis using w(1,2) r w(5) by (metis pipe_upd_inv(3) pipe_upd_sel(1))
qed

text \<open>Closing both ends of a new pipe gives everything back: its buffer returns to the heap, the table of
  descriptors is as before, and the pipe slot is free again.\<close>

theorem pipe_create_close:
  assumes "pipe_inv s" "length garbage = 4096" "pipe_create now caller garbage s = Some (0, Some (rfd, wfd), s1)"
  shows "\<exists>c i s2 s3. pcb_get_current s = Some c \<and> pipe_close_fd rfd s1 = Some s2 \<and> pipe_close_fd wfd s2 = Some s3 \<and>
    heap_live s3 = heap_live s \<and> p_fd_table (g_pcbs s3 ! c) = p_fd_table (g_pcbs s ! c) \<and> \<not> pp_used (g_pipes s3 ! i) \<and> pipe_inv s3"
proof -
  from pipe_create_spec [OF assms] obtain c i where c: "pcb_get_current s = Some c" and i1: "pipe_inv s1" and m: "pipe_made c i rfd wfd s s1" by blast
  have il: "i < length (g_pipes s1)" "i < PIPE_MAX_PIPES" "c < PCB_MAX" using m i1 by (simp_all add: pipe_made_def pipe_inv_def)
  have lp: "length (g_pcbs s1) = PCB_MAX" using i1 by (simp add: pipe_inv_def proc_inv_def pcb_inv_def)
  note D = decode_encoded [OF il(2)]
  let ?s2 = "pcb_upd c (pcb_fd_free rfd) (pipe_upd i (\<lambda>p. p\<lparr>pp_read_refs := 0\<rparr>) s1)"
  have 1: "pipe_close_fd rfd s1 = Some ?s2"
    by (rule pipe_close_keep) (use m D il in \<open>auto simp: pipe_made_def Let_def\<close>)
  have ok1: "pipe_ok (g_pipes s1 ! i)" using i1 il(1) m by (simp add: pipe_inv_def pipe_made_def Let_def)
  have i2: "pipe_inv ?s2"
  proof -
    have "pipe_inv (pipe_upd i (\<lambda>p. p\<lparr>pp_read_refs := 0\<rparr>) s1)" using i1 ok1 by (intro pipe_inv_upd) (simp_all add: pipe_ok_def)
    then show ?thesis by (rule pipe_inv_pcb [OF _ quiet_ops(17)])
  qed
  have cur: "pcb_get_current ?s2 = Some c" using m by (simp add: get_current_quiet quiet_ops pipe_made_def)
  have g2: "g_pcbs ?s2 ! c = pcb_fd_free rfd (g_pcbs s1 ! c)" using il(3) lp by (simp add: nth_pcb_upd)
  have p2: "g_pipes ?s2 ! i = (g_pipes s1 ! i)\<lparr>pp_read_refs := 0\<rparr>" using il(1) by (simp add: nth_pipe_upd)
  have pr2: "proc_inv ?s2" using i2 by (simp add: pipe_inv_def)
  let ?u = "pcb_upd c (pcb_fd_free wfd) (pipe_upd i (\<lambda>p. p\<lparr>pp_write_refs := 0\<rparr>) ?s2)"
  obtain t s3 where t: "mem_only ?u t" "mem_inv t" "heap_live t = {r \<in> heap_live ?s2. fst r \<noteq> unat (pp_buffer (g_pipes ?s2 ! i))}"
    "pipe_close_fd wfd ?s2 = Some s3"
    "s3 = pipe_upd i (\<lambda>p. p\<lparr>pp_used := False, pp_head := 0, pp_tail := 0, pp_count := 0\<rparr>) (pipe_upd i (\<lambda>p. p\<lparr>pp_buffer := 0\<rparr>) t)"
    by (rule pipe_close_last [OF pr2 cur, of wfd i]) (use m D il g2 p2 in \<open>auto simp: pipe_made_def Let_def\<close>)
  note M = mem_only_kvm [OF t(1)]
  note K = kpcb_more [OF M(4)] kpipe_more [OF M(4)]
  have "proc_inv ?u" using pr2 by (simp add: proc_inv_upd quiet_ops)
  then have pt: "proc_inv t" using t(2) M(1) pcb_inv_more [OF M(4)] by (simp add: proc_inv_def)
  have "pipe_inv ?u"
    by (intro pipe_inv_pcb pipe_inv_upd i2 quiet_ops) (use p2 ok1 in \<open>simp add: pipe_ok_def\<close>)
  then have "pipe_inv t" using pt unfolding pipe_inv_def K by blast
  then have i3: "pipe_inv s3" unfolding t(5) using ok1 by (intro pipe_inv_upd) (simp_all add: nth_pipe_upd K il(1) pipe_ok_def)
  have "heap_live s3 = heap_live s" using t(3) m p2 by (simp add: t(5) pipe_made_def Let_def)
  moreover have "p_fd_table (g_pcbs s3 ! c) = p_fd_table (g_pcbs s ! c)"
    using m il(3) lp g2 K by (simp add: t(5) nth_pcb_upd pipe_made_def Let_def)
  moreover have "\<not> pp_used (g_pipes s3 ! i)" using il(1) K by (simp add: t(5) nth_pipe_upd)
  ultimately show ?thesis using 1 t(4) c i3 by blast
qed

definition pipe_boot :: kpipe where
  "pipe_boot = pipe_init (ksignal.extend (signal_boot PCB_STATE_RUNNING) (kpipe.fields []))"

lemma pipe_boot_sel:
  "g_pcbs pipe_boot = g_pcbs (pcb_family PCB_STATE_RUNNING)" "g_current_pid pipe_boot = 2" "g_pcb_pool pipe_boot = g_pcb_pool (pcb_family PCB_STATE_RUNNING)"
  "g_next_pid pipe_boot = g_next_pid (pcb_family PCB_STATE_RUNNING)" "mem_view pipe_boot = mem_view mem_boot"
  by (simp_all add: pipe_boot_def pipe_init_def signal_boot_def signal_init_def pcb_family_def ksignal.defs kpcb.defs mem_view_def
      pcb_boot_def pcb_init_def pool_init_def pcb_cold_def vm_boot_def vm_init_def kvm.defs kmem.defs)

lemma pipe_boot_inv: "pipe_inv pipe_boot"
proof -
  let ?f = "pcb_family PCB_STATE_RUNNING"
  have F: "vm_inv ?f" "mem_inv ?f" "pcb_inv ?f" using pcb_family_inv [of PCB_STATE_RUNNING] by (simp_all add: proc_inv_def)
  have "mem_inv pipe_boot" using mem_boot_inv(1) pipe_boot_sel(5)
    by (simp add: mem_view_def mem_inv_def heap_inv_def leak_inv_def leak_live_def heap_live_def)
  moreover have "vm_inv pipe_boot" using F(1)
    by (simp add: pipe_boot_def pipe_init_def signal_boot_def signal_init_def ksignal.defs kpcb.defs vm_inv_def frame_inv_def frame_map_ok_def frames_used_def)
  moreover have "pcb_inv pipe_boot" using F(3) by (simp add: pcb_inv_def pipe_boot_sel)
  ultimately show ?thesis by (simp add: pipe_inv_def proc_inv_def pipe_boot_def pipe_init_def)
qed

lemma pipe_boot_create: "\<exists>s1. pipe_create 1 2 (replicate 4096 0) pipe_boot = Some (0, Some (3, 4), s1)"
proof -
  have cur: "pcb_get_current pipe_boot = Some 1"
    by (simp add: pcb_get_current_def pcb_find_by_pid_def pipe_boot_sel) (simp add: pcb_family_def)
  have i: "find_index (\<lambda>p. \<not> pp_used p) (g_pipes pipe_boot) = Some 0"
    by (simp add: pipe_boot_def pipe_init_def PIPE_MAX_PIPES_def numeral_eq_Suc)
  have mi: "mem_inv pipe_boot" using pipe_boot_inv by (simp add: pipe_inv_def proc_inv_def)
  obtain buf t where k: "kmalloc 1 2 (ucast PIPE_BUF_SIZE) pipe_boot = Some (buf, t)"
    and z: "buf = 0 \<longrightarrow> (\<forall>b \<in> set (memory_head pipe_boot). mb_free b \<longrightarrow> unat (mb_size b) < (max 1 (unat (ucast PIPE_BUF_SIZE :: u64)) + 15) div 16 * 16)"
    using kmalloc_spec [OF mi, of 1 2 "ucast PIPE_BUF_SIZE"] by blast
  have "memory_head pipe_boot = memory_head mem_boot" using pipe_boot_sel(5) by (simp add: mem_view_def)
  then have b: "buf \<noteq> 0"
    using z by (auto simp: PIPE_BUF_SIZE_def mem_boot_def memory_init_def KERNEL_BIOS_HEAP_BASE_def KERNEL_HEAP_SIZE_def BLOCK_HEADER_def)
  have "leak_inv pipe_boot" using mi by (simp add: mem_inv_def)
  note K = kpcb_more [OF mem_only_kvm(4) [OF kmalloc_only [OF this k]]]
  have p: "p_fd_table (g_pcbs t ! 1) = p_fd_table (pcb_fd_init pcb_zero)" by (simp add: K pipe_boot_sel) (simp add: pcb_family_def)
  have f1: "pcb_fd_alloc (g_pcbs t ! 1) = (3, (g_pcbs t ! 1)\<lparr>p_fd_table := (p_fd_table (g_pcbs t ! 1))[3 := -2]\<rparr>)"
    unfolding pcb_fd_alloc_def p by (simp add: pcb_fd_init_def PCB_FD_MAX_def numeral_eq_Suc)
  have f2: "\<exists>q. pcb_fd_alloc ((g_pcbs t ! 1)\<lparr>p_fd_table := (p_fd_table (g_pcbs t ! 1))[3 := -2]\<rparr>) = (4, q)"
    unfolding pcb_fd_alloc_def p by (simp add: pcb_fd_init_def PCB_FD_MAX_def numeral_eq_Suc)
  then show ?thesis using cur i k b f1 by (auto simp: pipe_create_def Let_def)
qed

theorem pipe_create_close_witness:
  "\<exists>rfd wfd s1 s2 s3. pipe_create 1 2 (replicate 4096 0) pipe_boot = Some (0, Some (rfd, wfd), s1) \<and> pipe_close_fd rfd s1 = Some s2 \<and>
     pipe_close_fd wfd s2 = Some s3 \<and> heap_live s3 = heap_live pipe_boot"
proof -
  obtain s1 where s1: "pipe_create 1 2 (replicate 4096 0) pipe_boot = Some (0, Some (3, 4), s1)" using pipe_boot_create by blast
  have "length (replicate 4096 0 :: u8 list) = 4096" by simp
  from pipe_create_close [OF pipe_boot_inv this s1] s1 show ?thesis by blast
qed

theorem pipe_write_read_witness:
  "\<exists>s0 s1 s2. pipe_create 1 2 (replicate 4096 0) pipe_boot = Some (0, Some (3, 4), s0) \<and>
     pipe_write 4 [7, 8, 9] 3 s0 = Some (3, s1) \<and> pipe_read 3 2 s1 = Some (2, [7, 8], s2)"
proof -
  obtain s0 where s0: "pipe_create 1 2 (replicate 4096 0) pipe_boot = Some (0, Some (3, 4), s0)" using pipe_boot_create by blast
  have "length (replicate 4096 0 :: u8 list) = 4096" by simp
  from pipe_create_spec [OF pipe_boot_inv this s0] obtain c i where i: "pipe_inv s0" "pipe_made c i 3 4 pipe_boot s0" by blast
  have il: "i < PIPE_MAX_PIPES" using i(2) by (simp add: pipe_made_def)
  have e: "pipe_end s0 4 i 1" "pipe_end s0 3 i 0" "pp_read_refs (g_pipes s0 ! i) \<noteq> 0" "pipe_contents (g_pipes s0 ! i) = []"
    using i(2) decode_encoded [OF il] by (auto simp: pipe_end_def pipe_made_def Let_def)
  have "length [7, 8, 9 :: u8] = unat (3 :: u32)" by simp
  from pipe_write_read [OF i(1) e(1-3) _ this _ e(4) [symmetric], of 2] s0 show ?thesis by auto
qed

end
