(* ===== verification/Shm.thy ===== *)
theory Shm
  imports Pipe
begin

text \<open>
  Shared memory segments (\<^verbatim>\<open>kernel/ipc/shm.c\<close>): sixteen segments of at most 2 MiB, each a contiguous run
  of physical frames that is to be mapped at a fixed address of every attaching process.
\<close>

section \<open>State\<close>

definition SHM_MAX_SEGS :: nat where "SHM_MAX_SEGS = 16"
definition SHM_MAX_SIZE :: u32 where "SHM_MAX_SIZE = 2 * 1024 * 1024"
definition SHM_PAGE_SIZE :: u32 where "SHM_PAGE_SIZE = 4096"
definition SHM_VBASE :: u64 where "SHM_VBASE = 0x08000000"
definition SHM_MAP_FLAGS :: u64 where "SHM_MAP_FLAGS = 0x1 OR 0x2 OR 0x4 OR 0x200"

record shm_entry_t =
  sh_used :: bool
  sh_doomed :: bool
  sh_key :: u32
  sh_size :: u32
  sh_pages :: u32
  sh_phys_base :: u64
  sh_attach_count :: u32

record kshm = kpipe +
  g_shm :: "shm_entry_t list"

definition shm_upd :: "nat \<Rightarrow> (shm_entry_t \<Rightarrow> shm_entry_t) \<Rightarrow> 'z kshm_scheme \<Rightarrow> 'z kshm_scheme" where
  "shm_upd i f s = s\<lparr>g_shm := (g_shm s)[i := f (g_shm s ! i)]\<rparr>"

section \<open>Operations\<close>

definition shm_init :: "'z kshm_scheme \<Rightarrow> 'z kshm_scheme" where
  "shm_init s = s\<lparr>g_shm := replicate SHM_MAX_SEGS \<lparr>sh_used = False, sh_doomed = False, sh_key = 0, sh_size = 0, sh_pages = 0,
     sh_phys_base = 0, sh_attach_count = 0\<rparr>\<rparr>"

definition shm_find_by_key :: "u32 \<Rightarrow> 'z kshm_scheme \<Rightarrow> nat option" where
  "shm_find_by_key key s = find_index (\<lambda>e. sh_used e \<and> sh_key e = key \<and> \<not> sh_doomed e) (g_shm s)"

definition shm_by_id :: "int \<Rightarrow> 'z kshm_scheme \<Rightarrow> nat option" where
  "shm_by_id shmid s =
     (let slot = shmid - 1 in
      if slot < 0 \<or> slot \<ge> int SHM_MAX_SEGS then None
      else if \<not> sh_used (g_shm s ! nat slot) then None else Some (nat slot))"

definition shm_create :: "u32 \<Rightarrow> u32 \<Rightarrow> 'z kshm_scheme \<Rightarrow> (int \<times> 'z kshm_scheme) option" where
  "shm_create key sz s =
     (case shm_find_by_key key s of
        Some i \<Rightarrow> Some (int (i + 1), s)
      | None \<Rightarrow>
          if sz = 0 \<or> sz > SHM_MAX_SIZE then Some (-1, s)
          else let pages = (sz + SHM_PAGE_SIZE - 1) div SHM_PAGE_SIZE in
            case find_index (\<lambda>e. \<not> sh_used e) (g_shm s) of
              None \<Rightarrow> Some (-1, s)
            | Some i \<Rightarrow> do {
                (phys, s) \<leftarrow> frame_alloc_aligned pages 1 s;
                let s = shm_upd i (\<lambda>e. e\<lparr>sh_phys_base := phys\<rparr>) s;
                if phys = 0 then Some (-1, s)
                else do {
                  let s = mem_zero phys (ucast (pages * SHM_PAGE_SIZE)) s;
                  Some (int (i + 1), shm_upd i (\<lambda>e. e\<lparr>sh_used := True, sh_doomed := False, sh_key := key,
                    sh_size := pages * SHM_PAGE_SIZE, sh_pages := pages, sh_attach_count := 0\<rparr>) s)
                }
              })"

fun shm_map_loop :: "u64 \<Rightarrow> u64 \<Rightarrow> nat \<Rightarrow> nat \<Rightarrow> vm_address_space_t \<Rightarrow> 'z kshm_scheme \<Rightarrow>
    (bool \<times> vm_address_space_t \<times> 'z kshm_scheme) option" where
  "shm_map_loop vbase phys j 0 as s = Some (True, as, s)"
| "shm_map_loop vbase phys j (Suc n) as s = do {
     (ok, as, s) \<leftarrow> vm_map_page as (vbase + of_nat j * ucast SHM_PAGE_SIZE) (phys + of_nat j * ucast SHM_PAGE_SIZE) SHM_MAP_FLAGS s;
     if \<not> ok then Some (False, as, s) else shm_map_loop vbase phys (Suc j) n as s
   }"

definition shm_attach :: "int \<Rightarrow> 'z kshm_scheme \<Rightarrow> (u64 \<times> 'z kshm_scheme) option" where
  "shm_attach shmid s =
     (case (shm_by_id shmid s, pcb_get_current s) of
        (Some i, Some c) \<Rightarrow>
          if \<not> as_active (p_addr_space (g_pcbs s ! c)) then Some (0, s)
          else do {
            let vbase = SHM_VBASE + word_of_int (shmid - 1) * ucast SHM_MAX_SIZE;
            let seg = g_shm s ! i;
            (ok, as, s) \<leftarrow> shm_map_loop vbase (sh_phys_base seg) 0 (unat (sh_pages seg)) (p_addr_space (g_pcbs s ! c)) s;
            let s = pcb_upd c (\<lambda>p. p\<lparr>p_addr_space := as\<rparr>) s;
            Some (if \<not> ok then (0, s) else (vbase, shm_upd i (\<lambda>e. e\<lparr>sh_attach_count := sh_attach_count e + 1\<rparr>) s))
          }
      | _ \<Rightarrow> Some (0, s))"

text \<open>Give the frames of a doomed segment without attachments back.\<close>

definition shm_release :: "nat \<Rightarrow> 'z kshm_scheme \<Rightarrow> 'z kshm_scheme" where
  "shm_release i s = shm_upd i (\<lambda>e. e\<lparr>sh_phys_base := 0, sh_used := False\<rparr>)
     (snd (frame_free (sh_phys_base (g_shm s ! i)) (sh_pages (g_shm s ! i)) s))"

definition shm_detach :: "u64 \<Rightarrow> 'z kshm_scheme \<Rightarrow> int \<times> 'z kshm_scheme" where
  "shm_detach vaddr s =
     (if vaddr < SHM_VBASE then (-1, s)
      else let slot = ucast ((vaddr - SHM_VBASE) div ucast SHM_MAX_SIZE) :: u32 in
        if slot \<ge> of_nat SHM_MAX_SEGS then (-1, s)
        else if \<not> sh_used (g_shm s ! unat slot) then (-1, s)
        else let s = shm_upd (unat slot) (\<lambda>e. if sh_attach_count e > 0 then e\<lparr>sh_attach_count := sh_attach_count e - 1\<rparr> else e) s in
          if sh_doomed (g_shm s ! unat slot) \<and> sh_attach_count (g_shm s ! unat slot) = 0 then (0, shm_release (unat slot) s) else (0, s))"

definition shm_destroy :: "int \<Rightarrow> 'z kshm_scheme \<Rightarrow> int \<times> 'z kshm_scheme" where
  "shm_destroy shmid s =
     (case shm_by_id shmid s of
        None \<Rightarrow> (-1, s)
      | Some i \<Rightarrow> let s = shm_upd i (\<lambda>e. e\<lparr>sh_doomed := True\<rparr>) s in
          if sh_attach_count (g_shm s ! i) = 0 then (0, shm_release i s) else (0, s))"

section \<open>Invariant\<close>

definition seg_frames :: "shm_entry_t \<Rightarrow> nat set" where
  "seg_frames e = (if sh_used e then addr_frames (sh_phys_base e) (unat (sh_pages e)) else {})"

definition seg_ok :: "nat set \<Rightarrow> shm_entry_t \<Rightarrow> bool" where
  "seg_ok used e \<longleftrightarrow> (sh_used e \<longrightarrow> 0 < unat (sh_pages e) \<and> unat (sh_pages e) \<le> 512 \<and>
     (\<exists>k < 16384. sh_phys_base e = frame_addr k) \<and> seg_frames e \<subseteq> used)"

definition shm_inv :: "'z kshm_scheme \<Rightarrow> bool" where
  "shm_inv s \<longleftrightarrow> frame_inv s \<and> length (g_shm s) = SHM_MAX_SEGS \<and> (\<forall>e \<in> set (g_shm s). seg_ok (frames_used s) e) \<and>
     (\<forall>i j. i < SHM_MAX_SEGS \<longrightarrow> j < SHM_MAX_SEGS \<longrightarrow> i \<noteq> j \<longrightarrow> seg_frames (g_shm s ! i) \<inter> seg_frames (g_shm s ! j) = {})"

lemma shm_upd_sel [simp]:
  "length (g_shm (shm_upd i f s)) = length (g_shm s)" "frame_inv (shm_upd i f s) = frame_inv s" "frames_used (shm_upd i f s) = frames_used s"
  by (simp_all add: shm_upd_def frame_inv_def frame_map_ok_def frames_used_def)

lemma nth_shm_upd: "j < length (g_shm s) \<Longrightarrow> g_shm (shm_upd i f s) ! j = (if i = j then f (g_shm s ! j) else g_shm s ! j)"
  by (simp add: shm_upd_def)

lemma kshm_more: "kvm.more s' = kvm.more s \<Longrightarrow> g_shm s' = g_shm s"
  by (cases s; cases s') simp

lemma shm_frame_only: "frame_only s s' \<Longrightarrow> g_shm s' = g_shm s"
  by (auto elim!: frame_onlyE)

lemma seg_ok_mono: "seg_ok U e \<Longrightarrow> U \<subseteq> V \<Longrightarrow> seg_ok V e"
  by (auto simp: seg_ok_def)

lemma shm_inv_grow:
  assumes "shm_inv s" "frame_inv s'" "g_shm s' = g_shm s" "frames_used s \<subseteq> frames_used s'"
  shows "shm_inv s'"
  using assms seg_ok_mono [OF _ assms(4)] by (simp add: shm_inv_def)

lemma shm_inv_entry:
  assumes "shm_inv s" and e: "seg_ok (frames_used s) e" "\<And>j. j < SHM_MAX_SEGS \<Longrightarrow> j \<noteq> i \<Longrightarrow> seg_frames e \<inter> seg_frames (g_shm s ! j) = {}"
    and s': "g_shm s' = (g_shm s)[i := e]" "frame_inv s'" "frames_used s' = frames_used s"
  shows "shm_inv s'"
proof -
  have len: "length (g_shm s) = SHM_MAX_SEGS" using assms(1) by (simp add: shm_inv_def)
  have "seg_ok (frames_used s) x" if "x \<in> set ((g_shm s)[i := e])" for x
    using set_update_cases [OF that] e(1) assms(1) by (auto simp: shm_inv_def)
  moreover have "seg_frames ((g_shm s)[i := e] ! a) \<inter> seg_frames ((g_shm s)[i := e] ! b) = {}"
    if "a < SHM_MAX_SEGS" "b < SHM_MAX_SEGS" "a \<noteq> b" for a b
  proof -
    have "seg_frames (g_shm s ! a) \<inter> seg_frames (g_shm s ! b) = {}" using assms(1) that by (simp add: shm_inv_def)
    then show ?thesis using that len e(2) [of a] e(2) [of b] by (auto simp: nth_update_lt)
  qed
  ultimately show ?thesis using len s' by (simp add: shm_inv_def)
qed

lemma shm_inv_same:
  assumes "shm_inv s" "i < SHM_MAX_SEGS" "seg_frames (f (g_shm s ! i)) = seg_frames (g_shm s ! i)" "seg_ok (frames_used s) (f (g_shm s ! i))"
  shows "shm_inv (shm_upd i f s)"
proof (rule shm_inv_entry [OF assms(1,4)])
  show "seg_frames (f (g_shm s ! i)) \<inter> seg_frames (g_shm s ! j) = {}" if "j < SHM_MAX_SEGS" "j \<noteq> i" for j
    unfolding assms(3) using assms(1,2) that by (simp add: shm_inv_def)
qed (use assms(1) in \<open>simp_all add: shm_upd_def shm_inv_def frame_inv_def frame_map_ok_def frames_used_def\<close>)

lemma shm_release_spec:
  assumes inv: "shm_inv s" and i: "i < SHM_MAX_SEGS" "sh_used (g_shm s ! i)"
  shows "shm_inv (shm_release i s)" "frames_used (shm_release i s) = frames_used s - seg_frames (g_shm s ! i)"
proof -
  let ?e = "g_shm s ! i"
  have len: "length (g_shm s) = SHM_MAX_SEGS" and f: "frame_inv s" using inv by (simp_all add: shm_inv_def)
  have ok: "seg_ok (frames_used s) ?e" using inv i len by (simp add: shm_inv_def)
  obtain r t where fr: "frame_free (sh_phys_base ?e) (sh_pages ?e) s = (r, t)" by (cases "frame_free (sh_phys_base ?e) (sh_pages ?e) s")
  obtain k where k: "k < 16384" "sh_phys_base ?e = frame_addr k" using ok i(2) by (auto simp: seg_ok_def)
  have sub: "{k..<k + unat (sh_pages ?e)} \<subseteq> frames_used s" "sh_pages ?e \<noteq> 0"
    using ok i(2) k by (auto simp: seg_ok_def seg_frames_def addr_frames_addr)
  then have r: r using frames.free_iff [OF f fr] k by blast
  note T = frames.free_keeps [OF f fr] frames.free_owned [OF f fr]
  have used: "frames_used t = frames_used s - seg_frames ?e" using T r i(2) by (simp add: seg_frames_def)
  have g: "g_shm t = g_shm s" using T(1) by (simp add: shm_frame_only)
  have rel: "shm_release i s = shm_upd i (\<lambda>e. e\<lparr>sh_phys_base := 0, sh_used := False\<rparr>) t" by (simp add: shm_release_def fr)
  show "frames_used (shm_release i s) = frames_used s - seg_frames ?e" by (simp add: rel used)
  have z: "seg_frames (e\<lparr>sh_phys_base := b, sh_used := False\<rparr>) = {}" "seg_ok U (e\<lparr>sh_phys_base := b, sh_used := False\<rparr>)" for e b U
    by (simp_all add: seg_frames_def seg_ok_def)
  have "seg_ok (frames_used t) (g_shm s ! j)" if "j < SHM_MAX_SEGS" "j \<noteq> i" for j
  proof -
    have "seg_ok (frames_used s) (g_shm s ! j)" "seg_frames (g_shm s ! j) \<inter> seg_frames ?e = {}"
      using inv that i(1) len by (simp_all add: shm_inv_def)
    then show ?thesis unfolding used seg_ok_def by blast
  qed
  then have "seg_ok (frames_used t) (g_shm (shm_release i s) ! j)" if "j < SHM_MAX_SEGS" for j
    using that len g z(2) by (cases "j = i") (simp_all add: rel nth_shm_upd)
  moreover have "seg_frames (g_shm (shm_release i s) ! a) \<inter> seg_frames (g_shm (shm_release i s) ! b) = {}"
    if "a < SHM_MAX_SEGS" "b < SHM_MAX_SEGS" "a \<noteq> b" for a b
    using that inv len g z(1) by (cases "a = i"; cases "b = i") (simp_all add: rel nth_shm_upd shm_inv_def)
  moreover have "length (g_shm (shm_release i s)) = SHM_MAX_SEGS" "frame_inv (shm_release i s)" "frames_used (shm_release i s) = frames_used t"
    using T(1) len g by (simp_all add: rel)
  ultimately show "shm_inv (shm_release i s)" by (auto simp: shm_inv_def in_set_conv_nth)
qed

section \<open>The operations keep the invariant\<close>

lemma shm_pages_bound:
  assumes "\<not> (sz = 0 \<or> sz > SHM_MAX_SIZE)"
  shows "0 < unat ((sz + SHM_PAGE_SIZE - 1) div SHM_PAGE_SIZE)" "unat ((sz + SHM_PAGE_SIZE - 1) div SHM_PAGE_SIZE) \<le> 512"
    "unat ((sz + SHM_PAGE_SIZE - 1) div SHM_PAGE_SIZE) * 4096 \<ge> unat sz"
proof -
  have b: "unat sz \<le> 2097152" "0 < unat sz" using assms by (auto simp: SHM_MAX_SIZE_def word_nat unat_gt_0)
  have "sz + SHM_PAGE_SIZE - 1 = sz + 4095" by (simp add: SHM_PAGE_SIZE_def)
  moreover have "unat (sz + 4095) = unat sz + 4095" using b by (subst unat_add_u32) simp_all
  ultimately have e: "unat ((sz + SHM_PAGE_SIZE - 1) div SHM_PAGE_SIZE) = (unat sz + 4095) div 4096"
    by (simp only: unat_div) (simp add: SHM_PAGE_SIZE_def)
  show "0 < unat ((sz + SHM_PAGE_SIZE - 1) div SHM_PAGE_SIZE)" "unat ((sz + SHM_PAGE_SIZE - 1) div SHM_PAGE_SIZE) \<le> 512"
    "unat ((sz + SHM_PAGE_SIZE - 1) div SHM_PAGE_SIZE) * 4096 \<ge> unat sz"
    unfolding e using b by linarith+
qed

text \<open>What a successful creation leaves in slot \<open>i\<close>.\<close>

definition shm_made :: "nat \<Rightarrow> u32 \<Rightarrow> u32 \<Rightarrow> 'z kshm_scheme \<Rightarrow> 'z kshm_scheme \<Rightarrow> bool" where
  "shm_made i key sz s s' \<longleftrightarrow> i < SHM_MAX_SEGS \<and> \<not> sh_used (g_shm s ! i) \<and> (\<exists>e. g_shm s' = (g_shm s)[i := e] \<and> sh_used e \<and>
     \<not> sh_doomed e \<and> sh_key e = key \<and> sh_attach_count e = 0 \<and> unat sz \<le> unat (sh_pages e) * 4096 \<and>
     seg_frames e \<inter> frames_used s = {} \<and> frames_used s' = frames_used s \<union> seg_frames e)"

lemma shm_create_spec:
  assumes inv: "shm_inv s"
  shows "\<exists>r s'. shm_create key sz s = Some (r, s') \<and> shm_inv s' \<and>
    (case shm_find_by_key key s of
       Some i \<Rightarrow> r = int (i + 1) \<and> s' = s
     | None \<Rightarrow> r = -1 \<and> frames_used s' = frames_used s \<and> map sh_used (g_shm s') = map sh_used (g_shm s) \<or>
               (\<exists>i. r = int (i + 1) \<and> shm_made i key sz s s'))"
proof (cases "shm_find_by_key key s = None \<and> \<not> (sz = 0 \<or> sz > SHM_MAX_SIZE) \<and> (\<exists>i. find_index (\<lambda>e. \<not> sh_used e) (g_shm s) = Some i)")
  case False
  then show ?thesis using inv by (auto simp: shm_create_def Let_def split: option.splits)
next
  case True
  then obtain i where i: "find_index (\<lambda>e. \<not> sh_used e) (g_shm s) = Some i" by blast
  have key: "shm_find_by_key key s = None" and szb: "\<not> (sz = 0 \<or> sz > SHM_MAX_SIZE)" using True by auto
  have f: "frame_inv s" and len: "length (g_shm s) = SHM_MAX_SEGS" using inv by (simp_all add: shm_inv_def)
  have il: "i < SHM_MAX_SEGS" "\<not> sh_used (g_shm s ! i)" using find_index_SomeD [OF i] len by auto
  define pages where "pages = (sz + SHM_PAGE_SIZE - 1) div SHM_PAGE_SIZE"
  note P = shm_pages_bound [OF szb, folded pages_def]
  have pn: "pages \<noteq> 0" "unat pages \<le> 2147483648" using P by (auto simp: unat_gt_0)
  obtain phys t where a: "frame_alloc_aligned pages 1 s = Some (phys, t)" "frame_inv t" "frame_only s t"
    using frames.alloc_total [OF f pn, of 1] by blast
  have g: "g_shm t = g_shm s" by (rule shm_frame_only [OF a(3)])
  show ?thesis
  proof (cases "phys = 0")
    case True
    then have a0: "frame_alloc_aligned pages 1 s = Some (0, t)" using a(1) by simp
    let ?s' = "shm_upd i (\<lambda>e. e\<lparr>sh_phys_base := 0\<rparr>) t"
    have r: "shm_create key sz s = Some (-1, ?s')"
      using key szb i a0 by (simp add: shm_create_def Let_def flip: pages_def)
    have u: "frames_used t = frames_used s" by (rule frames.alloc_failed(1) [OF f pn a0])
    have it: "shm_inv t" using inv a(2) g u by (intro shm_inv_grow [OF inv]) simp_all
    have "shm_inv ?s'" using il g by (intro shm_inv_same [OF it]) (simp_all add: seg_frames_def seg_ok_def)
    moreover have "map sh_used (g_shm ?s') = map sh_used (g_shm s)"
      using len il g by (intro nth_equalityI) (simp_all add: nth_shm_upd)
    ultimately show ?thesis using r key u by simp
  next
    case False
    obtain k where k: "phys = frame_addr k" "k < 16384" "addr_frames phys (unat pages) \<inter> frames_used s = {}"
      "frames_used t = frames_used s \<union> addr_frames phys (unat pages)"
      using frames.alloc_block [OF f pn a(1) False] by metis
    define e where "e = (g_shm s ! i)\<lparr>sh_phys_base := phys, sh_used := True, sh_doomed := False, sh_key := key,
      sh_size := pages * SHM_PAGE_SIZE, sh_pages := pages, sh_attach_count := 0\<rparr>"
    let ?s' = "shm_upd i (\<lambda>_. e) (mem_zero phys (ucast (pages * SHM_PAGE_SIZE)) t)"
    have gm: "g_shm (mem_zero phys (ucast (pages * SHM_PAGE_SIZE)) t) = g_shm s" using g by (simp add: mem_zero_def)
    have r: "shm_create key sz s = Some (int (i + 1), ?s')"
      using key szb i a(1) False il len g by (simp add: shm_create_def Let_def flip: pages_def) (simp add: shm_upd_def mem_zero_def e_def cong: if_cong)
    have fr: "seg_frames e = addr_frames phys (unat pages)" by (simp add: seg_frames_def e_def)
    have it: "shm_inv (mem_zero phys (ucast (pages * SHM_PAGE_SIZE)) t)"
      using a(2) gm k(4) by (intro shm_inv_grow [OF inv]) simp_all
    have "seg_ok (frames_used t) e" using P k fr by (auto simp: seg_ok_def e_def)
    moreover have "seg_frames e \<inter> seg_frames (g_shm s ! j) = {}" if "j < SHM_MAX_SEGS" for j
    proof -
      have "seg_ok (frames_used s) (g_shm s ! j)" using inv that len by (simp add: shm_inv_def)
      then show ?thesis using k(3) fr by (auto simp: seg_ok_def seg_frames_def)
    qed
    ultimately have "shm_inv ?s'"
      using a(2) by (intro shm_inv_entry [OF it, where i = i and e = e]) (simp_all add: gm g shm_upd_def frame_inv_def frame_map_ok_def frames_used_def mem_zero_def)
    moreover have "shm_made i key sz s ?s'"
      unfolding shm_made_def using il k fr P gm by (auto intro!: exI [of _ e] simp: shm_upd_def e_def frames_used_def mem_zero_def)
    ultimately show ?thesis using r key by auto
  qed
qed

lemma seg_doomed [simp]:
  "seg_frames (e\<lparr>sh_doomed := d\<rparr>) = seg_frames e" "seg_ok U (e\<lparr>sh_doomed := d\<rparr>) = seg_ok U e"
  "seg_frames (e\<lparr>sh_attach_count := n\<rparr>) = seg_frames e" "seg_ok U (e\<lparr>sh_attach_count := n\<rparr>) = seg_ok U e"
  by (simp_all add: seg_frames_def seg_ok_def)

lemma shm_entry_ok: "shm_inv s \<Longrightarrow> i < SHM_MAX_SEGS \<Longrightarrow> seg_ok (frames_used s) (g_shm s ! i)"
  by (simp add: shm_inv_def)

lemma shm_destroy_inv:
  assumes "shm_inv s"
  shows "shm_inv (snd (shm_destroy shmid s))"
proof (cases "shm_by_id shmid s")
  case (Some i)
  then have i: "i < SHM_MAX_SEGS" "sh_used (g_shm s ! i)" by (auto simp: shm_by_id_def Let_def split: if_splits)
  have len: "length (g_shm s) = SHM_MAX_SEGS" using assms by (simp add: shm_inv_def)
  have d: "shm_inv (shm_upd i (\<lambda>e. e\<lparr>sh_doomed := True\<rparr>) s)"
    using i shm_entry_ok [OF assms i(1)] by (intro shm_inv_same [OF assms]) simp_all
  moreover have "shm_inv (shm_release i (shm_upd i (\<lambda>e. e\<lparr>sh_doomed := True\<rparr>) s))"
    using i len by (intro shm_release_spec [OF d]) (simp_all add: nth_shm_upd)
  ultimately show ?thesis using Some by (simp add: shm_destroy_def Let_def)
qed (use assms in \<open>simp add: shm_destroy_def\<close>)

lemma shm_detach_inv:
  assumes "shm_inv s"
  shows "shm_inv (snd (shm_detach v s))"
proof -
  let ?i = "unat (ucast ((v - SHM_VBASE) div ucast SHM_MAX_SIZE) :: u32)"
  let ?f = "\<lambda>e. if sh_attach_count e > 0 then e\<lparr>sh_attach_count := sh_attach_count e - 1\<rparr> else e"
  have len: "length (g_shm s) = SHM_MAX_SEGS" using assms by (simp add: shm_inv_def)
  show ?thesis
  proof (cases "?i < SHM_MAX_SEGS \<and> sh_used (g_shm s ! ?i)")
    case True
    have d: "shm_inv (shm_upd ?i ?f s)"
      using True shm_entry_ok [OF assms, of ?i] by (intro shm_inv_same [OF assms]) simp_all
    moreover have "shm_inv (shm_release ?i (shm_upd ?i ?f s))"
      using True len by (intro shm_release_spec [OF d]) (simp_all add: nth_shm_upd)
    ultimately show ?thesis using assms by (simp add: shm_detach_def Let_def)
  next
    case False
    have "(ucast ((v - SHM_VBASE) div ucast SHM_MAX_SIZE) :: u32) \<ge> of_nat SHM_MAX_SEGS \<longleftrightarrow> \<not> ?i < SHM_MAX_SEGS"
      by (simp add: word_le_nat_alt SHM_MAX_SEGS_def not_less)
    then show ?thesis using False assms by (auto simp: shm_detach_def Let_def)
  qed
qed

lemma shm_map_loop_keeps:
  "frame_inv s \<Longrightarrow> shm_map_loop vb p j n as s = Some (ok, as', s') \<Longrightarrow> chunks_kept s s' \<and> frames_used s \<subseteq> frames_used s'"
proof (induction vb p j n as s rule: shm_map_loop.induct)
  case (2 vb p j n as s)
  obtain r a t where m: "vm_map_page as (vb + of_nat j * ucast SHM_PAGE_SIZE) (p + of_nat j * ucast SHM_PAGE_SIZE) SHM_MAP_FLAGS s = Some (r, a, t)"
    using "2.prems"(2) by (auto split: Option.bind_splits)
  have k: "chunks_kept s t" "frames_used s \<subseteq> frames_used t" using vm_map_page_kept [OF "2.prems"(1) m] vm_map_page_grows [OF "2.prems"(1) m] .
  show ?case
  proof (cases r)
    case True
    have ft: "frame_inv t" using k(1) by (simp add: chunks_kept_def)
    have "chunks_kept t s' \<and> frames_used t \<subseteq> frames_used s'" using "2.IH" [OF m refl refl _ ft] "2.prems"(2) m True by simp
    then show ?thesis using k chunks_kept_trans by blast
  next
    case False
    then show ?thesis using "2.prems"(2) m k by simp
  qed
qed (simp add: chunks_kept_refl)

lemma shm_pcb_upd [simp]: "g_shm (pcb_upd c f s) = g_shm s"
  by (simp add: pcb_upd_def)

lemma frame_inv_pcb_upd [simp]: "frame_inv (pcb_upd c f s) = frame_inv s"
  by (simp add: pcb_upd_def frame_inv_def frame_map_ok_def frames_used_def)

lemma shm_attach_inv:
  assumes inv: "shm_inv s" and res: "shm_attach shmid s = Some (v, s')"
  shows "shm_inv s'"
proof (cases "s' = s")
  case False
  obtain i c where i: "shm_by_id shmid s = Some i" and c: "pcb_get_current s = Some c" "as_active (p_addr_space (g_pcbs s ! c))"
    using False res by (auto simp: shm_attach_def split: option.splits if_splits)
  let ?vb = "SHM_VBASE + word_of_int (shmid - 1) * ucast SHM_MAX_SIZE"
  obtain ok as t where m: "shm_map_loop ?vb (sh_phys_base (g_shm s ! i)) 0 (unat (sh_pages (g_shm s ! i))) (p_addr_space (g_pcbs s ! c)) s = Some (ok, as, t)"
    using False res i c by (auto simp: shm_attach_def Let_def split: Option.bind_splits)
  have f: "frame_inv s" using inv by (simp add: shm_inv_def)
  have k: "chunks_kept s t" "frames_used s \<subseteq> frames_used t" using shm_map_loop_keeps [OF f m] by auto
  let ?u = "pcb_upd c (\<lambda>p. p\<lparr>p_addr_space := as\<rparr>) t"
  have g: "g_shm t = g_shm s" using k(1) by (intro kshm_more) (simp add: chunks_kept_def)
  have iu: "shm_inv ?u" using k g by (intro shm_inv_grow [OF inv]) (simp_all add: chunks_kept_def)
  have il: "i < SHM_MAX_SEGS" using i by (auto simp: shm_by_id_def Let_def split: if_splits)
  have "shm_inv (shm_upd i (\<lambda>e. e\<lparr>sh_attach_count := sh_attach_count e + 1\<rparr>) ?u)"
    using shm_entry_ok [OF iu il] by (intro shm_inv_same [OF iu il]) simp_all
  then show ?thesis using res i c m iu by (auto simp: shm_attach_def Let_def split: if_splits)
qed (use inv in simp)

section \<open>Properties\<close>

text \<open>
  One step of the system as the segments see it: a call into this module, or any other step of the kernel,
  which leaves the segment table alone and frees no frame of a segment.
\<close>

inductive shm_step :: "'z kshm_scheme \<Rightarrow> 'z kshm_scheme \<Rightarrow> bool" where
  create: "shm_create key sz s = Some (r, s') \<Longrightarrow> shm_step s s'"
| attach: "shm_attach shmid s = Some (v, s') \<Longrightarrow> shm_step s s'"
| detach: "shm_step s (snd (shm_detach v s))"
| destroy: "shm_step s (snd (shm_destroy shmid s))"
| other: "frame_inv s' \<Longrightarrow> g_shm s' = g_shm s \<Longrightarrow> (\<forall>e \<in> set (g_shm s). seg_frames e \<subseteq> frames_used s') \<Longrightarrow> shm_step s s'"

lemma shm_step_inv:
  assumes "shm_step s s'" "shm_inv s"
  shows "shm_inv s'"
  using assms
proof (cases rule: shm_step.cases)
  case (create key sz r)
  then show ?thesis using shm_create_spec [OF assms(2), of key sz] by auto
next
  case (attach shmid v)
  then show ?thesis using shm_attach_inv [OF assms(2)] by blast
next
  case (detach v)
  then show ?thesis using shm_detach_inv [OF assms(2)] by simp
next
  case (destroy shmid)
  then show ?thesis using shm_destroy_inv [OF assms(2)] by simp
next
  case other
  then show ?thesis using assms(2) by (auto simp: shm_inv_def seg_ok_def)
qed

lemma shm_init_inv: "frame_inv s \<Longrightarrow> shm_inv (shm_init s)"
  by (simp add: shm_init_def shm_inv_def seg_ok_def seg_frames_def frame_inv_def frame_map_ok_def frames_used_def)


text \<open>Creating a segment and destroying it again restores the frame allocator; the request is rounded up to
  whole pages, an existing key returns the existing segment, and a failed request takes no frame.\<close>

theorem shm_create_destroy:
  assumes "shm_inv s" "shm_find_by_key key s = None"
  shows "\<exists>r s1. shm_create key sz s = Some (r, s1) \<and>
    (r = -1 \<and> frames_used s1 = frames_used s \<or>
     r \<ge> 1 \<and> shm_find_by_key key s1 \<noteq> None \<and> unat sz \<le> card (frames_used s1 - frames_used s) * 4096 \<and>
     (\<exists>s2. shm_destroy r s1 = (0, s2) \<and> frames_used s2 = frames_used s \<and> shm_find_by_key key s2 = None))"
proof -
  from shm_create_spec [OF assms(1), of key sz] assms(2) obtain r s1 where
    c: "shm_create key sz s = Some (r, s1)" "shm_inv s1"
      "r = -1 \<and> frames_used s1 = frames_used s \<or> (\<exists>i. r = int (i + 1) \<and> shm_made i key sz s s1)" by auto
  show ?thesis
  proof (cases "r = -1 \<and> frames_used s1 = frames_used s")
    case False
    then obtain i where r: "r = int (i + 1)" and m: "shm_made i key sz s s1" using c(3) by blast
    then obtain e where e: "i < SHM_MAX_SEGS" "g_shm s1 = (g_shm s)[i := e]" "sh_used e" "\<not> sh_doomed e" "sh_key e = key" "sh_attach_count e = 0"
      "unat sz \<le> unat (sh_pages e) * 4096" "seg_frames e \<inter> frames_used s = {}" "frames_used s1 = frames_used s \<union> seg_frames e"
      by (auto simp: shm_made_def)
    have len: "length (g_shm s) = SHM_MAX_SEGS" using assms(1) by (simp add: shm_inv_def)
    have ei: "g_shm s1 ! i = e" using e(1,2) len by simp
    let ?d = "shm_upd i (\<lambda>e. e\<lparr>sh_doomed := True\<rparr>) s1"
    have dinv: "shm_inv ?d" using shm_entry_ok [OF c(2) e(1)] by (intro shm_inv_same [OF c(2) e(1)]) simp_all
    have di: "g_shm ?d ! i = e\<lparr>sh_doomed := True\<rparr>" using e(1,2) len by (simp add: nth_shm_upd)
    have ud: "sh_used (g_shm ?d ! i)" using e(3) by (simp add: di)
    have des: "shm_destroy r s1 = (0, shm_release i ?d)"
      using r e(1,3,6) ei di by (simp add: shm_destroy_def shm_by_id_def Let_def)
    have fs: "frames_used (shm_release i ?d) = frames_used s"
      using shm_release_spec(2) [OF dinv e(1) ud] e(8,9) di by auto
    have "card (frames_used s1 - frames_used s) = unat (sh_pages e)"
    proof -
      have "frames_used s1 - frames_used s = seg_frames e" using e(8,9) by auto
      then show ?thesis using e(3) by (simp add: seg_frames_def addr_frames_def Let_def)
    qed
    moreover have "shm_find_by_key key s1 \<noteq> None"
      using e(1-5) len by (auto simp: shm_find_by_key_def find_index_None_iff intro!: bexI [of _ e] set_update_memI)
    moreover have "shm_find_by_key key (shm_release i ?d) = None"
    proof -
      have "frame_inv ?d" using dinv by (simp add: shm_inv_def)
      then have "g_shm (snd (frame_free b n ?d)) = g_shm ?d" for b n
        using frames.free_keeps [of ?d b n "fst (frame_free b n ?d)" "snd (frame_free b n ?d)"] shm_frame_only by auto
      then have "g_shm (shm_release i ?d) = (g_shm s)[i := e\<lparr>sh_doomed := True, sh_phys_base := 0, sh_used := False\<rparr>]"
        using e(1,2) len by (simp add: shm_release_def shm_upd_def)
      then show ?thesis using assms(2) unfolding shm_find_by_key_def find_index_None_iff by (auto dest!: set_update_cases)
    qed
    ultimately show ?thesis using c(1) r e(7) des fs by auto
  qed (use c(1) in blast)
qed

text \<open>Shared memory can never be attached: while the first page directory of the current process holds 2 MiB
  pages only, as every address space does when it is created, attaching any existing segment returns a null pointer
  and changes nothing, because the segment window at 0x08000000 lies below 1 GiB.\<close>

theorem shm_attach_refused:
  assumes "pcb_get_current s = Some c" "low_large (p_addr_space (g_pcbs s ! c)) s" "shm_inv s" "1 \<le> shmid"
  shows "shm_attach shmid s = Some (0, s)"
proof (cases "shm_by_id shmid s")
  case (Some i)
  then have i: "i < SHM_MAX_SEGS" "sh_used (g_shm s ! i)" "i = nat (shmid - 1)" by (auto simp: shm_by_id_def Let_def split: if_splits)
  obtain n where n: "unat (sh_pages (g_shm s ! i)) = Suc n"
    using shm_entry_ok [OF assms(3) i(1)] i(2) by (auto simp: seg_ok_def gr0_conv_Suc)
  have act: "as_active (p_addr_space (g_pcbs s ! c))" using assms(2) by (simp add: low_large_def)
  let ?v = "SHM_VBASE + word_of_int (shmid - 1) * ucast SHM_MAX_SIZE :: u64"
  have w: "(word_of_int (shmid - 1) :: u64) = of_nat i" using i(3) assms(4) by simp
  have "unat (of_nat i * ucast SHM_MAX_SIZE :: u64) = i * 2097152"
    using i(1) by (simp add: SHM_MAX_SIZE_def SHM_MAX_SEGS_def unat_word_ariths unat_of_nat_u64)
  then have "unat ?v = 134217728 + i * 2097152"
    unfolding w using i(1) by (subst unat_add_u64) (simp_all add: SHM_VBASE_def SHM_MAX_SEGS_def)
  then have "unat ?v < 1073741824" using i(1) by (simp add: SHM_MAX_SEGS_def)
  from low_large_refused [OF assms(2) this]
  have m: "shm_map_loop ?v p 0 (Suc n) (p_addr_space (g_pcbs s ! c)) s = Some (False, p_addr_space (g_pcbs s ! c), s)" for p by simp
  have "pcb_upd c (\<lambda>p. p\<lparr>p_addr_space := p_addr_space (g_pcbs s ! c)\<rparr>) s = s" by (simp add: pcb_upd_def)
  then show ?thesis unfolding shm_attach_def Some assms(1) prod.case option.case Let_def n m using act by simp
qed (simp add: shm_attach_def)

definition shm_boot :: kshm where
  "shm_boot = shm_init (kpipe.extend pipe_boot (kshm.fields []))"

lemma shm_boot_inv: "shm_inv shm_boot" "frame_inv (kpipe.extend pipe_boot (kshm.fields []) :: kshm)"
proof -
  have "frame_inv pipe_boot" using pipe_boot_inv by (simp add: pipe_inv_def proc_inv_def vm_inv_def)
  then show f: "frame_inv (kpipe.extend pipe_boot (kshm.fields []) :: kshm)"
    by (simp add: frame_inv_def frame_map_ok_def frames_used_def kpipe.defs)
  show "shm_inv shm_boot" unfolding shm_boot_def by (rule shm_init_inv [OF f])
qed

lemma shm_boot_key: "shm_find_by_key key shm_boot = None"
  by (simp add: shm_boot_def shm_init_def shm_find_by_key_def find_index_None_iff)


theorem shm_create_destroy_witness:
  "\<exists>r s1. shm_create 7 5000 shm_boot = Some (r, s1) \<and>
    (r = -1 \<and> frames_used s1 = frames_used shm_boot \<or>
     r \<ge> 1 \<and> shm_find_by_key 7 s1 \<noteq> None \<and> 5000 \<le> card (frames_used s1 - frames_used shm_boot) * 4096 \<and>
     (\<exists>s2. shm_destroy r s1 = (0, s2) \<and> frames_used s2 = frames_used shm_boot \<and> shm_find_by_key 7 s2 = None))"
  using shm_create_destroy [OF shm_boot_inv(1) shm_boot_key, of 7 5000] by simp

lemma low_large_cong:
  assumes "phys_mem s' = phys_mem s"
  shows "low_large as s' = low_large as s"
  unfolding low_large_def vm_get_pd0_def pt_read_def assms ..

theorem shm_attach_refused_witness:
  "\<exists>s c. pcb_get_current s = Some c \<and> as_active (p_addr_space (g_pcbs s ! c)) \<and> shm_inv s \<and> shm_attach 1 (s :: kshm) = Some (0, s)"
proof -
  obtain as v where a: "space_created as vm_boot v" using boot_space by metis
  have lv: "low_large as v" by (rule space_created_low_large [OF a vm_boot_inv(5)])
  define s where "s = pcb_upd 1 (\<lambda>p. p\<lparr>p_addr_space := as\<rparr>) (shm_boot\<lparr>phys_mem := phys_mem v\<rparr>)"
  have pm: "phys_mem s = phys_mem v" by (simp add: s_def pcb_upd_def)
  have g: "g_pcbs shm_boot = g_pcbs (pcb_family PCB_STATE_RUNNING)" "g_current_pid shm_boot = 2"
    using pipe_boot_sel by (simp_all add: shm_boot_def shm_init_def kpipe.defs)
  have cur: "pcb_get_current (shm_boot\<lparr>phys_mem := phys_mem v\<rparr>) = Some 1"
    by (simp add: pcb_get_current_def pcb_find_by_pid_def g) (simp add: pcb_family_def)
  then have c: "pcb_get_current s = Some 1" by (simp add: s_def get_current_quiet quiet_ops)
  have "length (g_pcbs shm_boot) = 64" by (simp add: g pcb_family_def)
  then have as: "p_addr_space (g_pcbs s ! 1) = as" by (simp add: s_def nth_pcb_upd)
  have "low_large as s" using lv low_large_cong [OF pm] by blast
  then have l: "low_large (p_addr_space (g_pcbs s ! 1)) s" unfolding as .
  have i: "shm_inv s" using shm_boot_inv(1)
    by (intro shm_inv_grow [OF shm_boot_inv(1)]) (simp_all add: s_def shm_inv_def)
  have "shm_attach 1 s = Some (0, s)" by (rule shm_attach_refused [OF c l i]) simp
  then show ?thesis using c i l by (auto simp: low_large_def)
qed

end
