(* ===== verification/Ipc.thy ===== *)
theory Ipc
  imports Shm
begin

text \<open>
  Message ports (\<^verbatim>\<open>kernel/ipc/ipc.c\<close>): sixteen named ports, each with a ring of eight text messages, drawn
  from a slot pool.  \<^verbatim>\<open>ipc_init\<close> also initialises pipes and shared memory.  The buffer of the caller is
  the text that peeking and receiving store in it; a missing buffer is one of size 0, which takes the same branch.
\<close>

section \<open>State\<close>

definition IPC_PORT_NAME_MAX :: nat where "IPC_PORT_NAME_MAX = 16"
definition IPC_MESSAGE_MAX :: nat where "IPC_MESSAGE_MAX = 128"
definition IPC_MAX_PORTS :: nat where "IPC_MAX_PORTS = 16"
definition IPC_QUEUE_DEPTH :: u32 where "IPC_QUEUE_DEPTH = 8"

record ipc_port_t =
  ip_used :: bool
  ip_port_id :: u32
  ip_name :: string
  ip_pending :: u32
  ip_sent :: u32
  ip_received :: u32

record ipc_port_state_t =
  public_port :: ipc_port_t
  ip_queue :: "string list"
  ip_head :: u32
  ip_tail :: u32
  ip_count :: u32

record ipc_info_t =
  ii_port_count :: u32
  ii_sent_count :: u32
  ii_recv_count :: u32
  ii_dropped_count :: u32
  ii_max_ports :: u32
  ii_queue_depth :: u32
  ii_message_size :: u32

record kipc = kshm +
  g_ports :: "ipc_port_state_t list"
  g_port_pool :: pool_t
  g_ipc_info :: ipc_info_t
  g_ipc_status :: string

definition ipc_port_zero :: ipc_port_state_t where
  "ipc_port_zero = \<lparr>public_port = \<lparr>ip_used = False, ip_port_id = 0, ip_name = [], ip_pending = 0, ip_sent = 0, ip_received = 0\<rparr>,
     ip_queue = replicate (unat IPC_QUEUE_DEPTH) [], ip_head = 0, ip_tail = 0, ip_count = 0\<rparr>"

abbreviation port_used :: "ipc_port_state_t \<Rightarrow> bool" where
  "port_used p \<equiv> ip_used (public_port p)"

section \<open>Operations\<close>

definition ipc_copy_text :: "nat \<Rightarrow> string option \<Rightarrow> string" where
  "ipc_copy_text sz src = copy_text sz src"

definition ipc_find_port :: "int \<Rightarrow> 'z kipc_scheme \<Rightarrow> nat option" where
  "ipc_find_port port_id s = find_index (\<lambda>p. port_used p \<and> sint (ip_port_id (public_port p)) = port_id) (g_ports s)"

definition ipc_port_find :: "string \<Rightarrow> 'z kipc_scheme \<Rightarrow> int" where
  "ipc_port_find name s = (case find_index (\<lambda>p. port_used p \<and> ip_name (public_port p) = name) (g_ports s) of
       None \<Rightarrow> -1 | Some i \<Rightarrow> sint (ip_port_id (public_port (g_ports s ! i))))"

definition ipc_init :: "u32 list \<Rightarrow> 'z kipc_scheme \<Rightarrow> 'z kipc_scheme" where
  "ipc_init storage s =
     (let s = s\<lparr>g_ports := replicate IPC_MAX_PORTS ipc_port_zero,
                g_ipc_info := \<lparr>ii_port_count = 0, ii_sent_count = 0, ii_recv_count = 0, ii_dropped_count = 0,
                   ii_max_ports = of_nat IPC_MAX_PORTS, ii_queue_depth = IPC_QUEUE_DEPTH, ii_message_size = of_nat IPC_MESSAGE_MAX\<rparr>\<rparr> in
      case pool_init (Some ''ipc'') (Some storage) (of_nat IPC_MAX_PORTS) s of (pool, s) \<Rightarrow>
        (shm_init (pipe_init (s\<lparr>g_port_pool := pool\<rparr>)))\<lparr>g_ipc_status := ''ipc: ready''\<rparr>)"

definition ipc_port_create :: "string option \<Rightarrow> 'z kipc_scheme \<Rightarrow> int \<times> 'z kipc_scheme" where
  "ipc_port_create name s =
     (case name of
        None \<Rightarrow> (-1, s\<lparr>g_ipc_status := ''ipc: bad name''\<rparr>)
      | Some nm \<Rightarrow>
          if nm = [] then (-1, s\<lparr>g_ipc_status := ''ipc: bad name''\<rparr>)
          else let existing = ipc_port_find nm s in
            if existing \<ge> 0 then (existing, s)
            else case pool_alloc_slot (g_port_pool s) s of (slot, pool, s) \<Rightarrow>
              let s = s\<lparr>g_port_pool := pool\<rparr> in
              if slot < 0 then (-1, s\<lparr>g_ipc_status := ''ipc: port table full''\<rparr>)
              else let port_id = word_of_int slot + 1;
                       port = ipc_port_zero\<lparr>public_port := (public_port ipc_port_zero)\<lparr>ip_used := True, ip_port_id := port_id,
                                ip_name := ipc_copy_text IPC_PORT_NAME_MAX (Some nm)\<rparr>\<rparr>
                   in (sint port_id, s\<lparr>g_ports := (g_ports s)[nat slot := port],
                         g_ipc_info := (g_ipc_info s)\<lparr>ii_port_count := ii_port_count (g_ipc_info s) + 1\<rparr>,
                         g_ipc_status := ''ipc: port created''\<rparr>))"

definition ipc_port_close :: "int \<Rightarrow> 'z kipc_scheme \<Rightarrow> bool \<times> 'z kipc_scheme" where
  "ipc_port_close port_id s =
     (case ipc_find_port port_id s of
        None \<Rightarrow> (False, s\<lparr>g_ipc_status := ''ipc: bad port''\<rparr>)
      | Some i \<Rightarrow>
          if port_id \<le> 0 then (False, s\<lparr>g_ipc_status := ''ipc: bad port''\<rparr>)
          else let slot = word_of_int port_id - 1;
                   info = g_ipc_info s;
                   s = s\<lparr>g_ports := (g_ports s)[i := ipc_port_zero],
                         g_ipc_info := (if ii_port_count info > 0 then info\<lparr>ii_port_count := ii_port_count info - 1\<rparr> else info)\<rparr>
               in case pool_free_slot (g_port_pool s) slot s of (_, pool, s) \<Rightarrow>
                    (True, s\<lparr>g_port_pool := pool, g_ipc_status := ''ipc: port closed''\<rparr>))"

text \<open>Storing a message in the ring of a port, and taking the oldest one out.\<close>

definition port_push :: "string \<Rightarrow> ipc_port_state_t \<Rightarrow> ipc_port_state_t" where
  "port_push text p =
     (let p = p\<lparr>ip_queue := (ip_queue p)[unat (ip_tail p) := ipc_copy_text IPC_MESSAGE_MAX (Some text)],
                ip_tail := (ip_tail p + 1) mod IPC_QUEUE_DEPTH, ip_count := ip_count p + 1\<rparr>
      in p\<lparr>public_port := (public_port p)\<lparr>ip_pending := ip_count p, ip_sent := ip_sent (public_port p) + 1\<rparr>\<rparr>)"

definition port_pop :: "ipc_port_state_t \<Rightarrow> ipc_port_state_t" where
  "port_pop p =
     (let p = p\<lparr>ip_head := (ip_head p + 1) mod IPC_QUEUE_DEPTH, ip_count := ip_count p - 1\<rparr>
      in p\<lparr>public_port := (public_port p)\<lparr>ip_pending := ip_count p, ip_received := ip_received (public_port p) + 1\<rparr>\<rparr>)"

definition ipc_send_text :: "int \<Rightarrow> string option \<Rightarrow> 'z kipc_scheme \<Rightarrow> bool \<times> 'z kipc_scheme" where
  "ipc_send_text port_id text s =
     (case (ipc_find_port port_id s, text) of
        (Some i, Some t) \<Rightarrow>
          if ip_count (g_ports s ! i) \<ge> IPC_QUEUE_DEPTH
          then (False, s\<lparr>g_ipc_info := (g_ipc_info s)\<lparr>ii_dropped_count := ii_dropped_count (g_ipc_info s) + 1\<rparr>, g_ipc_status := ''ipc: queue full''\<rparr>)
          else (True, s\<lparr>g_ports := (g_ports s)[i := port_push t (g_ports s ! i)],
                        g_ipc_info := (g_ipc_info s)\<lparr>ii_sent_count := ii_sent_count (g_ipc_info s) + 1\<rparr>, g_ipc_status := ''ipc: queued''\<rparr>)
      | _ \<Rightarrow> (False, s\<lparr>g_ipc_status := ''ipc: bad port''\<rparr>))"

definition broadcast_step :: "string \<Rightarrow> nat \<Rightarrow> u32 \<times> 'z kipc_scheme \<Rightarrow> u32 \<times> 'z kipc_scheme" where
  "broadcast_step text i acc =
     (case acc of (delivered, s) \<Rightarrow>
        if port_used (g_ports s ! i)
        then case ipc_send_text (sint (ip_port_id (public_port (g_ports s ! i)))) (Some text) s of (ok, s) \<Rightarrow>
               (if ok then delivered + 1 else delivered, s)
        else (delivered, s))"

definition ipc_broadcast_text :: "string option \<Rightarrow> 'z kipc_scheme \<Rightarrow> u32 \<times> 'z kipc_scheme" where
  "ipc_broadcast_text text s =
     (case text of
        None \<Rightarrow> (0, s\<lparr>g_ipc_status := ''ipc: bad broadcast''\<rparr>)
      | Some t \<Rightarrow>
          case fold (broadcast_step t) [0..<IPC_MAX_PORTS] (0, s) of (delivered, s) \<Rightarrow>
            (delivered, s\<lparr>g_ipc_status := (if delivered > 0 then ''ipc: broadcast queued'' else ''ipc: broadcast empty'')\<rparr>))"

definition ipc_peek_text :: "int \<Rightarrow> u32 \<Rightarrow> 'z kipc_scheme \<Rightarrow> int \<times> string option \<times> 'z kipc_scheme" where
  "ipc_peek_text port_id buffer_size s =
     (case ipc_find_port port_id s of
        None \<Rightarrow> (-1, None, s\<lparr>g_ipc_status := ''ipc: bad peek''\<rparr>)
      | Some i \<Rightarrow>
          if buffer_size = 0 then (-1, None, s\<lparr>g_ipc_status := ''ipc: bad peek''\<rparr>)
          else let port = g_ports s ! i in
            if ip_count port = 0 then (0, None, s\<lparr>g_ipc_status := ''ipc: queue empty''\<rparr>)
            else let buffer = ipc_copy_text (unat buffer_size) (Some (ip_queue port ! unat (ip_head port)))
                 in (int (length buffer), Some buffer, s\<lparr>g_ipc_status := ''ipc: peeked''\<rparr>))"

definition ipc_recv_text :: "int \<Rightarrow> u32 \<Rightarrow> 'z kipc_scheme \<Rightarrow> int \<times> string option \<times> 'z kipc_scheme" where
  "ipc_recv_text port_id buffer_size s =
     (case ipc_find_port port_id s of
        None \<Rightarrow> (-1, None, s\<lparr>g_ipc_status := ''ipc: bad recv''\<rparr>)
      | Some i \<Rightarrow>
          if buffer_size = 0 then (-1, None, s\<lparr>g_ipc_status := ''ipc: bad recv''\<rparr>)
          else let port = g_ports s ! i in
            if ip_count port = 0 then (0, None, s\<lparr>g_ipc_status := ''ipc: queue empty''\<rparr>)
            else let buffer = ipc_copy_text (unat buffer_size) (Some (ip_queue port ! unat (ip_head port)))
                 in (int (length buffer), Some buffer,
                     s\<lparr>g_ports := (g_ports s)[i := port_pop port],
                       g_ipc_info := (g_ipc_info s)\<lparr>ii_recv_count := ii_recv_count (g_ipc_info s) + 1\<rparr>, g_ipc_status := ''ipc: delivered''\<rparr>))"

definition ipc_snapshot :: "u32 \<Rightarrow> 'z kipc_scheme \<Rightarrow> ipc_port_t option" where
  "ipc_snapshot index s = (if unat index \<ge> IPC_MAX_PORTS then None else Some (public_port (g_ports s ! unat index)))"

section \<open>The message queue of a port\<close>

definition port_ok :: "ipc_port_state_t \<Rightarrow> bool" where
  "port_ok p \<longleftrightarrow> length (ip_queue p) = 8 \<and> ring_ok (ip_queue p) (unat (ip_head p)) (unat (ip_tail p)) (unat (ip_count p)) \<and>
     ip_pending (public_port p) = ip_count p"

definition port_contents :: "ipc_port_state_t \<Rightarrow> string list" where
  "port_contents p = ring_contents (ip_queue p) (unat (ip_head p)) (unat (ip_count p))"

definition port_put :: "string \<Rightarrow> ipc_port_state_t \<Rightarrow> nat \<times> ipc_port_state_t" where
  "port_put text p = (if ip_count p \<ge> IPC_QUEUE_DEPTH then (0, p) else (1, port_push text p))"

definition port_get :: "unit \<Rightarrow> ipc_port_state_t \<Rightarrow> string list \<times> ipc_port_state_t" where
  "port_get _ p = (if ip_count p = 0 then ([], p) else ([ip_queue p ! unat (ip_head p)], port_pop p))"

lemma port_bounds:
  assumes "port_ok p"
  shows "unat (ip_head p) < 8" "unat (ip_count p) \<le> 8" "unat (ip_tail p) < 8" "length (ip_queue p) = 8"
proof -
  show "unat (ip_head p) < 8" "unat (ip_count p) \<le> 8" "length (ip_queue p) = 8" using assms by (auto simp: port_ok_def ring_ok_def)
  have "unat (ip_tail p) = (unat (ip_head p) + unat (ip_count p)) mod 8" using assms by (auto simp: port_ok_def ring_ok_def)
  then show "unat (ip_tail p) < 8" by simp
qed

lemma unat_depth_step: "unat w < 8 \<Longrightarrow> unat ((w + 1) mod IPC_QUEUE_DEPTH) = (unat w + 1) mod 8"
  by (simp add: unat_mod IPC_QUEUE_DEPTH_def unat_add_u32)

lemma port_push_spec:
  assumes ok: "port_ok p" and room: "\<not> ip_count p \<ge> IPC_QUEUE_DEPTH"
  shows "port_ok (port_push text p)" "port_contents (port_push text p) = port_contents p @ [take 127 text]"
    "port_used (port_push text p) = port_used p" "ip_port_id (public_port (port_push text p)) = ip_port_id (public_port p)"
    "ip_name (public_port (port_push text p)) = ip_name (public_port p)"
proof -
  note B = port_bounds [OF ok]
  let ?t = "unat (ip_tail p)" and ?m = "ipc_copy_text IPC_MESSAGE_MAX (Some text)"
  have m: "?m = take 127 text" by (simp add: ipc_copy_text_def IPC_MESSAGE_MAX_def)
  have ro: "ring_ok (ip_queue p) (unat (ip_head p)) ?t (unat (ip_count p))" using ok by (simp add: port_ok_def)
  have c: "unat (ip_count p) < 8" using room by (simp add: word_nat IPC_QUEUE_DEPTH_def)
  have r: "unat (ip_count p) + length [?m] \<le> length (ip_queue p)" "?t + length [?m] \<le> length (ip_queue p)" using c B by simp_all
  have q: "(ip_queue p)[?t := ?m] = take ?t (ip_queue p) @ [?m] @ drop (?t + length [?m]) (ip_queue p)"
    using B(3,4) by (simp add: upd_conv_take_nth_drop)
  have n: "unat (ip_count p + 1) = unat (ip_count p) + 1" using c by (subst unat_add_u32) simp_all
  note R = ring_put [OF ro r, folded q]
  have f: "ip_queue (port_push text p) = (ip_queue p)[?t := ?m]" "ip_head (port_push text p) = ip_head p"
    "ip_tail (port_push text p) = (ip_tail p + 1) mod IPC_QUEUE_DEPTH" "ip_count (port_push text p) = ip_count p + 1"
    "ip_pending (public_port (port_push text p)) = ip_count p + 1"
    by (simp_all add: port_push_def Let_def)
  show "port_ok (port_push text p)" using R(1,2) B(3,4) unfolding port_ok_def f unat_depth_step [OF B(3)] n by simp
  show "port_contents (port_push text p) = port_contents p @ [take 127 text]"
    using R(3) unfolding port_contents_def f n m by simp
qed (simp_all add: port_push_def Let_def)

lemma port_pop_spec:
  assumes ok: "port_ok p" and some: "ip_count p \<noteq> 0"
  shows "port_ok (port_pop p)" "port_contents p = ip_queue p ! unat (ip_head p) # port_contents (port_pop p)"
    "port_used (port_pop p) = port_used p" "ip_port_id (public_port (port_pop p)) = ip_port_id (public_port p)"
    "ip_name (public_port (port_pop p)) = ip_name (public_port p)"
proof -
  note B = port_bounds [OF ok]
  have ro: "ring_ok (ip_queue p) (unat (ip_head p)) (unat (ip_tail p)) (unat (ip_count p))" using ok by (simp add: port_ok_def)
  have c: "1 \<le> unat (ip_count p)" "unat (ip_head p) + 1 \<le> length (ip_queue p)" using some B by (auto simp: Suc_le_eq unat_gt_0)
  have n: "unat (ip_count p - 1) = unat (ip_count p) - 1" using some by (rule unat_minus_one)
  note R = ring_take [OF ro c]
  have f: "ip_queue (port_pop p) = ip_queue p" "ip_head (port_pop p) = (ip_head p + 1) mod IPC_QUEUE_DEPTH" "ip_tail (port_pop p) = ip_tail p"
    "ip_count (port_pop p) = ip_count p - 1" "ip_pending (public_port (port_pop p)) = ip_count p - 1"
    by (simp_all add: port_pop_def Let_def)
  show "port_ok (port_pop p)" using R(1) B(4) unfolding port_ok_def f unat_depth_step [OF B(1)] n by simp
  have "take 1 (drop (unat (ip_head p)) (ip_queue p)) = [ip_queue p ! unat (ip_head p)]" using B(1,4) by (simp add: take_Suc hd_drop_conv_nth)
  moreover have "port_contents p = take 1 (port_contents p) @ drop 1 (port_contents p)" by simp
  ultimately show "port_contents p = ip_queue p ! unat (ip_head p) # port_contents (port_pop p)"
    using R(2,3) B(4) unfolding port_contents_def f unat_depth_step [OF B(1)] n by (metis append_Cons append_Nil)
qed (simp_all add: port_pop_def Let_def)

interpretation port: fifo_channel port_ok port_contents "\<lambda>msg. [take 127 msg]" port_put port_get 8
proof unfold_locales
  fix p p' :: ipc_port_state_t and msg n
  assume a: "port_ok p" "port_put msg p = (n, p')"
  show "port_ok p'" "port_contents p' = port_contents p @ take n [take 127 msg]"
    using a port_push_spec [OF a(1)] by (auto simp: port_put_def split: if_splits)
  show "length (port_contents p') = 8" if "n < length [take 127 msg]"
    using a(2) that port_bounds(2) [OF a(1)] by (auto simp: port_put_def port_contents_def word_nat IPC_QUEUE_DEPTH_def split: if_splits)
next
  fix p p' :: ipc_port_state_t and g :: unit and ys
  assume a: "port_ok p" "port_get g p = (ys, p')"
  show "port_ok p'" "port_contents p = ys @ port_contents p'"
    using a port_pop_spec [OF a(1)] by (auto simp: port_get_def split: if_splits)
next
  fix p assume "port_ok p"
  then show "length (port_contents p) \<le> 8" using port_bounds by (simp add: port_contents_def)
qed

section \<open>The port table\<close>

definition port_entry_ok :: "nat \<Rightarrow> ipc_port_state_t \<Rightarrow> bool" where
  "port_entry_ok i p \<longleftrightarrow> length (ip_name (public_port p)) \<le> 15 \<and> (port_used p \<longrightarrow> ip_port_id (public_port p) = of_nat (i + 1) \<and> port_ok p)"

definition ipc_inv :: "'z kipc_scheme \<Rightarrow> bool" where
  "ipc_inv s \<longleftrightarrow> length (g_ports s) = IPC_MAX_PORTS \<and> pool_inv (g_port_pool s) \<and> pl_capacity (g_port_pool s) = of_nat IPC_MAX_PORTS \<and>
     table_synced port_used (g_ports s) (pool_slots (g_port_pool s)) \<and> (\<forall>i < IPC_MAX_PORTS. port_entry_ok i (g_ports s ! i))"

lemma port_zero_ok [simp]: "port_entry_ok i ipc_port_zero" "\<not> port_used ipc_port_zero"
  by (simp_all add: port_entry_ok_def ipc_port_zero_def)

lemma port_id_sint: "i < IPC_MAX_PORTS \<Longrightarrow> sint (of_nat (i + 1) :: u32) = int i + 1"
  by (subst sint_of_nat_u32) (simp_all add: IPC_MAX_PORTS_def)

lemma ipc_inv_entry:
  assumes "ipc_inv s" "port_entry_ok i p" "port_used p = port_used (g_ports s ! i)" "g_ports s' = (g_ports s)[i := p]" "g_port_pool s' = g_port_pool s"
  shows "ipc_inv s'"
  using assms by (auto simp: ipc_inv_def table_synced_def nth_update_lt)

lemma ipc_find_used:
  assumes inv: "ipc_inv s" and i: "i < IPC_MAX_PORTS" "port_used (g_ports s ! i)"
  shows "ipc_find_port (sint (ip_port_id (public_port (g_ports s ! i)))) s = Some i"
proof -
  have len: "length (g_ports s) = IPC_MAX_PORTS" using inv by (simp add: ipc_inv_def)
  have id: "sint (ip_port_id (public_port (g_ports s ! j))) = int j + 1" if "j < IPC_MAX_PORTS" "port_used (g_ports s ! j)" for j
    using inv that port_id_sint [of j] by (simp add: ipc_inv_def port_entry_ok_def)
  show ?thesis unfolding ipc_find_port_def find_index_Some_iff using i len id by auto
qed

lemma ipc_find_SomeD:
  assumes "ipc_inv s" "ipc_find_port port_id s = Some i"
  shows "i < IPC_MAX_PORTS" "port_used (g_ports s ! i)" "port_ok (g_ports s ! i)" "port_entry_ok i (g_ports s ! i)" "port_id = int i + 1"
proof -
  note F = find_index_SomeD [OF assms(2) [unfolded ipc_find_port_def]]
  show i: "i < IPC_MAX_PORTS" "port_used (g_ports s ! i)" using F assms(1) by (auto simp: ipc_inv_def)
  then show e: "port_entry_ok i (g_ports s ! i)" using assms(1) by (simp add: ipc_inv_def)
  then show "port_ok (g_ports s ! i)" using i(2) by (simp add: port_entry_ok_def)
  show "port_id = int i + 1" using F(2) e i port_id_sint [OF i(1)] by (simp add: port_entry_ok_def)
qed

lemma port_entry_push: "port_entry_ok i p \<Longrightarrow> port_ok p \<Longrightarrow> \<not> ip_count p \<ge> IPC_QUEUE_DEPTH \<Longrightarrow> port_entry_ok i (port_push t p)"
  using port_push_spec [of p t] by (simp add: port_entry_ok_def)

lemma port_entry_pop: "port_entry_ok i p \<Longrightarrow> port_ok p \<Longrightarrow> ip_count p \<noteq> 0 \<Longrightarrow> port_entry_ok i (port_pop p)"
  using port_pop_spec [of p] by (simp add: port_entry_ok_def)

lemma ipc_misc [simp]:
  "ipc_inv (s\<lparr>g_ipc_status := st\<rparr>) = ipc_inv s" "ipc_inv (s\<lparr>g_ipc_info := f\<rparr>) = ipc_inv s"
  by (simp_all add: ipc_inv_def)

text \<open>Sending, as a change of the one port involved.\<close>

lemma ipc_send_spec:
  assumes inv: "ipc_inv s" and f: "ipc_find_port port_id s = Some i" and res: "ipc_send_text port_id (Some t) s = (ok, s')"
  shows "ipc_inv s'" "ok \<longleftrightarrow> length (port_contents (g_ports s ! i)) < 8"
    "g_ports s' = (if ok then (g_ports s)[i := port_push t (g_ports s ! i)] else g_ports s)"
    "ok \<Longrightarrow> port_contents (g_ports s' ! i) = port_contents (g_ports s ! i) @ [take 127 t]"
proof -
  note F = ipc_find_SomeD [OF inv f]
  have len: "length (g_ports s) = IPC_MAX_PORTS" using inv by (simp add: ipc_inv_def)
  show ok: "ok \<longleftrightarrow> length (port_contents (g_ports s ! i)) < 8"
    using res f by (auto simp: ipc_send_text_def port_contents_def word_nat IPC_QUEUE_DEPTH_def split: if_splits)
  show g: "g_ports s' = (if ok then (g_ports s)[i := port_push t (g_ports s ! i)] else g_ports s)"
    using res f by (auto simp: ipc_send_text_def split: if_splits)
  have pool: "g_port_pool s' = g_port_pool s" using res f by (auto simp: ipc_send_text_def split: if_splits)
  have room: "\<not> ip_count (g_ports s ! i) \<ge> IPC_QUEUE_DEPTH" if ok using res f that by (auto simp: ipc_send_text_def split: if_splits)
  show "port_contents (g_ports s' ! i) = port_contents (g_ports s ! i) @ [take 127 t]" if ok
    using that g F(1) len port_push_spec(2) [OF F(3) room [OF that]] by simp
  show "ipc_inv s'"
  proof (cases ok)
    case True
    then show ?thesis using g pool port_entry_push [OF F(4,3) room] port_push_spec(3) [OF F(3) room] by (intro ipc_inv_entry [OF inv]) auto
  next
    case False
    then show ?thesis using inv g pool by (simp add: ipc_inv_def)
  qed
qed

lemma ipc_recv_spec:
  assumes inv: "ipc_inv s" and f: "ipc_find_port port_id s = Some i" and bs: "bs \<noteq> 0" and res: "ipc_recv_text port_id bs s = (n, buf, s')"
  shows "ipc_inv s'"
    "case port_contents (g_ports s ! i) of
       [] \<Rightarrow> n = 0 \<and> buf = None \<and> g_ports s' = g_ports s
     | m # ms \<Rightarrow> buf = Some (take (unat bs - 1) m) \<and> n = int (length (take (unat bs - 1) m)) \<and>
         port_contents (g_ports s' ! i) = ms \<and> (\<forall>j < IPC_MAX_PORTS. j \<noteq> i \<longrightarrow> g_ports s' ! j = g_ports s ! j)"
proof -
  note F = ipc_find_SomeD [OF inv f]
  have len: "length (g_ports s) = IPC_MAX_PORTS" using inv by (simp add: ipc_inv_def)
  let ?p = "g_ports s ! i"
  have "ipc_inv s' \<and> (case port_contents ?p of
       [] \<Rightarrow> n = 0 \<and> buf = None \<and> g_ports s' = g_ports s
     | m # ms \<Rightarrow> buf = Some (take (unat bs - 1) m) \<and> n = int (length (take (unat bs - 1) m)) \<and>
         port_contents (g_ports s' ! i) = ms \<and> (\<forall>j < IPC_MAX_PORTS. j \<noteq> i \<longrightarrow> g_ports s' ! j = g_ports s ! j))"
  proof (cases "ip_count ?p = 0")
    case True
    then have "port_contents ?p = []" by (simp add: port_contents_def)
    then show ?thesis using True res f bs inv by (auto simp: ipc_recv_text_def Let_def)
  next
    case False
    note P = port_pop_spec [OF F(3) False]
    have r: "buf = Some (take (unat bs - 1) (ip_queue ?p ! unat (ip_head ?p)))" "n = int (length (take (unat bs - 1) (ip_queue ?p ! unat (ip_head ?p))))"
      "g_ports s' = (g_ports s)[i := port_pop ?p]" "g_port_pool s' = g_port_pool s"
      using False res f bs by (auto simp: ipc_recv_text_def Let_def ipc_copy_text_def)
    have "ipc_inv s'" using r(3,4) port_entry_pop [OF F(4,3) False] P(3) by (intro ipc_inv_entry [OF inv]) auto
    then show ?thesis using r P(2) F(1) len by simp
  qed
  then show "ipc_inv s'" "case port_contents (g_ports s ! i) of
       [] \<Rightarrow> n = 0 \<and> buf = None \<and> g_ports s' = g_ports s
     | m # ms \<Rightarrow> buf = Some (take (unat bs - 1) m) \<and> n = int (length (take (unat bs - 1) m)) \<and>
         port_contents (g_ports s' ! i) = ms \<and> (\<forall>j < IPC_MAX_PORTS. j \<noteq> i \<longrightarrow> g_ports s' ! j = g_ports s ! j)" by blast+
qed

text \<open>The broadcast loop, after the ports below \<open>n\<close>.\<close>

definition broadcast_at :: "string \<Rightarrow> nat \<Rightarrow> 'z kipc_scheme \<Rightarrow> u32 \<Rightarrow> 'z kipc_scheme \<Rightarrow> bool" where
  "broadcast_at t n s d s' \<longleftrightarrow> ipc_inv s' \<and> d = of_nat (card {i. i < n \<and> port_used (g_ports s ! i) \<and> length (port_contents (g_ports s ! i)) < 8}) \<and>
     (\<forall>i < IPC_MAX_PORTS. port_used (g_ports s' ! i) = port_used (g_ports s ! i) \<and> port_contents (g_ports s' ! i) =
        (if i < n \<and> port_used (g_ports s ! i) \<and> length (port_contents (g_ports s ! i)) < 8
         then port_contents (g_ports s ! i) @ [take 127 t] else port_contents (g_ports s ! i)))"

lemma broadcast_step_at:
  assumes b: "broadcast_at t n s d s1" and n: "n < IPC_MAX_PORTS" and r: "broadcast_step t n (d, s1) = (d', s2)"
  shows "broadcast_at t (Suc n) s d' s2"
proof -
  have inv: "ipc_inv s1" using b by (simp add: broadcast_at_def)
  have len: "length (g_ports s1) = IPC_MAX_PORTS" using inv by (simp add: ipc_inv_def)
  let ?P = "\<lambda>i. port_used (g_ports s ! i) \<and> length (port_contents (g_ports s ! i)) < 8"
  have u: "port_used (g_ports s1 ! n) = port_used (g_ports s ! n)" "port_contents (g_ports s1 ! n) = port_contents (g_ports s ! n)"
    using b n by (auto simp: broadcast_at_def)
  have card: "card {i. i < Suc n \<and> ?P i} = card {i. i < n \<and> ?P i} + of_bool (?P n)"
  proof -
    have "{i. i < Suc n \<and> ?P i} = (if ?P n then insert n {i. i < n \<and> ?P i} else {i. i < n \<and> ?P i})" by (auto simp: less_Suc_eq)
    then show ?thesis by simp
  qed
  show ?thesis
  proof (cases "port_used (g_ports s ! n)")
    case False
    then show ?thesis using r b u card by (auto simp: broadcast_step_def broadcast_at_def less_Suc_eq)
  next
    case True
    obtain ok s3 where snd: "ipc_send_text (sint (ip_port_id (public_port (g_ports s1 ! n)))) (Some t) s1 = (ok, s3)"
      by (cases "ipc_send_text (sint (ip_port_id (public_port (g_ports s1 ! n)))) (Some t) s1")
    have f: "ipc_find_port (sint (ip_port_id (public_port (g_ports s1 ! n)))) s1 = Some n"
      by (rule ipc_find_used [OF inv n]) (use u True in simp)
    note S = ipc_send_spec [OF inv f snd]
    have e: "d' = (if ok then d + 1 else d)" "s2 = s3" using r True u snd by (auto simp: broadcast_step_def)
    have okn: "ok \<longleftrightarrow> ?P n" using S(2) u True by simp
    have g: "g_ports s3 ! i = (if ok \<and> i = n then port_push t (g_ports s1 ! n) else g_ports s1 ! i)" if "i < IPC_MAX_PORTS" for i
      using S(3) that len by (auto simp: nth_update_lt)
    have "port_used (g_ports s3 ! i) = port_used (g_ports s ! i)" if "i < IPC_MAX_PORTS" for i
      using g [OF that] b that u True by (auto simp: broadcast_at_def port_push_def Let_def)
    moreover have "port_contents (g_ports s3 ! i) = (if i < Suc n \<and> ?P i then port_contents (g_ports s ! i) @ [take 127 t] else port_contents (g_ports s ! i))"
      if "i < IPC_MAX_PORTS" for i
    proof (cases "i = n")
      case True
      then show ?thesis using S(4) u okn g [OF that] by (cases ok) auto
    next
      case False
      then show ?thesis using g [OF that] b that by (auto simp: broadcast_at_def less_Suc_eq)
    qed
    moreover have "d' = of_nat (card {i. i < Suc n \<and> ?P i})" using e(1) okn b card by (auto simp: broadcast_at_def)
    ultimately show ?thesis using S(1) e(2) unfolding broadcast_at_def by blast
  qed
qed

lemma broadcast_fold:
  assumes "ipc_inv s" "n \<le> IPC_MAX_PORTS" "fold (broadcast_step t) [0..<n] (0, s) = (d, s')"
  shows "broadcast_at t n s d s'"
  using assms(2,3)
proof (induction n arbitrary: d s')
  case 0
  then show ?case using assms(1) by (simp add: broadcast_at_def)
next
  case (Suc n)
  obtain d1 s1 where f: "fold (broadcast_step t) [0..<n] (0, s) = (d1, s1)" by (cases "fold (broadcast_step t) [0..<n] (0, s)")
  have "broadcast_at t n s d1 s1" using Suc.IH [OF _ f] Suc.prems(1) by simp
  moreover have "broadcast_step t n (d1, s1) = (d, s')" using Suc.prems(2) f by simp
  ultimately show ?case using Suc.prems(1) by (intro broadcast_step_at) simp_all
qed

section \<open>Creating and closing ports\<close>

lemma ipc_port_find_ge:
  assumes "ipc_inv s"
  shows "ipc_port_find nm s \<ge> 0 \<longleftrightarrow> (\<exists>i < IPC_MAX_PORTS. port_used (g_ports s ! i) \<and> ip_name (public_port (g_ports s ! i)) = nm)"
proof (cases "find_index (\<lambda>p. port_used p \<and> ip_name (public_port p) = nm) (g_ports s)")
  case None
  have "ipc_port_find nm s = -1" unfolding ipc_port_find_def None by simp
  moreover have "\<not> (port_used (g_ports s ! i) \<and> ip_name (public_port (g_ports s ! i)) = nm)" if "i < IPC_MAX_PORTS" for i
    using None that assms nth_mem [of i "g_ports s"] unfolding find_index_None_iff by (simp add: ipc_inv_def)
  ultimately show ?thesis by fastforce
next
  case (Some i)
  note F = find_index_SomeD [OF Some]
  have i: "i < IPC_MAX_PORTS" using F(1) assms by (simp add: ipc_inv_def)
  then have "sint (ip_port_id (public_port (g_ports s ! i))) = int i + 1"
    using F(2) assms port_id_sint [OF i] by (simp add: ipc_inv_def port_entry_ok_def)
  then have "ipc_port_find nm s = int i + 1" unfolding ipc_port_find_def Some by simp
  then show ?thesis using F(2) i by auto
qed

definition new_port :: "nat \<Rightarrow> string \<Rightarrow> ipc_port_state_t" where
  "new_port k nm = ipc_port_zero\<lparr>public_port := (public_port ipc_port_zero)\<lparr>ip_used := True, ip_port_id := of_nat (k + 1), ip_name := take 15 nm\<rparr>\<rparr>"

lemma new_port_ok: "port_entry_ok k (new_port k nm)" "port_used (new_port k nm)" "ip_name (public_port (new_port k nm)) = take 15 nm"
  by (simp_all add: port_entry_ok_def new_port_def port_ok_def ipc_port_zero_def ring_ok_def IPC_QUEUE_DEPTH_def)

lemma ipc_port_create_spec:
  assumes inv: "ipc_inv s" and nm: "nm \<noteq> []" and res: "ipc_port_create (Some nm) s = (r, s')"
  obtains (old) "ipc_port_find nm s \<ge> 0" "r = ipc_port_find nm s" "s' = s"
  | (full) "ipc_port_find nm s < 0" "r = -1" "g_ports s' = g_ports s" "ipc_inv s'" "\<forall>p \<in> set (g_ports s). port_used p"
  | (new) k where "ipc_port_find nm s < 0" "k < IPC_MAX_PORTS" "r = int k + 1" "\<not> port_used (g_ports s ! k)"
      "g_ports s' = (g_ports s)[k := new_port k nm]" "ipc_inv s'"
proof (cases "ipc_port_find nm s \<ge> 0")
  case True
  then have "ipc_port_create (Some nm) s = (ipc_port_find nm s, s)" unfolding ipc_port_create_def Let_def using nm by (simp only: option.case if_False if_True)
  then show ?thesis using old True res by simp
next
  case False
  from inv have len: "length (g_ports s) = IPC_MAX_PORTS" and pi: "pool_inv (g_port_pool s)"
    and cap: "pl_capacity (g_port_pool s) = of_nat IPC_MAX_PORTS" and sy: "table_synced port_used (g_ports s) (pool_slots (g_port_pool s))"
    by (simp_all add: ipc_inv_def)
  have cap': "length (g_ports s) = unat (pl_capacity (g_port_pool s))" by (simp add: cap len IPC_MAX_PORTS_def)
  obtain slot pool t where a: "pool_alloc_slot (g_port_pool s) s = (slot, pool, t)" by (cases "pool_alloc_slot (g_port_pool s) s")
  note S = pool_alloc_slot_spec [OF pi a]
  obtain bs ps where t: "t = s\<lparr>g_bitmap_stats := bs, g_pool_stats := ps\<rparr>" using S(3) by (rule pool_stats_onlyE)
  show ?thesis
  proof (cases "slot < 0")
    case True
    note A = pool.alloc_full_table [OF pi a True cap' sy]
    have r: "r = -1" "s' = t\<lparr>g_port_pool := pool, g_ipc_status := ''ipc: port table full''\<rparr>"
      using res nm False a True by (simp_all add: ipc_port_create_def Let_def)
    have "ipc_inv s'" using inv S(1,2) A(2) by (simp add: r(2) t ipc_inv_def)
    then show ?thesis using full False r t A(1) by simp
  next
    case neg: False
    then obtain k where k: "slot = int k" "k < IPC_MAX_PORTS" using S(4) cap' len by auto
    have "0 \<le> slot" using neg by simp
    note I = pool.alloc_install [OF pi a this cap' sy new_port_ok(2) [of k nm]]
    have pid: "word_of_int (int k) + 1 = (of_nat (k + 1) :: u32)" by simp
    have "ipc_copy_text IPC_PORT_NAME_MAX (Some nm) = take 15 nm" by (simp add: ipc_copy_text_def IPC_PORT_NAME_MAX_def)
    then have r: "r = int k + 1" "s' = t\<lparr>g_port_pool := pool, g_ports := (g_ports s)[k := new_port k nm],
        g_ipc_info := (g_ipc_info s)\<lparr>ii_port_count := ii_port_count (g_ipc_info s) + 1\<rparr>, g_ipc_status := ''ipc: port created''\<rparr>"
      using res nm False a neg k(1) port_id_sint [OF k(2)] unfolding ipc_port_create_def option.case Let_def k(1) pid new_port_def
      by (simp_all add: t add.commute)
    have "ipc_inv s'" using inv S(1,2) I(1) k new_port_ok(1) [of k nm] by (auto simp: r(2) ipc_inv_def nth_update_lt)
    then show ?thesis using new [of k] False k(2) r I(3) k(1) by simp
  qed
qed

lemma ipc_port_close_inv:
  assumes inv: "ipc_inv s"
  shows "ipc_inv (snd (ipc_port_close port_id s))"
proof (cases "ipc_find_port port_id s")
  case None
  then show ?thesis using inv by (simp add: ipc_port_close_def)
next
  case (Some i)
  note F = ipc_find_SomeD [OF inv Some]
  from inv have len: "length (g_ports s) = IPC_MAX_PORTS" and pi: "pool_inv (g_port_pool s)"
    and cap: "pl_capacity (g_port_pool s) = of_nat IPC_MAX_PORTS" and sy: "table_synced port_used (g_ports s) (pool_slots (g_port_pool s))"
    by (simp_all add: ipc_inv_def)
  have cap': "length (g_ports s) = unat (pl_capacity (g_port_pool s))" by (simp add: cap len IPC_MAX_PORTS_def)
  have w: "word_of_int port_id - 1 = (of_nat i :: u32)" using F(5) by simp
  have u: "unat (of_nat i :: u32) = i" using F(1) by (simp add: IPC_MAX_PORTS_def unat_of_nat_u32)
  define f where "f = (if ii_port_count (g_ipc_info s) > 0 then (g_ipc_info s)\<lparr>ii_port_count := ii_port_count (g_ipc_info s) - 1\<rparr> else g_ipc_info s)"
  let ?s = "s\<lparr>g_ports := (g_ports s)[i := ipc_port_zero], g_ipc_info := f\<rparr>"
  obtain ok pool t where fr: "pool_free_slot (g_port_pool s) (of_nat i) ?s = (ok, pool, t)" by (cases "pool_free_slot (g_port_pool s) (of_nat i) ?s")
  note P = pool_free_slot_spec [OF pi fr]
  obtain bs ps where t: "t = ?s\<lparr>g_bitmap_stats := bs, g_pool_stats := ps\<rparr>" using P(3) by (rule pool_stats_onlyE)
  have "snd (ipc_port_close port_id s) = t\<lparr>g_port_pool := pool, g_ipc_status := ''ipc: port closed''\<rparr>"
    using Some F(5) fr w unfolding ipc_port_close_def by (simp add: Let_def f_def)
  moreover have "table_synced port_used ((g_ports s)[i := ipc_port_zero]) (pool_slots pool)"
    using pool.release_erase [OF pi fr sy cap', of ipc_port_zero] u by simp
  ultimately show ?thesis using inv P(1,2) by (auto simp: t ipc_inv_def nth_update_lt)
qed

section \<open>Properties\<close>



text \<open>C9: sending to a port and receiving from it: a send to a port with room appends the message and succeeds, to a
  full port it fails and leaves the queue; the receive that follows delivers the oldest message, cut to the buffer,
  and removes it; all other ports keep their state and the table keeps its invariant.\<close>

theorem ipc_send_recv:
  assumes "ipc_inv s" "ipc_find_port port_id s = Some i" "bs \<noteq> 0" "old = port_contents (g_ports s ! i)"
    and "ipc_send_text port_id (Some msg) s = (ok, s1)" "ipc_recv_text port_id bs s1 = (n, buf, s2)"
  shows "ipc_inv s2 \<and> (ok \<longleftrightarrow> length old < 8) \<and>
    (let q = (if ok then old @ [take 127 msg] else old) in
     buf = Some (take (unat bs - 1) (hd q)) \<and> n = int (length (take (unat bs - 1) (hd q))) \<and> port_contents (g_ports s2 ! i) = tl q) \<and>
    (\<forall>j < IPC_MAX_PORTS. j \<noteq> i \<longrightarrow> g_ports s2 ! j = g_ports s ! j)"
proof -
  note S = ipc_send_spec [OF assms(1,2,5)] and F = ipc_find_SomeD [OF assms(1,2)]
  have len: "length (g_ports s) = IPC_MAX_PORTS" using assms(1) by (simp add: ipc_inv_def)
  have f1: "ipc_find_port port_id s1 = Some i"
  proof -
    have "port_used (g_ports s1 ! i)" using S(3) F(1,2) len port_push_def by (auto simp: port_push_def Let_def)
    from ipc_find_used [OF S(1) F(1) this] show ?thesis
      using S(1) F(1,5) port_id_sint [OF F(1)] \<open>port_used (g_ports s1 ! i)\<close> by (simp add: ipc_inv_def port_entry_ok_def)
  qed
  note R = ipc_recv_spec [OF S(1) f1 assms(3,6)]
  define q where "q = (if ok then old @ [take 127 msg] else old)"
  have q: "port_contents (g_ports s1 ! i) = q" using S(3,4) assms(4) by (auto simp: q_def)
  have qn: "q \<noteq> []" using S(2) assms(4) by (auto simp: q_def)
  have o: "g_ports s1 ! j = g_ports s ! j" if "j < IPC_MAX_PORTS" "j \<noteq> i" for j using S(3) that by simp
  obtain m ms where qm: "q = m # ms" using qn by (cases q) auto
  have "buf = Some (take (unat bs - 1) m)" "n = int (length (take (unat bs - 1) m))" "port_contents (g_ports s2 ! i) = ms"
    "\<forall>j < IPC_MAX_PORTS. j \<noteq> i \<longrightarrow> g_ports s2 ! j = g_ports s1 ! j"
    using R(2) by (simp_all add: q qm)
  then show ?thesis using R(1) S(2) assms(4) o unfolding Let_def q_def [symmetric] qm by simp
qed

text \<open>C10: a broadcast reaches every open port that has room, exactly once, reports the number of ports reached,
  and leaves full and closed ports unchanged.\<close>

theorem ipc_broadcast_delivers:
  assumes "ipc_inv s" "ipc_broadcast_text (Some msg) s = (n, s')"
  shows "ipc_inv s' \<and> n = of_nat (card {i. i < IPC_MAX_PORTS \<and> port_used (g_ports s ! i) \<and> length (port_contents (g_ports s ! i)) < 8}) \<and>
    (\<forall>i < IPC_MAX_PORTS. port_contents (g_ports s' ! i) =
       (if port_used (g_ports s ! i) \<and> length (port_contents (g_ports s ! i)) < 8
        then port_contents (g_ports s ! i) @ [take 127 msg] else port_contents (g_ports s ! i)))"
proof -
  obtain d t where f: "fold (broadcast_step msg) [0..<IPC_MAX_PORTS] (0, s) = (d, t)" by (cases "fold (broadcast_step msg) [0..<IPC_MAX_PORTS] (0, s)")
  have "broadcast_at msg IPC_MAX_PORTS s d t" by (rule broadcast_fold [OF assms(1) _ f]) simp
  then show ?thesis using assms(2) f by (auto simp: ipc_broadcast_text_def broadcast_at_def)
qed

text \<open>Names of ports: a port created under a name of at most 15 characters is found again under it, and creating
  it a second time returns the same port; a longer name is cut when it is stored but compared in full, so it is
  never found, and creating it again opens another port.\<close>

theorem ipc_port_names:
  assumes "ipc_inv s" "nm \<noteq> []" "ipc_port_create (Some nm) s = (r, s1)"
  shows "ipc_inv s1 \<and>
    (length nm \<le> 15 \<and> r \<ge> 0 \<longrightarrow> ipc_port_find nm s1 = r \<and> ipc_port_create (Some nm) s1 = (r, s1)) \<and>
    (length nm > 15 \<longrightarrow> ipc_port_find nm s1 = -1 \<and>
       (\<forall>r2 s2. ipc_port_create (Some nm) s1 = (r2, s2) \<longrightarrow> r2 \<noteq> -1 \<longrightarrow> r2 \<noteq> r))"
proof -
  have long: "ipc_port_find nm t = -1" if "ipc_inv t" "length nm > 15" for t :: "'a kipc_scheme"
  proof -
    have "\<not> ipc_port_find nm t \<ge> 0" using that unfolding ipc_port_find_ge [OF that(1)] by (auto simp: ipc_inv_def port_entry_ok_def)
    then have "find_index (\<lambda>p. port_used p \<and> ip_name (public_port p) = nm) (g_ports t) = None"
    proof (rule contrapos_np)
      assume "find_index (\<lambda>p. port_used p \<and> ip_name (public_port p) = nm) (g_ports t) \<noteq> None"
      then obtain i where "find_index (\<lambda>p. port_used p \<and> ip_name (public_port p) = nm) (g_ports t) = Some i" by blast
      from find_index_SomeD [OF this] that(1) show "ipc_port_find nm t \<ge> 0" unfolding ipc_port_find_ge [OF that(1)] by (auto simp: ipc_inv_def)
    qed
    then show ?thesis by (simp add: ipc_port_find_def)
  qed
  have len: "length (g_ports s) = IPC_MAX_PORTS" using assms(1) by (simp add: ipc_inv_def)
  have inv1: "ipc_inv s1" by (rule ipc_port_create_spec [OF assms]) (use assms(1) in simp_all)
  have short: "ipc_port_find nm s1 = r" if "length nm \<le> 15" "r \<ge> 0"
    using assms
  proof (cases rule: ipc_port_create_spec)
    case (new k)
    have no: "\<not> (port_used (g_ports s ! i) \<and> ip_name (public_port (g_ports s ! i)) = nm)" if "i < IPC_MAX_PORTS" for i
      using new(1) that ipc_port_find_ge [OF assms(1), of nm] by auto
    have "find_index (\<lambda>p. port_used p \<and> ip_name (public_port p) = nm) (g_ports s1) = Some k"
      unfolding find_index_Some_iff new(5) using len new(2) no new_port_ok [of k nm] that(1) by auto
    then show ?thesis using new len port_id_sint [OF new(2)] by (simp add: ipc_port_find_def new_port_def)
  qed (use that in auto)
  have "ipc_port_create (Some nm) s1 = (r, s1)" if "length nm \<le> 15" "r \<ge> 0"
    using short [OF that] that(2) assms(2) by (simp add: ipc_port_create_def Let_def)
  moreover have "r2 \<noteq> r" if l: "length nm > 15" "ipc_port_create (Some nm) s1 = (r2, s2)" "r2 \<noteq> -1" for r2 s2
  proof -
    from inv1 assms(2) l(2) obtain k where k: "r2 = int k + 1" "k < IPC_MAX_PORTS" "\<not> port_used (g_ports s1 ! k)"
      by (cases rule: ipc_port_create_spec) (use long [OF inv1 l(1)] l(3) in auto)
    from assms show ?thesis
    proof (cases rule: ipc_port_create_spec)
      case old
      then show ?thesis using long [OF assms(1) l(1)] by simp
    next
      case full
      then show ?thesis using l(3) by simp
    next
      case (new j)
      then have "port_used (g_ports s1 ! j)" using len by (simp add: new_port_ok)
      then have "k \<noteq> j" using k(3) by auto
      then show ?thesis using k(1) new(3) by simp
    qed
  qed
  ultimately show ?thesis using inv1 short long [OF inv1] by blast
qed

section \<open>A concrete port table\<close>

lemma ipc_init_inv:
  assumes "1 \<le> length storage"
  shows "ipc_inv (ipc_init storage s)" "g_ports (ipc_init storage s) = replicate IPC_MAX_PORTS ipc_port_zero"
proof -
  define s0 where "s0 = s\<lparr>g_ports := replicate IPC_MAX_PORTS ipc_port_zero,
                g_ipc_info := \<lparr>ii_port_count = 0, ii_sent_count = 0, ii_recv_count = 0, ii_dropped_count = 0,
                   ii_max_ports = of_nat IPC_MAX_PORTS, ii_queue_depth = IPC_QUEUE_DEPTH, ii_message_size = of_nat IPC_MESSAGE_MAX\<rparr>\<rparr>"
  obtain pool t where i: "pool_init (Some ''ipc'') (Some storage) (of_nat IPC_MAX_PORTS) s0 = (pool, t)"
    by (cases "pool_init (Some ''ipc'') (Some storage) (of_nat IPC_MAX_PORTS) s0")
  have c: "unat (of_nat IPC_MAX_PORTS :: u32) < 2147483648" "unat (of_nat IPC_MAX_PORTS :: u32) \<le> 32 * length storage"
    using assms by (simp_all add: IPC_MAX_PORTS_def)
  note P = pool_init_spec [OF c i]
  obtain bs ps where t: "t = s0\<lparr>g_bitmap_stats := bs, g_pool_stats := ps\<rparr>" using P(4) by (rule pool_stats_onlyE)
  have r: "ipc_init storage s = (shm_init (pipe_init (t\<lparr>g_port_pool := pool\<rparr>)))\<lparr>g_ipc_status := ''ipc: ready''\<rparr>"
    unfolding ipc_init_def Let_def s0_def [symmetric] i by simp
  show g: "g_ports (ipc_init storage s) = replicate IPC_MAX_PORTS ipc_port_zero"
    unfolding r by (simp add: shm_init_def pipe_init_def t s0_def)
  have "g_port_pool (ipc_init storage s) = pool" unfolding r by (simp add: shm_init_def pipe_init_def)
  then show "ipc_inv (ipc_init storage s)" using P(1-3) by (simp add: ipc_inv_def g table_synced_def)
qed

definition ipc_boot :: kipc where
  "ipc_boot = ipc_init [0] (kshm.extend shm_boot (kipc.fields [] pool_zero \<lparr>ii_port_count = 0, ii_sent_count = 0, ii_recv_count = 0,
     ii_dropped_count = 0, ii_max_ports = 0, ii_queue_depth = 0, ii_message_size = 0\<rparr> []))"

lemma ipc_boot_inv: "ipc_inv ipc_boot" "g_ports ipc_boot = replicate IPC_MAX_PORTS ipc_port_zero"
  unfolding ipc_boot_def by (simp_all add: ipc_init_inv)

lemma ipc_boot_create:
  assumes "nm \<noteq> []"
  obtains k s where "ipc_port_create (Some nm) ipc_boot = (int k + 1, s)" "k < IPC_MAX_PORTS" "ipc_inv s" "g_ports s ! k = new_port k nm"
    "ipc_find_port (int k + 1) s = Some k"
proof -
  obtain r s where c: "ipc_port_create (Some nm) ipc_boot = (r, s)" by (cases "ipc_port_create (Some nm) ipc_boot")
  have no: "\<not> ipc_port_find nm ipc_boot \<ge> 0" unfolding ipc_port_find_ge [OF ipc_boot_inv(1)] by (auto simp: ipc_boot_inv(2))
  from ipc_boot_inv(1) assms c show ?thesis
  proof (cases rule: ipc_port_create_spec)
    case (new k)
    have g: "g_ports s ! k = new_port k nm" using new(2,5) by (simp add: ipc_boot_inv(2))
    have id: "sint (ip_port_id (public_port (new_port k nm))) = int k + 1" using port_id_sint [OF new(2)] by (simp add: new_port_def)
    have "ipc_find_port (int k + 1) s = Some k" using ipc_find_used [OF new(6,2)] g id new_port_ok(2) by simp
    with that c new(2,3,6) g show ?thesis by simp
  qed (use no in \<open>simp_all add: ipc_boot_inv(2) IPC_MAX_PORTS_def\<close>)
qed

lemma new_port_empty: "port_contents (new_port k nm) = []"
  by (simp add: new_port_def ipc_port_zero_def port_contents_def)

theorem ipc_send_recv_witness:
  "\<exists>(s :: kipc) port_id s1 s2. ipc_send_text port_id (Some ''hi'') s = (True, s1) \<and> ipc_recv_text port_id 16 s1 = (2, Some ''hi'', s2) \<and> ipc_inv s2"
proof -
  have ne: "''log'' \<noteq> []" by simp
  obtain k and s :: kipc where K: "ipc_inv s" "g_ports s ! k = new_port k ''log''" "ipc_find_port (int k + 1) s = Some k" by (rule ipc_boot_create [OF ne]) blast
  obtain ok s1 where snd: "ipc_send_text (int k + 1) (Some ''hi'') s = (ok, s1)" by (cases "ipc_send_text (int k + 1) (Some ''hi'') s")
  obtain n buf s2 where rcv: "ipc_recv_text (int k + 1) 16 s1 = (n, buf, s2)" by (cases "ipc_recv_text (int k + 1) 16 s1")
  have b: "(16 :: u32) \<noteq> 0" by simp
  have old: "[] = port_contents (g_ports s ! k)" by (simp add: K(2) new_port_empty)
  have "ok" "n = 2" "buf = Some ''hi''" "ipc_inv s2"
    using ipc_send_recv [OF K(1,3) b old snd rcv] by (simp_all add: Let_def)
  then show ?thesis using snd rcv by (intro exI conjI) auto
qed

theorem ipc_broadcast_delivers_witness:
  "\<exists>(s :: kipc) n s' k. ipc_broadcast_text (Some ''all'') s = (n, s') \<and> ipc_inv s' \<and> port_contents (g_ports s' ! k) = [''all'']"
proof -
  have ne: "''log'' \<noteq> []" by simp
  obtain k and s :: kipc where K: "k < IPC_MAX_PORTS" "ipc_inv s" "g_ports s ! k = new_port k ''log''" by (rule ipc_boot_create [OF ne]) blast
  obtain n s' where b: "ipc_broadcast_text (Some ''all'') s = (n, s')" by (cases "ipc_broadcast_text (Some ''all'') s")
  have "ipc_inv s'" "port_contents (g_ports s' ! k) = [''all'']"
    using ipc_broadcast_delivers [OF K(2) b] K(1,3) new_port_ok(2) [of k "''log''"] by (simp_all add: new_port_empty)
  with b show ?thesis by (intro exI conjI)
qed

theorem ipc_port_names_witness:
  "\<exists>r s1. ipc_port_create (Some ''a-port-name-of-20ch'') ipc_boot = (r, s1) \<and> r > 0 \<and> ipc_port_find ''a-port-name-of-20ch'' s1 = -1"
proof -
  have ne: "''a-port-name-of-20ch'' \<noteq> []" by simp
  obtain k and s :: kipc where K: "ipc_port_create (Some ''a-port-name-of-20ch'') ipc_boot = (int k + 1, s)" by (rule ipc_boot_create [OF ne]) blast
  have "ipc_port_find ''a-port-name-of-20ch'' s = -1" using ipc_port_names [OF ipc_boot_inv(1) ne K] by simp
  with K show ?thesis by (intro exI conjI) auto
qed

end
