(* ===== verification/Vma.thy ===== *)
theory Vma
  imports Memory
begin

text \<open>
  The table of address regions (\<^verbatim>\<open>kernel/mm/vma.c\<close>): regions are only added, a region that overlaps another is
  refused, and a lookup finds the region of an address.  The table starts with the fixed regions of the memory
  layout and the kernel heap.
\<close>

section \<open>State and operations\<close>

definition VMA_MAX_ENTRIES :: u32 where "VMA_MAX_ENTRIES = 16"

record vma_entry_t =
  va_used :: bool
  va_id :: u32
  va_base :: u64
  va_size :: u64
  va_flags :: u32
  va_name :: string

record kvma = kmem +
  g_vmas :: "vma_entry_t list"
  g_vma_count :: u32
  g_vma_status :: string

definition vma_zero :: vma_entry_t where
  "vma_zero = \<lparr>va_used = False, va_id = 0, va_base = 0, va_size = 0, va_flags = 0, va_name = []\<rparr>"

definition vma_copy_name :: "nat \<Rightarrow> string option \<Rightarrow> string" where
  "vma_copy_name sz src = copy_text sz src"

definition vma_range_valid :: "u64 \<Rightarrow> u64 \<Rightarrow> bool" where
  "vma_range_valid base sz \<longleftrightarrow> sz \<noteq> 0 \<and> base \<le> 0xFFFFFFFFFFFFFFFF - sz"

definition vma_ranges_overlap :: "u64 \<Rightarrow> u64 \<Rightarrow> u64 \<Rightarrow> u64 \<Rightarrow> bool" where
  "vma_ranges_overlap base_a size_a base_b size_b = (let end_a = base_a + size_a; end_b = base_b + size_b in base_a < end_b \<and> base_b < end_a)"

definition vma_add :: "u64 \<Rightarrow> u64 \<Rightarrow> u32 \<Rightarrow> string option \<Rightarrow> 'z kvma_scheme \<Rightarrow> int \<times> 'z kvma_scheme" where
  "vma_add base sz flags name s =
     (if \<not> vma_range_valid base sz then (-1, s\<lparr>g_vma_status := ''vma: invalid range''\<rparr>)
      else if g_vma_count s \<ge> VMA_MAX_ENTRIES then (-1, s\<lparr>g_vma_status := ''vma: table full''\<rparr>)
      else if list_ex (\<lambda>e. va_used e \<and> vma_ranges_overlap base sz (va_base e) (va_size e)) (take (unat (g_vma_count s)) (g_vmas s))
      then (-1, s\<lparr>g_vma_status := ''vma: overlap''\<rparr>)
      else let e = vma_zero\<lparr>va_used := True, va_id := g_vma_count s, va_base := base, va_size := sz, va_flags := flags, va_name := vma_copy_name 24 name\<rparr>
           in (sint (va_id e), s\<lparr>g_vmas := (g_vmas s)[unat (g_vma_count s) := e], g_vma_count := g_vma_count s + 1, g_vma_status := ''vma: region added''\<rparr>))"

definition vma_init :: "'z kvma_scheme \<Rightarrow> 'z kvma_scheme" where
  "vma_init s =
     (let s = s\<lparr>g_vmas := replicate (unat VMA_MAX_ENTRIES) vma_zero, g_vma_count := 0, g_vma_status := ''vma: ready''\<rparr>;
          s = snd (vma_add 0 0x200000 0x03 (Some ''lowmem'') s);
          s = snd (vma_add 0x04000000 0x3C0000 0x0D (Some ''exec-image'') s);
          s = snd (vma_add 0x043C0000 0x30000 0x1B (Some ''exec-data'') s);
          s = snd (vma_add 0x043F0000 0x10000 0x0B (Some ''exec-stack'') s);
          s = snd (vma_add (kernel_heap s) (g_memory_heap_size s) 0x03 (Some ''kernel-heap'') s)
      in snd (vma_add 0xE8000000 0x18000000 0x03 (Some ''mmio'') s))"

definition vma_find :: "u64 \<Rightarrow> 'z kvma_scheme \<Rightarrow> nat option" where
  "vma_find address s = find_index (\<lambda>e. va_used e \<and> address \<ge> va_base e \<and> address - va_base e < va_size e) (take (unat (g_vma_count s)) (g_vmas s))"

definition vma_snapshot :: "u32 \<Rightarrow> 'z kvma_scheme \<Rightarrow> vma_entry_t option" where
  "vma_snapshot index s = (if index \<ge> g_vma_count s then None else Some (g_vmas s ! unat index))"

section \<open>Regions as sets of addresses\<close>

definition region :: "vma_entry_t \<Rightarrow> nat set" where
  "region e = {unat (va_base e) ..< unat (va_base e) + unat (va_size e)}"

definition vma_inv :: "'z kvma_scheme \<Rightarrow> bool" where
  "vma_inv s \<longleftrightarrow> length (g_vmas s) = 16 \<and> unat (g_vma_count s) \<le> 16 \<and>
     (\<forall>i < unat (g_vma_count s). va_used (g_vmas s ! i) \<and> va_id (g_vmas s ! i) = of_nat i \<and> vma_range_valid (va_base (g_vmas s ! i)) (va_size (g_vmas s ! i))) \<and>
     (\<forall>i < unat (g_vma_count s). \<forall>j < unat (g_vma_count s). i \<noteq> j \<longrightarrow> region (g_vmas s ! i) \<inter> region (g_vmas s ! j) = {})"

lemma vma_range_nat: "vma_range_valid b n \<longleftrightarrow> 0 < unat n \<and> unat b + unat n \<le> 18446744073709551615"
proof -
  have "n \<le> 0xFFFFFFFFFFFFFFFF" using unat_u64_less [of n] by (simp add: word_le_nat_alt)
  then have "unat (0xFFFFFFFFFFFFFFFF - n) = 18446744073709551615 - unat n" by (simp add: unat_sub)
  then show ?thesis using unat_u64_less [of n] unat_gt_0 [of n] by (auto simp: vma_range_valid_def word_le_nat_alt)
qed

lemma vma_overlap_nat:
  assumes "vma_range_valid b n" "vma_range_valid c m"
  shows "vma_ranges_overlap b n c m \<longleftrightarrow> {unat b ..< unat b + unat n} \<inter> {unat c ..< unat c + unat m} \<noteq> {}"
proof -
  have u: "unat (b + n) = unat b + unat n" "unat (c + m) = unat c + unat m"
    using assms by (auto simp: vma_range_nat intro!: unat_add_u64)
  have n: "0 < unat n" "0 < unat m" using assms by (auto simp: vma_range_nat)
  have "max (unat b) (unat c) \<in> {unat b ..< unat b + unat n} \<inter> {unat c ..< unat c + unat m}" if "unat b < unat c + unat m" "unat c < unat b + unat n"
    using that n by auto
  then show ?thesis unfolding vma_ranges_overlap_def Let_def word_less_nat_alt u by auto
qed

lemma vma_contains_nat: "vma_range_valid b n \<Longrightarrow> (a \<ge> b \<and> a - b < n) = (unat a \<in> {unat b ..< unat b + unat n})"
  by (auto simp: word_le_nat_alt word_less_nat_alt unat_sub)

lemma list_ex_take: "n \<le> length xs \<Longrightarrow> list_ex P (take n xs) \<longleftrightarrow> (\<exists>i < n. P (xs ! i))"
  by (auto simp: list_ex_length)

lemma vma_add_spec:
  assumes inv: "vma_inv s" and res: "vma_add base sz flags name s = (r, s')"
  shows "vma_inv s'"
    and "r = -1 \<longleftrightarrow> \<not> vma_range_valid base sz \<or> unat (g_vma_count s) = 16 \<or>
      (\<exists>i < unat (g_vma_count s). {unat base ..< unat base + unat sz} \<inter> region (g_vmas s ! i) \<noteq> {})"
    and "r = -1 \<Longrightarrow> g_vmas s' = g_vmas s \<and> g_vma_count s' = g_vma_count s"
    and "r \<noteq> -1 \<Longrightarrow> r = int (unat (g_vma_count s)) \<and> g_vma_count s' = g_vma_count s + 1 \<and>
      region (g_vmas s' ! unat (g_vma_count s)) = {unat base ..< unat base + unat sz} \<and> (\<forall>i < unat (g_vma_count s). g_vmas s' ! i = g_vmas s ! i)"
proof -
  let ?n = "unat (g_vma_count s)" and ?new = "{unat base ..< unat base + unat sz}"
  have len: "length (g_vmas s) = 16" "?n \<le> 16" using inv by (auto simp: vma_inv_def)
  have full: "g_vma_count s \<ge> VMA_MAX_ENTRIES \<longleftrightarrow> ?n = 16" using len(2) by (simp add: word_le_nat_alt VMA_MAX_ENTRIES_def)
  have ov: "list_ex (\<lambda>e. va_used e \<and> vma_ranges_overlap base sz (va_base e) (va_size e)) (take ?n (g_vmas s)) \<longleftrightarrow> (\<exists>i < ?n. ?new \<inter> region (g_vmas s ! i) \<noteq> {})"
    if "vma_range_valid base sz"
  proof -
    let ?P = "\<lambda>e. va_used e \<and> vma_ranges_overlap base sz (va_base e) (va_size e)"
    have P: "?P (g_vmas s ! i) \<longleftrightarrow> ?new \<inter> region (g_vmas s ! i) \<noteq> {}" if "i < ?n" for i
      using inv that vma_overlap_nat [OF \<open>vma_range_valid base sz\<close>] by (simp add: vma_inv_def region_def)
    have "list_ex ?P (take ?n (g_vmas s)) \<longleftrightarrow> (\<exists>i < ?n. ?P (g_vmas s ! i))" using list_ex_take [OF len(2) [folded len(1)], of ?P] .
    then show ?thesis using P by blast
  qed
  consider (bad) "r = -1" "g_vmas s' = g_vmas s" "g_vma_count s' = g_vma_count s" "\<not> vma_range_valid base sz \<or> ?n = 16 \<or> (\<exists>i < ?n. ?new \<inter> region (g_vmas s ! i) \<noteq> {})"
    | (good) e where "vma_range_valid base sz" "?n < 16" "\<not> (\<exists>i < ?n. ?new \<inter> region (g_vmas s ! i) \<noteq> {})" "r = int ?n" "r \<noteq> -1" "g_vmas s' = (g_vmas s)[?n := e]"
      "g_vma_count s' = g_vma_count s + 1" "va_used e" "va_id e = of_nat ?n" "va_base e = base" "va_size e = sz"
  proof (cases "\<not> vma_range_valid base sz \<or> ?n = 16 \<or> (\<exists>i < ?n. ?new \<inter> region (g_vmas s ! i) \<noteq> {})")
    case True
    then have "r = -1" "g_vmas s' = g_vmas s" "g_vma_count s' = g_vma_count s"
      using res full ov by (auto simp: vma_add_def split: if_splits)
    then show ?thesis using bad True by blast
  next
    case False
    then have "?n < 16" using len(2) by simp
    then have si: "sint (g_vma_count s) = int ?n" by (simp add: sint_small_u32)
    define e where "e = vma_zero\<lparr>va_used := True, va_id := g_vma_count s, va_base := base, va_size := sz, va_flags := flags, va_name := vma_copy_name 24 name\<rparr>"
    have "vma_add base sz flags name s = (sint (va_id e), s\<lparr>g_vmas := (g_vmas s)[?n := e], g_vma_count := g_vma_count s + 1, g_vma_status := ''vma: region added''\<rparr>)"
    proof -
      have "\<not> list_ex (\<lambda>e. va_used e \<and> vma_ranges_overlap base sz (va_base e) (va_size e)) (take ?n (g_vmas s))" using False ov by blast
      then show ?thesis using False full unfolding vma_add_def e_def Let_def by simp
    qed
    then have r: "r = int ?n" "s' = s\<lparr>g_vmas := (g_vmas s)[?n := e], g_vma_count := g_vma_count s + 1, g_vma_status := ''vma: region added''\<rparr>"
      using res si by (simp_all add: e_def)
    have "r \<noteq> -1" unfolding r(1) by linarith
    then show ?thesis by (intro good [of e]) (use False \<open>?n < 16\<close> r in \<open>simp_all add: e_def\<close>)
  qed
  note C = this
  from C show "r = -1 \<longleftrightarrow> \<not> vma_range_valid base sz \<or> ?n = 16 \<or> (\<exists>i < ?n. ?new \<inter> region (g_vmas s ! i) \<noteq> {})" by cases auto
  from C show "r = -1 \<Longrightarrow> g_vmas s' = g_vmas s \<and> g_vma_count s' = g_vma_count s" by cases auto
  from C show "r \<noteq> -1 \<Longrightarrow> r = int ?n \<and> g_vma_count s' = g_vma_count s + 1 \<and> region (g_vmas s' ! ?n) = ?new \<and> (\<forall>i < ?n. g_vmas s' ! i = g_vmas s ! i)"
    by cases (use len in \<open>auto simp: region_def\<close>)
  from C show "vma_inv s'"
  proof cases
    case bad
    then show ?thesis using inv by (simp add: vma_inv_def)
  next
    case (good e)
    have c: "unat (g_vma_count s') = Suc ?n" using good(2,7) by (simp add: unat_add_u32)
    have e: "region e = ?new" using good by (simp add: region_def)
    have old: "g_vmas s' ! i = (if i = ?n then e else g_vmas s ! i)" if "i < Suc ?n" for i using that len good(2,6) by (simp add: nth_update_lt)
    have "region (g_vmas s' ! i) \<inter> region (g_vmas s' ! j) = {}" if "i < Suc ?n" "j < Suc ?n" "i \<noteq> j" for i j
    proof -
      have "region (g_vmas s ! i) \<inter> region (g_vmas s ! j) = {}" if "i < ?n" "j < ?n" using inv that \<open>i \<noteq> j\<close> by (simp add: vma_inv_def)
      then show ?thesis using that old [of i] old [of j] e good(3) by (auto simp: less_Suc_eq)
    qed
    moreover have "va_used (g_vmas s' ! i) \<and> va_id (g_vmas s' ! i) = of_nat i \<and> vma_range_valid (va_base (g_vmas s' ! i)) (va_size (g_vmas s' ! i))" if "i < Suc ?n" for i
      using that old [OF that] good inv by (auto simp: vma_inv_def less_Suc_eq)
    ultimately show ?thesis unfolding vma_inv_def c using len good(2,6) by simp
  qed
qed

section \<open>Properties\<close>

lemma vma_init_inv: "vma_inv (vma_init s)"
proof -
  have step: "vma_inv (snd (vma_add b n f m t))" if "vma_inv t" for b n f m and t :: "'a kvma_scheme"
    using vma_add_spec(1) [OF that, of b n f m] by (cases "vma_add b n f m t") simp
  have "vma_inv (s\<lparr>g_vmas := replicate (unat VMA_MAX_ENTRIES) vma_zero, g_vma_count := 0, g_vma_status := ''vma: ready''\<rparr>)"
    by (simp add: vma_inv_def VMA_MAX_ENTRIES_def)
  then show ?thesis unfolding vma_init_def Let_def by (intro step)
qed

lemma vma_adds_inv: "vma_inv s \<Longrightarrow> vma_inv (fold (\<lambda>(b, n, f, m) s. snd (vma_add b n f m s)) rs s)"
proof (induction rs arbitrary: s)
  case (Cons r rs)
  obtain b n f m where r: "r = (b, n, f, m)" by (cases r)
  show ?case using Cons.IH [of "snd (vma_add b n f m s)"] vma_add_spec(1) [OF Cons.prems, of b n f m] r
    by (cases "vma_add b n f m s") simp
qed simp

text \<open>C30: whatever regions are added after initialisation, the regions in the table are disjoint and a lookup finds
  exactly the region that contains the address; a new region is refused exactly when it is empty, wraps around,
  overlaps another, or the table is full, and otherwise becomes the next entry and covers the addresses asked for.\<close>

theorem vma_regions_disjoint:
  assumes "s = fold (\<lambda>(b, n, f, m) s. snd (vma_add b n f m s)) rs (vma_init t)" "vma_add base sz flags name s = (r, s')"
  shows "(\<forall>i < unat (g_vma_count s). \<forall>j < unat (g_vma_count s). i \<noteq> j \<longrightarrow> region (g_vmas s ! i) \<inter> region (g_vmas s ! j) = {}) \<and>
    (\<forall>a i. vma_find a s = Some i \<longleftrightarrow> i < unat (g_vma_count s) \<and> unat a \<in> region (g_vmas s ! i)) \<and>
    (r = -1 \<longleftrightarrow> sz = 0 \<or> unat base + unat sz \<ge> 2 ^ 64 \<or> unat (g_vma_count s) = 16 \<or>
       (\<exists>i < unat (g_vma_count s). {unat base ..< unat base + unat sz} \<inter> region (g_vmas s ! i) \<noteq> {})) \<and>
    (r \<noteq> -1 \<longrightarrow> r = int (unat (g_vma_count s)) \<and> region (g_vmas s' ! nat r) = {unat base ..< unat base + unat sz})"
proof -
  have inv: "vma_inv s" unfolding assms(1) by (rule vma_adds_inv [OF vma_init_inv])
  have len: "unat (g_vma_count s) \<le> length (g_vmas s)" using inv by (simp add: vma_inv_def)
  have dis: "i = j" if "i < unat (g_vma_count s)" "j < unat (g_vma_count s)" "unat a \<in> region (g_vmas s ! i)" "unat a \<in> region (g_vmas s ! j)" for a :: u64 and i j
    using inv that unfolding vma_inv_def by blast
  have c: "va_used (g_vmas s ! i) \<and> a \<ge> va_base (g_vmas s ! i) \<and> a - va_base (g_vmas s ! i) < va_size (g_vmas s ! i) \<longleftrightarrow> unat a \<in> region (g_vmas s ! i)"
    if "i < unat (g_vma_count s)" for i a
    using inv that vma_contains_nat [of "va_base (g_vmas s ! i)" "va_size (g_vmas s ! i)" a] by (simp add: vma_inv_def region_def)
  have "vma_find a s = Some i \<longleftrightarrow> i < unat (g_vma_count s) \<and> unat a \<in> region (g_vmas s ! i)" for a i
  proof -
    define Q where "Q = (\<lambda>e :: vma_entry_t. va_used e \<and> a \<ge> va_base e \<and> a - va_base e < va_size e)"
    have q: "Q (g_vmas s ! j) \<longleftrightarrow> unat a \<in> region (g_vmas s ! j)" if "j < unat (g_vma_count s)" for j unfolding Q_def by (rule c [OF that])
    have "vma_find a s = Some i \<longleftrightarrow> i < unat (g_vma_count s) \<and> unat a \<in> region (g_vmas s ! i) \<and> (\<forall>j < i. unat a \<notin> region (g_vmas s ! j))"
      unfolding vma_find_def find_index_Some_iff Q_def [symmetric] using len q by auto
    moreover have "\<forall>j < i. unat a \<notin> region (g_vmas s ! j)" if "i < unat (g_vma_count s)" "unat a \<in> region (g_vmas s ! i)"
    proof (intro allI impI notI)
      fix j assume j: "j < i" "unat a \<in> region (g_vmas s ! j)"
      then have "i = j" using dis [of i j a] that by simp
      then show False using j(1) by simp
    qed
    ultimately show ?thesis by blast
  qed
  moreover have "\<not> vma_range_valid base sz \<longleftrightarrow> sz = 0 \<or> unat base + unat sz \<ge> 2 ^ 64" by (auto simp: vma_range_nat unat_eq_0)
  ultimately show ?thesis using vma_add_spec(2-4) [OF inv assms(2)] inv by (simp add: vma_inv_def)
qed

definition vma_list :: "'z kvma_scheme \<Rightarrow> (u64 \<times> u64) list" where
  "vma_list s = map (\<lambda>e. (va_base e, va_size e)) (take (unat (g_vma_count s)) (g_vmas s))"

lemma vma_add_list:
  assumes inv: "vma_inv s" and l: "vma_list s = L" "length L < 16" and v: "vma_range_valid b n" and no: "list_all (\<lambda>(c, m). \<not> vma_ranges_overlap b n c m) L"
  shows "fst (vma_add b n f nm s) = int (length L)" "vma_list (snd (vma_add b n f nm s)) = L @ [(b, n)]" "vma_inv (snd (vma_add b n f nm s))"
    "kernel_heap (snd (vma_add b n f nm s)) = kernel_heap s" "g_memory_heap_size (snd (vma_add b n f nm s)) = g_memory_heap_size s"
proof -
  have len: "length (g_vmas s) = 16" "unat (g_vma_count s) = length L" using inv l by (auto simp: vma_inv_def vma_list_def)
  have full: "\<not> g_vma_count s \<ge> VMA_MAX_ENTRIES" using len(2) l(2) by (simp add: word_le_nat_alt VMA_MAX_ENTRIES_def)
  have ex: "\<not> list_ex (\<lambda>e. va_used e \<and> vma_ranges_overlap b n (va_base e) (va_size e)) (take (unat (g_vma_count s)) (g_vmas s))"
    using no unfolding l(1) [symmetric] vma_list_def by (auto simp: list_all_iff list_ex_iff)
  define e where "e = vma_zero\<lparr>va_used := True, va_id := g_vma_count s, va_base := b, va_size := n, va_flags := f, va_name := vma_copy_name 24 nm\<rparr>"
  have r: "vma_add b n f nm s = (sint (va_id e), s\<lparr>g_vmas := (g_vmas s)[length L := e], g_vma_count := g_vma_count s + 1, g_vma_status := ''vma: region added''\<rparr>)"
    using v full ex unfolding vma_add_def e_def Let_def len(2) [symmetric] by simp
  show "fst (vma_add b n f nm s) = int (length L)" using len(2) l(2) by (simp add: r e_def sint_small_u32)
  have "unat (g_vma_count s + 1) = Suc (length L)" using len(2) l(2) by (simp add: unat_add_u32)
  moreover have "take (Suc (length L)) ((g_vmas s)[length L := e]) = take (length L) (g_vmas s) @ [e]" using len(1) l(2) by (simp add: take_Suc_conv_app_nth)
  moreover have "map (\<lambda>e. (va_base e, va_size e)) (take (length L) (g_vmas s)) = L" using l(1) unfolding vma_list_def len(2) .
  ultimately show "vma_list (snd (vma_add b n f nm s)) = L @ [(b, n)]" by (simp add: r vma_list_def e_def)
  show "vma_inv (snd (vma_add b n f nm s))" using vma_add_spec(1) [OF inv r] by (simp add: r)
  show "kernel_heap (snd (vma_add b n f nm s)) = kernel_heap s" "g_memory_heap_size (snd (vma_add b n f nm s)) = g_memory_heap_size s" by (simp_all add: r)
qed

text \<open>The first free page behind the fixed regions and a heap of one megabyte.\<close>

theorem vma_regions_disjoint_witness:
  "\<exists>(t :: kvma) r s'. vma_add 0x50000000 0x1000 3 (Some ''buffer'') (vma_init t) = (r, s') \<and> r = 6 \<and> region (g_vmas s' ! 6) = {0x50000000 ..< 0x50001000}"
proof -
  define t :: kvma where "t = (kmem.extend mem_boot (kvma.fields [] 0 []))\<lparr>kernel_heap := 0x200000, g_memory_heap_size := 0x100000\<rparr>"
  have h: "kernel_heap t = 0x200000" "g_memory_heap_size t = 0x100000" by (simp_all add: t_def)
  obtain r s' where a: "vma_add 0x50000000 0x1000 3 (Some ''buffer'') (vma_init t) = (r, s')" by (cases "vma_add 0x50000000 0x1000 3 (Some ''buffer'') (vma_init t)")
  define t0 where "t0 = t\<lparr>g_vmas := replicate (unat VMA_MAX_ENTRIES) vma_zero, g_vma_count := 0, g_vma_status := ''vma: ready''\<rparr>"
  have t0: "vma_inv t0" "vma_list t0 = []" "kernel_heap t0 = 0x200000" "g_memory_heap_size t0 = 0x100000"
    by (simp_all add: t0_def vma_inv_def vma_list_def VMA_MAX_ENTRIES_def h)
  note valid = vma_range_valid_def vma_ranges_overlap_def
  define t1 where "t1 = snd (vma_add 0 0x200000 0x03 (Some ''lowmem'') t0)"
  have t1: "vma_inv t1" "vma_list t1 = [(0, 0x200000)]" "kernel_heap t1 = 0x200000" "g_memory_heap_size t1 = 0x100000"
    using vma_add_list [OF t0(1,2), where b = "0" and n = "0x200000" and f = "0x03" and nm = "Some ''lowmem''"] t0(3,4) by (simp_all add: t1_def valid)
  define t2 where "t2 = snd (vma_add 0x04000000 0x3C0000 0x0D (Some ''exec-image'') t1)"
  have t2: "vma_inv t2" "vma_list t2 = [(0, 0x200000), (0x04000000, 0x3C0000)]" "kernel_heap t2 = 0x200000" "g_memory_heap_size t2 = 0x100000"
    using vma_add_list [OF t1(1,2), where b = "0x04000000" and n = "0x3C0000" and f = "0x0D" and nm = "Some ''exec-image''"] t1(3,4) by (simp_all add: t2_def valid)
  define t3 where "t3 = snd (vma_add 0x043C0000 0x30000 0x1B (Some ''exec-data'') t2)"
  have t3: "vma_inv t3" "vma_list t3 = [(0, 0x200000), (0x04000000, 0x3C0000), (0x043C0000, 0x30000)]" "kernel_heap t3 = 0x200000" "g_memory_heap_size t3 = 0x100000"
    using vma_add_list [OF t2(1,2), where b = "0x043C0000" and n = "0x30000" and f = "0x1B" and nm = "Some ''exec-data''"] t2(3,4) by (simp_all add: t3_def valid)
  define t4 where "t4 = snd (vma_add 0x043F0000 0x10000 0x0B (Some ''exec-stack'') t3)"
  have t4: "vma_inv t4" "vma_list t4 = [(0, 0x200000), (0x04000000, 0x3C0000), (0x043C0000, 0x30000), (0x043F0000, 0x10000)]"
    "kernel_heap t4 = 0x200000" "g_memory_heap_size t4 = 0x100000"
    using vma_add_list [OF t3(1,2), where b = "0x043F0000" and n = "0x10000" and f = "0x0B" and nm = "Some ''exec-stack''"] t3(3,4) by (simp_all add: t4_def valid)
  define t5 where "t5 = snd (vma_add 0x200000 0x100000 0x03 (Some ''kernel-heap'') t4)"
  have t5: "vma_inv t5" "vma_list t5 = [(0, 0x200000), (0x04000000, 0x3C0000), (0x043C0000, 0x30000), (0x043F0000, 0x10000), (0x200000, 0x100000)]"
    using vma_add_list [OF t4(1,2), where b = "0x200000" and n = "0x100000" and f = "0x03" and nm = "Some ''kernel-heap''"] by (simp_all add: t5_def valid)
  have i: "vma_init t = snd (vma_add 0xE8000000 0x18000000 0x03 (Some ''mmio'') t5)"
    unfolding vma_init_def Let_def t0_def [symmetric] t1_def [symmetric] t2_def [symmetric] t3_def [symmetric] t4_def [symmetric] t4(3,4) t5_def [symmetric] ..
  have t6: "vma_inv (vma_init t)" "vma_list (vma_init t) = [(0, 0x200000), (0x04000000, 0x3C0000), (0x043C0000, 0x30000), (0x043F0000, 0x10000), (0x200000, 0x100000), (0xE8000000, 0x18000000)]"
    using vma_add_list [OF t5(1,2), where b = "0xE8000000" and n = "0x18000000" and f = "0x03" and nm = "Some ''mmio''"] by (simp_all add: i valid)
  have r: "r = 6" using vma_add_list(1) [OF t6(1,2), where b = "0x50000000" and n = "0x1000" and f = "3" and nm = "Some ''buffer''"] a by (simp add: valid)
  have "vma_init t = fold (\<lambda>(b, n, f, m) s. snd (vma_add b n f m s)) [] (vma_init t)" by simp
  from vma_regions_disjoint [OF this a] r have "region (g_vmas s' ! 6) = {0x50000000 ..< 0x50001000}" by simp
  with a r show ?thesis by blast
qed

end
