(* ===== verification/Futex.thy ===== *)
theory Futex
  imports Kernel_Prelude
begin

text \<open>
  Futexes (\<^verbatim>\<open>kernel/sched/futex.c\<close>): sixteen slots keyed by address that count waiters, with a deadline each, and the
  totals over all slots.  The reading of the timer is an argument.
\<close>

section \<open>State and operations\<close>

definition FUTEX_MAX_SLOTS :: nat where "FUTEX_MAX_SLOTS = 16"

record futex_slot_t =
  fx_used :: bool
  fx_address :: u64
  fx_expected :: u32
  fx_waiters :: u32
  fx_deadline :: u64

record futex_info_t =
  total_waiters :: u32
  wake_ops :: u32
  timeout_reaps :: u32
  used_slots :: u32

record kfutex =
  g_slots :: "futex_slot_t list"
  g_futex_info :: futex_info_t
  g_futex_status :: string

definition futex_slot_zero :: futex_slot_t where
  "futex_slot_zero = \<lparr>fx_used = False, fx_address = 0, fx_expected = 0, fx_waiters = 0, fx_deadline = 0\<rparr>"

definition futex_find_slot :: "u64 \<Rightarrow> kfutex \<Rightarrow> nat option" where
  "futex_find_slot address s = find_index (\<lambda>e. fx_used e \<and> fx_address e = address) (g_slots s)"

definition futex_find_or_create_slot :: "u64 \<Rightarrow> kfutex \<Rightarrow> nat option \<times> kfutex" where
  "futex_find_or_create_slot address s =
     (case futex_find_slot address s of
        Some i \<Rightarrow> (Some i, s)
      | None \<Rightarrow>
          case find_index (\<lambda>e. \<not> fx_used e) (g_slots s) of
            None \<Rightarrow> (None, s)
          | Some i \<Rightarrow> (Some i, s\<lparr>g_slots := (g_slots s)[i := (g_slots s ! i)\<lparr>fx_used := True, fx_address := address\<rparr>],
                             g_futex_info := (g_futex_info s)\<lparr>used_slots := used_slots (g_futex_info s) + 1\<rparr>\<rparr>))"

definition futex_init :: "kfutex \<Rightarrow> kfutex" where
  "futex_init s = s\<lparr>g_slots := replicate FUTEX_MAX_SLOTS futex_slot_zero,
     g_futex_info := \<lparr>total_waiters = 0, wake_ops = 0, timeout_reaps = 0, used_slots = 0\<rparr>, g_futex_status := ''futex: ready''\<rparr>"

definition drop_waiters :: "u32 \<Rightarrow> futex_info_t \<Rightarrow> futex_info_t" where
  "drop_waiters n info = (if total_waiters info \<ge> n then info\<lparr>total_waiters := total_waiters info - n\<rparr> else info\<lparr>total_waiters := 0\<rparr>)"

definition drop_slot :: "futex_info_t \<Rightarrow> futex_info_t" where
  "drop_slot info = (if used_slots info > 0 then info\<lparr>used_slots := used_slots info - 1\<rparr> else info)"

definition futex_reap :: "u64 \<Rightarrow> nat \<Rightarrow> kfutex \<Rightarrow> kfutex" where
  "futex_reap now i s =
     (let slot = g_slots s ! i in
      if \<not> fx_used slot \<or> fx_deadline slot = 0 \<or> now < fx_deadline slot then s
      else let info = drop_slot (drop_waiters (fx_waiters slot) (g_futex_info s))
           in s\<lparr>g_slots := (g_slots s)[i := slot\<lparr>fx_used := False, fx_waiters := 0, fx_deadline := 0\<rparr>],
                g_futex_info := info\<lparr>timeout_reaps := timeout_reaps info + 1\<rparr>, g_futex_status := ''futex: timeout reaped''\<rparr>)"

definition futex_update :: "u64 \<Rightarrow> kfutex \<Rightarrow> kfutex" where
  "futex_update now s = fold (futex_reap now) [0..<FUTEX_MAX_SLOTS] s"

definition futex_wait :: "u64 \<Rightarrow> u64 \<Rightarrow> u32 \<Rightarrow> u32 \<Rightarrow> kfutex \<Rightarrow> int \<times> kfutex" where
  "futex_wait now address expected timeout_ticks s =
     (if address = 0 then (-1, s\<lparr>g_futex_status := ''futex: bad address''\<rparr>)
      else case futex_find_or_create_slot address s of
        (None, s) \<Rightarrow> (-1, s\<lparr>g_futex_status := ''futex: table full''\<rparr>)
      | (Some i, s) \<Rightarrow>
          let slot = g_slots s ! i;
              slot = slot\<lparr>fx_expected := expected, fx_waiters := fx_waiters slot + 1, fx_deadline := (if timeout_ticks = 0 then 0 else now + ucast timeout_ticks)\<rparr>
          in (sint (fx_waiters slot),
              s\<lparr>g_slots := (g_slots s)[i := slot], g_futex_info := (g_futex_info s)\<lparr>total_waiters := total_waiters (g_futex_info s) + 1\<rparr>,
                g_futex_status := ''futex: waiter queued''\<rparr>))"

definition futex_wake :: "u64 \<Rightarrow> u32 \<Rightarrow> kfutex \<Rightarrow> u32 \<times> kfutex" where
  "futex_wake address count s =
     (case futex_find_slot address s of
        None \<Rightarrow> (0, s\<lparr>g_futex_status := ''futex: no waiters''\<rparr>)
      | Some i \<Rightarrow>
          let slot = g_slots s ! i;
              wake_count = (if count = 0 \<or> count > fx_waiters slot then fx_waiters slot else count);
              slot = slot\<lparr>fx_waiters := fx_waiters slot - wake_count\<rparr>;
              info = drop_waiters wake_count (g_futex_info s);
              (slot, info) = (if fx_waiters slot = 0 then (slot\<lparr>fx_used := False, fx_deadline := 0\<rparr>, drop_slot info) else (slot, info))
          in (wake_count, s\<lparr>g_slots := (g_slots s)[i := slot], g_futex_info := info\<lparr>wake_ops := wake_ops info + wake_count\<rparr>,
                g_futex_status := ''futex: wake complete''\<rparr>))"

definition futex_waiter_count :: "u64 \<Rightarrow> kfutex \<Rightarrow> u32" where
  "futex_waiter_count address s = (case futex_find_slot address s of None \<Rightarrow> 0 | Some i \<Rightarrow> fx_waiters (g_slots s ! i))"

section \<open>Accounting\<close>

definition slot_ok :: "futex_slot_t \<Rightarrow> bool" where
  "slot_ok e \<longleftrightarrow> (fx_used e \<longleftrightarrow> fx_waiters e \<noteq> 0)"

definition waiters_sum :: "futex_slot_t list \<Rightarrow> nat" where
  "waiters_sum es = sum_list (map (\<lambda>e. unat (fx_waiters e)) es)"

definition futex_inv :: "nat \<Rightarrow> kfutex \<Rightarrow> bool" where
  "futex_inv n s \<longleftrightarrow> length (g_slots s) = FUTEX_MAX_SLOTS \<and> (\<forall>e \<in> set (g_slots s). slot_ok e) \<and>
     (\<forall>i < FUTEX_MAX_SLOTS. \<forall>j < FUTEX_MAX_SLOTS. fx_used (g_slots s ! i) \<and> fx_used (g_slots s ! j) \<and> fx_address (g_slots s ! i) = fx_address (g_slots s ! j) \<longrightarrow> i = j) \<and>
     unat (total_waiters (g_futex_info s)) = waiters_sum (g_slots s) \<and> waiters_sum (g_slots s) \<le> n \<and>
     unat (used_slots (g_futex_info s)) = length (filter fx_used (g_slots s))"

lemma futex_init_inv: "futex_inv 0 (futex_init s)"
proof -
  have "waiters_sum (replicate FUTEX_MAX_SLOTS futex_slot_zero) = 0" "filter fx_used (replicate FUTEX_MAX_SLOTS futex_slot_zero) = []"
    by (simp_all add: waiters_sum_def sum_list_replicate futex_slot_zero_def)
  then show ?thesis by (simp add: futex_inv_def futex_init_def slot_ok_def futex_slot_zero_def)
qed

text \<open>Removing waiters of one slot: the totals follow.\<close>

lemma futex_inv_slot:
  assumes inv: "futex_inv n s" and i: "i < FUTEX_MAX_SLOTS" and e: "slot_ok e" "fx_address e = fx_address (g_slots s ! i)" "fx_used e \<longrightarrow> fx_used (g_slots s ! i)"
    and w: "unat (fx_waiters e) \<le> unat (fx_waiters (g_slots s ! i))"
    and s': "g_slots s' = (g_slots s)[i := e]"
      "unat (total_waiters (g_futex_info s')) + unat (fx_waiters (g_slots s ! i)) = unat (total_waiters (g_futex_info s)) + unat (fx_waiters e)"
      "unat (used_slots (g_futex_info s')) + of_bool (fx_used (g_slots s ! i)) = unat (used_slots (g_futex_info s)) + of_bool (fx_used e)"
  shows "futex_inv n s'"
proof -
  have len: "length (g_slots s) = FUTEX_MAX_SLOTS" using inv by (simp add: futex_inv_def)
  have "waiters_sum (g_slots s') + unat (fx_waiters (g_slots s ! i)) = waiters_sum (g_slots s) + unat (fx_waiters e)"
    unfolding waiters_sum_def s'(1) using sum_list_map_update [of i "g_slots s" "\<lambda>e. unat (fx_waiters e)" e] i len by simp
  moreover have "length (filter fx_used (g_slots s')) + of_bool (fx_used (g_slots s ! i)) = length (filter fx_used (g_slots s)) + of_bool (fx_used e)"
    unfolding s'(1) using length_filter_update [of i "g_slots s" fx_used e] i len by simp
  moreover have "\<forall>x \<in> set (g_slots s'). slot_ok x" using inv e(1) set_update_subset_insert [of "g_slots s" i e] by (auto simp: futex_inv_def s'(1))
  moreover have "j = k" if "j < FUTEX_MAX_SLOTS" "k < FUTEX_MAX_SLOTS" "fx_used (g_slots s' ! j)" "fx_used (g_slots s' ! k)" "fx_address (g_slots s' ! j) = fx_address (g_slots s' ! k)" for j k
  proof -
    have nth: "g_slots s' ! m = (if i = m then e else g_slots s ! m)" if "m < FUTEX_MAX_SLOTS" for m using that len by (simp add: s'(1) nth_update_lt)
    have u: "fx_used (g_slots s ! m)" if "m < FUTEX_MAX_SLOTS" "fx_used (g_slots s' ! m)" for m using nth [OF that(1)] that(2) e(3) by (cases "i = m") simp_all
    have a: "fx_address (g_slots s' ! m) = fx_address (g_slots s ! m)" if "m < FUTEX_MAX_SLOTS" for m using nth [OF that] e(2) by (cases "i = m") simp_all
    show ?thesis using inv u [OF that(1,3)] u [OF that(2,4)] that(5) a [OF that(1)] a [OF that(2)] that(1,2) unfolding futex_inv_def by metis
  qed
  ultimately show ?thesis using inv s'(2,3) w len unfolding futex_inv_def s'(1) by (simp add: s'(1))
qed

lemma futex_find_SomeD:
  assumes "futex_inv n s" "futex_find_slot a s = Some i"
  shows "i < FUTEX_MAX_SLOTS" "fx_used (g_slots s ! i)" "fx_address (g_slots s ! i) = a" "slot_ok (g_slots s ! i)"
  using find_index_SomeD [OF assms(2) [unfolded futex_find_slot_def]] assms(1) by (auto simp: futex_inv_def)

lemma slot_le_total:
  assumes "futex_inv n s" "i < FUTEX_MAX_SLOTS"
  shows "unat (fx_waiters (g_slots s ! i)) \<le> unat (total_waiters (g_futex_info s))"
  using assms sum_list_member_le [of i "g_slots s" "\<lambda>e. unat (fx_waiters e)"] by (simp add: futex_inv_def waiters_sum_def)

lemma used_positive:
  assumes "futex_inv n s" "i < FUTEX_MAX_SLOTS" "fx_used (g_slots s ! i)"
  shows "0 < unat (used_slots (g_futex_info s))"
proof -
  have "g_slots s ! i \<in> set (filter fx_used (g_slots s))" using assms by (simp add: futex_inv_def)
  from length_pos_if_in_set [OF this] show ?thesis using assms(1) unfolding futex_inv_def by presburger
qed

lemma drop_waiters_unat: "unat k \<le> unat (total_waiters f) \<Longrightarrow> unat (total_waiters (drop_waiters k f)) = unat (total_waiters f) - unat k"
  "used_slots (drop_waiters k f) = used_slots f"
  by (simp_all add: drop_waiters_def word_le_nat_alt unat_sub)

lemma drop_slot_unat: "0 < unat (used_slots f) \<Longrightarrow> unat (used_slots (drop_slot f)) = unat (used_slots f) - 1"
  "total_waiters (drop_slot f) = total_waiters f"
  by (simp_all add: drop_slot_def word_less_nat_alt unat_minus_one unat_gt_0)

lemma futex_reap_inv:
  assumes inv: "futex_inv n s" and i: "i < FUTEX_MAX_SLOTS"
  shows "futex_inv n (futex_reap now i s)"
proof (cases "\<not> fx_used (g_slots s ! i) \<or> fx_deadline (g_slots s ! i) = 0 \<or> now < fx_deadline (g_slots s ! i)")
  case True
  then show ?thesis using inv by (simp add: futex_reap_def Let_def)
next
  case False
  let ?e = "(g_slots s ! i)\<lparr>fx_used := False, fx_waiters := 0, fx_deadline := 0\<rparr>"
  note L = slot_le_total [OF inv i] and U = used_positive [OF inv i]
  have r: "g_slots (futex_reap now i s) = (g_slots s)[i := ?e]"
    "total_waiters (g_futex_info (futex_reap now i s)) = total_waiters (drop_waiters (fx_waiters (g_slots s ! i)) (g_futex_info s))"
    "used_slots (g_futex_info (futex_reap now i s)) = used_slots (drop_slot (drop_waiters (fx_waiters (g_slots s ! i)) (g_futex_info s)))"
    using False by (simp_all add: futex_reap_def Let_def drop_slot_unat(2))
  show ?thesis
    by (rule futex_inv_slot [OF inv i _ _ _ _ r(1)])
      (use False L U in \<open>simp_all add: slot_ok_def r drop_waiters_unat drop_slot_unat\<close>)
qed

lemma futex_update_inv:
  assumes "futex_inv n s"
  shows "futex_inv n (futex_update now s)"
proof -
  have "futex_inv n (fold (futex_reap now) is s)" if "\<forall>i \<in> set is. i < FUTEX_MAX_SLOTS" for "is"
    using assms that by (induction "is" arbitrary: s) (simp_all add: futex_reap_inv)
  then show ?thesis by (simp add: futex_update_def)
qed

lemma futex_wake_inv:
  assumes inv: "futex_inv n s"
  shows "futex_inv n (snd (futex_wake a c s))"
proof (cases "futex_find_slot a s")
  case None
  then show ?thesis using inv by (simp add: futex_wake_def futex_inv_def)
next
  case (Some i)
  note F = futex_find_SomeD [OF inv Some] and L = slot_le_total [OF inv]
  define w where "w = fx_waiters (g_slots s ! i)"
  define k where "k = (if c = 0 \<or> c > w then w else c)"
  have k: "unat k \<le> unat w" by (simp add: k_def word_less_nat_alt)
  then have sub: "unat (w - k) = unat w - unat k" by (simp add: unat_sub word_le_nat_alt)
  have kt: "unat k \<le> unat (total_waiters (g_futex_info s))" using k L [OF F(1)] by (simp add: w_def)
  define e where "e = (if w - k = 0 then (g_slots s ! i)\<lparr>fx_waiters := w - k, fx_used := False, fx_deadline := 0\<rparr> else (g_slots s ! i)\<lparr>fx_waiters := w - k\<rparr>)"
  define s' where "s' = snd (futex_wake a c s)"
  have r: "g_slots s' = (g_slots s)[i := e]" "total_waiters (g_futex_info s') = total_waiters (drop_waiters k (g_futex_info s))"
    "used_slots (g_futex_info s') = (if w - k = 0 then used_slots (drop_slot (drop_waiters k (g_futex_info s))) else used_slots (g_futex_info s))"
    unfolding s'_def futex_wake_def Some option.case Let_def w_def [symmetric] k_def [symmetric] e_def
    by (simp_all add: drop_slot_unat(2) drop_waiters_unat(2))
  have ew: "fx_waiters e = w - k" "fx_address e = fx_address (g_slots s ! i)" "fx_used e \<longleftrightarrow> w - k \<noteq> 0" using F(2) by (simp_all add: e_def)
  have "futex_inv n s'"
    by (rule futex_inv_slot [OF inv F(1) _ ew(2) _ _ r(1)])
      (use F(2) ew k kt sub used_positive [OF inv F(1,2)] in \<open>simp_all add: slot_ok_def r drop_waiters_unat drop_slot_unat w_def [symmetric]\<close>)
  then show ?thesis by (simp add: s'_def)
qed

text \<open>Waiting adds one waiter, to the slot of the address or to a free one.\<close>

lemma futex_wait_cases:
  assumes inv: "futex_inv n s"
  obtains (refused) st where "futex_wait now a x t s = (-1, s\<lparr>g_futex_status := st\<rparr>)"
    | (queued) i e r s' where "futex_wait now a x t s = (r, s')" "i < FUTEX_MAX_SLOTS" "g_slots s' = (g_slots s)[i := e]" "fx_used e" "fx_address e = a"
      "fx_waiters e = fx_waiters (g_slots s ! i) + 1" "total_waiters (g_futex_info s') = total_waiters (g_futex_info s) + 1"
      "used_slots (g_futex_info s') = used_slots (g_futex_info s) + of_bool (\<not> fx_used (g_slots s ! i))" "r = sint (fx_waiters e)"
      "futex_find_slot a s = Some i \<or> (futex_find_slot a s = None \<and> \<not> fx_used (g_slots s ! i))"
proof (cases "a = 0")
  case True
  then show ?thesis using refused by (simp add: futex_wait_def)
next
  case a: False
  have len: "length (g_slots s) = FUTEX_MAX_SLOTS" using inv by (simp add: futex_inv_def)
  let ?d = "if t = 0 then 0 else now + ucast t :: u64"
  show ?thesis
  proof (cases "futex_find_slot a s")
    case (Some i)
    note F = futex_find_SomeD [OF inv Some]
    let ?e = "(g_slots s ! i)\<lparr>fx_expected := x, fx_waiters := fx_waiters (g_slots s ! i) + 1, fx_deadline := ?d\<rparr>"
    show ?thesis
      by (rule queued [of "sint (fx_waiters ?e)" "s\<lparr>g_slots := (g_slots s)[i := ?e], g_futex_info := (g_futex_info s)\<lparr>total_waiters := total_waiters (g_futex_info s) + 1\<rparr>,
            g_futex_status := ''futex: waiter queued''\<rparr>" i ?e])
        (use a Some F in \<open>simp_all add: futex_wait_def futex_find_or_create_slot_def Let_def\<close>)
  next
    case None
    show ?thesis
    proof (cases "find_index (\<lambda>e. \<not> fx_used e) (g_slots s)")
      case full: None
      then show ?thesis using refused a None by (simp add: futex_wait_def futex_find_or_create_slot_def)
    next
      case (Some i)
      note F = find_index_SomeD [OF Some]
      let ?e = "(g_slots s ! i)\<lparr>fx_used := True, fx_address := a, fx_expected := x, fx_waiters := fx_waiters (g_slots s ! i) + 1, fx_deadline := ?d\<rparr>"
      show ?thesis
        by (rule queued [of "sint (fx_waiters ?e)" "s\<lparr>g_slots := (g_slots s)[i := ?e], g_futex_info := (g_futex_info s)\<lparr>used_slots := used_slots (g_futex_info s) + 1,
              total_waiters := total_waiters (g_futex_info s) + 1\<rparr>, g_futex_status := ''futex: waiter queued''\<rparr>" i ?e])
          (use a None Some F len in \<open>simp_all add: futex_wait_def futex_find_or_create_slot_def Let_def\<close>)
    qed
  qed
qed

lemma futex_wait_inv:
  assumes inv: "futex_inv n s" and n: "Suc n < 4294967296"
  shows "futex_inv (Suc n) (snd (futex_wait now a x t s))"
proof (cases rule: futex_wait_cases [OF inv, of now a x t])
  case (1 st)
  then show ?thesis using inv by (simp add: futex_inv_def)
next
  case (2 i e r s')
  have len: "length (g_slots s) = FUTEX_MAX_SLOTS" and sum: "unat (total_waiters (g_futex_info s)) = waiters_sum (g_slots s)" "waiters_sum (g_slots s) \<le> n"
    and us: "unat (used_slots (g_futex_info s)) = length (filter fx_used (g_slots s))" using inv by (simp_all add: futex_inv_def)
  have w: "unat (fx_waiters e) = Suc (unat (fx_waiters (g_slots s ! i)))"
    unfolding 2(6) using slot_le_total [OF inv 2(2)] sum n by (subst unat_add_u32) simp_all
  have "waiters_sum (g_slots s') = Suc (waiters_sum (g_slots s))"
    unfolding waiters_sum_def 2(3) using sum_list_map_update [of i "g_slots s" "\<lambda>e. unat (fx_waiters e)" e] 2(2) len w by simp
  moreover have "unat (total_waiters (g_futex_info s')) = Suc (unat (total_waiters (g_futex_info s)))"
    unfolding 2(7) using sum n by (subst unat_add_u32) simp_all
  moreover have "length (filter fx_used (g_slots s')) + of_bool (fx_used (g_slots s ! i)) = length (filter fx_used (g_slots s)) + 1"
    unfolding 2(3) using length_filter_update [of i "g_slots s" fx_used e] 2(2,4) len by simp
  moreover have "length (filter fx_used (g_slots s)) \<le> 16" using length_filter_le [of fx_used "g_slots s"] len by (simp add: FUTEX_MAX_SLOTS_def)
  then have "unat (used_slots (g_futex_info s')) = unat (used_slots (g_futex_info s)) + of_bool (\<not> fx_used (g_slots s ! i))"
    unfolding 2(8) using us by (cases "fx_used (g_slots s ! i)") (simp_all add: unat_add_u32)
  moreover have "\<forall>y \<in> set (g_slots s'). slot_ok y"
  proof -
    have "slot_ok e" using 2(4) w unat_gt_0 [of "fx_waiters e"] by (simp add: slot_ok_def)
    then show ?thesis using inv set_update_subset_insert [of "g_slots s" i e] unfolding 2(3) futex_inv_def by blast
  qed
  moreover have "j = k" if jk: "j < FUTEX_MAX_SLOTS" "k < FUTEX_MAX_SLOTS" "fx_used (g_slots s' ! j)" "fx_used (g_slots s' ! k)" "fx_address (g_slots s' ! j) = fx_address (g_slots s' ! k)" for j k
  proof -
    have nth: "g_slots s' ! m = (if i = m then e else g_slots s ! m)" if "m < FUTEX_MAX_SLOTS" for m using that len by (simp add: 2(3) nth_update_lt)
    have only: "m = i" if "m < FUTEX_MAX_SLOTS" "fx_used (g_slots s ! m)" "fx_address (g_slots s ! m) = a" for m
    proof -
      have "futex_find_slot a s \<noteq> None" using that len nth_mem [of m "g_slots s"] unfolding futex_find_slot_def find_index_None_iff by auto
      then have "futex_find_slot a s = Some i" using 2(10) by auto
      from futex_find_SomeD [OF inv this] that inv show ?thesis unfolding futex_inv_def by blast
    qed
    consider "j = i" "k = i" | "j = i" "k \<noteq> i" | "j \<noteq> i" "k = i" | "j \<noteq> i" "k \<noteq> i" by blast
    then show ?thesis
    proof cases
      case 2
      then show ?thesis using only [of k] nth [OF jk(1)] nth [OF jk(2)] jk \<open>fx_address e = a\<close> by simp
    next
      case 3
      then show ?thesis using only [of j] nth [OF jk(1)] nth [OF jk(2)] jk \<open>fx_address e = a\<close> by simp
    next
      case 4
      then show ?thesis using inv nth [OF jk(1)] nth [OF jk(2)] jk unfolding futex_inv_def by simp
    qed simp
  qed
  ultimately have "futex_inv (Suc n) s'" using len sum us unfolding futex_inv_def by (cases "fx_used (g_slots s ! i)") (simp_all add: 2(3))
  then show ?thesis using 2(1) by simp
qed

section \<open>Sequences of calls\<close>

datatype futex_op = Wait u64 u64 u32 u32 | Wake u64 u32 | Update u64

fun futex_exec :: "futex_op \<Rightarrow> kfutex \<Rightarrow> kfutex" where
  "futex_exec (Wait now a x t) s = snd (futex_wait now a x t s)"
| "futex_exec (Wake a c) s = snd (futex_wake a c s)"
| "futex_exec (Update now) s = futex_update now s"

lemma futex_inv_mono: "futex_inv n s \<Longrightarrow> n \<le> m \<Longrightarrow> futex_inv m s"
  by (auto simp: futex_inv_def)

lemma futex_exec_inv: "futex_inv n s \<Longrightarrow> Suc n < 4294967296 \<Longrightarrow> futex_inv (Suc n) (futex_exec op s)"
  using futex_wait_inv futex_wake_inv futex_update_inv futex_inv_mono [of n _ "Suc n"] by (cases op) auto

lemma futex_run_inv: "futex_inv n s \<Longrightarrow> n + length ops < 4294967296 \<Longrightarrow> futex_inv (n + length ops) (fold futex_exec ops s)"
proof (induction ops arbitrary: n s)
  case (Cons op ops)
  have "futex_inv (Suc n) (futex_exec op s)" by (rule futex_exec_inv) (use Cons.prems in simp_all)
  from Cons.IH [OF this] Cons.prems show ?case by simp
qed simp

lemma futex_wake_count:
  assumes inv: "futex_inv n s" and w: "futex_wake a c s = (k, s')"
  shows "unat k = (if c = 0 then unat (futex_waiter_count a s) else min (unat c) (unat (futex_waiter_count a s)))"
    "unat (futex_waiter_count a s') = unat (futex_waiter_count a s) - unat k"
proof -
  have "unat k = (if c = 0 then unat (futex_waiter_count a s) else min (unat c) (unat (futex_waiter_count a s))) \<and>
    unat (futex_waiter_count a s') = unat (futex_waiter_count a s) - unat k"
  proof (cases "futex_find_slot a s")
    case None
    then have "k = 0" "s' = s\<lparr>g_futex_status := ''futex: no waiters''\<rparr>" using w by (simp_all add: futex_wake_def)
    then show ?thesis using None by (simp add: futex_waiter_count_def futex_find_slot_def)
  next
    case (Some i)
    note F = futex_find_SomeD [OF inv Some]
    have len: "length (g_slots s) = FUTEX_MAX_SLOTS" using inv by (simp add: futex_inv_def)
    define q where "q = fx_waiters (g_slots s ! i)"
    have k: "k = (if c = 0 \<or> c > q then q else c)" using w Some by (auto simp: futex_wake_def Let_def q_def split: prod.splits)
    then have kq: "unat k \<le> unat q" by (simp add: word_less_nat_alt)
    then have sub: "unat (q - k) = unat q - unat k" by (simp add: unat_sub word_le_nat_alt)
    define e where "e = (if q - k = 0 then (g_slots s ! i)\<lparr>fx_waiters := q - k, fx_used := False, fx_deadline := 0\<rparr> else (g_slots s ! i)\<lparr>fx_waiters := q - k\<rparr>)"
    have g: "g_slots s' = (g_slots s)[i := e]"
      using w unfolding futex_wake_def Some option.case Let_def q_def [symmetric] k [symmetric] e_def by (auto split: if_splits)
    have q: "futex_waiter_count a s = q" using Some by (simp add: futex_waiter_count_def q_def)
    have none: "\<not> (fx_used (g_slots s ! j) \<and> fx_address (g_slots s ! j) = a)" if "j < FUTEX_MAX_SLOTS" "j \<noteq> i" for j
      using inv that F(1-3) unfolding futex_inv_def by blast
    have "futex_waiter_count a s' = q - k"
    proof (cases "q - k = 0")
      case True
      have "\<not> (fx_used x \<and> fx_address x = a)" if x: "x \<in> set (g_slots s')" for x
      proof -
        obtain j where j: "j < FUTEX_MAX_SLOTS" "x = g_slots s' ! j" using x len unfolding g by (auto simp: in_set_conv_nth)
        have "x = (if i = j then e else g_slots s ! j)" using j len by (simp add: g nth_update_lt)
        then show ?thesis using none [OF j(1)] True by (cases "i = j") (auto simp: e_def)
      qed
      then have "futex_find_slot a s' = None" by (simp add: futex_find_slot_def find_index_None_iff)
      then show ?thesis using True by (simp add: futex_waiter_count_def)
    next
      case False
      have e: "fx_used e" "fx_address e = a" "fx_waiters e = q - k" using False F(2,3) by (simp_all add: e_def)
      have "futex_find_slot a s' = Some i"
        unfolding futex_find_slot_def find_index_Some_iff g using F(1) len e none by (auto simp: nth_update_lt)
      then show ?thesis using e(3) F(1) len by (simp add: futex_waiter_count_def g)
    qed
    then show ?thesis using q sub k kq by (auto simp: word_less_nat_alt)
  qed
  then show "unat k = (if c = 0 then unat (futex_waiter_count a s) else min (unat c) (unat (futex_waiter_count a s)))"
    "unat (futex_waiter_count a s') = unat (futex_waiter_count a s) - unat k" by blast+
qed

section \<open>Properties\<close>

text \<open>C31: after any sequence of fewer than \<open>2\<^sup>3\<^sup>2\<close> waits, wakes and timer updates, the total of waiters is the sum over the
  slots, the number of used slots is right, a slot is in use exactly while it has waiters and no address has two
  slots; and a wake wakes the number asked for, or all when it is zero or too large, and leaves the others.\<close>

theorem futex_accounting:
  assumes "length ops < 4294967296" "s = fold futex_exec ops (futex_init t)" "futex_wake a c s = (k, s')"
  shows "unat (total_waiters (g_futex_info s)) = sum_list (map (\<lambda>e. unat (fx_waiters e)) (g_slots s)) \<and>
    unat (used_slots (g_futex_info s)) = length (filter fx_used (g_slots s)) \<and> (\<forall>e \<in> set (g_slots s). fx_used e \<longleftrightarrow> fx_waiters e \<noteq> 0) \<and>
    unat k = (if c = 0 then unat (futex_waiter_count a s) else min (unat c) (unat (futex_waiter_count a s))) \<and>
    unat (futex_waiter_count a s') = unat (futex_waiter_count a s) - unat k"
proof -
  have inv: "futex_inv (length ops) s" using futex_run_inv [OF futex_init_inv, of ops t] assms(1,2) by simp
  then show ?thesis using futex_wake_count [OF inv assms(3)] by (simp add: futex_inv_def waiters_sum_def slot_ok_def)
qed

theorem futex_accounting_witness:
  "\<exists>k s'. futex_wake 64 1 (fold futex_exec [Wait 5 64 0 0, Wait 6 64 0 9] (futex_init \<lparr>g_slots = [],
      g_futex_info = \<lparr>total_waiters = 0, wake_ops = 0, timeout_reaps = 0, used_slots = 0\<rparr>, g_futex_status = []\<rparr>)) = (k, s') \<and>
    k = 1 \<and> futex_waiter_count 64 s' = 1"
proof -
  define t where "t = \<lparr>g_slots = [], g_futex_info = \<lparr>total_waiters = 0, wake_ops = 0, timeout_reaps = 0, used_slots = 0\<rparr>, g_futex_status = []\<rparr>"
  define s where "s = fold futex_exec [Wait 5 64 0 0, Wait 6 64 0 9] (futex_init t)"
  obtain k s' where w: "futex_wake 64 1 s = (k, s')" by (cases "futex_wake 64 1 s")
  have "futex_waiter_count 64 s = 2" unfolding s_def t_def by code_simp
  moreover have "length [Wait 5 64 0 0, Wait 6 64 0 9] < 4294967296" by simp
  ultimately have "unat k = 1" "unat (futex_waiter_count 64 s') = 1" using futex_accounting [OF _ s_def w] by simp_all
  then have "k = 1" "futex_waiter_count 64 s' = 1" by (simp_all add: word_unat_eq_iff)
  then show ?thesis using w unfolding s_def t_def by blast
qed

end
