(* ===== verification/Crc32.thy ===== *)
theory Crc32
  imports Kernel_Prelude
begin

text \<open>
  The checksum of \<^verbatim>\<open>lib/crc32.c\<close>: a table of 256 words that is built on first use, and a
  byte-at-a-time update.  The reference is the bit-serial shift register of the same polynomial, to which the
  bits of the message are fed one by one, lowest bit of each byte first.
\<close>

section \<open>State and operations\<close>

record kcrc =
  g_crc_table :: "u32 list"
  g_crc_ready :: bool

definition CRC_POLY :: u32 where "CRC_POLY = 0xEDB88320"

definition crc_shift :: "u32 \<Rightarrow> u32" where
  "crc_shift c = (if c AND 1 \<noteq> 0 then CRC_POLY XOR drop_bit 1 c else drop_bit 1 c)"

definition crc32_build_table :: "kcrc \<Rightarrow> kcrc" where
  "crc32_build_table s =
     (fold (\<lambda>i s. s\<lparr>g_crc_table := (g_crc_table s)[i := (crc_shift ^^ 8) (of_nat i)]\<rparr>) [0..<256] s)\<lparr>g_crc_ready := True\<rparr>"

definition crc32_init :: "kcrc \<Rightarrow> u32 \<times> kcrc" where
  "crc32_init s = (0xFFFFFFFF, if \<not> g_crc_ready s then crc32_build_table s else s)"

fun crc_loop :: "u32 list \<Rightarrow> u8 list \<Rightarrow> u32 \<Rightarrow> u32" where
  "crc_loop table [] crc = crc"
| "crc_loop table (b # bs) crc = crc_loop table bs (table ! unat ((crc XOR ucast b) AND 0xFF) XOR drop_bit 8 crc)"

definition crc32_update :: "u32 \<Rightarrow> u8 list \<Rightarrow> kcrc \<Rightarrow> u32 \<times> kcrc" where
  "crc32_update crc data s =
     (let s = (if \<not> g_crc_ready s then crc32_build_table s else s) in (crc_loop (g_crc_table s) data crc, s))"

definition crc32_final :: "u32 \<Rightarrow> u32" where
  "crc32_final crc = crc XOR 0xFFFFFFFF"

definition crc32_buf :: "u8 list \<Rightarrow> kcrc \<Rightarrow> u32 \<times> kcrc" where
  "crc32_buf data s = (case crc32_init s of (crc, s) \<Rightarrow> case crc32_update crc data s of (crc, s) \<Rightarrow> (crc32_final crc, s))"

section \<open>The bit-serial reference\<close>

definition crc_feed :: "u32 \<Rightarrow> bool \<Rightarrow> u32" where
  "crc_feed c x = crc_shift (c XOR of_bool x)"

definition byte_bits :: "u8 \<Rightarrow> bool list" where
  "byte_bits b = map (bit b) [0..<8]"

definition crc_serial :: "u32 \<Rightarrow> bool list \<Rightarrow> u32" where
  "crc_serial c bits = foldl crc_feed c bits"

text \<open>The register is linear over exclusive or, and shifts zeros out unchanged.\<close>

lemma crc_shift_bit: "crc_shift c = (if bit c 0 then CRC_POLY XOR drop_bit 1 c else drop_bit 1 c)"
  by (simp add: crc_shift_def bit_0 and_one_eq odd_iff_mod_2_eq_one)

lemma crc_shift_xor: "crc_shift (a XOR b) = crc_shift a XOR crc_shift b"
  by (auto simp: crc_shift_bit bit_xor_iff drop_bit_xor ac_simps xor.left_commute)

lemma crc_shifts_xor: "(crc_shift ^^ n) (a XOR b) = (crc_shift ^^ n) a XOR (crc_shift ^^ n) b"
  by (induction n) (simp_all add: crc_shift_xor)

lemma crc_shifts_even:
  assumes "\<And>k. k < n \<Longrightarrow> \<not> bit c k"
  shows "(crc_shift ^^ n) c = drop_bit n c"
  using assms
proof (induction n)
  case (Suc n)
  then have "crc_shift (drop_bit n c) = drop_bit 1 (drop_bit n c)" by (simp add: crc_shift_bit bit_drop_bit_eq)
  then show ?case using Suc by simp
qed simp

lemma crc_serial_bits:
  assumes "n \<le> 8"
  shows "crc_serial c (map (bit b) [0..<n]) = (crc_shift ^^ n) (c XOR take_bit n (ucast b))"
  using assms
proof (induction n)
  case 0
  then show ?case by (simp add: crc_serial_def)
next
  case (Suc n)
  let ?b = "ucast b :: u32"
  have t: "take_bit (Suc n) ?b = take_bit n ?b XOR (if bit b n then push_bit n 1 else 0)"
    by (rule bit_word_eqI) (use Suc.prems in \<open>auto simp: bit_simps less_Suc_eq\<close>)
  have "(crc_shift ^^ n) (push_bit n 1) = drop_bit n (push_bit n (1 :: u32))" by (rule crc_shifts_even) (simp add: bit_simps)
  also have "\<dots> = 1" by (rule bit_word_eqI) (use Suc.prems in \<open>auto simp: bit_simps\<close>)
  finally have one: "(crc_shift ^^ n) (push_bit n 1) = 1" .
  have z: "(crc_shift ^^ n) 0 = 0" using crc_shifts_even [of n 0] by simp
  have "crc_serial c (map (bit b) [0..<Suc n]) = crc_feed (crc_serial c (map (bit b) [0..<n])) (bit b n)" by (simp add: crc_serial_def)
  also have "\<dots> = crc_shift ((crc_shift ^^ n) (c XOR take_bit n ?b) XOR of_bool (bit b n))" using Suc by (simp add: crc_feed_def)
  also have "\<dots> = crc_shift ((crc_shift ^^ n) (c XOR take_bit (Suc n) ?b))"
    unfolding t by (simp add: crc_shifts_xor one [simplified] z xor.assoc)
  finally show ?case by simp
qed

lemma crc_table_step:
  "(crc_shift ^^ 8) c = (crc_shift ^^ 8) (c AND 0xFF) XOR drop_bit 8 c"
proof -
  have m: "(0xFF :: u32) = mask 8" by (simp add: mask_eq_exp_minus_1)
  have s: "c = (c AND 0xFF) XOR (c AND NOT 0xFF)" by (rule bit_word_eqI) (auto simp: bit_simps)
  have "(crc_shift ^^ 8) (c AND NOT 0xFF) = drop_bit 8 (c AND NOT 0xFF)" unfolding m by (rule crc_shifts_even) (auto simp: bit_simps)
  also have "\<dots> = drop_bit 8 c" unfolding m by (rule bit_word_eqI) (auto simp: bit_simps dest: bit_imp_le_length)
  finally show ?thesis using s by (metis crc_shifts_xor)
qed

section \<open>The table\<close>

definition crc_table :: "u32 list" where
  "crc_table = map (\<lambda>i. (crc_shift ^^ 8) (of_nat i)) [0..<256]"

definition crc_inv :: "kcrc \<Rightarrow> bool" where
  "crc_inv s \<longleftrightarrow> length (g_crc_table s) = 256 \<and> (g_crc_ready s \<longrightarrow> g_crc_table s = crc_table)"

lemma fill_table:
  "n \<le> length (g_crc_table s) \<Longrightarrow>
   g_crc_table (fold (\<lambda>i s. s\<lparr>g_crc_table := (g_crc_table s)[i := f i]\<rparr>) [0..<n] s) = map f [0..<n] @ drop n (g_crc_table s)"
proof (induction n)
  case (Suc n)
  let ?t = "g_crc_table s"
  have "(map f [0..<n] @ drop n ?t)[n := f n] = map f [0..<n] @ (drop n ?t)[0 := f n]" by (simp add: list_update_append)
  also have "\<dots> = map f [0..<n] @ f n # drop (Suc n) ?t" using Suc.prems by (simp add: Cons_nth_drop_Suc [symmetric])
  finally show ?case using Suc by simp
qed simp

lemma crc32_build_table_spec:
  assumes "length (g_crc_table s) = 256"
  shows "g_crc_table (crc32_build_table s) = crc_table" "g_crc_ready (crc32_build_table s)"
  using assms by (simp_all add: crc32_build_table_def fill_table crc_table_def)

lemma crc_loop_serial: "crc_loop crc_table data crc = crc_serial crc (concat (map byte_bits data))"
proof (induction data arbitrary: crc)
  case Nil
  then show ?case by (simp add: crc_serial_def)
next
  case (Cons b bs)
  let ?c = "crc XOR ucast b"
  have m: "(0xFF :: u32) = mask 8" by (simp add: mask_eq_exp_minus_1)
  have u: "unat (?c AND 0xFF) < 256" unfolding m take_bit_eq_mask [symmetric]
    unfolding unsigned_take_bit_eq using take_bit_nat_less_exp [of 8] by simp
  have d: "drop_bit 8 ?c = drop_bit 8 crc" by (rule bit_word_eqI) (auto simp: bit_simps dest: bit_imp_le_length)
  have t: "take_bit 8 (ucast b :: u32) = ucast b" by (rule bit_word_eqI) (auto simp: bit_simps dest: bit_imp_le_length)
  have "crc_serial crc (byte_bits b) = crc_table ! unat (?c AND 0xFF) XOR drop_bit 8 crc"
    using crc_table_step [of ?c] u d unfolding byte_bits_def crc_serial_bits [OF order_refl] t
    by (simp add: crc_table_def)
  then show ?case using Cons by (simp add: crc_serial_def)
qed

lemma crc32_update_spec:
  assumes "crc_inv s"
  shows "crc32_update crc data s = (crc_serial crc (concat (map byte_bits data)), snd (crc32_update crc data s))"
    "crc_inv (snd (crc32_update crc data s))"
  using assms crc32_build_table_spec [of s]
  by (auto simp: crc32_update_def Let_def crc_inv_def crc_loop_serial) (simp_all add: crc_table_def)

lemma crc32_update_fst: "crc_inv s \<Longrightarrow> fst (crc32_update crc data s) = crc_serial crc (concat (map byte_bits data))"
  by (subst crc32_update_spec(1)) simp_all

section \<open>Properties\<close>

text \<open>C32: the checksum computed with the table equals the bit-serial one, whether or not the table has been built
  before, and a message checked in two pieces gives the checksum of the whole.\<close>

theorem crc32_table_serial:
  assumes "crc_inv s"
  shows "fst (crc32_buf data s) = crc_serial 0xFFFFFFFF (concat (map byte_bits data)) XOR 0xFFFFFFFF \<and>
    crc_inv (snd (crc32_buf data s)) \<and>
    (case crc32_update crc d1 s of (c1, s1) \<Rightarrow> fst (crc32_update c1 d2 s1) = fst (crc32_update crc (d1 @ d2) s))"
proof -
  have i: "crc_inv (snd (crc32_init s))" using assms crc32_build_table_spec [of s] by (auto simp: crc32_init_def crc_inv_def) (simp_all add: crc_table_def)
  have f: "fst (crc32_init s) = 0xFFFFFFFF" by (simp add: crc32_init_def)
  note U = crc32_update_spec [OF i, of "0xFFFFFFFF" data]
  have "crc32_buf data s = (crc32_final (fst (crc32_update 0xFFFFFFFF data (snd (crc32_init s)))), snd (crc32_update 0xFFFFFFFF data (snd (crc32_init s))))"
    unfolding crc32_buf_def using f by (simp add: case_prod_beta)
  moreover have "fst (crc32_update 0xFFFFFFFF data (snd (crc32_init s))) = crc_serial 0xFFFFFFFF (concat (map byte_bits data))"
    by (rule crc32_update_fst [OF i])
  moreover have "case crc32_update crc d1 s of (c1, s1) \<Rightarrow> fst (crc32_update c1 d2 s1) = fst (crc32_update crc (d1 @ d2) s)"
    unfolding case_prod_beta crc32_update_fst [OF assms] crc32_update_fst [OF crc32_update_spec(2) [OF assms]] by (simp add: crc_serial_def)
  ultimately show ?thesis using U(2) by (simp add: crc32_final_def)
qed

text \<open>The check value of the algorithm, the checksum of the digits 1 to 9, from a cold start.\<close>

theorem crc32_table_serial_witness:
  "fst (crc32_buf [0x31, 0x32, 0x33, 0x34, 0x35, 0x36, 0x37, 0x38, 0x39] \<lparr>g_crc_table = replicate 256 0, g_crc_ready = False\<rparr>) = 0xCBF43926"
proof -
  have i: "crc_inv \<lparr>g_crc_table = replicate 256 0, g_crc_ready = False\<rparr>" by (simp add: crc_inv_def)
  have "crc_serial 0xFFFFFFFF (concat (map byte_bits [0x31, 0x32, 0x33, 0x34, 0x35, 0x36, 0x37, 0x38, 0x39])) XOR 0xFFFFFFFF = 0xCBF43926"
    by code_simp
  with crc32_table_serial [OF i, of "[0x31, 0x32, 0x33, 0x34, 0x35, 0x36, 0x37, 0x38, 0x39]"] show ?thesis by simp
qed

end
