(* ===== verification/Base64.thy ===== *)
theory Base64
  imports Kernel_Prelude
begin

text \<open>
  Base64 encoding and decoding (\<^verbatim>\<open>lib/base64.c\<close>).  The bytes or characters that a call stores in the output
  buffer of its caller are part of its result, also when it fails half way; a missing pointer is \<^const>\<open>None\<close>
  for an input and \<^const>\<open>False\<close> for the output; an input list holds at least \<open>input_size\<close> bytes.  The index of the encoding loop is the position in the list of
  bytes; it cannot wrap, since the guard on the length of the result admits fewer than \<open>2\<^sup>3\<^sup>1\<close> bytes.
\<close>

section \<open>Encoding\<close>

definition g_base64_table :: string where
  "g_base64_table = ''ABCDEFGHIJKLMNOPQRSTUVWXYZabcdefghijklmnopqrstuvwxyz0123456789+/''"

definition sextet :: "u32 \<Rightarrow> nat \<Rightarrow> char" where
  "sextet value k = g_base64_table ! unat (drop_bit k value AND 0x3F)"

fun base64_encode_loop :: "u8 list \<Rightarrow> string" where
  "base64_encode_loop (a # b # c # rest) =
     (let value = push_bit 16 (ucast a) OR push_bit 8 (ucast b) OR ucast c
      in [sextet value 18, sextet value 12, sextet value 6, sextet value 0] @ base64_encode_loop rest)"
| "base64_encode_loop [a, b] =
     (let value = push_bit 16 (ucast a) OR push_bit 8 (ucast b) in [sextet value 18, sextet value 12, sextet value 6, CHR ''=''])"
| "base64_encode_loop [a] = (let value = push_bit 16 (ucast a) in [sextet value 18, sextet value 12, CHR ''='', CHR ''=''])"
| "base64_encode_loop [] = []"

definition base64_encode :: "u8 list option \<Rightarrow> u32 \<Rightarrow> bool \<Rightarrow> u32 \<Rightarrow> int \<times> string option" where
  "base64_encode input input_size output output_size =
     (let out_len = ((ucast input_size + 2 :: u64) div 3) * 4 in
      if \<not> output \<or> (input = None \<and> input_size \<noteq> 0) \<or> out_len > 0x7FFFFFFF \<or> ucast output_size \<le> out_len then (-1, None)
      else let output = base64_encode_loop (case input of None \<Rightarrow> [] | Some data \<Rightarrow> take (unat input_size) data)
           in (int (length output), Some output))"

section \<open>Decoding\<close>

definition base64_decode_char :: "char \<Rightarrow> int" where
  "base64_decode_char ch =
     (let c = of_char ch :: int in
      if c \<ge> of_char CHR ''A'' \<and> c \<le> of_char CHR ''Z'' then c - of_char CHR ''A''
      else if c \<ge> of_char CHR ''a'' \<and> c \<le> of_char CHR ''z'' then c - of_char CHR ''a'' + 26
      else if c \<ge> of_char CHR ''0'' \<and> c \<le> of_char CHR ''9'' then c - of_char CHR ''0'' + 52
      else if ch = CHR ''+'' then 62
      else if ch = CHR ''/'' then 63
      else if ch = CHR ''='' then -2
      else if ch = CHR '' '' \<or> ch = CHR 0x0D \<or> ch = CHR 0x0A \<or> ch = CHR 0x09 then -3
      else -1)"

text \<open>A group of four values: the values with the padding replaced, and the number of bytes they stand for.\<close>

definition base64_group :: "int list \<Rightarrow> (int list \<times> u32) option" where
  "base64_group values =
     (if values ! 0 < 0 \<or> values ! 1 < 0 then None
      else if values ! 2 = -2 then (if values ! 3 \<noteq> -2 then None else Some (values[2 := 0, 3 := 0], 1))
      else if values ! 3 = -2 then (if values ! 2 < 0 then None else Some (values[3 := 0], 2))
      else if values ! 2 < 0 \<or> values ! 3 < 0 then None
      else Some (values, 3))"

definition base64_triple :: "int list \<Rightarrow> u32" where
  "base64_triple values = push_bit 18 (word_of_int (values ! 0)) OR push_bit 12 (word_of_int (values ! 1)) OR
     push_bit 6 (word_of_int (values ! 2)) OR word_of_int (values ! 3)"

definition base64_store :: "u32 \<Rightarrow> u32 \<Rightarrow> u8 list" where
  "base64_store triple bytes_to_write =
     [ucast (drop_bit 16 triple AND 0xFF)] @ (if bytes_to_write \<ge> 2 then [ucast (drop_bit 8 triple AND 0xFF)] else []) @
     (if bytes_to_write = 3 then [ucast (triple AND 0xFF)] else [])"

fun base64_decode_loop :: "u32 \<Rightarrow> string \<Rightarrow> int list \<Rightarrow> u8 list \<Rightarrow> bool \<Rightarrow> int \<times> u8 list" where
  "base64_decode_loop output_size [] values out finished = (if values \<noteq> [] then -1 else int (length out), out)"
| "base64_decode_loop output_size (c # cs) values out finished =
     (let value = base64_decode_char c in
      if value = -3 then base64_decode_loop output_size cs values out finished
      else if value = -1 \<or> finished then (-1, out)
      else let values = values @ [value] in
        if length values = 4
        then case base64_group values of
               None \<Rightarrow> (-1, out)
             | Some (values, bytes_to_write) \<Rightarrow>
                 let out_index = of_nat (length out) in
                 if bytes_to_write > output_size - out_index \<or> bytes_to_write > 0x7FFFFFFF - out_index then (-1, out)
                 else base64_decode_loop output_size cs [] (out @ base64_store (base64_triple values) bytes_to_write) (bytes_to_write < 3)
        else base64_decode_loop output_size cs values out finished)"

definition base64_decode :: "string option \<Rightarrow> bool \<Rightarrow> u32 \<Rightarrow> int \<times> u8 list" where
  "base64_decode input output output_size =
     (case input of
        None \<Rightarrow> (-1, [])
      | Some cs \<Rightarrow> if \<not> output \<and> output_size \<noteq> 0 then (-1, []) else base64_decode_loop output_size cs [] [] False)"

section \<open>Sextets\<close>

lemma decode_table: "n < 64 \<Longrightarrow> base64_decode_char (g_base64_table ! n) = int n"
proof -
  have "list_all (\<lambda>n. base64_decode_char (g_base64_table ! n) = int n) [0..<64]" by code_simp
  then show "n < 64 \<Longrightarrow> base64_decode_char (g_base64_table ! n) = int n" by (simp add: list_all_iff)
qed

lemma mask_6: "(0x3F :: u32) = mask 6" and mask_8: "(0xFF :: u32) = mask 8"
  by (simp_all add: mask_eq_exp_minus_1)

lemma decode_sextet: "base64_decode_char (sextet v k) = int (unat (take_bit 6 (drop_bit k v)))"
proof -
  have "unat (take_bit 6 (drop_bit k v)) < 64" unfolding unsigned_take_bit_eq using take_bit_nat_less_exp [of 6] by simp
  then show ?thesis unfolding sextet_def mask_6 take_bit_eq_mask [symmetric] by (rule decode_table)
qed

lemma sextet_nonneg: "0 \<le> base64_decode_char (sextet v k)"
  by (simp only: decode_sextet of_nat_0_le_iff)

lemma sextet_valid: "base64_decode_char (sextet v k) \<noteq> -3" "base64_decode_char (sextet v k) \<noteq> -1"
  using sextet_nonneg [of v k] by auto

lemma base64_group_values:
  assumes "0 \<le> v0" "0 \<le> v1"
  shows "0 \<le> v2 \<Longrightarrow> 0 \<le> v3 \<Longrightarrow> base64_group [v0, v1, v2, v3] = Some ([v0, v1, v2, v3], 3)"
    "0 \<le> v2 \<Longrightarrow> base64_group [v0, v1, v2, -2] = Some ([v0, v1, v2, 0], 2)"
    "base64_group [v0, v1, -2, -2] = Some ([v0, v1, 0, 0], 1)"
  using assms by (auto simp: base64_group_def numeral_2_eq_2 numeral_3_eq_3)

lemma decode_pad: "base64_decode_char CHR ''='' = -2"
  by (simp add: base64_decode_char_def)

lemma triple_of_sextets:
  assumes "v0 = int (unat (take_bit 6 (drop_bit 18 v)))" "v1 = int (unat (take_bit 6 (drop_bit 12 v)))"
    "v2 = int (unat (take_bit 6 (drop_bit 6 v)))" "v3 = int (unat (take_bit 6 (drop_bit 0 v)))"
  shows "base64_triple [v0, v1, v2, v3] = take_bit 24 v"
proof (rule bit_word_eqI)
  fix n assume n: "n < LENGTH(32)"
  consider "n < 6" | "6 \<le> n" "n < 12" | "12 \<le> n" "n < 18" | "18 \<le> n" by linarith
  then show "bit (base64_triple [v0, v1, v2, v3]) n = bit (take_bit 24 v) n"
    unfolding base64_triple_def assms by cases (use n in \<open>simp_all add: bit_simps less_diff_conv2\<close>)
qed

text \<open>One group of each size is decoded to the bytes it was made from.\<close>

lemma group_bytes:
  assumes "v = push_bit 16 (ucast a) OR push_bit 8 (ucast b) OR (ucast c :: u32)"
  shows "(ucast (drop_bit 16 (take_bit 24 v) AND 0xFF) :: u8) = a" "(ucast (drop_bit 8 (take_bit 24 v) AND 0xFF) :: u8) = b"
    "(ucast (take_bit 24 v AND 0xFF) :: u8) = c"
  unfolding assms mask_8 by (rule bit_word_eqI; auto simp: bit_simps dest: bit_imp_le_length)+

lemma group_3:
  assumes "v = push_bit 16 (ucast a) OR push_bit 8 (ucast b) OR (ucast c :: u32)"
  shows "base64_store (take_bit 24 v) 3 = [a, b, c]"
  unfolding base64_store_def group_bytes [OF assms] by simp

lemma group_2:
  assumes "v = push_bit 16 (ucast a) OR push_bit 8 (ucast b :: u32)"
  shows "base64_store (take_bit 24 v) 2 = [a, b]"
  unfolding base64_store_def using group_bytes [of v a b 0] assms by simp

lemma group_1:
  assumes "v = push_bit 16 (ucast a :: u32)"
  shows "base64_store (take_bit 24 v) 1 = [a]"
  unfolding base64_store_def using group_bytes [of v a 0 0] assms by (simp add: word_le_nat_alt)

section \<open>Decoding what was encoded\<close>

lemma room_for:
  fixes osz :: u32
  assumes "length out + k \<le> unat osz" "length out + k \<le> 0x7FFFFFFF" "k \<le> 3"
  shows "\<not> (of_nat k > osz - of_nat (length out) \<or> of_nat k > (0x7FFFFFFF :: u32) - of_nat (length out))"
proof -
  have u: "unat (of_nat (length out) :: u32) = length out" "unat (of_nat k :: u32) = k" using assms by (simp_all add: unat_of_nat_u32)
  have d: "unat (x - of_nat (length out)) = unat x - length out" if "length out \<le> unat x" for x :: u32
    using unat_sub [of "of_nat (length out)" x] that u(1) by (simp add: word_le_nat_alt)
  have "unat (osz - of_nat (length out)) = unat osz - length out" "unat ((0x7FFFFFFF :: u32) - of_nat (length out)) = 0x7FFFFFFF - length out"
    using d [of osz] d [of "0x7FFFFFFF"] assms by simp_all
  then show ?thesis using assms u unfolding word_less_nat_alt by linarith
qed

text \<open>Four characters at the start of a group, none of them white space.\<close>

lemma decode_four:
  assumes "\<And>c. c \<in> {c0, c1, c2, c3} \<Longrightarrow> base64_decode_char c \<noteq> -3 \<and> base64_decode_char c \<noteq> -1"
    and "base64_group (map base64_decode_char [c0, c1, c2, c3]) = Some (vs, of_nat k)" "k \<le> 3"
    and "length out + k \<le> unat osz" "length out + k \<le> 0x7FFFFFFF"
  shows "base64_decode_loop osz (c0 # c1 # c2 # c3 # cs) [] out False =
    base64_decode_loop osz cs [] (out @ base64_store (base64_triple vs) (of_nat k)) ((of_nat k :: u32) < 3)"
  using assms(1) [of c0] assms(1) [of c1] assms(1) [of c2] assms(1) [of c3] assms(2) room_for [OF assms(4,5,3)]
  by (simp add: Let_def)

lemma base64_decode_encode:
  "length out + length data \<le> unat osz \<Longrightarrow> length out + length data \<le> 0x7FFFFFFF \<Longrightarrow>
   base64_decode_loop osz (base64_encode_loop data) [] out False = (int (length out + length data), out @ data)"
proof (induction data arbitrary: out rule: base64_encode_loop.induct)
  case (1 a b c rest)
  define v :: u32 where "v = push_bit 16 (ucast a) OR push_bit 8 (ucast b) OR ucast c"
  let ?cs = "[sextet v 18, sextet v 12, sextet v 6, sextet v 0]"
  have e: "base64_encode_loop (a # b # c # rest) = sextet v 18 # sextet v 12 # sextet v 6 # sextet v 0 # base64_encode_loop rest"
    by (simp add: v_def Let_def)
  have g: "base64_group (map base64_decode_char ?cs) = Some (map base64_decode_char ?cs, of_nat 3)"
    by (simp add: base64_group_values sextet_nonneg)
  have t: "base64_triple (map base64_decode_char ?cs) = take_bit 24 v"
    unfolding list.map decode_sextet by (rule triple_of_sextets) simp_all
  have "base64_decode_loop osz (base64_encode_loop (a # b # c # rest)) [] out False = base64_decode_loop osz (base64_encode_loop rest) [] (out @ [a, b, c]) False"
  proof -
    have "base64_decode_loop osz (sextet v 18 # sextet v 12 # sextet v 6 # sextet v 0 # base64_encode_loop rest) [] out False =
      base64_decode_loop osz (base64_encode_loop rest) [] (out @ base64_store (base64_triple (map base64_decode_char ?cs)) (of_nat 3)) ((of_nat 3 :: u32) < 3)"
      by (rule decode_four [OF _ g]) (use "1.prems" in \<open>auto simp: sextet_valid\<close>)
    then show ?thesis unfolding e t using group_3 [OF v_def] by simp
  qed
  then show ?case using "1.IH" [of "push_bit 16 (ucast a) OR push_bit 8 (ucast b) OR ucast c" "out @ [a, b, c]"] "1.prems" by simp
next
  case (2 a b)
  define v :: u32 where "v = push_bit 16 (ucast a) OR push_bit 8 (ucast b)"
  let ?cs = "[sextet v 18, sextet v 12, sextet v 6, CHR ''='']"
  have z: "take_bit 6 (drop_bit 0 v) = 0" unfolding v_def by (rule bit_word_eqI) (auto simp: bit_simps)
  have g: "base64_group (map base64_decode_char ?cs) = Some ([base64_decode_char (sextet v 18), base64_decode_char (sextet v 12), base64_decode_char (sextet v 6), 0], of_nat 2)"
    by (simp add: base64_group_values sextet_nonneg decode_pad)
  have t: "base64_triple [base64_decode_char (sextet v 18), base64_decode_char (sextet v 12), base64_decode_char (sextet v 6), 0] = take_bit 24 v"
    unfolding decode_sextet by (rule triple_of_sextets) (simp_all only: z unat_0 of_nat_0)
  have "base64_decode_loop osz (base64_encode_loop [a, b]) [] out False = base64_decode_loop osz [] [] (out @ [a, b]) True"
  proof -
    have "base64_decode_loop osz (sextet v 18 # sextet v 12 # sextet v 6 # CHR ''='' # []) [] out False =
      base64_decode_loop osz [] [] (out @ base64_store (take_bit 24 v) (of_nat 2)) ((of_nat 2 :: u32) < 3)"
      unfolding t [symmetric] by (rule decode_four [OF _ g]) (use "2.prems" in \<open>auto simp: sextet_valid decode_pad\<close>)
    then show ?thesis using group_2 [OF v_def] unfolding base64_encode_loop.simps v_def [symmetric] Let_def by simp
  qed
  then show ?case by simp
next
  case (3 a)
  define v :: u32 where "v = push_bit 16 (ucast a)"
  let ?cs = "[sextet v 18, sextet v 12, CHR ''='', CHR ''='']"
  have z: "take_bit 6 (drop_bit 0 v) = 0" "take_bit 6 (drop_bit 6 v) = 0" unfolding v_def by (rule bit_word_eqI; auto simp: bit_simps)+
  have g: "base64_group (map base64_decode_char ?cs) = Some ([base64_decode_char (sextet v 18), base64_decode_char (sextet v 12), 0, 0], of_nat 1)"
    by (simp add: base64_group_values sextet_nonneg decode_pad)
  have t: "base64_triple [base64_decode_char (sextet v 18), base64_decode_char (sextet v 12), 0, 0] = take_bit 24 v"
    unfolding decode_sextet by (rule triple_of_sextets) (simp_all only: z unat_0 of_nat_0)
  have "base64_decode_loop osz (base64_encode_loop [a]) [] out False = base64_decode_loop osz [] [] (out @ [a]) True"
  proof -
    have "base64_decode_loop osz (sextet v 18 # sextet v 12 # CHR ''='' # CHR ''='' # []) [] out False =
      base64_decode_loop osz [] [] (out @ base64_store (take_bit 24 v) (of_nat 1)) ((of_nat 1 :: u32) < 3)"
      unfolding t [symmetric] by (rule decode_four [OF _ g]) (use "3.prems" in \<open>auto simp: sextet_valid decode_pad\<close>)
    then show ?thesis using group_1 [OF v_def] unfolding base64_encode_loop.simps v_def [symmetric] Let_def by simp
  qed
  then show ?case by simp
next
  case 4
  then show ?case by simp
qed

section \<open>Lengths\<close>

lemma length_encode_loop: "length (base64_encode_loop data) = (length data + 2) div 3 * 4"
proof (induction data rule: base64_encode_loop.induct)
  case (1 a b c rest)
  have "(length (a # b # c # rest) + 2) div 3 = (length rest + 2) div 3 + 1" by simp
  then show ?case using 1 [OF refl] by (simp add: Let_def)
qed (simp_all add: Let_def)

lemma out_len_unat: "unat ((ucast n + 2 :: u64) div 3 * 4) = (unat (n :: u32) + 2) div 3 * 4"
proof -
  have n: "unat (ucast n :: u64) = unat n" by (simp add: unsigned_ucast_eq take_bit_nat_eq_self unat_u32_less [THEN order.strict_trans])
  have a: "unat (ucast n + 2 :: u64) = unat n + 2" using unat_u32_less [of n] n by (subst unat_add_u64) simp_all
  have "(unat n + 2) div 3 * 4 < 18446744073709551616" using unat_u32_less [of n] by simp
  then show ?thesis by (simp add: unat_word_ariths(2) unat_div a)
qed

lemma base64_store_length: "length (base64_store t k) \<le> 3" "k = 1 \<Longrightarrow> length (base64_store t k) = 1" "k = 2 \<Longrightarrow> length (base64_store t k) = 2"
  by (auto simp: base64_store_def word_le_nat_alt)

lemma base64_group_count: "base64_group vs = Some (vs', k) \<Longrightarrow> k = 1 \<or> k = 2 \<or> k = 3"
  by (auto simp: base64_group_def split: if_splits)

lemma base64_decode_loop_bounds:
  assumes "base64_decode_loop osz cs vs out fin = (r, out')" "length out \<le> unat osz" "length out \<le> 0x7FFFFFFF"
  shows "length out' \<le> unat osz \<and> length out' \<le> 0x7FFFFFFF \<and> (r = -1 \<or> r = int (length out'))"
  using assms
proof (induction osz cs vs out fin rule: base64_decode_loop.induct)
  case (1 osz vs out fin)
  then show ?case by (auto split: if_splits)
next
  case (2 osz c cs vs out fin)
  let ?v = "base64_decode_char c"
  consider (ws) "?v = -3" | (bad) "?v \<noteq> -3" "?v = -1 \<or> fin" | (more) "?v \<noteq> -3" "\<not> (?v = -1 \<or> fin)" "length (vs @ [?v]) \<noteq> 4"
    | (four) "?v \<noteq> -3" "\<not> (?v = -1 \<or> fin)" "length (vs @ [?v]) = 4" by blast
  then show ?case
  proof cases
    case ws
    then show ?thesis using "2.IH"(1) [OF refl ws] 2 by simp
  next
    case bad
    then show ?thesis using 2 by (auto simp: Let_def)
  next
    case more
    then show ?thesis using "2.IH"(3) [OF refl more(1,2) refl more(3)] 2 by (simp add: Let_def)
  next
    case four
    show ?thesis
    proof (cases "base64_group (vs @ [?v])")
      case None
      then show ?thesis using 2 four by (auto simp: Let_def)
    next
      case (Some g)
      obtain vs' k where g: "g = (vs', k)" by (cases g)
      let ?oi = "of_nat (length out) :: u32" and ?out = "out @ base64_store (base64_triple vs') k"
      show ?thesis
      proof (cases "k > osz - ?oi \<or> k > 0x7FFFFFFF - ?oi")
        case True
        then show ?thesis using 2 four Some g by (auto simp: Let_def)
      next
        case False
        have u: "unat ?oi = length out" using "2.prems"(3) by (simp add: unat_of_nat_u32)
        have sub: "unat (x - ?oi) = unat x - length out" if "length out \<le> unat x" for x :: u32
          using unat_sub [of ?oi x] that u by (simp add: word_le_nat_alt)
        have "unat k \<le> unat osz - length out" "unat k \<le> 0x7FFFFFFF - length out"
          using False sub [of osz] sub [of "0x7FFFFFFF"] "2.prems"(2,3) by (simp_all add: word_le_nat_alt not_less)
        moreover have "length (base64_store (base64_triple vs') k) = unat k"
          using base64_group_count [OF Some [unfolded g]] by (auto simp: base64_store_def word_le_nat_alt)
        ultimately have l: "length ?out \<le> unat osz" "length ?out \<le> 0x7FFFFFFF" using "2.prems"(2,3) by simp_all
        have "base64_decode_loop osz cs [] ?out (k < 3) = (r, out')" using "2.prems"(1) four Some g False by (simp add: Let_def)
        from "2.IH"(2) [OF refl four(1,2) refl four(3) Some [unfolded g] refl refl False this l] show ?thesis .
      qed
    qed
  qed
qed

section \<open>Properties\<close>

text \<open>C35: decoding what was encoded gives back the bytes: with an output buffer of more than four characters for each
  started group of three bytes, encoding succeeds, and decoding into a buffer that holds the data restores it.\<close>

theorem base64_roundtrip:
  assumes "length data = unat n" "(length data + 2) div 3 * 4 \<le> 0x7FFFFFFF" "(length data + 2) div 3 * 4 < unat osz" "length data \<le> unat dsz"
  shows "\<exists>txt. base64_encode (Some data) n True osz = (int (length txt), Some txt) \<and> length txt = (length data + 2) div 3 * 4 \<and>
    base64_decode (Some txt) True dsz = (int (length data), data)"
proof -
  have o: "unat (ucast osz :: u64) = unat osz" by (simp add: unsigned_ucast_eq take_bit_nat_eq_self unat_u32_less [THEN order.strict_trans])
  have "\<not> ((ucast n + 2 :: u64) div 3 * 4 > 0x7FFFFFFF)" "\<not> (ucast osz \<le> (ucast n + 2 :: u64) div 3 * 4)"
    using assms(1-3) by (simp_all add: word_nat out_len_unat o)
  then have "base64_encode (Some data) n True osz = (int (length (base64_encode_loop data)), Some (base64_encode_loop data))"
    using assms(1) by (simp add: base64_encode_def Let_def)
  moreover have "base64_decode (Some (base64_encode_loop data)) True dsz = (int (length data), data)"
    using base64_decode_encode [of "[]" data dsz] assms(2,4) by (simp add: base64_decode_def)
  ultimately show ?thesis using length_encode_loop by blast
qed

theorem base64_roundtrip_witness:
  "\<exists>txt. base64_encode (Some [77, 97, 110, 33]) 4 True 16 = (int (length txt), Some txt) \<and> length txt = 8 \<and>
    base64_decode (Some txt) True 4 = (4, [77, 97, 110, 33])"
  using base64_roundtrip [of "[77, 97, 110, 33]" 4 16 4] by simp

text \<open>Neither direction writes past its buffer: the encoder stores its text and the terminator within the size it
  was given, the decoder never stores more bytes than fit, and each returns the length of what it stored or -1.\<close>

lemma base64_bounds:
  "(case base64_encode input n output osz of (r, out) \<Rightarrow>
      case out of None \<Rightarrow> r = -1 | Some txt \<Rightarrow> r = int (length txt) \<and> length txt + 1 \<le> unat osz) \<and>
   (case base64_decode text_in output dsz of (r, bytes) \<Rightarrow> length bytes \<le> unat dsz \<and> (r = -1 \<or> r = int (length bytes)))"
proof (rule conjI)
  have o: "unat (ucast osz :: u64) = unat osz" by (simp add: unsigned_ucast_eq take_bit_nat_eq_self unat_u32_less [THEN order.strict_trans])
  let ?data = "case input of None \<Rightarrow> [] | Some data \<Rightarrow> take (unat n) data"
  have "length ?data \<le> unat n" by (simp split: option.splits)
  then have "(length ?data + 2) div 3 \<le> (unat n + 2) div 3" by (intro div_le_mono) simp
  then have l: "length (base64_encode_loop ?data) \<le> (unat n + 2) div 3 * 4" by (simp add: length_encode_loop)
  show "case base64_encode input n output osz of (r, out) \<Rightarrow>
      case out of None \<Rightarrow> r = -1 | Some txt \<Rightarrow> r = int (length txt) \<and> length txt + 1 \<le> unat osz"
  proof (cases "\<not> output \<or> (input = None \<and> n \<noteq> 0) \<or> (ucast n + 2 :: u64) div 3 * 4 > 0x7FFFFFFF \<or> ucast osz \<le> (ucast n + 2 :: u64) div 3 * 4")
    case True
    then show ?thesis unfolding base64_encode_def Let_def by simp
  next
    case False
    then have "(unat n + 2) div 3 * 4 < unat osz" by (simp add: word_le_nat_alt out_len_unat o)
    then show ?thesis using False l unfolding base64_encode_def Let_def by simp
  qed
  show "case base64_decode text_in output dsz of (r, bytes) \<Rightarrow> length bytes \<le> unat dsz \<and> (r = -1 \<or> r = int (length bytes))"
    using base64_decode_loop_bounds [of dsz _ "[]" "[]" False] by (auto simp: base64_decode_def split: option.splits)
qed

end
