(* ===== verification/Path.thy ===== *)
theory Path
  imports Kernel_Prelude
begin

text \<open>
  Path resolution (\<^verbatim>\<open>lib/path.c\<close>): drive prefixes, the loop that appends the components of a path to the output
  and follows \<^verbatim>\<open>.\<close> and \<^verbatim>\<open>..\<close>, and \<^verbatim>\<open>path_resolve\<close>.  The output buffer is the string in front of its
  terminator, \<^const>\<open>None\<close> when the call returns false and the buffer has no defined content.  The reference is a
  walk over a stack of components.  Lengths are natural numbers: the output never exceeds 32 components of 63
  characters, so no 32-bit index of the code wraps.
\<close>

section \<open>Operations\<close>

definition PATH_SEPARATOR :: char where "PATH_SEPARATOR = CHR 0x5C"
definition PATH_COMPONENT_MAX :: nat where "PATH_COMPONENT_MAX = 32"
definition PATH_COMPONENT_NAME_MAX :: nat where "PATH_COMPONENT_NAME_MAX = 64"

definition path_is_separator :: "char \<Rightarrow> bool" where
  "path_is_separator ch \<longleftrightarrow> ch = PATH_SEPARATOR"

definition path_upper_drive :: "char \<Rightarrow> char" where
  "path_upper_drive drive =
     (let c = of_char drive :: nat in
      if c \<ge> of_char CHR ''a'' \<and> c \<le> of_char CHR ''z'' then char_of (c - of_char CHR ''a'' + of_char CHR ''A'') else drive)"

definition path_has_drive_prefix :: "string option \<Rightarrow> bool" where
  "path_has_drive_prefix path =
     (case path of
        Some (d # c # _) \<Rightarrow> c = CHR '':'' \<and> (let drive = of_char (path_upper_drive d) :: nat in drive \<ge> of_char CHR ''A'' \<and> drive \<le> of_char CHR ''Z'')
      | _ \<Rightarrow> False)"

text \<open>One component: the characters up to the next separator, or \<^const>\<open>None\<close> when they do not fit.\<close>

fun path_component :: "nat \<Rightarrow> string \<Rightarrow> (string \<times> string) option" where
  "path_component component_length [] = Some ([], [])"
| "path_component component_length (c # path) =
     (if path_is_separator c then Some ([], c # path)
      else if component_length + 1 \<ge> PATH_COMPONENT_NAME_MAX then None
      else map_option (\<lambda>(component, rest). (c # component, rest)) (path_component (component_length + 1) path))"

lemma path_component_rest: "path_component k path = Some (component, rest) \<Longrightarrow> path = component @ rest"
  by (induction k path arbitrary: component rest rule: path_component.induct) (auto split: if_splits)

lemma path_component_nonempty:
  "path_component k path = Some (component, rest) \<Longrightarrow> path \<noteq> [] \<Longrightarrow> \<not> path_is_separator (hd path) \<Longrightarrow> component \<noteq> []"
  by (cases path) (auto split: if_splits)

lemma path_step_shorter:
  assumes "path_component 0 (dropWhile path_is_separator path) = Some (component, rest)" "dropWhile path_is_separator path \<noteq> []"
  shows "length rest < length path"
proof -
  have "component \<noteq> []" using path_component_nonempty [OF assms] hd_dropWhile [OF assms(2)] by blast
  moreover have "length (dropWhile path_is_separator path) = length component + length rest" using path_component_rest [OF assms(1)] by simp
  moreover have "length (dropWhile path_is_separator path) \<le> length path" by (rule length_dropWhile_le)
  ultimately show ?thesis by (cases component) auto
qed

text \<open>The stack \<open>previous_lengths\<close> has its newest entry last.\<close>

function path_process_stream :: "string \<Rightarrow> string \<Rightarrow> nat \<Rightarrow> nat list \<Rightarrow> nat \<Rightarrow> (string \<times> nat list) option" where
  "path_process_stream path output output_size previous_lengths root_length =
     (let path = dropWhile path_is_separator path in
      if path = [] then Some (output, previous_lengths)
      else case path_component 0 path of
        None \<Rightarrow> None
      | Some (component, path) \<Rightarrow>
          if component = ''.'' then path_process_stream path output output_size previous_lengths root_length
          else if component = ''..''
          then (if length previous_lengths > 0
                then path_process_stream path (take (last previous_lengths) output) output_size (butlast previous_lengths) root_length
                else path_process_stream path output output_size previous_lengths root_length)
          else if length previous_lengths \<ge> PATH_COMPONENT_MAX then None
          else let old_length = length output in
            if old_length > root_length \<and> old_length + 1 \<ge> output_size then None
            else let output = (if old_length > root_length then output @ [PATH_SEPARATOR] else output) in
              if length output + length component \<ge> output_size then None
              else path_process_stream path (output @ component) output_size (previous_lengths @ [old_length]) root_length)"
  by pat_completeness auto
termination
  by (relation "measure (\<lambda>(path, _, _, _, _). length path)") (auto simp del: dropWhile_eq_Nil_conv dest: path_step_shorter)

declare path_process_stream.simps [simp del]

definition path_after_drive_prefix :: "string \<Rightarrow> string" where
  "path_after_drive_prefix path = (if \<not> path_has_drive_prefix (Some path) then path else drop 2 path)"

definition path_drive_for :: "string option \<Rightarrow> char \<Rightarrow> char" where
  "path_drive_for path fallback = (if path_has_drive_prefix path then path_upper_drive (the path ! 0) else fallback)"

definition path_is_absolute :: "string option \<Rightarrow> bool" where
  "path_is_absolute path \<longleftrightarrow> (case path of None \<Rightarrow> False | Some p \<Rightarrow> (p \<noteq> [] \<and> hd p = PATH_SEPARATOR) \<or> path_has_drive_prefix path)"

definition path_resolve :: "string option \<Rightarrow> string option \<Rightarrow> u32 \<Rightarrow> string option" where
  "path_resolve base input output_size =
     (if output_size < 4 then None else
      case input of
        None \<Rightarrow> None
      | Some inp \<Rightarrow>
          if CHR ''/'' \<in> set inp then None
          else if (case base of None \<Rightarrow> False | Some b \<Rightarrow> CHR ''/'' \<in> set b) then None
          else let drive = (if path_has_drive_prefix input then path_drive_for input CHR ''C'' else path_drive_for base CHR ''C'');
                   out = [drive, CHR '':'', PATH_SEPARATOR] in
            if path_is_absolute input
            then map_option fst (path_process_stream (path_after_drive_prefix inp) out (unat output_size) [] 3)
            else do {
              (out, previous_lengths) \<leftarrow> (if path_is_absolute base
                 then path_process_stream (path_after_drive_prefix (the base)) out (unat output_size) [] 3 else Some (out, []));
              map_option fst (path_process_stream inp out (unat output_size) previous_lengths 3)
            })"

section \<open>The reference: a walk over a stack of components\<close>

fun path_split :: "string \<Rightarrow> string list" where
  "path_split [] = [[]]"
| "path_split (c # cs) = (if path_is_separator c then [] # path_split cs else (c # hd (path_split cs)) # tl (path_split cs))"

definition path_parts :: "string \<Rightarrow> string list" where
  "path_parts path = filter (\<lambda>w. w \<noteq> []) (path_split path)"

definition render :: "char \<Rightarrow> string list \<Rightarrow> string" where
  "render d cs = [d, CHR '':'', PATH_SEPARATOR] @ (case cs of [] \<Rightarrow> [] | w # ws \<Rightarrow> w @ concat (map ((#) PATH_SEPARATOR) ws))"

fun walk :: "nat \<Rightarrow> char \<Rightarrow> string list \<Rightarrow> string list \<Rightarrow> string list option" where
  "walk limit d [] cs = Some cs"
| "walk limit d (w # ws) cs =
     (if length w \<ge> 64 then None
      else if w = ''.'' then walk limit d ws cs
      else if w = ''..'' then walk limit d ws (butlast cs)
      else if length cs \<ge> 32 \<or> length (render d (cs @ [w])) \<ge> limit then None
      else walk limit d ws (cs @ [w]))"

lemma render_snoc: "render d (cs @ [w]) = (if cs = [] then render d [] @ w else render d cs @ PATH_SEPARATOR # w)"
  by (cases cs) (auto simp: render_def)

lemma path_split_nonempty [simp]: "path_split p \<noteq> []"
  by (cases p) auto

lemma path_parts_sep: "path_is_separator c \<Longrightarrow> path_parts (c # cs) = path_parts cs"
  by (simp add: path_parts_def)

lemma path_parts_dropWhile: "path_parts (dropWhile path_is_separator p) = path_parts p"
  by (induction p) (simp_all add: path_parts_sep)

lemma path_split_append:
  assumes "\<forall>c \<in> set w. \<not> path_is_separator c"
  shows "path_split (w @ rest) = (w @ hd (path_split rest)) # tl (path_split rest)"
  using assms by (induction w) auto

lemma path_parts_component:
  assumes "\<forall>c \<in> set w. \<not> path_is_separator c" "w \<noteq> []" "rest = [] \<or> path_is_separator (hd rest)"
  shows "path_parts (w @ rest) = w # path_parts rest"
proof -
  obtain t where t: "path_split rest = [] # t" using assms(3) by (cases rest) auto
  then show ?thesis using assms(2) path_split_append [OF assms(1), of rest] by (simp add: path_parts_def)
qed

lemma path_component_split:
  assumes "path_component k path = r"
  shows "let w = takeWhile (\<lambda>c. \<not> path_is_separator c) path in
    r = (if k + length w < 64 \<or> w = [] then Some (w, dropWhile (\<lambda>c. \<not> path_is_separator c) path) else None)"
  using assms
  by (induction k path arbitrary: r rule: path_component.induct) (auto simp: PATH_COMPONENT_NAME_MAX_def Let_def)

text \<open>The stack of lengths that the code keeps for a stack of components.\<close>

definition prev_lengths :: "char \<Rightarrow> string list \<Rightarrow> nat list" where
  "prev_lengths d cs = map (\<lambda>i. length (render d (take i cs))) [0..<length cs]"

lemma prev_lengths_snoc: "prev_lengths d (cs @ [w]) = prev_lengths d cs @ [length (render d cs)]"
  by (simp add: prev_lengths_def)

lemma prev_lengths_simps [simp]: "prev_lengths d [] = []" "length (prev_lengths d cs) = length cs"
  by (simp_all add: prev_lengths_def)

lemma render_longer: "\<forall>w \<in> set cs. w \<noteq> [] \<Longrightarrow> length (render d cs) > 3 \<longleftrightarrow> cs \<noteq> []"
  by (cases cs) (auto simp: render_def)

lemma process_step:
  assumes "dropWhile path_is_separator path \<noteq> []"
  obtains w rest where "path_parts path = w # path_parts rest" "length rest < length path" "w \<noteq> []"
    "\<And>c. c \<in> set w \<Longrightarrow> \<not> path_is_separator c" "set w \<subseteq> set path" "set rest \<subseteq> set path"
    "path_component 0 (dropWhile path_is_separator path) = (if length w < 64 then Some (w, rest) else None)"
proof -
  let ?p = "dropWhile path_is_separator path"
  define w where "w = takeWhile (\<lambda>c. \<not> path_is_separator c) ?p"
  define rest where "rest = dropWhile (\<lambda>c. \<not> path_is_separator c) ?p"
  have p: "?p = w @ rest" by (simp add: w_def rest_def)
  have w: "w \<noteq> []" using hd_dropWhile [OF assms] assms by (cases ?p) (auto simp: w_def)
  have sep: "\<forall>c \<in> set w. \<not> path_is_separator c" unfolding w_def by (auto dest: set_takeWhileD)
  have r: "rest = [] \<or> path_is_separator (hd rest)" using hd_dropWhile [of "\<lambda>c. \<not> path_is_separator c" ?p] by (auto simp: rest_def)
  have "path_parts path = w # path_parts rest" using path_parts_component [OF sep w r] p path_parts_dropWhile [of path] by simp
  moreover have "length rest < length path" using w arg_cong [OF p, of length] length_dropWhile_le [of path_is_separator path] by (cases w) auto
  moreover have "set ?p \<subseteq> set path" by (auto dest: set_dropWhileD)
  then have "set w \<subseteq> set path" "set rest \<subseteq> set path" using p by auto
  moreover have "path_component 0 ?p = (if length w < 64 then Some (w, rest) else None)"
    using path_component_split [of 0 ?p] w by (simp add: Let_def flip: w_def rest_def)
  ultimately show ?thesis using that w sep by blast
qed

lemma process_pop:
  assumes "cs \<noteq> []"
  shows "take (last (prev_lengths d cs)) (render d cs) = render d (butlast cs)" "butlast (prev_lengths d cs) = prev_lengths d (butlast cs)"
proof -
  obtain b x where b: "cs = b @ [x]" using assms by (cases cs rule: rev_cases) auto
  show "take (last (prev_lengths d cs)) (render d cs) = render d (butlast cs)" "butlast (prev_lengths d cs) = prev_lengths d (butlast cs)"
    unfolding b prev_lengths_snoc by (simp_all add: render_snoc)
qed

lemma process_push:
  assumes "\<forall>v \<in> set cs. v \<noteq> []" "w \<noteq> []"
  shows "(let old_length = length (render d cs) in
      if old_length > 3 \<and> old_length + 1 \<ge> limit then None
      else let out = (if old_length > 3 then render d cs @ [PATH_SEPARATOR] else render d cs) in
        if length out + length w \<ge> limit then None else f (out @ w) (prev_lengths d cs @ [old_length])) =
    (if length (render d (cs @ [w])) \<ge> limit then None else f (render d (cs @ [w])) (prev_lengths d (cs @ [w])))"
proof (cases "cs = []")
  case True
  have "render d [w] = render d [] @ w" "prev_lengths d [w] = [length (render d [])]"
    using render_snoc [of d "[]" w] prev_lengths_snoc [of d "[]" w] by simp_all
  then show ?thesis using True render_longer [of "[]" d] by (simp add: Let_def)
next
  case False
  then show ?thesis using assms by (auto simp: Let_def render_longer render_snoc prev_lengths_snoc)
qed

lemma process_stream_walk:
  assumes "\<forall>v \<in> set cs. v \<noteq> []"
  shows "path_process_stream path (render d cs) limit (prev_lengths d cs) 3 =
    map_option (\<lambda>cs. (render d cs, prev_lengths d cs)) (walk limit d (path_parts path) cs)"
  using assms
proof (induction path arbitrary: cs rule: measure_induct_rule [where f = length])
  case (less path)
  show ?case
  proof (cases "dropWhile path_is_separator path = []")
    case True
    have "path_parts [] = []" by (simp add: path_parts_def)
    then have "path_parts path = []" using path_parts_dropWhile [of path] unfolding True by simp
    then show ?thesis using True by (subst path_process_stream.simps) (simp add: Let_def)
  next
    case False
    obtain w rest where W: "path_parts path = w # path_parts rest" "length rest < length path" "w \<noteq> []"
      "path_component 0 (dropWhile path_is_separator path) = (if length w < 64 then Some (w, rest) else None)"
      using process_step [OF False] by metis
    note IH = less.IH [OF W(2)]
    have ih: "path_process_stream rest (render d cs) limit (prev_lengths d cs) 3 =
        map_option (\<lambda>cs. (render d cs, prev_lengths d cs)) (walk limit d (path_parts rest) cs)" by (rule IH [OF less.prems])
    show ?thesis
    proof (cases "length w < 64")
      case long: False
      then show ?thesis using False W(4) by (subst path_process_stream.simps) (simp add: Let_def W(1))
    next
      case len: True
      have c: "path_component 0 (dropWhile path_is_separator path) = Some (w, rest)" using W(4) len by simp
      have step: "path_process_stream path (render d cs) limit (prev_lengths d cs) 3 =
          (if w = ''.'' then path_process_stream rest (render d cs) limit (prev_lengths d cs) 3
           else if w = ''..'' then (if cs \<noteq> [] then path_process_stream rest (render d (butlast cs)) limit (prev_lengths d (butlast cs)) 3
                                    else path_process_stream rest (render d cs) limit (prev_lengths d cs) 3)
           else if length cs \<ge> 32 then None
           else if length (render d (cs @ [w])) \<ge> limit then None
           else path_process_stream rest (render d (cs @ [w])) limit (prev_lengths d (cs @ [w])) 3)"
        unfolding process_push [OF less.prems W(3), where f = "\<lambda>out ls. path_process_stream rest out limit ls 3", symmetric]
        by (subst path_process_stream.simps) (simp add: False c process_pop PATH_COMPONENT_MAX_def Let_def del: dropWhile_eq_Nil_conv)
      have "path_process_stream rest (render d (cs @ [w])) limit (prev_lengths d (cs @ [w])) 3 =
          map_option (\<lambda>cs. (render d cs, prev_lengths d cs)) (walk limit d (path_parts rest) (cs @ [w]))"
        by (rule IH) (use less.prems W(3) in auto)
      moreover have "path_process_stream rest (render d (butlast cs)) limit (prev_lengths d (butlast cs)) 3 =
          map_option (\<lambda>cs. (render d cs, prev_lengths d cs)) (walk limit d (path_parts rest) (butlast cs))"
        by (rule IH) (use less.prems in \<open>auto dest: in_set_butlastD\<close>)
      ultimately show ?thesis unfolding step W(1) using len ih by (cases "cs = []") simp_all
    qed
  qed
qed

section \<open>Canonical paths\<close>

definition component_ok :: "string \<Rightarrow> bool" where
  "component_ok w \<longleftrightarrow> w \<noteq> [] \<and> PATH_SEPARATOR \<notin> set w \<and> CHR ''/'' \<notin> set w"

definition path_canonical :: "nat \<Rightarrow> char \<Rightarrow> string list \<Rightarrow> bool" where
  "path_canonical limit d cs \<longleftrightarrow> (\<forall>w \<in> set cs. component_ok w \<and> w \<noteq> ''.'' \<and> w \<noteq> ''..'' \<and> length w < 64) \<and>
     length cs \<le> 32 \<and> length (render d cs) < limit"

lemma path_parts_ok: "CHR ''/'' \<notin> set path \<Longrightarrow> w \<in> set (path_parts path) \<Longrightarrow> component_ok w"
proof (induction path rule: measure_induct_rule [where f = length])
  case (less path)
  show ?case
  proof (cases "dropWhile path_is_separator path = []")
    case True
    have "path_parts [] = []" by (simp add: path_parts_def)
    then show ?thesis using less.prems(2) path_parts_dropWhile [of path] unfolding True by simp
  next
    case False
    obtain v rest where V: "path_parts path = v # path_parts rest" "length rest < length path" "v \<noteq> []"
      "\<And>c. c \<in> set v \<Longrightarrow> \<not> path_is_separator c" "set v \<subseteq> set path" "set rest \<subseteq> set path"
      using process_step [OF False] by metis
    have "component_ok v" using V(3-5) less.prems(1) by (auto simp: component_ok_def path_is_separator_def)
    then show ?thesis using less.IH [OF V(2)] less.prems V(1,6) by auto
  qed
qed

lemma render_butlast: "length (render d (butlast cs)) \<le> length (render d cs)"
  by (cases cs rule: rev_cases) (simp_all add: render_snoc)

lemma walk_canonical:
  assumes "walk limit d ws cs = Some cs'" "\<forall>w \<in> set ws. component_ok w" "path_canonical limit d cs"
  shows "path_canonical limit d cs'"
  using assms
proof (induction limit d ws cs rule: walk.induct)
  case (2 limit d w ws cs)
  have "path_canonical limit d (butlast cs)"
    using "2.prems"(3) render_butlast [of d cs] by (auto simp: path_canonical_def dest: in_set_butlastD)
  moreover have "path_canonical limit d (cs @ [w])" if "\<not> length w \<ge> 64" "w \<noteq> ''.''" "w \<noteq> ''..''" "\<not> (length cs \<ge> 32 \<or> length (render d (cs @ [w])) \<ge> limit)"
    using "2.prems"(2,3) that by (auto simp: path_canonical_def)
  ultimately show ?case using 2 by (auto split: if_splits)
qed simp

lemma path_parts_render:
  assumes "\<forall>w \<in> set cs. component_ok w"
  shows "path_parts (drop 2 (render d cs)) = cs"
proof -
  have sep: "path_is_separator PATH_SEPARATOR" by (simp add: path_is_separator_def)
  have comp: "path_parts (w @ concat (map ((#) PATH_SEPARATOR) ws)) = w # path_parts (concat (map ((#) PATH_SEPARATOR) ws))" if "component_ok w" for w ws
    by (rule path_parts_component) (use that in \<open>auto simp: component_ok_def path_is_separator_def, cases ws, auto\<close>)
  have tail: "path_parts (concat (map ((#) PATH_SEPARATOR) ws)) = ws" if "\<forall>w \<in> set ws. component_ok w" for ws
    using that
  proof (induction ws)
    case (Cons w ws)
    then show ?case using comp [of w ws] by (simp add: path_parts_sep [OF sep])
  qed (simp add: path_parts_def)
  show ?thesis
  proof (cases cs)
    case Nil
    then show ?thesis using tail [of "[]"] by (simp add: render_def path_parts_sep [OF sep])
  next
    case (Cons w ws)
    then show ?thesis using assms comp [of w ws] tail [of ws] by (simp add: render_def path_parts_sep [OF sep])
  qed
qed

lemma render_prefix: "length (render d cs) \<le> length (render d (cs @ ws))"
  by (cases cs) (auto simp: render_def)

lemma walk_stays:
  assumes "path_canonical limit d (acc @ cs)"
  shows "walk limit d cs acc = Some (acc @ cs)"
  using assms
proof (induction cs arbitrary: acc)
  case (Cons w ws)
  have "length (render d (acc @ [w])) < limit" using Cons.prems render_prefix [of d "acc @ [w]" ws] by (simp add: path_canonical_def)
  moreover have "length w < 64" "w \<noteq> ''.''" "w \<noteq> ''..''" "length acc < 32" using Cons.prems by (auto simp: path_canonical_def)
  ultimately show ?case using Cons.IH [of "acc @ [w]"] Cons.prems by simp
qed simp

lemma walk_append: "walk limit d (xs @ ys) cs = Option.bind (walk limit d xs cs) (walk limit d ys)"
  by (induction limit d xs cs rule: walk.induct) auto

section \<open>Resolution as a walk\<close>

definition path_slash :: "string option \<Rightarrow> bool" where
  "path_slash p \<longleftrightarrow> (case p of None \<Rightarrow> False | Some b \<Rightarrow> CHR ''/'' \<in> set b)"

definition resolve_drive :: "string option \<Rightarrow> string \<Rightarrow> char" where
  "resolve_drive base inp = (if path_has_drive_prefix (Some inp) then path_upper_drive (inp ! 0) else path_drive_for base CHR ''C'')"

definition resolve_parts :: "string option \<Rightarrow> string \<Rightarrow> string list" where
  "resolve_parts base inp =
     (if path_is_absolute (Some inp) then path_parts (path_after_drive_prefix inp)
      else (if path_is_absolute base then path_parts (path_after_drive_prefix (the base)) else []) @ path_parts inp)"

lemma walk_nonempty:
  assumes "walk limit d ws cs = Some cs'" "\<forall>w \<in> set ws. w \<noteq> []" "\<forall>w \<in> set cs. w \<noteq> []"
  shows "\<forall>w \<in> set cs'. w \<noteq> []"
  using assms
proof (induction limit d ws cs rule: walk.induct)
  case (2 limit d w ws cs)
  have "\<forall>w \<in> set (butlast cs). w \<noteq> []" using "2.prems"(3) by (auto dest: in_set_butlastD)
  then show ?case using 2 by (auto split: if_splits)
qed simp

lemma path_parts_nonempty: "\<forall>w \<in> set (path_parts p). w \<noteq> []"
  by (simp add: path_parts_def)

lemma path_resolve_spec:
  "path_resolve base (Some inp) osz =
     (if osz < 4 \<or> path_slash (Some inp) \<or> path_slash base then None
      else map_option (render (resolve_drive base inp)) (walk (unat osz) (resolve_drive base inp) (resolve_parts base inp) []))"
proof (cases "osz < 4 \<or> path_slash (Some inp) \<or> path_slash base")
  case True
  then show ?thesis by (auto simp: path_resolve_def path_slash_def split: option.splits)
next
  case False
  let ?d = "resolve_drive base inp" and ?n = "unat osz"
  have d: "(if path_has_drive_prefix (Some inp) then path_drive_for (Some inp) CHR ''C'' else path_drive_for base CHR ''C'') = ?d"
    by (simp add: resolve_drive_def path_drive_for_def)
  have r: "[?d, CHR '':'', PATH_SEPARATOR] = render ?d []" by (simp add: render_def)
  have start: "path_process_stream p (render ?d []) ?n [] 3 = map_option (\<lambda>cs. (render ?d cs, prev_lengths ?d cs)) (walk ?n ?d (path_parts p) [])" for p
    using process_stream_walk [of "[]" p ?d ?n] by simp
  have e: "path_resolve base (Some inp) osz =
     (if path_is_absolute (Some inp) then map_option fst (path_process_stream (path_after_drive_prefix inp) (render ?d []) ?n [] 3)
      else Option.bind (if path_is_absolute base then path_process_stream (path_after_drive_prefix (the base)) (render ?d []) ?n [] 3 else Some (render ?d [], []))
        (\<lambda>(out, ls). map_option fst (path_process_stream inp out ?n ls 3)))"
    using False unfolding path_resolve_def Let_def option.case d r by (simp add: path_slash_def)
  show ?thesis
  proof (cases "path_is_absolute (Some inp)")
    case True
    then show ?thesis using False by (simp add: e start resolve_parts_def option.map_comp comp_def)
  next
    case rel: False
    define bp where "bp = (if path_is_absolute base then path_parts (path_after_drive_prefix (the base)) else [])"
    have ne: "\<forall>w \<in> set bp. w \<noteq> []" using path_parts_nonempty by (auto simp: bp_def)
    have first: "(if path_is_absolute base then path_process_stream (path_after_drive_prefix (the base)) (render ?d []) ?n [] 3 else Some (render ?d [], [])) =
        map_option (\<lambda>cs. (render ?d cs, prev_lengths ?d cs)) (walk ?n ?d bp [])"
      by (simp add: start bp_def)
    have "resolve_parts base inp = bp @ path_parts inp" using rel by (simp add: resolve_parts_def bp_def)
    moreover have "path_resolve base (Some inp) osz = map_option (render ?d) (walk ?n ?d (bp @ path_parts inp) [])"
    proof (cases "walk ?n ?d bp []")
      case None
      then show ?thesis using rel by (simp add: e first walk_append)
    next
      case (Some cs)
      have "\<forall>w \<in> set cs. w \<noteq> []" by (rule walk_nonempty [OF Some ne]) simp
      then show ?thesis using rel Some process_stream_walk [of cs inp ?d ?n] by (simp add: e first walk_append option.map_comp comp_def)
    qed
    ultimately show ?thesis using False by simp
  qed
qed

definition drive_letter :: "char \<Rightarrow> bool" where
  "drive_letter d \<longleftrightarrow> (65 :: nat) \<le> of_char d \<and> of_char d \<le> (90 :: nat)"

lemma resolve_drive_letter: "drive_letter (resolve_drive base inp)"
proof -
  have u: "drive_letter (path_upper_drive (p ! 0))" if "path_has_drive_prefix (Some p)" for p
    using that by (cases p rule: remdups_adj.cases) (simp_all add: path_has_drive_prefix_def drive_letter_def Let_def)
  have "drive_letter CHR ''C''" by (simp add: drive_letter_def)
  then show ?thesis using u by (cases base) (auto simp: resolve_drive_def path_drive_for_def path_has_drive_prefix_def)
qed

lemma drive_letter_upper: "drive_letter d \<Longrightarrow> path_upper_drive d = d"
  by (simp add: drive_letter_def path_upper_drive_def Let_def)

lemma render_drive: "drive_letter d \<Longrightarrow> path_has_drive_prefix (Some (render d cs))"
  by (simp add: render_def path_has_drive_prefix_def Let_def drive_letter_upper) (simp add: drive_letter_def)

lemma render_slash: "drive_letter d \<Longrightarrow> \<forall>w \<in> set cs. component_ok w \<Longrightarrow> \<not> path_slash (Some (render d cs))"
  by (cases cs) (auto simp: render_def path_slash_def component_ok_def PATH_SEPARATOR_def drive_letter_def)

lemma path_resolve_canonical_spec:
  assumes "path_resolve base (Some inp) osz = Some out" "\<not> path_slash base2"
  shows "(\<exists>d cs. out = render d cs \<and> drive_letter d \<and> path_canonical (unat osz) d cs) \<and> path_resolve base2 (Some out) osz = Some out"
proof -
  let ?d = "resolve_drive base inp"
  have ok: "\<not> osz < 4" "\<not> path_slash (Some inp)" "\<not> path_slash base" using assms(1) by (simp_all add: path_resolve_spec split: if_splits)
  obtain cs where w: "walk (unat osz) ?d (resolve_parts base inp) [] = Some cs" and out: "out = render ?d cs"
    using assms(1) ok by (auto simp: path_resolve_spec)
  have slash: "CHR ''/'' \<notin> set (path_after_drive_prefix p)" if "CHR ''/'' \<notin> set p" for p
    using that by (auto simp: path_after_drive_prefix_def dest: in_set_dropD)
  have "component_ok v" if "v \<in> set (resolve_parts base inp)" for v
  proof -
    have i: "CHR ''/'' \<notin> set inp" using ok(2) by (simp add: path_slash_def)
    have b: "CHR ''/'' \<notin> set (the base)" if "path_is_absolute base" using ok(3) that by (auto simp: path_slash_def path_is_absolute_def split: option.splits)
    show ?thesis using that path_parts_ok [OF slash [OF i]] path_parts_ok [OF i] path_parts_ok [OF slash [OF b]]
      by (auto simp: resolve_parts_def split: if_splits)
  qed
  moreover have "path_canonical (unat osz) ?d []" using ok(1) by (simp add: path_canonical_def render_def word_less_nat_alt)
  ultimately have c: "path_canonical (unat osz) ?d cs" using walk_canonical [OF w] by blast
  then have comp: "\<forall>v \<in> set cs. component_ok v" by (simp add: path_canonical_def)
  note L = resolve_drive_letter [of base inp]
  have pre: "path_has_drive_prefix (Some out)" unfolding out by (rule render_drive [OF L])
  have d2: "resolve_drive base2 out = ?d" unfolding resolve_drive_def [of base2 out]
    using pre drive_letter_upper [OF L] by (simp add: out render_def)
  have "resolve_parts base2 out = cs" using pre path_parts_render [OF comp, of ?d]
    by (simp add: resolve_parts_def path_is_absolute_def path_after_drive_prefix_def out)
  moreover have "\<not> path_slash (Some out)" unfolding out by (rule render_slash [OF L comp])
  ultimately have "path_resolve base2 (Some out) osz = Some out"
    using ok(1) assms(2) d2 walk_stays [of "unat osz" ?d "[]" cs] c by (simp add: path_resolve_spec out)
  then show ?thesis using out L c by blast
qed

text \<open>The characters of a resolved path come from the arguments, but for the drive, the colon and the separator.\<close>

lemma path_parts_set: "w \<in> set (path_parts path) \<Longrightarrow> set w \<subseteq> set path"
proof (induction path rule: measure_induct_rule [where f = length])
  case (less path)
  show ?case
  proof (cases "dropWhile path_is_separator path = []")
    case True
    have "path_parts [] = []" by (simp add: path_parts_def)
    then show ?thesis using less.prems path_parts_dropWhile [of path] unfolding True by simp
  next
    case False
    obtain v rest where V: "path_parts path = v # path_parts rest" "length rest < length path" "set v \<subseteq> set path" "set rest \<subseteq> set path"
      using process_step [OF False] by metis
    then show ?thesis using less.IH [OF V(2)] less.prems by auto
  qed
qed

lemma walk_set: "walk limit d ws cs = Some cs' \<Longrightarrow> set cs' \<subseteq> set cs \<union> set ws"
proof (induction limit d ws cs rule: walk.induct)
  case (2 limit d w ws cs)
  have "set (butlast cs) \<subseteq> set cs" by (auto dest: in_set_butlastD)
  then show ?case using 2 by (fastforce split: if_splits)
qed simp

lemma render_set: "set (render d cs) \<subseteq> {d, CHR '':'', PATH_SEPARATOR} \<union> (\<Union>w \<in> set cs. set w)"
  by (cases cs) (auto simp: render_def)

lemma path_resolve_chars:
  assumes "path_resolve base (Some inp) osz = Some out" "c \<in> set out"
  shows "c \<in> set inp \<or> (\<exists>b. base = Some b \<and> c \<in> set b) \<or> c = CHR '':'' \<or> c = PATH_SEPARATOR \<or> drive_letter c"
proof -
  let ?d = "resolve_drive base inp"
  obtain cs where w: "walk (unat osz) ?d (resolve_parts base inp) [] = Some cs" and out: "out = render ?d cs"
    using assms(1) by (auto simp: path_resolve_spec split: if_splits)
  have "set (path_after_drive_prefix p) \<subseteq> set p" for p by (auto simp: path_after_drive_prefix_def dest: in_set_dropD)
  then have "set v \<subseteq> set inp \<or> (\<exists>b. base = Some b \<and> set v \<subseteq> set b)" if "v \<in> set (resolve_parts base inp)" for v
    using that path_parts_set unfolding resolve_parts_def path_is_absolute_def
    by (cases base) (auto split: if_splits, blast+)
  moreover have "c \<in> {?d, CHR '':'', PATH_SEPARATOR} \<union> (\<Union>w \<in> set cs. set w)" using render_set [of ?d cs] assms(2) out by auto
  ultimately show ?thesis using walk_set [OF w] resolve_drive_letter [of base inp] by fastforce
qed

lemma path_resolve_length:
  assumes "path_resolve base (Some inp) osz = Some out"
  shows "length out < unat osz"
  using path_resolve_canonical_spec [OF assms, of None] by (auto simp: path_canonical_def path_slash_def)

section \<open>Properties\<close>

text \<open>C33: resolving a path is walking its components over a stack, starting from the components of an absolute base
  when the path is relative: \<^verbatim>\<open>.\<close> is skipped, \<^verbatim>\<open>..\<close> drops the last component and is ignored at the root, any
  other component is pushed; resolution fails exactly for a slash in either argument, a buffer below four bytes, a
  component of 64 characters or more, a 33rd component, or a result that does not fit the buffer.\<close>

theorem path_resolve_walk:
  "path_resolve base (Some inp) osz =
     (if osz < 4 \<or> path_slash (Some inp) \<or> path_slash base then None
      else map_option (render (resolve_drive base inp)) (walk (unat osz) (resolve_drive base inp) (resolve_parts base inp) []))"
  by (rule path_resolve_spec)



end
