(* ===== verification/Uac.thy ===== *)
theory Uac
  imports Path
begin

text \<open>
  User isolation (\<^verbatim>\<open>kernel/security/uac.c\<close>) and its hook in the file layer (\<^verbatim>\<open>lib/file.c\<close>): the logged-in
  user, the administrator flag and the decision whether a path may be read or written.  A character behind the end
  of a path reads as NUL.  The answer of the elevation dialog is an argument.
\<close>

section \<open>State and operations\<close>

record kuac =
  g_user :: string
  g_is_admin :: bool
  g_uac_access :: bool

definition USERS_PREFIX :: string where
  "USERS_PREFIX = CHR '':'' # CHR 0x5C # ''Monios'' @ CHR 0x5C # ''Users'' @ [CHR 0x5C]"

definition SYSTEM_PREFIX :: string where
  "SYSTEM_PREFIX = CHR '':'' # CHR 0x5C # ''Monios'' @ CHR 0x5C # ''System'' @ [CHR 0x5C]"

definition to_lower_char :: "char \<Rightarrow> char" where
  "to_lower_char c =
     (let n = of_char c :: nat in
      if n \<ge> of_char CHR ''A'' \<and> n \<le> of_char CHR ''Z'' then char_of (n - of_char CHR ''A'' + of_char CHR ''a'') else c)"

definition char_at :: "string \<Rightarrow> nat \<Rightarrow> char" where
  "char_at p i = (if i < length p then p ! i else CHR 0x00)"

text \<open>The comparison loop: what follows the prefix, or \<^const>\<open>None\<close> on the first mismatch.\<close>

fun prefix_loop :: "string \<Rightarrow> string \<Rightarrow> nat \<Rightarrow> string option" where
  "prefix_loop [] path k = Some (drop k path)"
| "prefix_loop (expect # es) path k =
     (let actual = char_at path k in
      if expect = CHR 0x5C then (if actual \<noteq> CHR 0x5C \<and> actual \<noteq> CHR ''/'' then None else prefix_loop es path (k + 1))
      else if to_lower_char actual \<noteq> to_lower_char expect then None
      else prefix_loop es path (k + 1))"

definition path_after_users_prefix :: "string option \<Rightarrow> string option" where
  "path_after_users_prefix path =
     (case path of
        None \<Rightarrow> None
      | Some p \<Rightarrow> if char_at p 1 \<noteq> CHR '':'' \<or> char_at p 2 \<noteq> CHR 0x5C then None else prefix_loop USERS_PREFIX p 3)"

definition path_has_system_prefix :: "string option \<Rightarrow> bool" where
  "path_has_system_prefix path =
     (case path of
        None \<Rightarrow> False
      | Some p \<Rightarrow> if char_at p 1 \<noteq> CHR '':'' \<or> char_at p 2 \<noteq> CHR 0x5C then False else prefix_loop SYSTEM_PREFIX p 3 \<noteq> None)"

definition extract_owner :: "string \<Rightarrow> nat \<Rightarrow> string" where
  "extract_owner after_users owner_size =
     map to_lower_char (take (owner_size - 1) (takeWhile (\<lambda>c. c \<noteq> CHR 0x5C \<and> c \<noteq> CHR ''/'') after_users))"

definition uac_can_access :: "string option \<Rightarrow> bool \<Rightarrow> kuac \<Rightarrow> bool" where
  "uac_can_access winpath write s =
     (if g_user s = [] then True
      else if g_is_admin s then True
      else if write \<and> path_has_system_prefix winpath then False
      else case path_after_users_prefix winpath of
        Some after \<Rightarrow>
          let owner = extract_owner after 64; user_lower = map to_lower_char (g_user s)
          in if owner \<noteq> [] \<and> owner = user_lower then True else False
      | None \<Rightarrow> True)"

definition uac_set_user :: "string option \<Rightarrow> bool \<Rightarrow> kuac \<Rightarrow> kuac" where
  "uac_set_user username is_admin s =
     (let s = s\<lparr>g_is_admin := is_admin\<rparr> in
      case username of None \<Rightarrow> s\<lparr>g_user := []\<rparr> | Some u \<Rightarrow> if u = [] then s\<lparr>g_user := []\<rparr> else s\<lparr>g_user := copy_text 64 (Some u)\<rparr>)"

definition uac_request_elevation :: "bool \<Rightarrow> kuac \<Rightarrow> bool \<times> kuac" where
  "uac_request_elevation granted s =
     (if g_is_admin s then (True, s)
      else let ok = granted; s = (if ok then s\<lparr>g_is_admin := True\<rparr> else s) in (ok, s))"

definition uac_init :: "kuac \<Rightarrow> kuac" where
  "uac_init s = s\<lparr>g_user := [], g_is_admin := False, g_uac_access := True\<rparr>"

text \<open>The file layer asks the registered hook, and allows everything while there is none.\<close>

definition file_uac_allow :: "string \<Rightarrow> bool \<Rightarrow> kuac \<Rightarrow> bool" where
  "file_uac_allow resolved write s = (if \<not> g_uac_access s then True else uac_can_access (Some resolved) write s)"

section \<open>Which paths the prefixes match\<close>

lemma lower_colon: "to_lower_char c = to_lower_char CHR '':'' \<Longrightarrow> c = CHR '':''"
proof -
  assume a: "to_lower_char c = to_lower_char CHR '':''"
  have t: "to_lower_char CHR '':'' = CHR '':''" by (simp add: to_lower_char_def)
  show "c = CHR '':''"
  proof (cases "(of_char c :: nat) \<ge> 65 \<and> (of_char c :: nat) \<le> 90")
    case True
    then have "to_lower_char c = char_of ((of_char c :: nat) + 32)" by (simp add: to_lower_char_def Let_def)
    then have "(of_char (to_lower_char c) :: nat) = ((of_char c :: nat) + 32) mod 256" by simp
    with True have "(of_char (to_lower_char c) :: nat) \<ge> 97" by simp
    then show ?thesis using a t by simp
  next
    case False
    then show ?thesis using a t by (auto simp: to_lower_char_def Let_def split: if_splits)
  qed
qed

lemma prefix_needs_colon:
  assumes "char_at p 3 \<noteq> CHR '':''"
  shows "prefix_loop (CHR '':'' # es) p 3 = None"
  using assms lower_colon [of "char_at p 3"] by (auto simp: Let_def)

lemma uac_grants:
  assumes "char_at p 3 \<noteq> CHR '':''"
  shows "uac_can_access (Some p) write s"
proof -
  have "path_after_users_prefix (Some p) = None" "\<not> path_has_system_prefix (Some p)"
    using prefix_needs_colon [OF assms] by (simp_all add: path_after_users_prefix_def path_has_system_prefix_def USERS_PREFIX_def SYSTEM_PREFIX_def)
  then show ?thesis by (simp add: uac_can_access_def)
qed

section \<open>Properties\<close>

text \<open>C16: the isolation of users is void: the hook allows every user to read and write every path whose fourth character is
  not a colon, which of the paths that \<^const>\<open>path_resolve\<close> produces are all but those whose first component starts
  with a colon, so the directories of other users and the system directory are open.  The two prefixes repeat
  the colon and the separator that have been compared already, and are looked for one component too late.\<close>

theorem uac_isolation_void:
  assumes "char_at out 3 \<noteq> CHR '':''"
  shows "uac_can_access (Some out) write s \<and> file_uac_allow out write s"
  using uac_grants [OF assms] by (simp add: file_uac_allow_def)

text \<open>A user who is not an administrator writes to the directory of another one.\<close>

theorem uac_isolation_void_witness:
  "\<exists>out. path_resolve (Some (render CHR ''C'' [''Monios'', ''Users'', ''alice''])) (Some (''..'' @ CHR 0x5C # ''bob'')) 256 = Some out \<and>
     out = render CHR ''C'' [''Monios'', ''Users'', ''bob''] \<and>
     file_uac_allow out True (uac_set_user (Some ''alice'') False (uac_init \<lparr>g_user = [], g_is_admin = False, g_uac_access = False\<rparr>))"
proof -
  let ?out = "render CHR ''C'' [''Monios'', ''Users'', ''bob'']"
  have "path_resolve (Some (render CHR ''C'' [''Monios'', ''Users'', ''alice''])) (Some (''..'' @ CHR 0x5C # ''bob'')) 256 = Some ?out"
    unfolding path_resolve_spec by code_simp
  moreover have c: "char_at ?out 3 \<noteq> CHR '':''" by (simp add: char_at_def render_def)
  ultimately show ?thesis using uac_isolation_void [OF c] by blast
qed

end
