(* ===== verification/Fs_perm.thy ===== *)
theory Fs_perm
  imports Pcb Path
begin

text \<open>
  File permissions (\<^verbatim>\<open>kernel/syscall/fs_perm.c\<close>): a table of 128 entries keyed by canonical path, the check of
  the mode bits for the current process, \<^verbatim>\<open>chmod\<close> and \<^verbatim>\<open>chown\<close>, and the encrypted database that the table is
  written to and read from.  Of the file layer (\<^verbatim>\<open>lib/file.c\<close>) the resolution of the path at the start of
  reading and writing is modelled; what follows it, down to the file systems, is the argument \<open>wr\<close> or \<open>rd\<close>, and
  \<^verbatim>\<open>file_exists\<close> is the argument \<open>exists\<close>.
\<close>

section \<open>State\<close>

definition FS_PERM_TABLE_SIZE :: nat where "FS_PERM_TABLE_SIZE = 128"
definition FS_PERM_DEFAULT_MODE :: u32 where "FS_PERM_DEFAULT_MODE = 0x1ED"
definition FS_PERM_OTH_X :: u32 where "FS_PERM_OTH_X = 1"
definition FS_PERM_OTH_W :: u32 where "FS_PERM_OTH_W = 2"
definition FS_PERM_OTH_R :: u32 where "FS_PERM_OTH_R = 4"
definition PERM_DB_PATH :: string where "PERM_DB_PATH = ''/Monios/System/perm.db''"
definition PERM_DB_MAGIC :: "u8 list" where "PERM_DB_MAGIC = [0x4D, 0x50, 0x45, 0x31]"
definition PATH_ROOT :: string where "PATH_ROOT = [CHR ''C'', CHR '':'', CHR 0x5C]"

record fs_perm_entry_t =
  fp_used :: bool
  fp_path_hash :: u32
  fp_path :: string
  fp_mode :: u32
  fp_uid :: u32
  fp_gid :: u32

record kperm = kpcb +
  g_perm_table :: "fs_perm_entry_t list"
  g_perm_initialised :: bool
  g_perm_saving :: bool

definition fs_perm_zero :: fs_perm_entry_t where
  "fs_perm_zero = \<lparr>fp_used = False, fp_path_hash = 0, fp_path = [], fp_mode = 0, fp_uid = 0, fp_gid = 0\<rparr>"

section \<open>The file layer up to the resolution of the path\<close>

definition file_write :: "(string \<Rightarrow> u8 list \<Rightarrow> 's \<Rightarrow> int \<times> 's) \<Rightarrow> string \<Rightarrow> u8 list \<Rightarrow> 's \<Rightarrow> int \<times> 's" where
  "file_write wr path buffer s =
     (if length path \<ge> 256 then (-1, s)
      else case path_resolve (Some PATH_ROOT) (Some path) 256 of None \<Rightarrow> (-1, s) | Some resolved \<Rightarrow> wr resolved buffer s)"

definition file_read :: "(string \<Rightarrow> nat \<Rightarrow> 's \<Rightarrow> int \<times> u8 list) \<Rightarrow> string \<Rightarrow> nat \<Rightarrow> 's \<Rightarrow> int \<times> u8 list" where
  "file_read rd path buffer_size s =
     (if length path \<ge> 256 then (-1, [])
      else case path_resolve (Some PATH_ROOT) (Some path) 256 of None \<Rightarrow> (-1, []) | Some resolved \<Rightarrow> rd resolved buffer_size s)"

section \<open>The encrypted database\<close>

definition g_perm_key :: "u8 list" where
  "g_perm_key = [0x4D, 0x6F, 0x6E, 0x69, 0x4F, 0x53, 0x50, 0x65, 0x72, 0x6D, 0x44, 0x42, 0x4B, 0x65, 0x79, 0x31]"

definition perm_crypt :: "u8 list \<Rightarrow> u8 list" where
  "perm_crypt data = map (\<lambda>(i, b). b XOR g_perm_key ! (i mod 16) XOR ucast (drop_bit 3 (of_nat i :: u32) AND 0xFF)) (List.enumerate 0 data)"

definition perm_write_u32_be :: "u32 \<Rightarrow> u8 list" where
  "perm_write_u32_be value = [ucast (drop_bit 24 value AND 0xFF), ucast (drop_bit 16 value AND 0xFF), ucast (drop_bit 8 value AND 0xFF), ucast (value AND 0xFF)]"

definition perm_read_u32_be :: "u8 list \<Rightarrow> u32" where
  "perm_read_u32_be buf = push_bit 24 (ucast (buf ! 0)) OR push_bit 16 (ucast (buf ! 1)) OR push_bit 8 (ucast (buf ! 2)) OR ucast (buf ! 3)"

definition perm_emit_char :: "char \<Rightarrow> string \<times> u32 \<Rightarrow> string \<times> u32" where
  "perm_emit_char c pp = (case pp of (out, remain) \<Rightarrow> if remain > 0 then (out @ [c], remain - 1) else (out, remain))"

definition perm_emit_str :: "string \<Rightarrow> string \<times> u32 \<Rightarrow> string \<times> u32" where
  "perm_emit_str cs pp = fold perm_emit_char cs pp"

fun perm_digits_loop :: "nat \<Rightarrow> u32 \<Rightarrow> string" where
  "perm_digits_loop 0 v = []"
| "perm_digits_loop (Suc room) v = (if v \<noteq> 0 then char_of (48 + unat (v mod 10)) # perm_digits_loop room (v div 10) else [])"

definition perm_emit_uint :: "u32 \<Rightarrow> string \<times> u32 \<Rightarrow> string \<times> u32" where
  "perm_emit_uint v pp = (let tmp = (if v = 0 then ''0'' else perm_digits_loop 12 v) in fold perm_emit_char (rev tmp) pp)"

fun perm_parse_uint :: "u32 \<Rightarrow> string \<Rightarrow> u32 \<times> string" where
  "perm_parse_uint v [] = (v, [])"
| "perm_parse_uint v (c # cs) =
     (if (48 :: nat) \<le> of_char c \<and> of_char c \<le> (57 :: nat) then perm_parse_uint (v * 10 + of_nat (of_char c - 48)) cs else (v, c # cs))"

definition perm_emit_entry :: "fs_perm_entry_t \<Rightarrow> string \<times> u32 \<Rightarrow> string \<times> u32" where
  "perm_emit_entry e pp =
     (if \<not> fp_used e then pp
      else let pp = perm_emit_str (fp_path e) pp; pp = perm_emit_char CHR ''|'' pp; pp = perm_emit_uint (fp_mode e) pp;
               pp = perm_emit_char CHR ''|'' pp; pp = perm_emit_uint (fp_uid e) pp; pp = perm_emit_char CHR ''|'' pp;
               pp = perm_emit_uint (fp_gid e) pp
           in perm_emit_char CHR 0x0A pp)"

definition byte_of :: "char \<Rightarrow> u8" where "byte_of c = of_nat (of_char c)"
definition char_of_byte :: "u8 \<Rightarrow> char" where "char_of_byte b = char_of (unat b)"

definition perm_image :: "fs_perm_entry_t list \<Rightarrow> u8 list" where
  "perm_image tab =
     (let plain = map byte_of (fst (fold perm_emit_entry tab ([], 24576)))
      in PERM_DB_MAGIC @ perm_write_u32_be (of_nat (length plain)) @ perm_crypt plain)"

definition fs_perm_save :: "(string \<Rightarrow> u8 list \<Rightarrow> 'z kperm_scheme \<Rightarrow> int \<times> 'z kperm_scheme) \<Rightarrow> 'z kperm_scheme \<Rightarrow> 'z kperm_scheme" where
  "fs_perm_save wr s =
     (let s = s\<lparr>g_perm_saving := True\<rparr>;
          s = snd (file_write wr PERM_DB_PATH (perm_image (g_perm_table s)) s)
      in s\<lparr>g_perm_saving := False\<rparr>)"

section \<open>The table\<close>

definition fs_perm_djb2 :: "string \<Rightarrow> u32" where
  "fs_perm_djb2 s = foldl (\<lambda>h c. (push_bit 5 h + h) + of_nat (of_char c)) 5381 s"

definition fs_perm_find :: "string \<Rightarrow> fs_perm_entry_t list \<Rightarrow> nat option" where
  "fs_perm_find path tab = find_index (\<lambda>e. fp_used e \<and> fp_path_hash e = fs_perm_djb2 path \<and> fp_path e = path) tab"

fun fs_perm_valid_loop :: "nat \<Rightarrow> string \<Rightarrow> bool" where
  "fs_perm_valid_loop i [] = (i < 128)"
| "fs_perm_valid_loop i (c # cs) =
     (if i \<ge> 128 then False else if c = CHR ''|'' \<or> c = CHR 0x0A \<or> c = CHR 0x0D then False else fs_perm_valid_loop (i + 1) cs)"

definition fs_perm_valid_path :: "string option \<Rightarrow> bool" where
  "fs_perm_valid_path path = (case path of None \<Rightarrow> False | Some p \<Rightarrow> if p = [] then False else fs_perm_valid_loop 0 p)"

definition fs_perm_get :: "string option \<Rightarrow> 'z kperm_scheme \<Rightarrow> (u32 \<times> u32 \<times> u32) option" where
  "fs_perm_get path s =
     (if \<not> fs_perm_valid_path path then None
      else case path_resolve (Some PATH_ROOT) path 128 of
        None \<Rightarrow> None
      | Some canonical \<Rightarrow>
          case fs_perm_find canonical (g_perm_table s) of
            None \<Rightarrow> Some (FS_PERM_DEFAULT_MODE, 0, 0)
          | Some i \<Rightarrow> let e = g_perm_table s ! i in Some (fp_mode e, fp_uid e, fp_gid e))"

text \<open>The entry to fill: the existing one, or the first unused one, which gets the path and its hash.\<close>

definition fs_perm_claim :: "string \<Rightarrow> fs_perm_entry_t list \<Rightarrow> (nat \<times> fs_perm_entry_t list) option" where
  "fs_perm_claim path tab =
     (case fs_perm_find path tab of
        Some i \<Rightarrow> Some (i, tab)
      | None \<Rightarrow>
          case find_index (\<lambda>e. \<not> fp_used e) tab of
            None \<Rightarrow> None
          | Some i \<Rightarrow> Some (i, tab[i := (tab ! i)\<lparr>fp_used := True, fp_path_hash := fs_perm_djb2 path, fp_path := copy_text 128 (Some path)\<rparr>]))"

definition fs_perm_set ::
  "(string \<Rightarrow> u8 list \<Rightarrow> 'z kperm_scheme \<Rightarrow> int \<times> 'z kperm_scheme) \<Rightarrow> string option \<Rightarrow> u32 \<Rightarrow> u32 \<Rightarrow> u32 \<Rightarrow> 'z kperm_scheme \<Rightarrow> bool \<times> 'z kperm_scheme" where
  "fs_perm_set wr path mode uid gid s =
     (if \<not> fs_perm_valid_path path then (False, s)
      else case path_resolve (Some PATH_ROOT) path 128 of
        None \<Rightarrow> (False, s)
      | Some canonical \<Rightarrow>
          case fs_perm_claim canonical (g_perm_table s) of
            None \<Rightarrow> (False, s)
          | Some (i, tab) \<Rightarrow>
              let s = s\<lparr>g_perm_table := tab[i := (tab ! i)\<lparr>fp_mode := mode AND 0xFFF, fp_uid := uid, fp_gid := gid\<rparr>]\<rparr>
              in (True, if \<not> g_perm_saving s then fs_perm_save wr s else s))"

definition fs_perm_check :: "string option \<Rightarrow> bool \<Rightarrow> bool \<Rightarrow> 'z kperm_scheme \<Rightarrow> bool" where
  "fs_perm_check path want_write want_exec s =
     (if g_perm_saving s then True
      else case pcb_get_current s of
        None \<Rightarrow> True
      | Some c \<Rightarrow>
          let cur = g_pcbs s ! c; euid = p_euid cur; egid = p_egid cur in
          if euid = 0 then True
          else case fs_perm_get path s of
            None \<Rightarrow> False
          | Some (mode, uid, gid) \<Rightarrow>
              let shift = (if uid = euid then 6 else if gid = egid then 3 else 0) in
              if want_write \<and> mode AND push_bit shift FS_PERM_OTH_W = 0 then False
              else if want_exec \<and> mode AND push_bit shift FS_PERM_OTH_X = 0 then False
              else if \<not> want_write \<and> \<not> want_exec \<and> mode AND push_bit shift FS_PERM_OTH_R = 0 then False
              else True)"

definition sys_chmod where
  "sys_chmod wr exists path mode s =
     (case pcb_get_current s of
        None \<Rightarrow> (-1, s)
      | Some c \<Rightarrow>
          if \<not> exists path then (-1, s)
          else case fs_perm_get path s of
            None \<Rightarrow> (-1 :: int, s)
          | Some (_, owner_uid, gid) \<Rightarrow>
              if p_euid (g_pcbs s ! c) \<noteq> 0 \<and> p_euid (g_pcbs s ! c) \<noteq> owner_uid then (-1, s)
              else case fs_perm_set wr path mode owner_uid gid s of (ok, s) \<Rightarrow> (if ok then 0 else -1, s))"

definition sys_chown where
  "sys_chown wr exists path uid gid s =
     (case pcb_get_current s of
        None \<Rightarrow> (-1, s)
      | Some c \<Rightarrow>
          if \<not> exists path then (-1, s)
          else if p_euid (g_pcbs s ! c) \<noteq> 0 then (-1, s)
          else case fs_perm_get path s of
            None \<Rightarrow> (-1 :: int, s)
          | Some (mode, owner_uid, owner_gid) \<Rightarrow>
              let uid = (if uid = -1 then owner_uid else uid); gid = (if gid = -1 then owner_gid else gid)
              in case fs_perm_set wr path mode uid gid s of (ok, s) \<Rightarrow> (if ok then 0 else -1, s))"

section \<open>Loading the database\<close>

text \<open>One line; the parser reads the field in front of each separator.\<close>

definition perm_load_line where
  "perm_load_line wr line s =
     (let path = take 127 (takeWhile (\<lambda>c. c \<noteq> CHR ''|'') line); p = drop (length path) line in
      if p = [] \<or> hd p \<noteq> CHR ''|'' \<or> path = [] then s
      else case perm_parse_uint 0 (tl p) of (mode, p) \<Rightarrow>
        if p = [] \<or> hd p \<noteq> CHR ''|'' then s
        else case perm_parse_uint 0 (tl p) of (uid, p) \<Rightarrow>
          if p = [] \<or> hd p \<noteq> CHR ''|'' then s
          else case perm_parse_uint 0 (tl p) of (gid, p) \<Rightarrow> snd (fs_perm_set wr (Some path) mode uid gid s))"

definition perm_next_line :: "string \<Rightarrow> string \<times> string" where
  "perm_next_line p =
     (let line = take 199 (takeWhile (\<lambda>c. c \<noteq> CHR 0x0A) p); rest = drop (length line) p;
          rest = (if rest \<noteq> [] \<and> hd rest = CHR 0x0A then tl rest else rest)
      in (if line \<noteq> [] \<and> last line = CHR 0x0D then butlast line else line, rest))"

lemma perm_next_line_shorter: "perm_next_line p = (line, rest) \<Longrightarrow> p \<noteq> [] \<Longrightarrow> length rest < length p"
  by (cases p) (auto simp: perm_next_line_def Let_def)

function perm_load_lines where
  "perm_load_lines wr p s =
     (if p = [] then s
      else case perm_next_line p of (line, rest) \<Rightarrow> perm_load_lines wr rest (if line \<noteq> [] then perm_load_line wr line s else s))"
  by pat_completeness auto
termination
  by (relation "measure (\<lambda>(_, p, _). length p)") (auto dest: perm_next_line_shorter [OF sym])

declare perm_load_lines.simps [simp del]

definition perm_load_image where
  "perm_load_image wr buf s =
     (let encrypted = (length buf \<ge> 8 \<and> take 4 buf = PERM_DB_MAGIC);
          plain = (if encrypted then let plain_len = min (unat (perm_read_u32_be (drop 4 buf))) (length buf - 8) in perm_crypt (take plain_len (drop 8 buf))
                   else buf);
          s = perm_load_lines wr (takeWhile (\<lambda>c. c \<noteq> CHR 0x00) (map char_of_byte plain)) s
      in if \<not> encrypted then fs_perm_save wr s else s)"

definition fs_perm_load where
  "fs_perm_load wr rd s =
     (let s = s\<lparr>g_perm_saving := True\<rparr> in
      case file_read rd PERM_DB_PATH 20487 s of (n, buf) \<Rightarrow>
        (if n > 0 then perm_load_image wr (take (nat n) buf) s else s)\<lparr>g_perm_saving := False\<rparr>)"

definition fs_perm_init where
  "fs_perm_init wr rd s = (fs_perm_load wr rd (s\<lparr>g_perm_table := replicate FS_PERM_TABLE_SIZE fs_perm_zero\<rparr>))\<lparr>g_perm_initialised := True\<rparr>"

section \<open>The database is never reached\<close>

lemma path_root_slash: "\<not> path_slash (Some PATH_ROOT)"
  by (simp add: path_slash_def PATH_ROOT_def)

lemma db_path_unresolved: "path_resolve (Some PATH_ROOT) (Some PERM_DB_PATH) osz = None"
  by (simp add: path_resolve_spec path_slash_def PERM_DB_PATH_def)

lemma fs_perm_save_nop: "fs_perm_save wr s = s\<lparr>g_perm_saving := False\<rparr>"
  by (simp add: fs_perm_save_def file_write_def db_path_unresolved Let_def)

lemma fs_perm_load_nop: "fs_perm_load wr rd s = s\<lparr>g_perm_saving := False\<rparr>"
  by (simp add: fs_perm_load_def file_read_def db_path_unresolved Let_def)

section \<open>Encryption and headers\<close>

lemma perm_crypt_length [simp]: "length (perm_crypt d) = length d"
  by (simp add: perm_crypt_def)

lemma perm_crypt_nth: "i < length d \<Longrightarrow> perm_crypt d ! i = d ! i XOR g_perm_key ! (i mod 16) XOR ucast (drop_bit 3 (of_nat i :: u32) AND 0xFF)"
  by (simp add: perm_crypt_def nth_enumerate_eq)

lemma perm_crypt_twice: "perm_crypt (perm_crypt d) = d"
  by (rule nth_equalityI) (simp_all add: perm_crypt_nth xor.assoc xor.left_commute)

lemma mask_8_u32: "(0xFF :: u32) = mask 8"
  by (simp add: mask_eq_exp_minus_1)

lemma perm_u32_roundtrip: "perm_read_u32_be (perm_write_u32_be v @ rest) = v"
proof (rule bit_word_eqI)
  fix n assume n: "n < LENGTH(32)"
  consider "n < 8" | "8 \<le> n" "n < 16" | "16 \<le> n" "n < 24" | "24 \<le> n" by linarith
  then show "bit (perm_read_u32_be (perm_write_u32_be v @ rest)) n = bit v n"
    unfolding perm_read_u32_be_def perm_write_u32_be_def mask_8_u32
    by cases (use n in \<open>simp_all add: bit_simps less_diff_conv2 nth_append numeral_2_eq_2 numeral_3_eq_3\<close>)
qed

lemma char_byte_roundtrip: "char_of_byte (byte_of c) = c"
proof -
  have "(of_char c :: nat) < 256" by simp
  then have "unat (of_nat (of_char c) :: u8) = of_char c" by (simp add: unat_of_nat take_bit_nat_eq_self)
  then show ?thesis by (simp add: char_of_byte_def byte_of_def)
qed

section \<open>Decimal numbers\<close>

lemma digit_parse: "perm_parse_uint a (char_of (48 + unat (v mod 10)) # rest) = perm_parse_uint (a * 10 + v mod 10) rest" for v :: u32
proof -
  have d: "unat (v mod 10) < 10" by (simp add: unat_mod)
  then have "(of_char (char_of (48 + unat (v mod 10)) :: char) :: nat) = 48 + unat (v mod 10)" by simp
  then show ?thesis using d by (simp del: of_char_of)
qed

lemma digits_parse:
  "unat v < 10 ^ room \<Longrightarrow> perm_parse_uint a (rev (perm_digits_loop room v) @ rest) = perm_parse_uint (a * 10 ^ length (perm_digits_loop room v) + v) rest"
proof (induction room arbitrary: v rest)
  case 0
  then have "v = 0" by (simp add: unat_eq_0)
  then show ?case by simp
next
  case (Suc room)
  show ?case
  proof (cases "v = 0")
    case False
    have "unat (v div 10) < 10 ^ room" using Suc.prems by (simp add: unat_div less_mult_imp_div_less mult.commute)
    note IH = Suc.IH [OF this]
    have e: "(x + v div 10) * 10 + v mod 10 = x * 10 + v" for x :: u32 using div_mult_mod_eq [of v 10] by (simp add: algebra_simps)
    let ?l = "length (perm_digits_loop room (v div 10))"
    have "perm_parse_uint a (rev (perm_digits_loop (Suc room) v) @ rest) = perm_parse_uint (a * 10 ^ ?l + v div 10) (char_of (48 + unat (v mod 10)) # rest)"
      using False IH by (simp del: perm_parse_uint.simps)
    also have "\<dots> = perm_parse_uint (a * 10 ^ ?l * 10 + v) rest" unfolding digit_parse e ..
    finally show ?thesis using False by (simp add: mult.assoc mult.commute mult.left_commute)
  qed simp
qed

lemma emit_uint_parse:
  "perm_parse_uint 0 (rev (if v = 0 then ''0'' else perm_digits_loop 12 v) @ rest) = perm_parse_uint v rest"
proof (cases "v = 0")
  case False
  have "unat v < 10 ^ 12" using unat_u32_less [of v] by simp
  then show ?thesis using False digits_parse [of v 12 0 rest] by simp
qed simp

definition decimal :: "u32 \<Rightarrow> string" where
  "decimal v = rev (if v = 0 then ''0'' else perm_digits_loop 12 v)"

lemma parse_decimal: "perm_parse_uint 0 (decimal v @ rest) = perm_parse_uint v rest"
  unfolding decimal_def by (rule emit_uint_parse)

lemma digits_length: "unat v < 10 ^ k \<Longrightarrow> length (perm_digits_loop room v) \<le> k"
proof (induction room arbitrary: v k)
  case (Suc room)
  show ?case
  proof (cases "v = 0")
    case False
    then obtain k' where k: "k = Suc k'" using Suc.prems by (cases k) (auto simp: unat_eq_0)
    have "unat (v div 10) < 10 ^ k'" using Suc.prems k by (simp add: unat_div less_mult_imp_div_less mult.commute)
    then show ?thesis using Suc.IH [of "v div 10" k'] k by simp
  qed simp
qed simp

lemma digits_chars: "c \<in> set (perm_digits_loop room v) \<Longrightarrow> (48 :: nat) \<le> of_char c \<and> of_char c \<le> (57 :: nat)"
proof (induction room arbitrary: v)
  case (Suc room)
  have "unat (v mod 10) < 10" by (simp add: unat_mod)
  then have "(of_char (char_of (48 + unat (v mod 10)) :: char) :: nat) = 48 + unat (v mod 10)" by simp
  then show ?case using Suc \<open>unat (v mod 10) < 10\<close> by (auto simp del: of_char_of split: if_splits)
qed simp

lemma decimal_chars: "c \<in> set (decimal v) \<Longrightarrow> (48 :: nat) \<le> of_char c \<and> of_char c \<le> (57 :: nat)"
  using digits_chars [of c 12 v] by (auto simp: decimal_def split: if_splits)

lemma decimal_length: "length (decimal v) \<le> 10" "v AND 0xFFF = v \<Longrightarrow> length (decimal v) \<le> 4" "decimal v \<noteq> []"
proof -
  show "length (decimal v) \<le> 10" using digits_length [of v 10 12] unat_u32_less [of v] by (simp add: decimal_def)
  show "length (decimal v) \<le> 4" if "v AND 0xFFF = v"
  proof -
    have "(0xFFF :: u32) = mask 12" by (simp add: mask_eq_exp_minus_1)
    then have "v = take_bit 12 v" using that by (simp add: take_bit_eq_mask)
    then have "unat v = take_bit 12 (unat v)" by (metis unsigned_take_bit_eq)
    then have "unat v < 4096" using take_bit_nat_less_exp [of 12 "unat v"] by simp
    then show ?thesis using digits_length [of v 4 12] by (simp add: decimal_def)
  qed
  have "perm_digits_loop 12 v \<noteq> []" if "v \<noteq> 0" using that by (simp add: numeral_eq_Suc)
  then show "decimal v \<noteq> []" by (simp add: decimal_def)
qed

section \<open>The text of the database\<close>

definition entry_line :: "fs_perm_entry_t \<Rightarrow> string" where
  "entry_line e = fp_path e @ ''|'' @ decimal (fp_mode e) @ ''|'' @ decimal (fp_uid e) @ ''|'' @ decimal (fp_gid e)"

definition perm_entry_ok :: "fs_perm_entry_t \<Rightarrow> bool" where
  "perm_entry_ok e \<longleftrightarrow> fp_used e \<longrightarrow> fs_perm_valid_path (Some (fp_path e)) \<and> path_resolve (Some PATH_ROOT) (Some (fp_path e)) 128 = Some (fp_path e) \<and>
     fp_path_hash e = fs_perm_djb2 (fp_path e) \<and> fp_mode e AND 0xFFF = fp_mode e \<and> CHR 0x00 \<notin> set (fp_path e)"

definition perm_table_ok :: "fs_perm_entry_t list \<Rightarrow> bool" where
  "perm_table_ok tab \<longleftrightarrow> length tab = FS_PERM_TABLE_SIZE \<and> (\<forall>e \<in> set tab. perm_entry_ok e) \<and>
     (\<forall>i < length tab. \<forall>j < length tab. fp_used (tab ! i) \<and> fp_used (tab ! j) \<and> fp_path (tab ! i) = fp_path (tab ! j) \<longrightarrow> i = j)"

lemma distinct_filter:
  assumes "\<forall>i < length xs. \<forall>j < length xs. P (xs ! i) \<and> P (xs ! j) \<and> f (xs ! i) = f (xs ! j) \<longrightarrow> i = j"
  shows "distinct (map f (filter P xs))"
  using assms
proof (induction xs)
  case (Cons x xs)
  have "f y \<noteq> f x" if y: "P x" "P y" "y \<in> set xs" for y
  proof -
    obtain j where "j < length xs" "y = xs ! j" using y(3) by (auto simp: in_set_conv_nth)
    then show ?thesis using Cons.prems y(1,2) by (metis Suc_less_eq length_Cons nat.distinct(1) nth_Cons_0 nth_Cons_Suc zero_less_Suc)
  qed
  moreover have "distinct (map f (filter P xs))" using Cons.prems by (intro Cons.IH) (metis Suc_less_eq length_Cons nat.inject nth_Cons_Suc)
  ultimately show ?case by (fastforce simp: image_iff)
qed simp

lemma valid_loop_iff: "fs_perm_valid_loop i p \<longleftrightarrow> i + length p < 128 \<and> CHR ''|'' \<notin> set p \<and> CHR 0x0A \<notin> set p \<and> CHR 0x0D \<notin> set p"
  by (induction i p rule: fs_perm_valid_loop.induct) auto

lemma valid_path_iff: "fs_perm_valid_path (Some p) \<longleftrightarrow> p \<noteq> [] \<and> length p < 128 \<and> CHR ''|'' \<notin> set p \<and> CHR 0x0A \<notin> set p \<and> CHR 0x0D \<notin> set p"
  by (simp add: fs_perm_valid_path_def valid_loop_iff)

lemma emit_chars:
  "length cs \<le> unat remain \<Longrightarrow> fold perm_emit_char cs (out, remain) = (out @ cs, remain - of_nat (length cs))"
proof (induction cs arbitrary: out remain)
  case (Cons c cs)
  have r: "remain > 0" using Cons.prems by (simp add: word_less_nat_alt)
  then have "unat (remain - 1) = unat remain - 1" by (simp add: unat_minus_one word_neq_0_conv)
  then show ?case using Cons r by (simp add: perm_emit_char_def algebra_simps)
qed simp

lemma emit_char_fold: "perm_emit_char c pp = fold perm_emit_char [c] pp"
  by simp

lemma perm_emit_entry_fold: "fp_used e \<Longrightarrow> perm_emit_entry e pp = fold perm_emit_char (entry_line e @ [CHR 0x0A]) pp"
  by (simp add: perm_emit_entry_def Let_def perm_emit_str_def perm_emit_uint_def entry_line_def decimal_def)

lemma entry_line_length:
  assumes "perm_entry_ok e" "fp_used e"
  shows "length (entry_line e) \<le> 154"
  using assms decimal_length(2) [of "fp_mode e"] decimal_length(1) [of "fp_uid e"] decimal_length(1) [of "fp_gid e"]
  by (simp add: perm_entry_ok_def entry_line_def valid_path_iff)

definition db_text :: "fs_perm_entry_t list \<Rightarrow> string" where
  "db_text tab = concat (map (\<lambda>e. entry_line e @ [CHR 0x0A]) (filter fp_used tab))"

lemma emit_table: "fold perm_emit_entry tab pp = fold perm_emit_char (db_text tab) pp"
proof (induction tab arbitrary: pp)
  case (Cons e tab)
  have "perm_emit_entry e pp = fold perm_emit_char (if fp_used e then entry_line e @ [CHR 0x0A] else []) pp"
    using perm_emit_entry_fold [of e pp] by (simp add: perm_emit_entry_def)
  then show ?case using Cons by (simp add: db_text_def)
qed (simp add: db_text_def)

lemma db_text_length:
  assumes "\<forall>e \<in> set tab. perm_entry_ok e"
  shows "length (db_text tab) \<le> 155 * length tab"
  using assms
proof (induction tab)
  case (Cons e tab)
  then show ?case using entry_line_length [of e] by (auto simp: db_text_def)
qed (simp add: db_text_def)

lemma perm_image_text:
  assumes "perm_table_ok tab"
  shows "perm_image tab = PERM_DB_MAGIC @ perm_write_u32_be (of_nat (length (db_text tab))) @ perm_crypt (map byte_of (db_text tab))" "length (db_text tab) \<le> 19840"
proof -
  show l: "length (db_text tab) \<le> 19840" using db_text_length [of tab] assms by (simp add: perm_table_ok_def FS_PERM_TABLE_SIZE_def)
  then have "fold perm_emit_char (db_text tab) ([], 24576) = (db_text tab, 24576 - of_nat (length (db_text tab)))"
    using emit_chars [of "db_text tab" 24576 "[]"] by simp
  then show "perm_image tab = PERM_DB_MAGIC @ perm_write_u32_be (of_nat (length (db_text tab))) @ perm_crypt (map byte_of (db_text tab))"
    by (simp add: perm_image_def emit_table)
qed

section \<open>Reading the text back\<close>

lemma entry_line_chars:
  assumes "perm_entry_ok e" "fp_used e" "c \<in> set (entry_line e)"
  shows "c \<noteq> CHR 0x0A" "c \<noteq> CHR 0x00"
  using assms decimal_chars [of c "fp_mode e"] decimal_chars [of c "fp_uid e"] decimal_chars [of c "fp_gid e"]
  by (auto simp: entry_line_def perm_entry_ok_def valid_path_iff)

lemma entry_line_last: "entry_line e \<noteq> []" "last (entry_line e) \<noteq> CHR 0x0D"
proof -
  show "entry_line e \<noteq> []" by (simp add: entry_line_def)
  have "last (entry_line e) = last (decimal (fp_gid e))" using decimal_length(3) [of "fp_gid e"] by (simp add: entry_line_def)
  moreover have "last (decimal (fp_gid e)) \<in> set (decimal (fp_gid e))" using decimal_length(3) by simp
  ultimately have "(48 :: nat) \<le> of_char (last (entry_line e))" using decimal_chars by simp
  then show "last (entry_line e) \<noteq> CHR 0x0D" by (intro notI) simp
qed

lemma next_entry_line:
  assumes "perm_entry_ok e" "fp_used e"
  shows "perm_next_line (entry_line e @ CHR 0x0A # rest) = (entry_line e, rest)"
proof -
  have "takeWhile (\<lambda>c. c \<noteq> CHR 0x0A) (entry_line e @ CHR 0x0A # rest) = entry_line e"
    using entry_line_chars(1) [OF assms] by (simp add: takeWhile_append2)
  then show ?thesis using entry_line_length [OF assms] entry_line_last [of e] by (simp add: perm_next_line_def Let_def)
qed

lemma parse_stop: "perm_parse_uint v (CHR ''|'' # rest) = (v, CHR ''|'' # rest)"
  by simp

lemma load_entry_line:
  assumes "perm_entry_ok e" "fp_used e"
  shows "perm_load_line wr (entry_line e) s = snd (fs_perm_set wr (Some (fp_path e)) (fp_mode e) (fp_uid e) (fp_gid e) s)"
proof -
  let ?r3 = "decimal (fp_gid e)"
  let ?r2 = "decimal (fp_uid e) @ CHR ''|'' # ?r3"
  let ?r1 = "decimal (fp_mode e) @ CHR ''|'' # ?r2"
  have v: "fp_path e \<noteq> []" "length (fp_path e) < 128" "CHR ''|'' \<notin> set (fp_path e)"
    using assms by (simp_all add: perm_entry_ok_def valid_path_iff)
  have l: "entry_line e = fp_path e @ CHR ''|'' # ?r1" by (simp add: entry_line_def)
  have "takeWhile (\<lambda>c. c \<noteq> CHR ''|'') (entry_line e) = fp_path e" using v(3) unfolding l by (subst takeWhile_append2) auto
  then have p: "take 127 (takeWhile (\<lambda>c. c \<noteq> CHR ''|'') (entry_line e)) = fp_path e" using v(2) by simp
  have d: "drop (length (fp_path e)) (entry_line e) = CHR ''|'' # ?r1" by (simp add: l)
  have p1: "perm_parse_uint 0 ?r1 = (fp_mode e, CHR ''|'' # ?r2)" by (simp only: parse_decimal parse_stop)
  have p2: "perm_parse_uint 0 ?r2 = (fp_uid e, CHR ''|'' # ?r3)" by (simp only: parse_decimal parse_stop)
  have p3: "perm_parse_uint 0 ?r3 = (fp_gid e, [])" using parse_decimal [of "fp_gid e" "[]"] by simp
  show ?thesis using v(1) unfolding perm_load_line_def Let_def p d by (simp add: p1 p2 p3)
qed

text \<open>Storing an entry for a path that the table does not have: it takes the first unused slot.\<close>

lemma find_index_append: "(\<forall>x \<in> set xs. \<not> P x) \<Longrightarrow> find_index P (xs @ ys) = map_option (\<lambda>k. length xs + k) (find_index P ys)"
  by (induction xs; cases "find_index P ys") auto

lemma set_new_entry:
  assumes e: "perm_entry_ok e" "fp_used e" and tab: "g_perm_table s = es @ replicate (Suc m) fs_perm_zero" and used: "\<forall>x \<in> set es. fp_used x"
    and fresh: "fp_path e \<notin> fp_path ` set es" and saving: "g_perm_saving s"
  shows "snd (fs_perm_set wr (Some (fp_path e)) (fp_mode e) (fp_uid e) (fp_gid e) s) = s\<lparr>g_perm_table := (es @ [e]) @ replicate m fs_perm_zero\<rparr>"
proof -
  let ?p = "fp_path e" and ?tab = "es @ replicate (Suc m) fs_perm_zero"
  have E: "fs_perm_valid_path (Some ?p)" "path_resolve (Some PATH_ROOT) (Some ?p) 128 = Some ?p" "fp_path_hash e = fs_perm_djb2 ?p" "fp_mode e AND 0xFFF = fp_mode e" "length ?p < 128"
    using e by (simp_all add: perm_entry_ok_def valid_path_iff)
  have f: "fs_perm_find ?p ?tab = None" unfolding fs_perm_find_def find_index_None_iff using fresh by (auto simp: fs_perm_zero_def image_iff)
  have u: "find_index (\<lambda>e. \<not> fp_used e) ?tab = Some (length es)" using used by (subst find_index_append) (simp_all add: fs_perm_zero_def)
  have c: "fs_perm_claim ?p ?tab = Some (length es, es @ fs_perm_zero\<lparr>fp_used := True, fp_path_hash := fs_perm_djb2 ?p, fp_path := ?p\<rparr> # replicate m fs_perm_zero)"
    unfolding fs_perm_claim_def f u using E(5) by (simp add: nth_append list_update_append)
  have "fs_perm_zero\<lparr>fp_used := True, fp_path_hash := fs_perm_djb2 ?p, fp_path := ?p, fp_mode := fp_mode e, fp_uid := fp_uid e, fp_gid := fp_gid e\<rparr> = e"
    using e(2) E(3) by (cases e) (simp add: fs_perm_zero_def)
  then show ?thesis using E(1,4) saving unfolding fs_perm_set_def tab E(2) option.case c by (simp add: list_update_append nth_append Let_def)
qed

lemma load_entries:
  assumes "\<forall>e \<in> set (es @ fs). perm_entry_ok e \<and> fp_used e" "distinct (map fp_path (es @ fs))" "g_perm_saving s"
    "g_perm_table s = es @ replicate (length fs + m) fs_perm_zero"
  shows "perm_load_lines wr (concat (map (\<lambda>e. entry_line e @ [CHR 0x0A]) fs)) s = s\<lparr>g_perm_table := es @ fs @ replicate m fs_perm_zero\<rparr>"
  using assms
proof (induction fs arbitrary: es s)
  case Nil
  then show ?case by (simp add: perm_load_lines.simps)
next
  case (Cons e fs)
  let ?rest = "concat (map (\<lambda>e. entry_line e @ [CHR 0x0A]) fs)" and ?s = "s\<lparr>g_perm_table := (es @ [e]) @ replicate (length fs + m) fs_perm_zero\<rparr>"
  have e: "perm_entry_ok e" "fp_used e" using Cons.prems(1) by auto
  have "perm_load_line wr (entry_line e) s = ?s" unfolding load_entry_line [OF e]
    by (rule set_new_entry [OF e]) (use Cons.prems in auto)
  then have "perm_load_lines wr (concat (map (\<lambda>e. entry_line e @ [CHR 0x0A]) (e # fs))) s = perm_load_lines wr ?rest ?s"
    using next_entry_line [OF e, of ?rest] entry_line_last(1) [of e] by (subst perm_load_lines.simps) simp
  also have "\<dots> = ?s\<lparr>g_perm_table := (es @ [e]) @ fs @ replicate m fs_perm_zero\<rparr>"
    by (rule Cons.IH) (use Cons.prems in auto)
  finally show ?case by simp
qed

lemma image_loads:
  assumes ok: "perm_table_ok tab" and s: "g_perm_saving s" "g_perm_table s = replicate FS_PERM_TABLE_SIZE fs_perm_zero"
  shows "perm_load_image wr (perm_image tab) s = s\<lparr>g_perm_table := filter fp_used tab @ replicate (FS_PERM_TABLE_SIZE - length (filter fp_used tab)) fs_perm_zero\<rparr>"
proof -
  let ?t = "db_text tab" and ?fs = "filter fp_used tab"
  note I = perm_image_text [OF ok]
  have hdr: "length PERM_DB_MAGIC = 4" "\<And>v. length (perm_write_u32_be v) = 4" by (simp_all add: PERM_DB_MAGIC_def perm_write_u32_be_def)
  have hd: "length (perm_image tab) = 8 + length ?t" "take 4 (perm_image tab) = PERM_DB_MAGIC" "drop 8 (perm_image tab) = perm_crypt (map byte_of ?t)"
    "drop 4 (perm_image tab) = perm_write_u32_be (of_nat (length ?t)) @ perm_crypt (map byte_of ?t)"
    unfolding I(1) by (simp_all add: hdr)
  have n: "unat (perm_read_u32_be (drop 4 (perm_image tab))) = length ?t" unfolding hd(4) perm_u32_roundtrip using I(2) by (simp add: unat_of_nat_u32)
  have ok': "\<forall>e \<in> set ?fs. perm_entry_ok e \<and> fp_used e" using ok by (simp add: perm_table_ok_def)
  have "c \<noteq> CHR 0x00" if "c \<in> set ?t" for c
  proof -
    from that have "c \<in> (\<Union>e \<in> set ?fs. set (entry_line e @ [CHR 0x0A]))" unfolding db_text_def by (simp only: set_concat set_map UN_simps image_image)
    then obtain e where e: "e \<in> set ?fs" "c \<in> set (entry_line e @ [CHR 0x0A])" by (rule UN_E)
    have "c \<noteq> CHR 0x00" if "c \<in> set (entry_line e)"
      by (rule entry_line_chars(2) [OF _ _ that]) (use ok' e(1) in blast)+
    moreover have "c \<in> set (entry_line e) \<or> c = CHR 0x0A" using e(2) by auto
    ultimately show ?thesis by fastforce
  qed
  then have t: "takeWhile (\<lambda>c. c \<noteq> CHR 0x00) (map char_of_byte (map byte_of ?t)) = ?t"
    by (simp add: comp_def char_byte_roundtrip takeWhile_eq_all_conv)
  have len: "length ?fs + (FS_PERM_TABLE_SIZE - length ?fs) = FS_PERM_TABLE_SIZE" using ok length_filter_le [of fp_used tab] by (simp add: perm_table_ok_def)
  have dist: "distinct (map fp_path ([] @ ?fs))" using distinct_filter ok unfolding perm_table_ok_def append_Nil by blast
  have tab0: "g_perm_table s = [] @ replicate (length ?fs + (FS_PERM_TABLE_SIZE - length ?fs)) fs_perm_zero" unfolding len s(2) by simp
  have "perm_load_lines wr ?t s = s\<lparr>g_perm_table := ?fs @ replicate (FS_PERM_TABLE_SIZE - length ?fs) fs_perm_zero\<rparr>"
    using load_entries [OF _ dist s(1) tab0, of wr] ok' unfolding db_text_def append_Nil by blast
  then show ?thesis unfolding perm_load_image_def Let_def n hd(1-3) using t by (simp add: perm_crypt_twice)
qed

section \<open>The table as a map\<close>

definition perm_lookup :: "fs_perm_entry_t list \<Rightarrow> string \<Rightarrow> (u32 \<times> u32 \<times> u32) option" where
  "perm_lookup tab p = map_option (\<lambda>i. (fp_mode (tab ! i), fp_uid (tab ! i), fp_gid (tab ! i))) (fs_perm_find p tab)"

definition canon :: "string \<Rightarrow> string option" where
  "canon p = (if fs_perm_valid_path (Some p) then path_resolve (Some PATH_ROOT) (Some p) 128 else None)"

lemma fs_perm_get_lookup:
  "fs_perm_get (Some p) s = (case canon p of None \<Rightarrow> None | Some q \<Rightarrow> Some (case perm_lookup (g_perm_table s) q of None \<Rightarrow> (FS_PERM_DEFAULT_MODE, 0, 0) | Some r \<Rightarrow> r))"
  by (simp add: fs_perm_get_def canon_def perm_lookup_def Let_def split: option.splits)

lemma canon_canon:
  assumes "canon p = Some q"
  shows "fs_perm_valid_path (Some q)" "path_resolve (Some PATH_ROOT) (Some q) 128 = Some q" "length q < 128"
    "CHR 0x00 \<notin> set p \<Longrightarrow> CHR 0x00 \<notin> set q"
proof -
  have p: "fs_perm_valid_path (Some p)" "path_resolve (Some PATH_ROOT) (Some p) 128 = Some q" using assms by (auto simp: canon_def split: if_splits)
  note C = path_resolve_canonical_spec [OF p(2) path_root_slash]
  show "path_resolve (Some PATH_ROOT) (Some q) 128 = Some q" using C by blast
  show l: "length q < 128" using path_resolve_length [OF p(2)] by simp
  have ch: "c \<in> set p \<or> c \<in> set PATH_ROOT \<or> c = CHR '':'' \<or> c = PATH_SEPARATOR \<or> drive_letter c" if "c \<in> set q" for c
    using path_resolve_chars [OF p(2) that] by auto
  have no: "c \<notin> set q" if "c \<notin> set p" "c \<in> {CHR ''|'', CHR 0x0A, CHR 0x0D, CHR 0x00}" for c
    using ch [of c] that by (auto simp: PATH_ROOT_def PATH_SEPARATOR_def drive_letter_def)
  have "q \<noteq> []" using C by (auto simp: render_def)
  then show "fs_perm_valid_path (Some q)" using l p(1) no by (simp add: valid_path_iff)
  show "CHR 0x00 \<notin> set p \<Longrightarrow> CHR 0x00 \<notin> set q" using no by blast
qed

lemma find_index_update_same: "P y = P (xs ! i) \<Longrightarrow> i < length xs \<Longrightarrow> find_index P (xs[i := y]) = find_index P xs"
proof (induction xs arbitrary: i)
  case (Cons x xs)
  then show ?case by (cases i) auto
qed simp

lemma find_index_update_hit:
  assumes "i < length xs" "P y" "find_index P xs = None \<or> find_index P xs = Some i"
  shows "find_index P (xs[i := y]) = Some i"
  unfolding find_index_Some_iff using assms by (auto simp: nth_update_lt find_index_None_iff find_index_Some_iff)

text \<open>What storing does to the table: one entry is rewritten, and the map changes at the path only.\<close>

lemma fs_perm_claim_spec:
  assumes "fs_perm_claim q tab = Some (i, tab1)" "length q < 128"
    and "tab2 = tab1[i := (tab1 ! i)\<lparr>fp_mode := m, fp_uid := u, fp_gid := g\<rparr>]"
  obtains e where "i < length tab" "tab2 = tab[i := e]" "e = \<lparr>fp_used = True, fp_path_hash = fs_perm_djb2 q, fp_path = q, fp_mode = m, fp_uid = u, fp_gid = g\<rparr>"
    "fs_perm_find q tab = Some i \<or> (fs_perm_find q tab = None \<and> \<not> fp_used (tab ! i))"
proof (cases "fs_perm_find q tab")
  case (Some k)
  note F = find_index_SomeD [OF Some [unfolded fs_perm_find_def]]
  have i: "i = k" "tab1 = tab" using assms(1) Some by (auto simp: fs_perm_claim_def)
  have "tab2 = tab[i := \<lparr>fp_used = True, fp_path_hash = fs_perm_djb2 q, fp_path = q, fp_mode = m, fp_uid = u, fp_gid = g\<rparr>]"
    unfolding assms(3) i using F(2) by (cases "tab ! k") simp
  then show ?thesis using that F(1) Some i by blast
next
  case None
  obtain k where k: "find_index (\<lambda>e. \<not> fp_used e) tab = Some k" "i = k"
    "tab1 = tab[k := (tab ! k)\<lparr>fp_used := True, fp_path_hash := fs_perm_djb2 q, fp_path := copy_text 128 (Some q)\<rparr>]"
    using assms(1) None by (auto simp: fs_perm_claim_def split: option.splits)
  note F = find_index_SomeD [OF k(1)]
  have "tab2 = tab[i := \<lparr>fp_used = True, fp_path_hash = fs_perm_djb2 q, fp_path = q, fp_mode = m, fp_uid = u, fp_gid = g\<rparr>]"
    unfolding assms(3) k(2,3) using F(1) assms(2) by (cases "tab ! k") simp
  then show ?thesis using that F(1,2) None k(2) by blast
qed

lemma perm_lookup_update:
  assumes "i < length tab" "fs_perm_find q tab = Some i \<or> (fs_perm_find q tab = None \<and> \<not> fp_used (tab ! i))"
    and e: "fp_used e" "fp_path_hash e = fs_perm_djb2 q" "fp_path e = q"
  shows "perm_lookup (tab[i := e]) p = (if p = q then Some (fp_mode e, fp_uid e, fp_gid e) else perm_lookup tab p)"
proof (cases "p = q")
  case True
  have "fs_perm_find q (tab[i := e]) = Some i"
    unfolding fs_perm_find_def by (rule find_index_update_hit [OF assms(1)]) (use assms(2) e in \<open>auto simp: fs_perm_find_def\<close>)
  then show ?thesis using True assms(1) by (simp add: perm_lookup_def)
next
  case False
  have m: "\<not> (fp_used (tab ! i) \<and> fp_path_hash (tab ! i) = fs_perm_djb2 p \<and> fp_path (tab ! i) = p)"
    using assms(2) False find_index_SomeD(2) [of _ tab i] unfolding fs_perm_find_def by blast
  have f: "fs_perm_find p (tab[i := e]) = fs_perm_find p tab"
    unfolding fs_perm_find_def by (rule find_index_update_same [OF _ assms(1)]) (use m e(3) False in simp)
  have "j \<noteq> i" if "fs_perm_find p tab = Some j" for j
    using find_index_SomeD(2) [OF that [unfolded fs_perm_find_def]] m by auto
  then show ?thesis using False f by (cases "fs_perm_find p tab") (simp_all add: perm_lookup_def)
qed

lemma perm_table_ok_update:
  assumes ok: "perm_table_ok tab" and i: "i < length tab" "fs_perm_find q tab = Some i \<or> (fs_perm_find q tab = None \<and> \<not> fp_used (tab ! i))"
    and e: "fp_used e" "fp_path e = q" "perm_entry_ok e"
  shows "perm_table_ok (tab[i := e])"
proof -
  have E: "\<forall>x \<in> set (tab[i := e]). perm_entry_ok x" using ok e(3) set_update_subset_insert [of tab i e] by (auto simp: perm_table_ok_def)
  have uniq: "j = i" if "j < length tab" "fp_used (tab ! j)" "fp_path (tab ! j) = q" for j
  proof (rule ccontr)
    assume ne: "j \<noteq> i"
    have h: "fp_path_hash (tab ! j) = fs_perm_djb2 q" using ok that by (auto simp: perm_table_ok_def perm_entry_ok_def)
    then have "fs_perm_find q tab \<noteq> None" unfolding fs_perm_find_def find_index_None_iff using that nth_mem by blast
    then have f: "fs_perm_find q tab = Some i" using i(2) by auto
    note F = find_index_SomeD [OF f [unfolded fs_perm_find_def]]
    then show False using ok that i(1) ne unfolding perm_table_ok_def by metis
  qed
  have "j = k" if "j < length tab" "k < length tab" "fp_used (tab[i := e] ! j)" "fp_used (tab[i := e] ! k)" "fp_path (tab[i := e] ! j) = fp_path (tab[i := e] ! k)" for j k
  proof -
    have old: "j = k" if "fp_used (tab ! j)" "fp_used (tab ! k)" "fp_path (tab ! j) = fp_path (tab ! k)"
      using ok that \<open>j < length tab\<close> \<open>k < length tab\<close> unfolding perm_table_ok_def by blast
    consider "j = i" "k = i" | "j = i" "k \<noteq> i" | "j \<noteq> i" "k = i" | "j \<noteq> i" "k \<noteq> i" by blast
    then show ?thesis
    proof cases
      case 2
      then show ?thesis using uniq [of k] that(1,2,4,5) e(2) by simp
    next
      case 3
      then show ?thesis using uniq [of j] that(1,2,3,5) e(2) by simp
    next
      case 4
      then show ?thesis using old that(3-5) by simp
    qed simp
  qed
  then show ?thesis using ok E unfolding perm_table_ok_def by simp
qed

lemma saving_same: "\<not> g_perm_saving s \<Longrightarrow> s\<lparr>g_perm_table := t, g_perm_saving := False\<rparr> = s\<lparr>g_perm_table := t\<rparr>"
  by (intro kperm.equality) simp_all

lemma fs_perm_set_spec:
  assumes res: "fs_perm_set wr (Some p) m u g s = (ok, s')"
  shows "ok \<longleftrightarrow> (\<exists>q. canon p = Some q \<and> (fs_perm_find q (g_perm_table s) \<noteq> None \<or> (\<exists>e \<in> set (g_perm_table s). \<not> fp_used e)))"
    and "\<not> ok \<Longrightarrow> s' = s"
    and "ok \<Longrightarrow> \<exists>q i. canon p = Some q \<and> i < length (g_perm_table s) \<and>
      (fs_perm_find q (g_perm_table s) = Some i \<or> (fs_perm_find q (g_perm_table s) = None \<and> \<not> fp_used (g_perm_table s ! i))) \<and>
      s' = s\<lparr>g_perm_table := (g_perm_table s)[i := \<lparr>fp_used = True, fp_path_hash = fs_perm_djb2 q, fp_path = q, fp_mode = m AND 0xFFF, fp_uid = u, fp_gid = g\<rparr>]\<rparr>"
proof -
  let ?tab = "g_perm_table s"
  have "(ok \<longleftrightarrow> (\<exists>q. canon p = Some q \<and> (fs_perm_find q ?tab \<noteq> None \<or> (\<exists>e \<in> set ?tab. \<not> fp_used e)))) \<and> (\<not> ok \<longrightarrow> s' = s) \<and>
    (ok \<longrightarrow> (\<exists>q i. canon p = Some q \<and> i < length ?tab \<and> (fs_perm_find q ?tab = Some i \<or> (fs_perm_find q ?tab = None \<and> \<not> fp_used (?tab ! i))) \<and>
      s' = s\<lparr>g_perm_table := ?tab[i := \<lparr>fp_used = True, fp_path_hash = fs_perm_djb2 q, fp_path = q, fp_mode = m AND 0xFFF, fp_uid = u, fp_gid = g\<rparr>]\<rparr>))"
  proof (cases "canon p")
    case None
    then have "\<not> ok" "s' = s" using res by (auto simp: fs_perm_set_def canon_def split: if_splits)
    then show ?thesis using None by simp
  next
    case (Some q)
    have p: "fs_perm_valid_path (Some p)" "path_resolve (Some PATH_ROOT) (Some p) 128 = Some q" using Some by (auto simp: canon_def split: if_splits)
    have cl: "fs_perm_claim q ?tab = None \<longleftrightarrow> \<not> (fs_perm_find q ?tab \<noteq> None \<or> (\<exists>e \<in> set ?tab. \<not> fp_used e))"
    proof -
      have "(\<exists>e \<in> set ?tab. \<not> fp_used e) \<longleftrightarrow> find_index (\<lambda>e. \<not> fp_used e) ?tab \<noteq> None" by (simp add: find_index_None_iff)
      then show ?thesis unfolding fs_perm_claim_def by (auto split: option.splits)
    qed
    show ?thesis
    proof (cases "fs_perm_claim q ?tab")
      case None
      then have "\<not> ok" "s' = s" using res p by (simp_all add: fs_perm_set_def)
      then show ?thesis using None cl Some by simp
    next
      case (Some c)
      obtain i tab1 where c: "c = (i, tab1)" by (cases c)
      define tab2 where "tab2 = tab1[i := (tab1 ! i)\<lparr>fp_mode := m AND 0xFFF, fp_uid := u, fp_gid := g\<rparr>]"
      have r: "ok" "s' = s\<lparr>g_perm_table := tab2\<rparr>" using res p Some c
        by (simp_all add: fs_perm_set_def fs_perm_save_nop Let_def tab2_def saving_same split: if_splits)
      have cq: "canon p = Some q" by fact
      obtain e where e: "i < length ?tab" "tab2 = ?tab[i := e]"
        "e = \<lparr>fp_used = True, fp_path_hash = fs_perm_djb2 q, fp_path = q, fp_mode = m AND 0xFFF, fp_uid = u, fp_gid = g\<rparr>"
        "fs_perm_find q ?tab = Some i \<or> (fs_perm_find q ?tab = None \<and> \<not> fp_used (?tab ! i))"
        by (rule fs_perm_claim_spec [OF Some [unfolded c] canon_canon(3) [OF cq] tab2_def])
      have room: "fs_perm_find q ?tab \<noteq> None \<or> (\<exists>e \<in> set ?tab. \<not> fp_used e)" using cl Some by simp
      have "s' = s\<lparr>g_perm_table := ?tab[i := \<lparr>fp_used = True, fp_path_hash = fs_perm_djb2 q, fp_path = q, fp_mode = m AND 0xFFF, fp_uid = u, fp_gid = g\<rparr>]\<rparr>"
        unfolding r(2) e(2) e(3) ..
      with cq e(1,4) have "\<exists>q i. canon p = Some q \<and> i < length ?tab \<and> (fs_perm_find q ?tab = Some i \<or> (fs_perm_find q ?tab = None \<and> \<not> fp_used (?tab ! i))) \<and>
        s' = s\<lparr>g_perm_table := ?tab[i := \<lparr>fp_used = True, fp_path_hash = fs_perm_djb2 q, fp_path = q, fp_mode = m AND 0xFFF, fp_uid = u, fp_gid = g\<rparr>]\<rparr>" by blast
      then show ?thesis using r(1) cq room by blast
    qed
  qed
  then show "ok \<longleftrightarrow> (\<exists>q. canon p = Some q \<and> (fs_perm_find q ?tab \<noteq> None \<or> (\<exists>e \<in> set ?tab. \<not> fp_used e)))" "\<not> ok \<Longrightarrow> s' = s"
    "ok \<Longrightarrow> \<exists>q i. canon p = Some q \<and> i < length ?tab \<and> (fs_perm_find q ?tab = Some i \<or> (fs_perm_find q ?tab = None \<and> \<not> fp_used (?tab ! i))) \<and>
      s' = s\<lparr>g_perm_table := ?tab[i := \<lparr>fp_used = True, fp_path_hash = fs_perm_djb2 q, fp_path = q, fp_mode = m AND 0xFFF, fp_uid = u, fp_gid = g\<rparr>]\<rparr>"
    by blast+
qed

lemma fs_perm_set_get:
  assumes res: "fs_perm_set wr (Some p) m u g s = (True, s')" and q: "canon p = Some q"
  shows "fs_perm_get (Some p') s' = (if canon p' = Some q then Some (m AND 0xFFF, u, g) else fs_perm_get (Some p') s)"
    "CHR 0x00 \<notin> set p \<Longrightarrow> perm_table_ok (g_perm_table s) \<Longrightarrow> perm_table_ok (g_perm_table s')"
proof -
  let ?e = "\<lparr>fp_used = True, fp_path_hash = fs_perm_djb2 q, fp_path = q, fp_mode = m AND 0xFFF, fp_uid = u, fp_gid = g\<rparr>"
  obtain i where i: "i < length (g_perm_table s)" "fs_perm_find q (g_perm_table s) = Some i \<or> (fs_perm_find q (g_perm_table s) = None \<and> \<not> fp_used (g_perm_table s ! i))"
    and s': "s' = s\<lparr>g_perm_table := (g_perm_table s)[i := ?e]\<rparr>"
    using fs_perm_set_spec(3) [OF res] q by auto
  have "perm_lookup (g_perm_table s') x = (if x = q then Some (m AND 0xFFF, u, g) else perm_lookup (g_perm_table s) x)" for x
    using perm_lookup_update [OF i, of ?e x] by (simp add: s')
  then show "fs_perm_get (Some p') s' = (if canon p' = Some q then Some (m AND 0xFFF, u, g) else fs_perm_get (Some p') s)"
    unfolding fs_perm_get_lookup by (cases "canon p'") auto
  show "perm_table_ok (g_perm_table s')" if "CHR 0x00 \<notin> set p" "perm_table_ok (g_perm_table s)"
  proof -
    have "perm_entry_ok ?e" using canon_canon [OF q] that(1) by (simp add: perm_entry_ok_def and.assoc)
    then show ?thesis using perm_table_ok_update [OF that(2) i, of ?e] by (simp add: s')
  qed
qed

lemma find_index_find: "map_option (\<lambda>i. f (xs ! i)) (find_index P xs) = map_option f (List.find P xs)"
  by (induction xs) (auto simp: option.map_comp comp_def)

lemma find_filter: "(\<And>x. P x \<Longrightarrow> Q x) \<Longrightarrow> List.find P (filter Q xs) = List.find P xs"
  by (induction xs) auto

lemma perm_lookup_compact: "perm_lookup (filter fp_used tab @ replicate n fs_perm_zero) p = perm_lookup tab p"
proof -
  let ?P = "\<lambda>e. fp_used e \<and> fp_path_hash e = fs_perm_djb2 p \<and> fp_path e = p"
  have l: "perm_lookup t p = map_option (\<lambda>e. (fp_mode e, fp_uid e, fp_gid e)) (List.find ?P t)" for t
    unfolding perm_lookup_def fs_perm_find_def by (rule find_index_find)
  have z: "List.find ?P (replicate n fs_perm_zero) = None" by (simp add: find_None_iff fs_perm_zero_def)
  have "List.find ?P (xs @ replicate n fs_perm_zero) = List.find ?P xs" for xs by (induction xs) (simp_all add: z)
  then show ?thesis unfolding l using find_filter [of ?P fp_used tab] by simp
qed

section \<open>Properties\<close>

text \<open>C14: the permission database: a well-formed table written as the encrypted image and read back into an empty table
  gives its used entries, in order, and the same permissions for every path; but neither saving nor loading ever
  gets as far as the file system, because the name of the database contains slashes, which path resolution refuses:
  saving and loading change nothing.\<close>

theorem fs_perm_db_roundtrip:
  assumes "perm_table_ok tab" "g_perm_saving s" "g_perm_table s = replicate FS_PERM_TABLE_SIZE fs_perm_zero"
  shows "perm_load_image wr (perm_image tab) s =
      s\<lparr>g_perm_table := filter fp_used tab @ replicate (FS_PERM_TABLE_SIZE - length (filter fp_used tab)) fs_perm_zero\<rparr> \<and>
    (\<forall>p. perm_lookup (g_perm_table (perm_load_image wr (perm_image tab) s)) p = perm_lookup tab p) \<and>
    fs_perm_save wr t = t\<lparr>g_perm_saving := False\<rparr> \<and> fs_perm_load wr rd t = t\<lparr>g_perm_saving := False\<rparr>"
  using image_loads [OF assms, of wr] perm_lookup_compact by (simp add: fs_perm_save_nop fs_perm_load_nop)

text \<open>C15: changing the mode of a path: \<^verbatim>\<open>sys_chmod\<close> succeeds exactly for the owner or root, on an existing file whose
  path is valid and resolves, when the table has an entry for it or a free one; it then sets the twelve mode bits,
  keeps owner and group, and is seen under every spelling that resolves to the same path and under no other; when it
  fails nothing changes.\<close>

theorem sys_chmod_correct:
  assumes "sys_chmod wr exists (Some p) mode s = (r, s')" "pcb_get_current s = Some c" "fs_perm_get (Some p) s = Some (m0, uid, gid)"
  shows "(r = 0 \<longleftrightarrow> exists (Some p) \<and> (p_euid (g_pcbs s ! c) = 0 \<or> p_euid (g_pcbs s ! c) = uid) \<and>
      (\<exists>q. canon p = Some q \<and> (perm_lookup (g_perm_table s) q \<noteq> None \<or> (\<exists>e \<in> set (g_perm_table s). \<not> fp_used e)))) \<and>
    (r \<noteq> 0 \<longrightarrow> r = -1 \<and> s' = s) \<and>
    (r = 0 \<longrightarrow> (\<forall>p'. fs_perm_get (Some p') s' = (if canon p' = canon p then Some (mode AND 0xFFF, uid, gid) else fs_perm_get (Some p') s)) \<and>
       (perm_table_ok (g_perm_table s) \<and> CHR 0x00 \<notin> set p \<longrightarrow> perm_table_ok (g_perm_table s')))"
proof (cases "exists (Some p) \<and> (p_euid (g_pcbs s ! c) = 0 \<or> p_euid (g_pcbs s ! c) = uid)")
  case False
  then have "r = -1" "s' = s" using assms by (auto simp: sys_chmod_def split: if_splits)
  then show ?thesis using False by auto
next
  case True
  obtain ok t where f: "fs_perm_set wr (Some p) mode uid gid s = (ok, t)" by (cases "fs_perm_set wr (Some p) mode uid gid s")
  have r: "r = (if ok then 0 else -1)" "s' = t" using assms True f by (auto simp: sys_chmod_def)
  note S = fs_perm_set_spec [OF f]
  have lk: "perm_lookup (g_perm_table s) q \<noteq> None \<longleftrightarrow> fs_perm_find q (g_perm_table s) \<noteq> None" for q by (simp add: perm_lookup_def)
  have cq: "\<exists>q. canon p = Some q" using assms(3) by (auto simp: fs_perm_get_lookup split: option.splits)
  then obtain q where q: "canon p = Some q" by blast
  have ok: "ok \<longleftrightarrow> (\<exists>q. canon p = Some q \<and> (perm_lookup (g_perm_table s) q \<noteq> None \<or> (\<exists>e \<in> set (g_perm_table s). \<not> fp_used e)))"
    unfolding lk by (rule S(1))
  have get: "fs_perm_get (Some p') s' = (if canon p' = canon p then Some (mode AND 0xFFF, uid, gid) else fs_perm_get (Some p') s)" if ok for p'
    using fs_perm_set_get(1) [of wr p mode uid gid s t q p'] f that q r(2) by simp
  have inv: "perm_table_ok (g_perm_table s')" if ok "perm_table_ok (g_perm_table s)" "CHR 0x00 \<notin> set p"
    using fs_perm_set_get(2) [of wr p mode uid gid s t q] f that q r(2) by simp
  show ?thesis
  proof (cases ok)
    case yes: True
    then have "r = 0" using r(1) by simp
    then show ?thesis using True ok yes get [OF yes] inv [OF yes] by simp
  next
    case no: False
    then have "r = -1" "s' = s" using r S(2) by simp_all
    then show ?thesis using True ok no by simp
  qed
qed

section \<open>A concrete permission table\<close>

definition perm_boot :: kperm where
  "perm_boot = kpcb.extend (pcb_family PCB_STATE_RUNNING) (kperm.fields (replicate FS_PERM_TABLE_SIZE fs_perm_zero) True False)"

lemma perm_boot_current: "pcb_get_current perm_boot = Some 1" "p_euid (g_pcbs perm_boot ! 1) = 0"
  by (simp_all add: perm_boot_def kpcb.defs pcb_get_current_def pcb_find_by_pid_def pcb_family_def pcb_fd_init_def pcb_zero_def)

lemma perm_boot_table: "g_perm_table perm_boot = replicate FS_PERM_TABLE_SIZE fs_perm_zero"
  by (simp add: perm_boot_def kpcb.defs kperm.defs)

definition perm_sample :: string where "perm_sample = [CHR ''C'', CHR '':'', CHR 0x5C, CHR ''a'']"

lemma perm_sample_canon: "canon perm_sample = Some perm_sample"
  unfolding canon_def path_resolve_spec by code_simp

lemma perm_boot_get: "fs_perm_get (Some perm_sample) perm_boot = Some (FS_PERM_DEFAULT_MODE, 0, 0)"
proof -
  have "perm_lookup (g_perm_table perm_boot) perm_sample = None"
    by (simp add: perm_boot_table perm_lookup_def fs_perm_find_def find_index_None_iff) (simp add: fs_perm_zero_def)
  then show ?thesis by (simp add: fs_perm_get_lookup perm_sample_canon)
qed

theorem sys_chmod_correct_witness:
  "\<exists>s'. sys_chmod (\<lambda>_ _ s. (0, s)) (\<lambda>_. True) (Some perm_sample) 0x180 perm_boot = (0, s') \<and> fs_perm_get (Some perm_sample) s' = Some (0x180, 0, 0)"
proof -
  let ?wr = "\<lambda>_ _ s. (0, s)" and ?ex = "\<lambda>_ :: string option. True"
  obtain r s' where c: "sys_chmod ?wr ?ex (Some perm_sample) 0x180 perm_boot = (r, s')" by (cases "sys_chmod ?wr ?ex (Some perm_sample) 0x180 perm_boot")
  have "fs_perm_zero \<in> set (g_perm_table perm_boot)" "\<not> fp_used fs_perm_zero" by (simp_all add: perm_boot_table FS_PERM_TABLE_SIZE_def fs_perm_zero_def)
  then have free: "\<exists>e \<in> set (g_perm_table perm_boot). \<not> fp_used e" by blast
  note T = sys_chmod_correct [OF c perm_boot_current(1) perm_boot_get]
  have "r = 0" using T perm_boot_current(2) perm_sample_canon free by blast
  moreover have "fs_perm_get (Some perm_sample) s' = Some (0x180 AND 0xFFF, 0, 0)" using T \<open>r = 0\<close> by simp
  ultimately show ?thesis using c by simp
qed

theorem fs_perm_db_roundtrip_witness:
  "\<exists>tab. perm_lookup tab perm_sample = Some (0x180, 7, 9) \<and>
     perm_lookup (g_perm_table (perm_load_image (\<lambda>_ _ s. (0, s)) (perm_image tab) (perm_boot\<lparr>g_perm_saving := True\<rparr>))) perm_sample = Some (0x180, 7, 9)"
proof -
  let ?e = "\<lparr>fp_used = True, fp_path_hash = fs_perm_djb2 perm_sample, fp_path = perm_sample, fp_mode = 0x180, fp_uid = 7, fp_gid = 9\<rparr>"
  let ?tab = "?e # replicate 127 fs_perm_zero"
  have e: "perm_entry_ok ?e" using canon_canon [OF perm_sample_canon] by (simp add: perm_entry_ok_def) (simp add: perm_sample_def)
  have zero: "perm_entry_ok fs_perm_zero" "\<not> fp_used fs_perm_zero" by (simp_all add: perm_entry_ok_def fs_perm_zero_def)
  have ok: "perm_table_ok ?tab"
    using e by (auto simp: perm_table_ok_def FS_PERM_TABLE_SIZE_def nth_Cons zero split: nat.splits)
  have s: "g_perm_saving (perm_boot\<lparr>g_perm_saving := True\<rparr>)" "g_perm_table (perm_boot\<lparr>g_perm_saving := True\<rparr>) = replicate FS_PERM_TABLE_SIZE fs_perm_zero"
    by (simp_all add: perm_boot_table)
  have l: "perm_lookup ?tab perm_sample = Some (0x180, 7, 9)" by (simp add: perm_lookup_def fs_perm_find_def)
  have "perm_lookup (g_perm_table (perm_load_image (\<lambda>_ _ s. (0, s)) (perm_image ?tab) (perm_boot\<lparr>g_perm_saving := True\<rparr>))) perm_sample = perm_lookup ?tab perm_sample"
    using fs_perm_db_roundtrip [OF ok s, of "\<lambda>_ _ s. (0, s)"] by blast
  then show ?thesis using l by (intro exI [of _ ?tab] conjI) (simp_all only:)
qed

end
