(* ===== verification/Firewall.thy ===== *)
theory Firewall
  imports Kernel_Prelude
begin

text \<open>
  The packet filter (\<^verbatim>\<open>kernel/net/firewall.c\<close>): a table of 32 rules of which the first that applies decides, default
  policies for the two directions, and counters of dropped packets.  An address is a list of four bytes; a
  missing address or mask stays zero in a new rule.  The listing of the rules is not modelled: it appends digits to a
  line without moving its terminator, so its result depends on uninitialised memory.
\<close>

section \<open>State and operations\<close>

definition FW_PROTO_ANY :: u8 where "FW_PROTO_ANY = 0"
definition FW_DIR_IN :: u8 where "FW_DIR_IN = 0"
definition FW_DIR_OUT :: u8 where "FW_DIR_OUT = 1"
definition FW_ACTION_ALLOW :: u8 where "FW_ACTION_ALLOW = 0"
definition FW_MAX_RULES :: nat where "FW_MAX_RULES = 32"

record fw_rule_t =
  fr_used :: bool
  fr_direction :: u8
  fr_action :: u8
  fr_protocol :: u8
  fr_src_ip :: "u8 list"
  fr_src_mask :: "u8 list"
  fr_dst_ip :: "u8 list"
  fr_dst_mask :: "u8 list"
  fr_src_port :: u16
  fr_dst_port :: u16

record kfw =
  g_rules :: "fw_rule_t list"
  g_fw_enabled :: bool
  g_default_inbound :: bool
  g_default_outbound :: bool
  g_dropped_in :: u32
  g_dropped_out :: u32

definition fw_rule_zero :: fw_rule_t where
  "fw_rule_zero = \<lparr>fr_used = False, fr_direction = 0, fr_action = 0, fr_protocol = 0, fr_src_ip = [0, 0, 0, 0], fr_src_mask = [0, 0, 0, 0],
     fr_dst_ip = [0, 0, 0, 0], fr_dst_mask = [0, 0, 0, 0], fr_src_port = 0, fr_dst_port = 0\<rparr>"

definition fw_ip_match :: "u8 list \<Rightarrow> u8 list \<Rightarrow> u8 list \<Rightarrow> bool" where
  "fw_ip_match pkt_ip rule_ip msk =
     (if msk ! 0 = 0 \<and> msk ! 1 = 0 \<and> msk ! 2 = 0 \<and> msk ! 3 = 0 then True
      else \<not> list_ex (\<lambda>i. (pkt_ip ! i AND msk ! i) \<noteq> (rule_ip ! i AND msk ! i)) [0..<4])"

definition fw_port_match :: "u16 \<Rightarrow> u16 \<Rightarrow> bool" where
  "fw_port_match pkt_port rule_port = (if rule_port = 0 then True else pkt_port = rule_port)"

definition fw_rule_applies :: "fw_rule_t \<Rightarrow> u8 \<Rightarrow> u8 list \<Rightarrow> u8 list \<Rightarrow> u16 \<Rightarrow> u16 \<Rightarrow> bool" where
  "fw_rule_applies r protocol src_ip dst_ip src_port dst_port =
     (if fr_protocol r \<noteq> FW_PROTO_ANY \<and> fr_protocol r \<noteq> protocol then False
      else if \<not> fw_ip_match src_ip (fr_src_ip r) (fr_src_mask r) then False
      else if \<not> fw_ip_match dst_ip (fr_dst_ip r) (fr_dst_mask r) then False
      else if \<not> fw_port_match src_port (fr_src_port r) then False
      else if \<not> fw_port_match dst_port (fr_dst_port r) then False
      else True)"

fun fw_scan :: "u8 \<Rightarrow> u8 \<Rightarrow> u8 list \<Rightarrow> u8 list \<Rightarrow> u16 \<Rightarrow> u16 \<Rightarrow> fw_rule_t list \<Rightarrow> bool \<Rightarrow> bool" where
  "fw_scan direction protocol src_ip dst_ip src_port dst_port [] default_allow = default_allow"
| "fw_scan direction protocol src_ip dst_ip src_port dst_port (r # rs) default_allow =
     (if \<not> fr_used r \<or> fr_direction r \<noteq> direction then fw_scan direction protocol src_ip dst_ip src_port dst_port rs default_allow
      else if \<not> fw_rule_applies r protocol src_ip dst_ip src_port dst_port
      then fw_scan direction protocol src_ip dst_ip src_port dst_port rs default_allow
      else fr_action r = FW_ACTION_ALLOW)"

definition fw_evaluate :: "u8 \<Rightarrow> u8 \<Rightarrow> u8 list \<Rightarrow> u8 list \<Rightarrow> u16 \<Rightarrow> u16 \<Rightarrow> kfw \<Rightarrow> bool" where
  "fw_evaluate direction protocol src_ip dst_ip src_port dst_port s =
     (let default_allow = (if direction = FW_DIR_IN then g_default_inbound s else g_default_outbound s) in
      if \<not> g_fw_enabled s then True
      else fw_scan direction protocol src_ip dst_ip src_port dst_port (g_rules s) default_allow)"

definition firewall_check_inbound :: "u8 \<Rightarrow> u8 list \<Rightarrow> u8 list \<Rightarrow> u16 \<Rightarrow> u16 \<Rightarrow> kfw \<Rightarrow> bool \<times> kfw" where
  "firewall_check_inbound protocol src_ip dst_ip src_port dst_port s =
     (let allow = fw_evaluate FW_DIR_IN protocol src_ip dst_ip src_port dst_port s
      in (allow, if \<not> allow then s\<lparr>g_dropped_in := g_dropped_in s + 1\<rparr> else s))"

definition firewall_check_outbound :: "u8 \<Rightarrow> u8 list \<Rightarrow> u8 list \<Rightarrow> u16 \<Rightarrow> u16 \<Rightarrow> kfw \<Rightarrow> bool \<times> kfw" where
  "firewall_check_outbound protocol src_ip dst_ip src_port dst_port s =
     (let allow = fw_evaluate FW_DIR_OUT protocol src_ip dst_ip src_port dst_port s
      in (allow, if \<not> allow then s\<lparr>g_dropped_out := g_dropped_out s + 1\<rparr> else s))"

definition firewall_set_enabled :: "bool \<Rightarrow> kfw \<Rightarrow> kfw" where
  "firewall_set_enabled enabled s = s\<lparr>g_fw_enabled := enabled\<rparr>"

definition firewall_set_default :: "bool \<Rightarrow> bool \<Rightarrow> kfw \<Rightarrow> kfw" where
  "firewall_set_default inbound_allow outbound_allow s = s\<lparr>g_default_inbound := inbound_allow, g_default_outbound := outbound_allow\<rparr>"

definition copy_ip :: "u8 list option \<Rightarrow> u8 list" where
  "copy_ip ip = (case ip of None \<Rightarrow> [0, 0, 0, 0] | Some a \<Rightarrow> take 4 a)"

definition firewall_add_rule ::
  "u8 \<Rightarrow> u8 \<Rightarrow> u8 \<Rightarrow> u8 list option \<Rightarrow> u8 list option \<Rightarrow> u8 list option \<Rightarrow> u8 list option \<Rightarrow> u16 \<Rightarrow> u16 \<Rightarrow> kfw \<Rightarrow> int \<times> kfw" where
  "firewall_add_rule direction action protocol src_ip src_mask dst_ip dst_mask src_port dst_port s =
     (case find_index (\<lambda>r. \<not> fr_used r) (g_rules s) of
        None \<Rightarrow> (-1, s)
      | Some i \<Rightarrow>
          (int i, s\<lparr>g_rules := (g_rules s)[i := fw_rule_zero\<lparr>fr_used := True, fr_direction := direction, fr_action := action, fr_protocol := protocol,
             fr_src_ip := copy_ip src_ip, fr_src_mask := copy_ip src_mask, fr_dst_ip := copy_ip dst_ip, fr_dst_mask := copy_ip dst_mask,
             fr_src_port := src_port, fr_dst_port := dst_port\<rparr>]\<rparr>))"

definition firewall_remove_rule :: "int \<Rightarrow> kfw \<Rightarrow> bool \<times> kfw" where
  "firewall_remove_rule i s =
     (if i < 0 \<or> i \<ge> int FW_MAX_RULES then (False, s)
      else if \<not> fr_used (g_rules s ! nat i) then (False, s)
      else (True, s\<lparr>g_rules := (g_rules s)[nat i := (g_rules s ! nat i)\<lparr>fr_used := False\<rparr>]\<rparr>))"

definition firewall_init :: "kfw \<Rightarrow> kfw" where
  "firewall_init s = s\<lparr>g_rules := replicate FW_MAX_RULES fw_rule_zero, g_fw_enabled := False, g_default_inbound := True, g_default_outbound := True,
     g_dropped_in := 0, g_dropped_out := 0\<rparr>"

section \<open>Addresses as 32-bit words\<close>

definition ip_word :: "u8 list \<Rightarrow> u32" where
  "ip_word a = push_bit 24 (ucast (a ! 0)) OR push_bit 16 (ucast (a ! 1)) OR push_bit 8 (ucast (a ! 2)) OR ucast (a ! 3)"

lemma ip_word_bit:
  "n < 8 \<Longrightarrow> bit (ip_word a) n = bit (a ! 3) n" "n < 8 \<Longrightarrow> bit (ip_word a) (n + 8) = bit (a ! 2) n"
  "n < 8 \<Longrightarrow> bit (ip_word a) (n + 16) = bit (a ! 1) n" "n < 8 \<Longrightarrow> bit (ip_word a) (n + 24) = bit (a ! 0) n"
  by (auto simp: ip_word_def bit_simps dest: bit_imp_le_length)

lemma all_32_bits: "(\<forall>n < 32. P n) \<longleftrightarrow> (\<forall>n < 8. P n \<and> P (n + 8) \<and> P (n + 16) \<and> P (n + 24))" for P :: "nat \<Rightarrow> bool"
proof (intro iffI allI impI conjI)
  fix n :: nat assume P: "\<forall>n < 8. P n \<and> P (n + 8) \<and> P (n + 16) \<and> P (n + 24)" and n: "n < 32"
  consider "n < 8" | "n - 8 < 8" "n = n - 8 + 8" | "n - 16 < 8" "n = n - 16 + 16" | "n - 24 < 8" "n = n - 24 + 24" using n by linarith
  then show "P n" using P by cases metis+
qed auto

lemma all_below_4: "(\<forall>i < 4. P i) \<longleftrightarrow> P 0 \<and> P 1 \<and> P 2 \<and> P 3" for P :: "nat \<Rightarrow> bool"
  by (auto simp: numeral_eq_Suc less_Suc_eq)

text \<open>The comparison byte by byte under a mask is the comparison of the words.\<close>

lemma fw_ip_match_word: "fw_ip_match pkt rule m \<longleftrightarrow> ip_word pkt AND ip_word m = ip_word rule AND ip_word m"
proof -
  have b: "(pkt ! i AND m ! i) = (rule ! i AND m ! i) \<longleftrightarrow> (\<forall>n < 8. bit (m ! i) n \<longrightarrow> bit (pkt ! i) n = bit (rule ! i) n)" for i
    by (auto simp: bit_eq_iff bit_and_iff)
  have w: "ip_word pkt AND ip_word m = ip_word rule AND ip_word m \<longleftrightarrow> (\<forall>n < 32. bit (ip_word m) n \<longrightarrow> bit (ip_word pkt) n = bit (ip_word rule) n)"
    by (auto simp: bit_eq_iff bit_and_iff)
  have "ip_word pkt AND ip_word m = ip_word rule AND ip_word m \<longleftrightarrow> (\<forall>i < 4. (pkt ! i AND m ! i) = (rule ! i AND m ! i))"
    unfolding w b all_32_bits all_below_4 by (auto simp: ip_word_bit)
  moreover have "fw_ip_match pkt rule m \<longleftrightarrow> (\<forall>i < 4. (pkt ! i AND m ! i) = (rule ! i AND m ! i))"
  proof -
    have "[0..<4] = [0, 1, 2, 3 :: nat]" by code_simp
    then show ?thesis unfolding all_below_4 fw_ip_match_def by auto
  qed
  ultimately show ?thesis by simp
qed

section \<open>The decision\<close>

text \<open>The reference semantics: a rule as a predicate on packets, and the first rule of the direction that holds.\<close>

definition rule_admits :: "fw_rule_t \<Rightarrow> u8 \<Rightarrow> u8 list \<Rightarrow> u8 list \<Rightarrow> u16 \<Rightarrow> u16 \<Rightarrow> bool" where
  "rule_admits r protocol src_ip dst_ip src_port dst_port \<longleftrightarrow>
     (fr_protocol r = 0 \<or> fr_protocol r = protocol) \<and>
     ip_word src_ip AND ip_word (fr_src_mask r) = ip_word (fr_src_ip r) AND ip_word (fr_src_mask r) \<and>
     ip_word dst_ip AND ip_word (fr_dst_mask r) = ip_word (fr_dst_ip r) AND ip_word (fr_dst_mask r) \<and>
     (fr_src_port r = 0 \<or> fr_src_port r = src_port) \<and> (fr_dst_port r = 0 \<or> fr_dst_port r = dst_port)"

definition active_rules :: "u8 \<Rightarrow> kfw \<Rightarrow> fw_rule_t list" where
  "active_rules direction s = filter (\<lambda>r. fr_used r \<and> fr_direction r = direction) (g_rules s)"

lemma fw_rule_applies_admits: "fw_rule_applies r p si di sp dp = rule_admits r p si di sp dp"
  by (auto simp: fw_rule_applies_def rule_admits_def fw_ip_match_word fw_port_match_def FW_PROTO_ANY_def)

lemma fw_scan_find:
  "fw_scan d p si di sp dp rs def =
     (case List.find (\<lambda>r. rule_admits r p si di sp dp) (filter (\<lambda>r. fr_used r \<and> fr_direction r = d) rs) of
        None \<Rightarrow> def | Some r \<Rightarrow> fr_action r = FW_ACTION_ALLOW)"
  by (induction rs) (simp_all add: fw_rule_applies_admits)

lemma fw_evaluate_find:
  "fw_evaluate d p si di sp dp s =
     (\<not> g_fw_enabled s \<or>
      (case List.find (\<lambda>r. rule_admits r p si di sp dp) (active_rules d s) of
         None \<Rightarrow> if d = FW_DIR_IN then g_default_inbound s else g_default_outbound s
       | Some r \<Rightarrow> fr_action r = FW_ACTION_ALLOW))"
  by (simp add: fw_evaluate_def fw_scan_find active_rules_def Let_def)

lemma filter_update_unused: "\<not> P (xs ! i) \<Longrightarrow> \<not> P y \<Longrightarrow> i < length xs \<Longrightarrow> filter P (xs[i := y]) = filter P xs"
proof (induction xs arbitrary: i)
  case (Cons x xs)
  then show ?case by (cases i) auto
qed simp

section \<open>Properties\<close>

text \<open>C29: the filter decides by the first rule that admits the packet: with addresses read as 32-bit words, a rule
  admits a packet when protocol and ports are equal or unspecified and the addresses agree under the masks; the first
  such rule of the direction, in the order of the table, decides, the default policy when there is none, and
  everything passes while the filter is disabled; each refused packet is counted in its direction.\<close>

theorem firewall_first_match:
  "firewall_check_inbound p si di sp dp s =
     (let ok = (if g_fw_enabled s then (case List.find (\<lambda>r. rule_admits r p si di sp dp) (active_rules FW_DIR_IN s) of
                None \<Rightarrow> g_default_inbound s | Some r \<Rightarrow> fr_action r = FW_ACTION_ALLOW) else True)
      in (ok, if ok then s else s\<lparr>g_dropped_in := g_dropped_in s + 1\<rparr>)) \<and>
   firewall_check_outbound p si di sp dp s =
     (let ok = (if g_fw_enabled s then (case List.find (\<lambda>r. rule_admits r p si di sp dp) (active_rules FW_DIR_OUT s) of
                None \<Rightarrow> g_default_outbound s | Some r \<Rightarrow> fr_action r = FW_ACTION_ALLOW) else True)
      in (ok, if ok then s else s\<lparr>g_dropped_out := g_dropped_out s + 1\<rparr>))"
  unfolding firewall_check_inbound_def firewall_check_outbound_def fw_evaluate_find
  by (simp add: Let_def FW_DIR_IN_def FW_DIR_OUT_def)

text \<open>Adding a rule uses the first free slot and fails only on a full table; removing it by the returned number
  restores every decision.\<close>

lemma firewall_add_remove:
  assumes "length (g_rules s) = FW_MAX_RULES" "firewall_add_rule d a p si sm di dm sp dp s = (r, s1)"
  shows "(r = -1 \<longleftrightarrow> (\<forall>x \<in> set (g_rules s). fr_used x)) \<and> (r = -1 \<longrightarrow> s1 = s) \<and>
    (r \<noteq> -1 \<longrightarrow> 0 \<le> r \<and> r < 32 \<and> length (g_rules s1) = FW_MAX_RULES \<and>
       (\<exists>s2. firewall_remove_rule r s1 = (True, s2) \<and> (\<forall>d' p' si' di' sp' dp'. fw_evaluate d' p' si' di' sp' dp' s2 = fw_evaluate d' p' si' di' sp' dp' s)))"
proof (cases "find_index (\<lambda>r. \<not> fr_used r) (g_rules s)")
  case None
  then have "r = -1" "s1 = s" using assms(2) by (simp_all add: firewall_add_rule_def)
  moreover have "\<forall>x \<in> set (g_rules s). fr_used x" using None by (simp add: find_index_None_iff)
  ultimately show ?thesis by simp
next
  case (Some i)
  note F = find_index_SomeD [OF Some]
  define e where "e = fw_rule_zero\<lparr>fr_used := True, fr_direction := d, fr_action := a, fr_protocol := p,
     fr_src_ip := copy_ip si, fr_src_mask := copy_ip sm, fr_dst_ip := copy_ip di, fr_dst_mask := copy_ip dm, fr_src_port := sp, fr_dst_port := dp\<rparr>"
  have r: "r = int i" "s1 = s\<lparr>g_rules := (g_rules s)[i := e]\<rparr>" using assms(2) Some by (simp_all add: firewall_add_rule_def e_def)
  have i: "i < 32" "i < length (g_rules s)" using F(1) assms(1) by (simp_all add: FW_MAX_RULES_def)
  have u: "fr_used e" by (simp add: e_def)
  let ?s2 = "s1\<lparr>g_rules := (g_rules s1)[i := e\<lparr>fr_used := False\<rparr>]\<rparr>"
  have rm: "firewall_remove_rule r s1 = (True, ?s2)"
    using i u by (simp add: firewall_remove_rule_def r FW_MAX_RULES_def)
  have "active_rules d' ?s2 = active_rules d' s" for d'
    using F(2) i by (simp add: active_rules_def r(2) filter_update_unused)
  then have "fw_evaluate d' p' si' di' sp' dp' ?s2 = fw_evaluate d' p' si' di' sp' dp' s" for d' p' si' di' sp' dp'
    by (simp add: fw_evaluate_find r(2) cong: option.case_cong)
  then show ?thesis using rm F(2,3) i assms(1) r by auto
qed

lemma firewall_add_remove_witness:
  "\<exists>s1 s2. firewall_add_rule 1 1 6 None None None None 0 23 (firewall_set_enabled True (firewall_init \<lparr>g_rules = [], g_fw_enabled = False,
      g_default_inbound = True, g_default_outbound = True, g_dropped_in = 0, g_dropped_out = 0\<rparr>)) = (0, s1) \<and>
    fw_evaluate 1 6 [1, 2, 3, 4] [5, 6, 7, 8] 999 23 s1 = False \<and> firewall_remove_rule 0 s1 = (True, s2) \<and> fw_evaluate 1 6 [1, 2, 3, 4] [5, 6, 7, 8] 999 23 s2 = True"
proof -
  define s where "s = firewall_set_enabled True (firewall_init \<lparr>g_rules = [], g_fw_enabled = False,
      g_default_inbound = True, g_default_outbound = True, g_dropped_in = 0, g_dropped_out = 0\<rparr>)"
  have g: "g_rules s = replicate 32 fw_rule_zero" "g_fw_enabled s" "g_default_outbound s"
    by (simp_all add: s_def firewall_set_enabled_def firewall_init_def FW_MAX_RULES_def)
  have l: "length (g_rules s) = FW_MAX_RULES" by (simp add: g FW_MAX_RULES_def)
  obtain r s1 where a: "firewall_add_rule 1 1 6 None None None None 0 23 s = (r, s1)" by (cases "firewall_add_rule 1 1 6 None None None None 0 23 s")
  note T = firewall_add_remove [OF l a]
  have f: "find_index (\<lambda>r. \<not> fr_used r) (g_rules s) = Some 0" by (simp add: g fw_rule_zero_def numeral_eq_Suc)
  have r0: "r = 0" using a f by (simp add: firewall_add_rule_def)
  obtain s2 where rm: "firewall_remove_rule 0 s1 = (True, s2)" and ev: "fw_evaluate 1 6 [1, 2, 3, 4] [5, 6, 7, 8] 999 23 s2 = fw_evaluate 1 6 [1, 2, 3, 4] [5, 6, 7, 8] 999 23 s"
    using T r0 by auto
  have "active_rules 1 s = []" by (simp add: active_rules_def g fw_rule_zero_def)
  then have "fw_evaluate 1 6 [1, 2, 3, 4] [5, 6, 7, 8] 999 23 s" by (simp add: fw_evaluate_find g FW_DIR_IN_def)
  moreover have "fw_evaluate 1 6 [1, 2, 3, 4] [5, 6, 7, 8] 999 23 s1 = False"
  proof -
    define e where "e = fw_rule_zero\<lparr>fr_used := True, fr_direction := 1, fr_action := 1, fr_protocol := 6, fr_dst_port := 23\<rparr>"
    have s1: "s1 = s\<lparr>g_rules := (g_rules s)[0 := e]\<rparr>" using a f by (simp add: firewall_add_rule_def copy_ip_def e_def fw_rule_zero_def)
    have "replicate 32 fw_rule_zero = fw_rule_zero # replicate 31 fw_rule_zero" by (simp add: numeral_eq_Suc)
    then have "active_rules 1 s1 = [e]" by (simp add: s1 active_rules_def g) (simp add: e_def fw_rule_zero_def)
    moreover have "rule_admits e 6 [1, 2, 3, 4] [5, 6, 7, 8] 999 23" by (simp add: rule_admits_def e_def fw_rule_zero_def ip_word_def)
    moreover have "fr_action e \<noteq> FW_ACTION_ALLOW" by (simp add: e_def FW_ACTION_ALLOW_def)
    ultimately show ?thesis by (simp add: fw_evaluate_find s1 g)
  qed
  ultimately show ?thesis using a r0 rm ev unfolding s_def by blast
qed

end
