(* ===== verification/Aes.thy ===== *)
theory Aes
  imports Kernel_Prelude
begin

text \<open>
  The block cipher of \<^verbatim>\<open>kernel/net/aes.c\<close>, used by the encrypted file layer and by the TLS record
  layer: the substitution tables, multiplication in the field of 256 elements, the round transformations on the
  four-by-four byte matrix \<^verbatim>\<open>state[row][column]\<close> (a list of rows), the key schedule and the two modes.  An
  \<^verbatim>\<open>output\<close> buffer is the list of bytes that the routine stores in it; input and output do not overlap.
  The field \<^verbatim>\<open>rounds\<close> of a context is 10, 12 or 14 once \<^verbatim>\<open>aes_init\<close> has accepted a key.
\<close>

section \<open>Tables and the context\<close>

definition aes_sbox :: "u8 list" where
  "aes_sbox = [
    0x63, 0x7c, 0x77, 0x7b, 0xf2, 0x6b, 0x6f, 0xc5, 0x30, 0x01, 0x67, 0x2b, 0xfe, 0xd7, 0xab, 0x76,
    0xca, 0x82, 0xc9, 0x7d, 0xfa, 0x59, 0x47, 0xf0, 0xad, 0xd4, 0xa2, 0xaf, 0x9c, 0xa4, 0x72, 0xc0,
    0xb7, 0xfd, 0x93, 0x26, 0x36, 0x3f, 0xf7, 0xcc, 0x34, 0xa5, 0xe5, 0xf1, 0x71, 0xd8, 0x31, 0x15,
    0x04, 0xc7, 0x23, 0xc3, 0x18, 0x96, 0x05, 0x9a, 0x07, 0x12, 0x80, 0xe2, 0xeb, 0x27, 0xb2, 0x75,
    0x09, 0x83, 0x2c, 0x1a, 0x1b, 0x6e, 0x5a, 0xa0, 0x52, 0x3b, 0xd6, 0xb3, 0x29, 0xe3, 0x2f, 0x84,
    0x53, 0xd1, 0x00, 0xed, 0x20, 0xfc, 0xb1, 0x5b, 0x6a, 0xcb, 0xbe, 0x39, 0x4a, 0x4c, 0x58, 0xcf,
    0xd0, 0xef, 0xaa, 0xfb, 0x43, 0x4d, 0x33, 0x85, 0x45, 0xf9, 0x02, 0x7f, 0x50, 0x3c, 0x9f, 0xa8,
    0x51, 0xa3, 0x40, 0x8f, 0x92, 0x9d, 0x38, 0xf5, 0xbc, 0xb6, 0xda, 0x21, 0x10, 0xff, 0xf3, 0xd2,
    0xcd, 0x0c, 0x13, 0xec, 0x5f, 0x97, 0x44, 0x17, 0xc4, 0xa7, 0x7e, 0x3d, 0x64, 0x5d, 0x19, 0x73,
    0x60, 0x81, 0x4f, 0xdc, 0x22, 0x2a, 0x90, 0x88, 0x46, 0xee, 0xb8, 0x14, 0xde, 0x5e, 0x0b, 0xdb,
    0xe0, 0x32, 0x3a, 0x0a, 0x49, 0x06, 0x24, 0x5c, 0xc2, 0xd3, 0xac, 0x62, 0x91, 0x95, 0xe4, 0x79,
    0xe7, 0xc8, 0x37, 0x6d, 0x8d, 0xd5, 0x4e, 0xa9, 0x6c, 0x56, 0xf4, 0xea, 0x65, 0x7a, 0xae, 0x08,
    0xba, 0x78, 0x25, 0x2e, 0x1c, 0xa6, 0xb4, 0xc6, 0xe8, 0xdd, 0x74, 0x1f, 0x4b, 0xbd, 0x8b, 0x8a,
    0x70, 0x3e, 0xb5, 0x66, 0x48, 0x03, 0xf6, 0x0e, 0x61, 0x35, 0x57, 0xb9, 0x86, 0xc1, 0x1d, 0x9e,
    0xe1, 0xf8, 0x98, 0x11, 0x69, 0xd9, 0x8e, 0x94, 0x9b, 0x1e, 0x87, 0xe9, 0xce, 0x55, 0x28, 0xdf,
    0x8c, 0xa1, 0x89, 0x0d, 0xbf, 0xe6, 0x42, 0x68, 0x41, 0x99, 0x2d, 0x0f, 0xb0, 0x54, 0xbb, 0x16]"

definition aes_inv_sbox :: "u8 list" where
  "aes_inv_sbox = [
    0x52, 0x09, 0x6a, 0xd5, 0x30, 0x36, 0xa5, 0x38, 0xbf, 0x40, 0xa3, 0x9e, 0x81, 0xf3, 0xd7, 0xfb,
    0x7c, 0xe3, 0x39, 0x82, 0x9b, 0x2f, 0xff, 0x87, 0x34, 0x8e, 0x43, 0x44, 0xc4, 0xde, 0xe9, 0xcb,
    0x54, 0x7b, 0x94, 0x32, 0xa6, 0xc2, 0x23, 0x3d, 0xee, 0x4c, 0x95, 0x0b, 0x42, 0xfa, 0xc3, 0x4e,
    0x08, 0x2e, 0xa1, 0x66, 0x28, 0xd9, 0x24, 0xb2, 0x76, 0x5b, 0xa2, 0x49, 0x6d, 0x8b, 0xd1, 0x25,
    0x72, 0xf8, 0xf6, 0x64, 0x86, 0x68, 0x98, 0x16, 0xd4, 0xa4, 0x5c, 0xcc, 0x5d, 0x65, 0xb6, 0x92,
    0x6c, 0x70, 0x48, 0x50, 0xfd, 0xed, 0xb9, 0xda, 0x5e, 0x15, 0x46, 0x57, 0xa7, 0x8d, 0x9d, 0x84,
    0x90, 0xd8, 0xab, 0x00, 0x8c, 0xbc, 0xd3, 0x0a, 0xf7, 0xe4, 0x58, 0x05, 0xb8, 0xb3, 0x45, 0x06,
    0xd0, 0x2c, 0x1e, 0x8f, 0xca, 0x3f, 0x0f, 0x02, 0xc1, 0xaf, 0xbd, 0x03, 0x01, 0x13, 0x8a, 0x6b,
    0x3a, 0x91, 0x11, 0x41, 0x4f, 0x67, 0xdc, 0xea, 0x97, 0xf2, 0xcf, 0xce, 0xf0, 0xb4, 0xe6, 0x73,
    0x96, 0xac, 0x74, 0x22, 0xe7, 0xad, 0x35, 0x85, 0xe2, 0xf9, 0x37, 0xe8, 0x1c, 0x75, 0xdf, 0x6e,
    0x47, 0xf1, 0x1a, 0x71, 0x1d, 0x29, 0xc5, 0x89, 0x6f, 0xb7, 0x62, 0x0e, 0xaa, 0x18, 0xbe, 0x1b,
    0xfc, 0x56, 0x3e, 0x4b, 0xc6, 0xd2, 0x79, 0x20, 0x9a, 0xdb, 0xc0, 0xfe, 0x78, 0xcd, 0x5a, 0xf4,
    0x1f, 0xdd, 0xa8, 0x33, 0x88, 0x07, 0xc7, 0x31, 0xb1, 0x12, 0x10, 0x59, 0x27, 0x80, 0xec, 0x5f,
    0x60, 0x51, 0x7f, 0xa9, 0x19, 0xb5, 0x4a, 0x0d, 0x2d, 0xe5, 0x7a, 0x9f, 0x93, 0xc9, 0x9c, 0xef,
    0xa0, 0xe0, 0x3b, 0x4d, 0xae, 0x2a, 0xf5, 0xb0, 0xc8, 0xeb, 0xbb, 0x3c, 0x83, 0x53, 0x99, 0x61,
    0x17, 0x2b, 0x04, 0x7e, 0xba, 0x77, 0xd6, 0x26, 0xe1, 0x69, 0x14, 0x63, 0x55, 0x21, 0x0c, 0x7d]"

definition aes_rcon :: "u8 list" where
  "aes_rcon = [0x00, 0x01, 0x02, 0x04, 0x08, 0x10, 0x20, 0x40, 0x80, 0x1b, 0x36]"

record aes_ctx_t =
  a_rounds :: nat
  a_key_len :: nat
  a_round_keys :: "u32 list"
  a_iv :: "u8 list"

definition AES_BLOCK_SIZE :: nat where "AES_BLOCK_SIZE = 16"
definition AES_MAX_NR_KEY :: nat where "AES_MAX_NR_KEY = 60"

section \<open>Multiplication by constants\<close>

definition aes_gf_mul2 :: "u8 \<Rightarrow> u8" where
  "aes_gf_mul2 x = push_bit 1 x XOR (if x AND 0x80 \<noteq> 0 then 0x1b else 0x00)"

definition aes_gf_mul3 :: "u8 \<Rightarrow> u8" where
  "aes_gf_mul3 x = aes_gf_mul2 x XOR x"

definition aes_gf_mul_e :: "u8 \<Rightarrow> u8" where
  "aes_gf_mul_e x = (let x2 = aes_gf_mul2 x; x4 = aes_gf_mul2 x2; x8 = aes_gf_mul2 x4 in x8 XOR x4 XOR x2)"

definition aes_gf_mul_b :: "u8 \<Rightarrow> u8" where
  "aes_gf_mul_b x = (let x2 = aes_gf_mul2 x; x4 = aes_gf_mul2 x2; x8 = aes_gf_mul2 x4 in x8 XOR x2 XOR x)"

definition aes_gf_mul_d :: "u8 \<Rightarrow> u8" where
  "aes_gf_mul_d x = (let x2 = aes_gf_mul2 x; x4 = aes_gf_mul2 x2; x8 = aes_gf_mul2 x4 in x8 XOR x4 XOR x)"

definition aes_gf_mul_9 :: "u8 \<Rightarrow> u8" where
  "aes_gf_mul_9 x = (let x2 = aes_gf_mul2 x; x4 = aes_gf_mul2 x2; x8 = aes_gf_mul2 x4 in x8 XOR x)"

section \<open>The round transformations\<close>

type_synonym aes_state = "u8 list list"

abbreviation cell :: "aes_state \<Rightarrow> nat \<Rightarrow> nat \<Rightarrow> u8" where
  "cell st i j \<equiv> st ! i ! j"

definition set_cell :: "nat \<Rightarrow> nat \<Rightarrow> u8 \<Rightarrow> aes_state \<Rightarrow> aes_state" where
  "set_cell i j v st = st[i := (st ! i)[j := v]]"

definition aes_sub_bytes :: "aes_state \<Rightarrow> aes_state" where
  "aes_sub_bytes = fold (\<lambda>i. fold (\<lambda>j st. set_cell i j (aes_sbox ! unat (cell st i j)) st) [0..<4]) [0..<4]"

definition aes_inv_sub_bytes :: "aes_state \<Rightarrow> aes_state" where
  "aes_inv_sub_bytes = fold (\<lambda>i. fold (\<lambda>j st. set_cell i j (aes_inv_sbox ! unat (cell st i j)) st) [0..<4]) [0..<4]"

definition aes_shift_rows :: "aes_state \<Rightarrow> aes_state" where
  "aes_shift_rows st =
     (let temp = cell st 1 0;
          st = set_cell 1 0 (cell st 1 1) st; st = set_cell 1 1 (cell st 1 2) st;
          st = set_cell 1 2 (cell st 1 3) st; st = set_cell 1 3 temp st;
          temp = cell st 2 0; st = set_cell 2 0 (cell st 2 2) st; st = set_cell 2 2 temp st;
          temp = cell st 2 1; st = set_cell 2 1 (cell st 2 3) st; st = set_cell 2 3 temp st;
          temp = cell st 3 3;
          st = set_cell 3 3 (cell st 3 2) st; st = set_cell 3 2 (cell st 3 1) st;
          st = set_cell 3 1 (cell st 3 0) st
      in set_cell 3 0 temp st)"

definition aes_inv_shift_rows :: "aes_state \<Rightarrow> aes_state" where
  "aes_inv_shift_rows st =
     (let temp = cell st 1 3;
          st = set_cell 1 3 (cell st 1 2) st; st = set_cell 1 2 (cell st 1 1) st;
          st = set_cell 1 1 (cell st 1 0) st; st = set_cell 1 0 temp st;
          temp = cell st 2 0; st = set_cell 2 0 (cell st 2 2) st; st = set_cell 2 2 temp st;
          temp = cell st 2 1; st = set_cell 2 1 (cell st 2 3) st; st = set_cell 2 3 temp st;
          temp = cell st 3 0;
          st = set_cell 3 0 (cell st 3 1) st; st = set_cell 3 1 (cell st 3 2) st;
          st = set_cell 3 2 (cell st 3 3) st
      in set_cell 3 3 temp st)"

definition aes_mix_columns :: "aes_state \<Rightarrow> aes_state" where
  "aes_mix_columns = fold (\<lambda>i st.
     let s0 = cell st 0 i; s1 = cell st 1 i; s2 = cell st 2 i; s3 = cell st 3 i;
         st = set_cell 0 i (aes_gf_mul2 s0 XOR aes_gf_mul3 s1 XOR s2 XOR s3) st;
         st = set_cell 1 i (s0 XOR aes_gf_mul2 s1 XOR aes_gf_mul3 s2 XOR s3) st;
         st = set_cell 2 i (s0 XOR s1 XOR aes_gf_mul2 s2 XOR aes_gf_mul3 s3) st
     in set_cell 3 i (aes_gf_mul3 s0 XOR s1 XOR s2 XOR aes_gf_mul2 s3) st) [0..<4]"

definition aes_inv_mix_columns :: "aes_state \<Rightarrow> aes_state" where
  "aes_inv_mix_columns = fold (\<lambda>i st.
     let s0 = cell st 0 i; s1 = cell st 1 i; s2 = cell st 2 i; s3 = cell st 3 i;
         st = set_cell 0 i (aes_gf_mul_e s0 XOR aes_gf_mul_b s1 XOR aes_gf_mul_d s2 XOR aes_gf_mul_9 s3) st;
         st = set_cell 1 i (aes_gf_mul_9 s0 XOR aes_gf_mul_e s1 XOR aes_gf_mul_b s2 XOR aes_gf_mul_d s3) st;
         st = set_cell 2 i (aes_gf_mul_d s0 XOR aes_gf_mul_9 s1 XOR aes_gf_mul_e s2 XOR aes_gf_mul_b s3) st
     in set_cell 3 i (aes_gf_mul_b s0 XOR aes_gf_mul_d s1 XOR aes_gf_mul_9 s2 XOR aes_gf_mul_e s3) st) [0..<4]"

text \<open>The pointer \<^verbatim>\<open>round_key\<close> is an offset into the schedule.\<close>

definition aes_add_round_key :: "u32 list \<Rightarrow> nat \<Rightarrow> aes_state \<Rightarrow> aes_state" where
  "aes_add_round_key round_keys off = fold (\<lambda>i st.
     let k = round_keys ! (off + i)
     in fold (\<lambda>j st. set_cell j i (cell st j i XOR ucast (drop_bit (24 - j * 8) k AND 0xFF)) st) [0..<4] st) [0..<4]"

section \<open>The key schedule\<close>

definition sub_word :: "u32 \<Rightarrow> u32" where
  "sub_word temp =
     push_bit 24 (ucast (aes_sbox ! unat (drop_bit 24 temp AND 0xFF))) OR
     push_bit 16 (ucast (aes_sbox ! unat (drop_bit 16 temp AND 0xFF))) OR
     push_bit 8 (ucast (aes_sbox ! unat (drop_bit 8 temp AND 0xFF))) OR
     ucast (aes_sbox ! unat (temp AND 0xFF))"

definition key_word :: "u8 list \<Rightarrow> nat \<Rightarrow> u32" where
  "key_word key i =
     push_bit 24 (ucast (key ! (i * 4))) OR push_bit 16 (ucast (key ! (i * 4 + 1))) OR
     push_bit 8 (ucast (key ! (i * 4 + 2))) OR ucast (key ! (i * 4 + 3))"

definition key_step :: "nat \<Rightarrow> nat \<Rightarrow> u32 \<Rightarrow> u32" where
  "key_step nk i temp =
     (if i mod nk = 0
      then sub_word (push_bit 8 temp OR drop_bit 24 temp) XOR push_bit 24 (ucast (aes_rcon ! (i div nk)))
      else if nk > 6 \<and> i mod nk = 4 then sub_word temp else temp)"

definition aes_key_expansion :: "u8 list \<Rightarrow> nat \<Rightarrow> u32 list \<Rightarrow> nat \<Rightarrow> u32 list" where
  "aes_key_expansion key key_len round_keys rounds =
     (let nk = key_len div 4; nr = rounds;
          round_keys = fold (\<lambda>i rk. rk[i := key_word key i]) [0..<nk] round_keys
      in fold (\<lambda>i rk. rk[i := rk ! (i - nk) XOR key_step nk i (rk ! (i - 1))]) [nk..<4 * (nr + 1)] round_keys)"

definition aes_init :: "u8 list \<Rightarrow> nat \<Rightarrow> aes_ctx_t \<Rightarrow> int \<times> aes_ctx_t" where
  "aes_init key key_len ctx =
     (case (if key_len = 16 then Some 10 else if key_len = 24 then Some 12 else if key_len = 32 then Some 14 else None) of
        None \<Rightarrow> (-1, ctx)
      | Some r \<Rightarrow>
          (let ctx = ctx\<lparr>a_rounds := r, a_key_len := key_len, a_iv := replicate AES_BLOCK_SIZE 0\<rparr>
           in (0, ctx\<lparr>a_round_keys := aes_key_expansion key key_len (a_round_keys ctx) (a_rounds ctx)\<rparr>)))"

definition aes_set_iv :: "u8 list \<Rightarrow> aes_ctx_t \<Rightarrow> aes_ctx_t" where
  "aes_set_iv iv ctx = ctx\<lparr>a_iv := take AES_BLOCK_SIZE iv\<rparr>"

section \<open>One block\<close>

definition load_state :: "u8 list \<Rightarrow> aes_state" where
  "load_state inp = map (\<lambda>j. map (\<lambda>i. inp ! (i * 4 + j)) [0..<4]) [0..<4]"

definition store_state :: "aes_state \<Rightarrow> u8 list" where
  "store_state st = concat (map (\<lambda>i. map (\<lambda>j. cell st j i) [0..<4]) [0..<4])"

definition aes_round :: "aes_ctx_t \<Rightarrow> nat \<Rightarrow> aes_state \<Rightarrow> aes_state" where
  "aes_round ctx r st = aes_add_round_key (a_round_keys ctx) (r * 4) (aes_mix_columns (aes_shift_rows (aes_sub_bytes st)))"

definition aes_encrypt_ecb :: "aes_ctx_t \<Rightarrow> u8 list \<Rightarrow> u8 list" where
  "aes_encrypt_ecb ctx inp =
     (let st = load_state inp;
          st = aes_add_round_key (a_round_keys ctx) 0 st;
          st = fold (aes_round ctx) [1..<a_rounds ctx] st;
          st = aes_sub_bytes st;
          st = aes_shift_rows st;
          st = aes_add_round_key (a_round_keys ctx) (a_rounds ctx * 4) st
      in store_state st)"

definition aes_inv_round :: "aes_ctx_t \<Rightarrow> nat \<Rightarrow> aes_state \<Rightarrow> aes_state" where
  "aes_inv_round ctx r st =
     aes_inv_mix_columns (aes_add_round_key (a_round_keys ctx) (r * 4) (aes_inv_sub_bytes (aes_inv_shift_rows st)))"

definition aes_decrypt_ecb :: "aes_ctx_t \<Rightarrow> u8 list \<Rightarrow> u8 list" where
  "aes_decrypt_ecb ctx inp =
     (let st = load_state inp;
          st = aes_add_round_key (a_round_keys ctx) (a_rounds ctx * 4) st;
          st = fold (aes_inv_round ctx) (rev [1..<a_rounds ctx]) st;
          st = aes_inv_shift_rows st;
          st = aes_inv_sub_bytes st;
          st = aes_add_round_key (a_round_keys ctx) 0 st
      in store_state st)"

section \<open>Cipher block chaining\<close>

text \<open>The two loops, over the block operation they call; the argument is the input from position \<^verbatim>\<open>i\<close> on.\<close>

definition xor_block :: "u8 list \<Rightarrow> u8 list \<Rightarrow> u8 list" where
  "xor_block xs iv = map (\<lambda>j. xs ! j XOR iv ! j) [0..<AES_BLOCK_SIZE]"

function cbc_encrypt_loop :: "(u8 list \<Rightarrow> u8 list) \<Rightarrow> u8 list \<Rightarrow> u8 list \<Rightarrow> u8 list" where
  "cbc_encrypt_loop enc iv inp =
     (if inp = [] then []
      else let blk = enc (xor_block inp iv) in blk @ cbc_encrypt_loop enc blk (drop AES_BLOCK_SIZE inp))"
  by pat_completeness auto
termination by (relation "measure (\<lambda>(enc, iv, inp). length inp)") (simp_all add: AES_BLOCK_SIZE_def)

function cbc_decrypt_loop :: "(u8 list \<Rightarrow> u8 list) \<Rightarrow> u8 list \<Rightarrow> u8 list \<Rightarrow> u8 list" where
  "cbc_decrypt_loop dec iv inp =
     (if inp = [] then []
      else xor_block (dec inp) iv @ cbc_decrypt_loop dec (take AES_BLOCK_SIZE inp) (drop AES_BLOCK_SIZE inp))"
  by pat_completeness auto
termination by (relation "measure (\<lambda>(dec, iv, inp). length inp)") (simp_all add: AES_BLOCK_SIZE_def)

declare cbc_encrypt_loop.simps [simp del]
declare cbc_decrypt_loop.simps [simp del]

definition aes_encrypt_cbc :: "aes_ctx_t \<Rightarrow> u8 list \<Rightarrow> int \<times> u8 list" where
  "aes_encrypt_cbc ctx inp =
     (if length inp mod AES_BLOCK_SIZE \<noteq> 0 then (-1, []) else (0, cbc_encrypt_loop (aes_encrypt_ecb ctx) (a_iv ctx) inp))"

definition aes_decrypt_cbc :: "aes_ctx_t \<Rightarrow> u8 list \<Rightarrow> int \<times> u8 list" where
  "aes_decrypt_cbc ctx inp =
     (if length inp mod AES_BLOCK_SIZE \<noteq> 0 then (-1, []) else (0, cbc_decrypt_loop (aes_decrypt_ecb ctx) (a_iv ctx) inp))"

section \<open>The field and the tables\<close>

lemma aes_gf_mul2_bit: "aes_gf_mul2 x = push_bit 1 x XOR (if bit x 7 then 0x1b else 0)"
  using bit_test_mask [of x 7] by (simp add: aes_gf_mul2_def)

lemma aes_gf_mul2_xor: "aes_gf_mul2 (x XOR y) = aes_gf_mul2 x XOR aes_gf_mul2 y"
  by (auto simp: aes_gf_mul2_bit bit_xor_iff push_bit_xor ac_simps xor.left_commute)

lemma aes_sbox_inverse_table: "map (\<lambda>b. aes_inv_sbox ! unat b) aes_sbox = map of_nat [0..<256]"
  by code_simp

lemma length_aes_sbox [simp]: "length aes_sbox = 256"
  by (simp add: aes_sbox_def)

lemma aes_sbox_inverse: "aes_inv_sbox ! unat (aes_sbox ! unat b) = b"
proof -
  have u: "unat b < 256" using unsigned_less [of b] by simp
  have "map (\<lambda>b. aes_inv_sbox ! unat b) aes_sbox ! unat b = map of_nat [0..<256] ! unat b"
    by (simp only: aes_sbox_inverse_table)
  then show ?thesis using u by simp
qed

lemmas aes_gf_defs = aes_gf_mul3_def aes_gf_mul_e_def aes_gf_mul_b_def aes_gf_mul_d_def aes_gf_mul_9_def

lemma xor_left_cancel: "x XOR (x XOR y) = y" for x y :: "'a::len word"
  by (simp add: xor.assoc [symmetric])

lemmas xor_normal = xor.assoc xor.commute xor.left_commute xor_left_cancel

text \<open>The inverse mixing matrix undoes the mixing matrix, column entry by column entry.\<close>

lemma aes_unmix:
  defines "x0 \<equiv> \<lambda>a b c d. aes_gf_mul2 a XOR aes_gf_mul3 b XOR c XOR d"
    and "x1 \<equiv> \<lambda>a b c d. a XOR aes_gf_mul2 b XOR aes_gf_mul3 c XOR d"
    and "x2 \<equiv> \<lambda>a b c d. a XOR b XOR aes_gf_mul2 c XOR aes_gf_mul3 d"
    and "x3 \<equiv> \<lambda>a b c d. aes_gf_mul3 a XOR b XOR c XOR aes_gf_mul2 d"
  shows "aes_gf_mul_e (x0 a b c d) XOR aes_gf_mul_b (x1 a b c d) XOR aes_gf_mul_d (x2 a b c d) XOR aes_gf_mul_9 (x3 a b c d) = a"
    and "aes_gf_mul_9 (x0 a b c d) XOR aes_gf_mul_e (x1 a b c d) XOR aes_gf_mul_b (x2 a b c d) XOR aes_gf_mul_d (x3 a b c d) = b"
    and "aes_gf_mul_d (x0 a b c d) XOR aes_gf_mul_9 (x1 a b c d) XOR aes_gf_mul_e (x2 a b c d) XOR aes_gf_mul_b (x3 a b c d) = c"
    and "aes_gf_mul_b (x0 a b c d) XOR aes_gf_mul_d (x1 a b c d) XOR aes_gf_mul_9 (x2 a b c d) XOR aes_gf_mul_e (x3 a b c d) = d"
  by (simp_all add: assms aes_gf_defs Let_def aes_gf_mul2_xor xor_normal)

section \<open>The transformations on a four-by-four matrix\<close>

definition matrix44 :: "aes_state \<Rightarrow> bool" where
  "matrix44 st \<longleftrightarrow> length st = 4 \<and> (\<forall>row \<in> set st. length row = 4)"

lemma length4_conv: "length xs = 4 \<longleftrightarrow> (\<exists>a b c d. xs = [a, b, c, d])"
  by (auto simp: numeral_eq_Suc length_Suc_conv)

lemma matrix44_cases:
  assumes "matrix44 st"
  obtains a b c d e f g h i j k l m n p q where "st = [[a, b, c, d], [e, f, g, h], [i, j, k, l], [m, n, p, q]]"
  using assms by (auto simp: matrix44_def length4_conv)

lemma upt_four: "[0..<4] = [0, 1, 2, 3::nat]"
  by (simp add: upt_rec)

lemmas aes_step_defs = set_cell_def upt_four Let_def numeral_2_eq_2 numeral_3_eq_3

lemma aes_sub_bytes_map: "matrix44 st \<Longrightarrow> aes_sub_bytes st = map (map (\<lambda>b. aes_sbox ! unat b)) st"
  by (erule matrix44_cases) (simp add: aes_sub_bytes_def aes_step_defs)

lemma aes_inv_sub_bytes_map: "matrix44 st \<Longrightarrow> aes_inv_sub_bytes st = map (map (\<lambda>b. aes_inv_sbox ! unat b)) st"
  by (erule matrix44_cases) (simp add: aes_inv_sub_bytes_def aes_step_defs)

lemma aes_sub_bytes_inverse:
  assumes "matrix44 st" shows "aes_inv_sub_bytes (aes_sub_bytes st) = st"
proof -
  have "matrix44 (aes_sub_bytes st)" using assms by (auto simp: aes_sub_bytes_map matrix44_def)
  then show ?thesis using assms by (simp add: aes_sub_bytes_map aes_inv_sub_bytes_map aes_sbox_inverse comp_def)
qed

lemma aes_shift_rows_inverse: "matrix44 st \<Longrightarrow> aes_inv_shift_rows (aes_shift_rows st) = st"
  by (erule matrix44_cases) (simp add: aes_shift_rows_def aes_inv_shift_rows_def aes_step_defs)

lemma aes_mix_columns_inverse: "matrix44 st \<Longrightarrow> aes_inv_mix_columns (aes_mix_columns st) = st"
  by (erule matrix44_cases) (simp add: aes_mix_columns_def aes_inv_mix_columns_def aes_step_defs aes_unmix)

lemma aes_add_round_key_self: "matrix44 st \<Longrightarrow> aes_add_round_key rk off (aes_add_round_key rk off st) = st"
  by (erule matrix44_cases) (simp add: aes_add_round_key_def aes_step_defs xor_normal)

lemma matrix44_sub_bytes [simp]: "matrix44 st \<Longrightarrow> matrix44 (aes_sub_bytes st)"
  by (auto simp: aes_sub_bytes_map matrix44_def)

lemma matrix44_shift_rows [simp]: "matrix44 st \<Longrightarrow> matrix44 (aes_shift_rows st)"
  by (erule matrix44_cases) (simp add: matrix44_def aes_shift_rows_def aes_step_defs)

lemma matrix44_mix_columns [simp]: "matrix44 st \<Longrightarrow> matrix44 (aes_mix_columns st)"
  by (erule matrix44_cases) (simp add: matrix44_def aes_mix_columns_def aes_step_defs)

lemma matrix44_add_round_key [simp]: "matrix44 st \<Longrightarrow> matrix44 (aes_add_round_key rk off st)"
  by (erule matrix44_cases) (simp add: matrix44_def aes_add_round_key_def aes_step_defs)

lemma matrix44_load [simp]: "matrix44 (load_state xs)"
  by (simp add: matrix44_def load_state_def)

lemma matrix44_round [simp]: "matrix44 st \<Longrightarrow> matrix44 (aes_round ctx r st)"
  by (simp add: aes_round_def)

lemma matrix44_rounds [simp]: "matrix44 st \<Longrightarrow> matrix44 (fold (aes_round ctx) rs st)"
  by (induction rs arbitrary: st) simp_all

section \<open>Decrypting a block\<close>

lemma length_store [simp]: "length (store_state st) = 16"
  by (simp add: store_state_def upt_four)

lemma load_store: "matrix44 st \<Longrightarrow> load_state (store_state st) = st"
  by (erule matrix44_cases) (simp add: load_state_def store_state_def aes_step_defs)

lemma length16_conv:
  "length xs = 16 \<longleftrightarrow> (\<exists>a b c d e f g h i j k l m n p q. xs = [a, b, c, d, e, f, g, h, i, j, k, l, m, n, p, q])"
  by (auto simp: numeral_eq_Suc length_Suc_conv)

lemma store_load: "store_state (load_state xs) = take 16 xs" if "16 \<le> length xs"
proof -
  have "load_state xs = load_state (take 16 xs)" using that by (simp add: load_state_def upt_four)
  moreover have "store_state (load_state ys) = ys" if "length ys = 16" for ys
    using that unfolding length16_conv by (elim exE) (simp add: load_state_def store_state_def upt_four numeral_eq_Suc)
  ultimately show ?thesis using that by simp
qed

lemma aes_inv_round_round:
  assumes "matrix44 st"
  shows "aes_inv_round ctx r (aes_shift_rows (aes_sub_bytes (aes_round ctx r st))) = aes_shift_rows (aes_sub_bytes st)"
  using assms unfolding aes_inv_round_def
  by (simp add: aes_shift_rows_inverse aes_sub_bytes_inverse aes_round_def aes_add_round_key_self aes_mix_columns_inverse)

lemma aes_inv_rounds:
  assumes "matrix44 st"
  shows "fold (aes_inv_round ctx) (rev [1..<r]) (aes_shift_rows (aes_sub_bytes (fold (aes_round ctx) [1..<r] st))) =
    aes_shift_rows (aes_sub_bytes st)"
proof (induction r)
  case (Suc r)
  show ?case
  proof (cases "1 \<le> r")
    case True
    then show ?thesis using Suc assms by (simp add: aes_inv_round_round)
  qed simp
qed simp

lemma aes_decrypt_encrypt_ecb:
  assumes "length inp = AES_BLOCK_SIZE"
  shows "aes_decrypt_ecb ctx (aes_encrypt_ecb ctx inp) = inp"
proof -
  let ?rk = "a_round_keys ctx"
  let ?k0 = "aes_add_round_key ?rk 0 (load_state inp)"
  let ?s = "aes_shift_rows (aes_sub_bytes (fold (aes_round ctx) [1..<a_rounds ctx] ?k0))"
  have "load_state (aes_encrypt_ecb ctx inp) = aes_add_round_key ?rk (a_rounds ctx * 4) ?s"
    by (simp add: aes_encrypt_ecb_def Let_def load_store)
  then have "aes_decrypt_ecb ctx (aes_encrypt_ecb ctx inp) =
      store_state (aes_add_round_key ?rk 0 (aes_inv_sub_bytes (aes_inv_shift_rows
        (fold (aes_inv_round ctx) (rev [1..<a_rounds ctx]) ?s))))"
    by (simp add: aes_decrypt_ecb_def Let_def aes_add_round_key_self)
  also have "\<dots> = store_state (load_state inp)"
    by (simp only: aes_inv_rounds matrix44_add_round_key matrix44_load aes_shift_rows_inverse matrix44_sub_bytes
        aes_sub_bytes_inverse aes_add_round_key_self)
  finally show ?thesis using assms by (simp add: store_load AES_BLOCK_SIZE_def)
qed

section \<open>Chaining over any block cipher\<close>

locale block_cipher =
  fixes enc dec :: "u8 list \<Rightarrow> u8 list"
  assumes dec_enc: "length b = AES_BLOCK_SIZE \<Longrightarrow> dec (enc b) = b"
    and length_enc: "length (enc b) = AES_BLOCK_SIZE"
    and dec_prefix: "dec (enc b @ rest) = dec (enc b)"
begin

lemma length_xor_block [simp]: "length (xor_block xs iv) = AES_BLOCK_SIZE"
  by (simp add: xor_block_def)

lemma xor_block_twice:
  assumes "AES_BLOCK_SIZE \<le> length xs"
  shows "xor_block (xor_block xs iv) iv = take AES_BLOCK_SIZE xs"
  using assms by (intro nth_equalityI) (auto simp: xor_block_def xor.assoc)

lemma cbc_roundtrip:
  assumes "AES_BLOCK_SIZE dvd length inp"
  shows "length (cbc_encrypt_loop enc iv inp) = length inp \<and> cbc_decrypt_loop dec iv (cbc_encrypt_loop enc iv inp) = inp"
  using assms
proof (induction "length inp" arbitrary: inp iv rule: less_induct)
  case less
  show ?case
  proof (cases "inp = []")
    case True
    then show ?thesis by (simp add: cbc_encrypt_loop.simps cbc_decrypt_loop.simps)
  next
    case False
    let ?b = "enc (xor_block inp iv)" and ?rest = "drop AES_BLOCK_SIZE inp"
    have l: "AES_BLOCK_SIZE \<le> length inp" using less.prems False by (auto dest: dvd_imp_le)
    have "AES_BLOCK_SIZE dvd length ?rest" using less.prems l by (simp add: dvd_diff_nat)
    moreover have "length ?rest < length inp" using False l by (simp add: AES_BLOCK_SIZE_def)
    ultimately have IH: "length (cbc_encrypt_loop enc ?b ?rest) = length ?rest"
      "cbc_decrypt_loop dec ?b (cbc_encrypt_loop enc ?b ?rest) = ?rest" using less.hyps by blast+
    have e: "cbc_encrypt_loop enc iv inp = ?b @ cbc_encrypt_loop enc ?b ?rest"
      using False by (simp add: cbc_encrypt_loop.simps [of enc iv inp] Let_def)
    have ne: "?b @ ys \<noteq> []" for ys using length_enc [of "xor_block inp iv"] by (auto simp: AES_BLOCK_SIZE_def)
    have "cbc_decrypt_loop dec iv (?b @ ys) = xor_block (dec ?b) iv @ cbc_decrypt_loop dec ?b ys" for ys
      unfolding cbc_decrypt_loop.simps [of dec iv "?b @ ys"] if_not_P [OF ne] by (simp add: dec_prefix length_enc)
    then show ?thesis using IH l by (simp add: e length_enc dec_enc xor_block_twice)
  qed
qed

end

lemma length_aes_encrypt_ecb [simp]: "length (aes_encrypt_ecb ctx inp) = AES_BLOCK_SIZE"
  by (simp add: aes_encrypt_ecb_def Let_def AES_BLOCK_SIZE_def)

lemma load_state_prefix: "length xs = AES_BLOCK_SIZE \<Longrightarrow> load_state (xs @ ys) = load_state xs"
  by (simp add: load_state_def AES_BLOCK_SIZE_def nth_append)

lemma aes_decrypt_ecb_prefix: "length xs = AES_BLOCK_SIZE \<Longrightarrow> aes_decrypt_ecb ctx (xs @ ys) = aes_decrypt_ecb ctx xs"
  by (simp add: aes_decrypt_ecb_def load_state_prefix)

interpretation aes: block_cipher "aes_encrypt_ecb ctx" "aes_decrypt_ecb ctx" for ctx
  by unfold_locales (simp_all add: aes_decrypt_encrypt_ecb aes_decrypt_ecb_prefix)

section \<open>The key schedule as a recurrence\<close>

function aes_schedule :: "u8 list \<Rightarrow> nat \<Rightarrow> nat \<Rightarrow> u32" where
  "aes_schedule key nk i =
     (if i < nk \<or> nk = 0 then key_word key i
      else aes_schedule key nk (i - nk) XOR key_step nk i (aes_schedule key nk (i - 1)))"
  by pat_completeness auto
termination by (relation "measure (\<lambda>(key, nk, i). i)") auto

declare aes_schedule.simps [simp del]

lemma fold_key_words:
  "n \<le> length rk \<Longrightarrow> length (fold (\<lambda>i rk. rk[i := key_word key i]) [0..<n] rk) = length rk \<and>
    (\<forall>i < n. fold (\<lambda>i rk. rk[i := key_word key i]) [0..<n] rk ! i = key_word key i)"
  by (induction n) (auto simp: nth_update_lt less_Suc_eq)

lemma fold_key_steps:
  assumes "0 < nk" "nk \<le> n" "n \<le> length rk" "\<forall>i < nk. rk ! i = key_word key i"
  defines "F \<equiv> \<lambda>n. fold (\<lambda>i rk. rk[i := rk ! (i - nk) XOR key_step nk i (rk ! (i - 1))]) [nk..<n] rk"
  shows "length (F n) = length rk \<and> (\<forall>i < n. F n ! i = aes_schedule key nk i)"
  using assms(2,3)
proof (induction n rule: dec_induct)
  case base
  then show ?case using assms(4) by (simp add: F_def aes_schedule.simps)
next
  case (step n)
  then have IH: "length (F n) = length rk" "\<forall>i < n. F n ! i = aes_schedule key nk i" by simp_all
  have F: "F (Suc n) = (F n)[n := F n ! (n - nk) XOR key_step nk n (F n ! (n - 1))]" using step(1) by (simp add: F_def)
  have "F n ! (n - nk) XOR key_step nk n (F n ! (n - 1)) = aes_schedule key nk n"
    using IH(2) step(1) assms(1) by (simp add: aes_schedule.simps [of key nk n])
  then show ?case using IH step(1,4) by (auto simp: F nth_update_lt less_Suc_eq)
qed

lemma aes_key_expansion_schedule:
  assumes "0 < key_len div 4" "key_len div 4 \<le> 4 * (r + 1)" "4 * (r + 1) \<le> length rk" "i < 4 * (r + 1)"
  shows "aes_key_expansion key key_len rk r ! i = aes_schedule key (key_len div 4) i"
proof -
  let ?n = "key_len div 4"
  let ?rk = "fold (\<lambda>i rk. rk[i := key_word key i]) [0..<?n] rk"
  have "length ?rk = length rk" "\<forall>i < ?n. ?rk ! i = key_word key i" using fold_key_words [of ?n rk key] assms by simp_all
  then show ?thesis using fold_key_steps [of ?n "4 * (r + 1)" ?rk key] assms by (simp add: aes_key_expansion_def Let_def)
qed

text \<open>Two contexts that agree on the part of the schedule in use are the same cipher.\<close>

definition same_cipher :: "aes_ctx_t \<Rightarrow> aes_ctx_t \<Rightarrow> bool" where
  "same_cipher c d \<longleftrightarrow> a_rounds c = a_rounds d \<and> (\<forall>i < 4 * (a_rounds c + 1). a_round_keys c ! i = a_round_keys d ! i)"

lemma aes_add_round_key_same:
  "same_cipher c d \<Longrightarrow> r \<le> a_rounds c \<Longrightarrow> aes_add_round_key (a_round_keys c) (r * 4) = aes_add_round_key (a_round_keys d) (r * 4)"
  by (simp add: aes_add_round_key_def same_cipher_def upt_four)

lemma aes_decrypt_ecb_same:
  assumes "same_cipher c d"
  shows "aes_decrypt_ecb c = aes_decrypt_ecb d"
proof -
  note K = aes_add_round_key_same [OF assms]
  have r: "a_rounds d = a_rounds c" using assms by (simp add: same_cipher_def)
  have "fold (aes_inv_round c) (rev [1..<a_rounds c]) st = fold (aes_inv_round d) (rev [1..<a_rounds c]) st" for st
    by (intro fold_cong refl) (auto simp: aes_inv_round_def K)
  then show ?thesis using K [of 0] K [of "a_rounds c"] by (simp add: aes_decrypt_ecb_def r fun_eq_iff)
qed

lemma aes_init_accepts:
  "aes_init key key_len c = (r, ctx) \<Longrightarrow> (r = 0 \<longleftrightarrow> key_len \<in> {16, 24, 32}) \<and> (r \<noteq> 0 \<longrightarrow> r = -1 \<and> ctx = c)"
  by (auto simp: aes_init_def Let_def split: if_splits)

lemma aes_init_schedule:
  assumes "aes_init key key_len c = (0, ctx)" "AES_MAX_NR_KEY \<le> length (a_round_keys c)"
  shows "a_rounds ctx = key_len div 4 + 6" "i < 4 * (a_rounds ctx + 1) \<Longrightarrow> a_round_keys ctx ! i = aes_schedule key (key_len div 4) i"
    "a_rounds ctx \<in> {10, 12, 14}"
proof -
  have k: "key_len = 16 \<and> a_rounds ctx = 10 \<or> key_len = 24 \<and> a_rounds ctx = 12 \<or> key_len = 32 \<and> a_rounds ctx = 14"
    and e: "a_round_keys ctx = aes_key_expansion key key_len (a_round_keys c) (a_rounds ctx)"
    using assms(1) by (auto simp: aes_init_def Let_def split: if_splits)
  show "a_rounds ctx = key_len div 4 + 6" "a_rounds ctx \<in> {10, 12, 14}" using k by auto
  show "i < 4 * (a_rounds ctx + 1) \<Longrightarrow> a_round_keys ctx ! i = aes_schedule key (key_len div 4) i"
    unfolding e using k assms(2) by (intro aes_key_expansion_schedule) (auto simp: AES_MAX_NR_KEY_def)
qed

lemma aes_init_same:
  assumes "aes_init key key_len c = (0, ctx)" "AES_MAX_NR_KEY \<le> length (a_round_keys c)"
    "aes_init key key_len c' = (r, ctx')" "AES_MAX_NR_KEY \<le> length (a_round_keys c')"
  shows "r = 0 \<and> same_cipher ctx ctx'"
proof -
  have "r = 0" using aes_init_accepts [OF assms(1)] aes_init_accepts [OF assms(3)] by simp
  then show ?thesis
    using aes_init_schedule [OF assms(1,2)] aes_init_schedule [of key key_len c' ctx'] assms(3,4)
    by (simp add: same_cipher_def)
qed

lemma aes_set_iv_fields [simp]:
  "a_rounds (aes_set_iv iv c) = a_rounds c" "a_round_keys (aes_set_iv iv c) = a_round_keys c" "a_iv (aes_set_iv iv c) = take 16 iv"
  by (simp_all add: aes_set_iv_def AES_BLOCK_SIZE_def)

lemma cbc_correct:
  assumes "same_cipher ctx ctx'" "a_iv ctx = a_iv ctx'"
  shows "AES_BLOCK_SIZE dvd length data \<Longrightarrow> \<exists>ct. aes_encrypt_cbc ctx data = (0, ct) \<and> length ct = length data \<and> aes_decrypt_cbc ctx' ct = (0, data)"
    "\<not> AES_BLOCK_SIZE dvd length data \<Longrightarrow> aes_encrypt_cbc ctx data = (-1, []) \<and> aes_decrypt_cbc ctx' data = (-1, [])"
  using aes.cbc_roundtrip [of data ctx "a_iv ctx"] assms(2) aes_decrypt_ecb_same [OF assms(1)]
  by (simp_all add: aes_encrypt_cbc_def aes_decrypt_cbc_def dvd_eq_mod_eq_0)

section \<open>Properties\<close>

text \<open>C26: a context is accepted for keys of 16, 24 and 32 bytes only, and its round keys are those of the key
  schedule recurrence whatever the context held before; a second context prepared from the same key, with the same
  initialisation vector, decrypts in chaining mode what the first one encrypts, byte for byte and without growth,
  and both refuse data that are not whole blocks.\<close>

theorem aes_cbc_roundtrip:
  assumes "AES_MAX_NR_KEY \<le> length (a_round_keys c)" "AES_MAX_NR_KEY \<le> length (a_round_keys c')"
    and "aes_init key key_len c = (r, ctx)" "aes_init key key_len c' = (r', ctx')"
  shows "r = (if key_len \<in> {16, 24, 32} then 0 else -1) \<and> r' = r \<and>
    (r = 0 \<longrightarrow>
      (\<forall>i < 4 * (a_rounds ctx + 1). a_round_keys ctx ! i = aes_schedule key (key_len div 4) i) \<and>
      (AES_BLOCK_SIZE dvd length data \<longrightarrow>
         (\<exists>ct. aes_encrypt_cbc (aes_set_iv iv ctx) data = (0, ct) \<and> length ct = length data \<and>
               aes_decrypt_cbc (aes_set_iv iv ctx') ct = (0, data))) \<and>
      (\<not> AES_BLOCK_SIZE dvd length data \<longrightarrow>
         aes_encrypt_cbc (aes_set_iv iv ctx) data = (-1, []) \<and> aes_decrypt_cbc (aes_set_iv iv ctx') data = (-1, [])))"
proof -
  note A = aes_init_accepts [OF assms(3)] aes_init_accepts [OF assms(4)]
  have r: "r = (if key_len \<in> {16, 24, 32} then 0 else -1)" "r' = r" using A by auto
  show ?thesis
  proof (cases "r = 0")
    case True
    then have S: "same_cipher (aes_set_iv iv ctx) (aes_set_iv iv ctx')"
      using aes_init_same [of key key_len c ctx c' r' ctx'] assms by (simp add: same_cipher_def)
    have "\<forall>i < 4 * (a_rounds ctx + 1). a_round_keys ctx ! i = aes_schedule key (key_len div 4) i"
      using aes_init_schedule(2) [of key key_len c ctx] assms True by simp
    then show ?thesis using r cbc_correct [OF S, of data] by simp
  qed (use r in simp)
qed

theorem aes_cbc_roundtrip_witness:
  "\<exists>ct. aes_encrypt_cbc (aes_set_iv (replicate 16 7) (snd (aes_init (map of_nat [0..<16]) 16
      \<lparr>a_rounds = 0, a_key_len = 0, a_round_keys = replicate 60 0, a_iv = []\<rparr>))) (replicate 32 65) = (0, ct) \<and> length ct = 32 \<and>
    aes_decrypt_cbc (aes_set_iv (replicate 16 7) (snd (aes_init (map of_nat [0..<16]) 16
      \<lparr>a_rounds = 0, a_key_len = 0, a_round_keys = replicate 60 9, a_iv = []\<rparr>))) ct = (0, replicate 32 65)"
proof -
  let ?c = "\<lambda>v::u32. \<lparr>a_rounds = 0, a_key_len = 0, a_round_keys = replicate 60 v, a_iv = []\<rparr>"
  have d: "AES_BLOCK_SIZE dvd length (replicate 32 (65::u8))" by (simp add: AES_BLOCK_SIZE_def)
  show ?thesis
    using aes_cbc_roundtrip [of "?c 0" "?c 9" "map of_nat [0..<16]" 16 "fst (aes_init (map of_nat [0..<16]) 16 (?c 0))" "snd (aes_init (map of_nat [0..<16]) 16 (?c 0))"
      "fst (aes_init (map of_nat [0..<16]) 16 (?c 9))" "snd (aes_init (map of_nat [0..<16]) 16 (?c 9))" "replicate 32 65" "replicate 16 7"] d
    by (simp add: AES_MAX_NR_KEY_def)
qed

end
