(* ===== verification/Efs.thy ===== *)
theory Efs
  imports Aes
begin

text \<open>
  The encrypted file layer of \<^verbatim>\<open>fs/efs.c\<close> with the part of \<^verbatim>\<open>lib/file.c\<close> that calls it: the two hooks
  that encrypt and decrypt a buffer, the list of marked files, and the reading and writing of whole files through
  the hooks.  What lies below and beside the hooks in \<^verbatim>\<open>lib/file.c\<close> (link resolution, access control, quotas,
  the cache and the six file systems) is the record of functions \<open>vfs\<close>, over a disk of any type.  A buffer is the
  list of bytes stored in it; the value that a hook returns is kept beside it, and a read of a file returns the bytes it
  stored (their number is the value of the C function) or nothing where the C function returns a negative value.  The cipher context is an uninitialised local
  of each hook, so its old contents are an argument \<open>junk\<close>.  Lengths are natural numbers: every buffer handed to
  the hooks has at most 65600 bytes.
\<close>

section \<open>State\<close>

record 'd kefs =
  e_user :: string
  g_encrypted :: "string list"
  g_efs_hooks :: bool
  g_disk :: 'd

record 'd vfs =
  v_follow :: "string \<Rightarrow> 'd \<Rightarrow> (string \<times> string) option"
  v_uac :: "string \<Rightarrow> bool \<Rightarrow> 'd \<Rightarrow> bool"
  v_perm :: "string \<Rightarrow> bool \<Rightarrow> 'd \<Rightarrow> bool"
  v_quota :: "char \<Rightarrow> nat \<Rightarrow> 'd \<Rightarrow> bool"
  v_size :: "string \<Rightarrow> 'd \<Rightarrow> int"
  v_read :: "string \<Rightarrow> nat \<Rightarrow> nat \<Rightarrow> 'd \<Rightarrow> u8 list option"
  v_cached :: "string \<Rightarrow> nat \<Rightarrow> nat \<Rightarrow> 'd \<Rightarrow> u8 list option"
  v_write :: "string \<Rightarrow> u8 list \<Rightarrow> 'd \<Rightarrow> int \<times> 'd"

definition EFS_MAGIC :: "u8 list" where
  "EFS_MAGIC = map of_char ''MONIOS-EFS-1''"

definition EFS_MAX_FILES :: nat where "EFS_MAX_FILES = 16"
definition EFS_MAX_PATH :: nat where "EFS_MAX_PATH = 256"
definition EFS_ONESHOT_BUF :: nat where "EFS_ONESHOT_BUF = 65536"
definition FILE_EFS_SCRATCH_SIZE :: nat where "FILE_EFS_SCRATCH_SIZE = 65536"

definition efs_master_key :: "u8 list" where
  "efs_master_key = [0x4D, 0x6F, 0x6E, 0x69, 0x6F, 0x73, 0x45, 0x46, 0x53, 0x4B, 0x65, 0x79, 0x32, 0x30, 0x32, 0x36]"

section \<open>Key and initialisation vector\<close>

definition key_mix_user :: "nat \<times> char \<Rightarrow> u8 list \<Rightarrow> u8 list" where
  "key_mix_user = (\<lambda>(i, c) out.
     let out = out[i mod 16 := out ! (i mod 16) XOR of_char c];
         j = (i + 5) mod 16
     in out[j := push_bit 3 (out ! j) OR drop_bit 5 (out ! j)])"

definition key_diffuse :: "nat \<Rightarrow> u8 list \<Rightarrow> u8 list" where
  "key_diffuse i out = (let out = out[i := out ! i XOR out ! ((i + 7) mod 16)] in out[i := out ! i * 33 + of_nat i])"

definition efs_derive_key :: "'d kefs \<Rightarrow> u8 list" where
  "efs_derive_key s =
     (let out = fold key_mix_user (List.enumerate 0 (take 64 (e_user s))) efs_master_key
      in fold key_diffuse [0..<16] out)"

definition path_hash :: "string \<Rightarrow> u32" where
  "path_hash path = foldl (\<lambda>h c. (h XOR of_char c) * 0x01000193) 0x811C9DC5 path"

definition iv_fill :: "nat \<Rightarrow> u8 list \<times> u32 \<Rightarrow> u8 list \<times> u32" where
  "iv_fill i = (\<lambda>(iv, h). (iv[i := ucast (drop_bit ((i mod 4) * 8) h)], h * 2654435761 + of_nat i))"

definition efs_derive_iv :: "string \<Rightarrow> u8 list" where
  "efs_derive_iv path = fst (fold iv_fill [0..<16] (replicate 16 0, path_hash path))"

section \<open>The hooks\<close>

definition efs_encrypt_buffer :: "aes_ctx_t \<Rightarrow> string \<Rightarrow> u8 list \<Rightarrow> nat \<Rightarrow> 'd kefs \<Rightarrow> nat \<times> u8 list" where
  "efs_encrypt_buffer junk path inp out_cap s =
     (let padded = (length inp + 15) div 16 * 16;
          padded = (if padded = 0 then 16 else padded);
          total = length EFS_MAGIC + AES_BLOCK_SIZE + padded
      in if total > out_cap then (0, [])
      else let iv = efs_derive_iv path; key = efs_derive_key s
      in case aes_init key 16 junk of (r, ctx) \<Rightarrow>
           if r \<noteq> 0 then (0, EFS_MAGIC @ iv)
           else let ctx = aes_set_iv iv ctx
           in if padded > 4096 then (0, EFS_MAGIC @ iv)
           else case aes_encrypt_cbc ctx (inp @ replicate (padded - length inp) 0) of (r, ct) \<Rightarrow>
             if r \<noteq> 0 then (0, EFS_MAGIC @ iv) else (total, EFS_MAGIC @ iv @ ct))"

fun strip_zeros :: "u8 list \<Rightarrow> nat \<Rightarrow> nat" where
  "strip_zeros out 0 = 0"
| "strip_zeros out (Suc n) = (if out ! n = 0 then strip_zeros out n else Suc n)"

definition efs_decrypt_buffer :: "aes_ctx_t \<Rightarrow> u8 list \<Rightarrow> nat \<Rightarrow> 'd kefs \<Rightarrow> nat \<times> u8 list" where
  "efs_decrypt_buffer junk inp out_cap s =
     (if length inp < length EFS_MAGIC + AES_BLOCK_SIZE then (0, [])
      else if take (length EFS_MAGIC) inp \<noteq> EFS_MAGIC then (0, [])
      else let ct_len = length inp - length EFS_MAGIC - AES_BLOCK_SIZE
      in if ct_len mod 16 \<noteq> 0 then (0, [])
      else if ct_len > out_cap then (0, [])
      else let iv = take AES_BLOCK_SIZE (drop (length EFS_MAGIC) inp); key = efs_derive_key s
      in case aes_init key 16 junk of (r, ctx) \<Rightarrow>
           if r \<noteq> 0 then (0, [])
           else case aes_decrypt_cbc (aes_set_iv iv ctx) (drop (length EFS_MAGIC + AES_BLOCK_SIZE) inp) of (r, out) \<Rightarrow>
             if r \<noteq> 0 then (0, []) else (strip_zeros out ct_len, out))"

section \<open>The marked files\<close>

definition efs_mark :: "string \<Rightarrow> 'd kefs \<Rightarrow> bool \<times> 'd kefs" where
  "efs_mark path s =
     (if path \<in> set (g_encrypted s) then (True, s)
      else if length (g_encrypted s) \<ge> EFS_MAX_FILES then (False, s)
      else (True, s\<lparr>g_encrypted := g_encrypted s @ [copy_text EFS_MAX_PATH (Some path)]\<rparr>))"

definition efs_unmark :: "string \<Rightarrow> 'd kefs \<Rightarrow> 'd kefs" where
  "efs_unmark path s =
     (case find_index (\<lambda>p. p = path) (g_encrypted s) of
        None \<Rightarrow> s
      | Some i \<Rightarrow> s\<lparr>g_encrypted := butlast ((g_encrypted s)[i := copy_text EFS_MAX_PATH (Some (last (g_encrypted s)))])\<rparr>)"

definition efs_is_encrypted :: "string \<Rightarrow> 'd kefs \<Rightarrow> bool" where
  "efs_is_encrypted path s \<longleftrightarrow> path \<in> set (g_encrypted s)"

section \<open>Files through the hooks\<close>

definition file_size :: "'d vfs \<Rightarrow> string \<Rightarrow> 'd kefs \<Rightarrow> int" where
  "file_size V path s = (case v_follow V path (g_disk s) of None \<Rightarrow> -1 | Some (resolved, backend) \<Rightarrow> v_size V backend (g_disk s))"

definition file_read_at :: "'d vfs \<Rightarrow> aes_ctx_t \<Rightarrow> string \<Rightarrow> nat \<Rightarrow> nat \<Rightarrow> 'd kefs \<Rightarrow> u8 list option" where
  "file_read_at V junk path offset buffer_size s =
     (case v_follow V path (g_disk s) of
        None \<Rightarrow> None
      | Some (resolved, backend) \<Rightarrow>
          if \<not> v_uac V resolved False (g_disk s) then None
          else if \<not> v_perm V resolved False (g_disk s) then None
          else if g_efs_hooks s \<and> efs_is_encrypted resolved s
          then (case v_read V backend 0 FILE_EFS_SCRATCH_SIZE (g_disk s) of
                  None \<Rightarrow> None
                | Some raw \<Rightarrow>
                    if raw = [] then None
                    else case efs_decrypt_buffer junk raw FILE_EFS_SCRATCH_SIZE s of (plain_len, plain) \<Rightarrow>
                      if plain_len = 0 then None
                      else if offset \<ge> plain_len then Some []
                      else let buffer_size = (if offset + buffer_size > plain_len then plain_len - offset else buffer_size)
                           in Some (take buffer_size (drop offset plain)))
          else v_cached V backend offset buffer_size (g_disk s))"

definition file_read_whole :: "'d vfs \<Rightarrow> aes_ctx_t \<Rightarrow> string \<Rightarrow> nat \<Rightarrow> 'd kefs \<Rightarrow> u8 list option" where
  "file_read_whole V junk path buffer_size s = file_read_at V junk path 0 buffer_size s"

definition file_write_hooked :: "'d vfs \<Rightarrow> aes_ctx_t \<Rightarrow> string \<Rightarrow> u8 list \<Rightarrow> 'd kefs \<Rightarrow> int \<times> 'd kefs" where
  "file_write_hooked V junk path buffer s =
     (case v_follow V path (g_disk s) of
        None \<Rightarrow> (-1, s)
      | Some (resolved, backend) \<Rightarrow>
          if \<not> v_uac V resolved True (g_disk s) then (-1, s)
          else if \<not> v_perm V resolved True (g_disk s) then (-1, s)
          else if \<not> v_quota V (hd resolved) (length buffer) (g_disk s) then (-1, s)
          else case (if g_efs_hooks s \<and> efs_is_encrypted resolved s
                     then (case efs_encrypt_buffer junk resolved buffer FILE_EFS_SCRATCH_SIZE s of (enc_len, raw) \<Rightarrow>
                             if enc_len = 0 \<or> enc_len > FILE_EFS_SCRATCH_SIZE then None else Some (take enc_len raw))
                     else Some buffer) of
                 None \<Rightarrow> (-1, s)
               | Some write_buf \<Rightarrow>
                   (case v_write V backend write_buf (g_disk s) of (written, d) \<Rightarrow>
                      (if written \<ge> 0 then int (length buffer) else written, s\<lparr>g_disk := d\<rparr>)))"

definition efs_encrypt_file :: "'d vfs \<Rightarrow> aes_ctx_t \<Rightarrow> string option \<Rightarrow> 'd kefs \<Rightarrow> bool \<times> 'd kefs" where
  "efs_encrypt_file V junk path s =
     (case path of None \<Rightarrow> (False, s) | Some path \<Rightarrow>
      let sz = file_size V path s
      in if sz \<le> 0 \<or> nat sz > EFS_ONESHOT_BUF then (False, s)
      else case file_read_whole V junk path (nat sz) s of
        None \<Rightarrow> (False, s)
      | Some plain \<Rightarrow>
          if int (length plain) \<noteq> sz then (False, s)
          else case efs_encrypt_buffer junk path plain (EFS_ONESHOT_BUF + 64) s of (ct_len, cipher) \<Rightarrow>
               if ct_len = 0 then (False, s)
               else case file_write_hooked V junk path (take ct_len cipher) s of (w, s) \<Rightarrow>
                    if w \<noteq> sz then (False, s) else efs_mark path s)"

definition efs_decrypt_file :: "'d vfs \<Rightarrow> aes_ctx_t \<Rightarrow> string option \<Rightarrow> 'd kefs \<Rightarrow> bool \<times> 'd kefs" where
  "efs_decrypt_file V junk path s =
     (case path of None \<Rightarrow> (False, s) | Some path \<Rightarrow>
      let sz = file_size V path s
      in if sz \<le> 0 \<or> nat sz > EFS_ONESHOT_BUF + 64 then (False, s)
      else case file_read_whole V junk path (nat sz) s of
        None \<Rightarrow> (False, s)
      | Some cipher \<Rightarrow>
          if int (length cipher) \<noteq> sz then (False, s)
          else case efs_decrypt_buffer junk cipher EFS_ONESHOT_BUF s of (pt_len, plain) \<Rightarrow>
               if pt_len = 0 then (False, s)
               else case file_write_hooked V junk path (take pt_len plain) s of (w, s) \<Rightarrow>
                    if w \<noteq> int pt_len then (False, s) else (True, efs_unmark path s))"

definition efs_set_user :: "string option \<Rightarrow> 'd kefs \<Rightarrow> 'd kefs" where
  "efs_set_user username s = (case username of None \<Rightarrow> s | Some u \<Rightarrow> s\<lparr>e_user := copy_text 64 (Some u)\<rparr>)"

definition efs_init :: "'d kefs \<Rightarrow> 'd kefs" where
  "efs_init s = s\<lparr>g_encrypted := [], g_efs_hooks := True\<rparr>"

section \<open>Lengths\<close>

lemma length_EFS_MAGIC [simp]: "length EFS_MAGIC = 12"
  by (simp add: EFS_MAGIC_def)

lemma length_efs_derive_iv [simp]: "length (efs_derive_iv path) = 16"
proof -
  have "length (fst (fold iv_fill xs (iv, h))) = length iv" for xs iv h
    by (induction xs arbitrary: iv h) (simp_all add: iv_fill_def)
  then show ?thesis by (simp add: efs_derive_iv_def)
qed

definition efs_padded :: "nat \<Rightarrow> nat" where
  "efs_padded n = (if n = 0 then 16 else (n + 15) div 16 * 16)"

lemma efs_padded_facts: "16 dvd efs_padded n" "n \<le> efs_padded n" "efs_padded n \<le> 4096 \<longleftrightarrow> n \<le> 4096" "0 < efs_padded n"
  by (auto simp: efs_padded_def)

lemma efs_padded_code: "(if (n + 15) div 16 * 16 = 0 then 16 else (n + 15) div 16 * 16) = efs_padded n"
  by (auto simp: efs_padded_def)

definition zero_pad :: "u8 list \<Rightarrow> u8 list" where
  "zero_pad data = data @ replicate (efs_padded (length data) - length data) 0"

lemma length_zero_pad [simp]: "length (zero_pad data) = efs_padded (length data)"
  using efs_padded_facts(2) [of "length data"] by (simp add: zero_pad_def)

lemma aes_init_16: "\<exists>ctx. aes_init key 16 junk = (0, ctx)"
  by (simp add: aes_init_def Let_def)

lemma efs_encrypt_buffer_eq:
  "efs_encrypt_buffer junk path data cap s =
     (if 28 + efs_padded (length data) > cap then (0, [])
      else if length data > 4096 then (0, EFS_MAGIC @ efs_derive_iv path)
      else (28 + efs_padded (length data), EFS_MAGIC @ efs_derive_iv path @
             snd (aes_encrypt_cbc (aes_set_iv (efs_derive_iv path) (snd (aes_init (efs_derive_key s) 16 junk))) (zero_pad data))))"
proof -
  obtain ctx where c: "aes_init (efs_derive_key s) 16 junk = (0, ctx)" using aes_init_16 by blast
  let ?iv = "efs_derive_iv path" and ?p = "efs_padded (length data)"
  have e: "aes_encrypt_cbc x (zero_pad data) = (0, snd (aes_encrypt_cbc x (zero_pad data)))" for x
    using efs_padded_facts(1) [of "length data"] by (simp add: aes_encrypt_cbc_def AES_BLOCK_SIZE_def dvd_eq_mod_eq_0)
  have "efs_encrypt_buffer junk path data cap s =
     (if 12 + 16 + ?p > cap then (0, []) else if ?p > 4096 then (0, EFS_MAGIC @ ?iv)
      else case aes_encrypt_cbc (aes_set_iv ?iv ctx) (zero_pad data) of (r, ct) \<Rightarrow>
        if r \<noteq> 0 then (0, EFS_MAGIC @ ?iv) else (12 + 16 + ?p, EFS_MAGIC @ ?iv @ ct))"
    by (simp only: efs_encrypt_buffer_def Let_def efs_padded_code c zero_pad_def prod.case length_EFS_MAGIC AES_BLOCK_SIZE_def not_True_eq_False if_False
        refl)
  also have "\<dots> = (if 12 + 16 + ?p > cap then (0, []) else if ?p > 4096 then (0, EFS_MAGIC @ ?iv)
      else (12 + 16 + ?p, EFS_MAGIC @ ?iv @ snd (aes_encrypt_cbc (aes_set_iv ?iv ctx) (zero_pad data))))"
    by (subst e) (simp only: prod.case not_True_eq_False if_False refl)
  finally show ?thesis
    using efs_padded_facts(3) [of "length data"] by (simp add: c not_le [symmetric] del: not_le)
qed

lemma guarded_result:
  assumes "(if A then (0, x) else if B then (0, y) else (k, z)) = (n, w)" "n \<noteq> (0::nat)"
  shows "\<not> A" "\<not> B" "n = k" "w = z"
  using assms by (auto split: if_splits)

lemma length_cbc [simp]: "16 dvd length data \<Longrightarrow> length (snd (aes_encrypt_cbc ctx data)) = length data"
  using aes.cbc_roundtrip [of data ctx "a_iv ctx"] by (simp add: aes_encrypt_cbc_def AES_BLOCK_SIZE_def dvd_eq_mod_eq_0)

lemma efs_encrypt_buffer_length:
  assumes "efs_encrypt_buffer junk path data cap s = (n, out)" "n \<noteq> 0"
  shows "n = length out" "length data + 28 \<le> n"
proof -
  have "16 dvd length (zero_pad data)" using efs_padded_facts by simp
  note L = length_cbc [OF this]
  have n: "n = 28 + efs_padded (length data)" and out: "out = EFS_MAGIC @ efs_derive_iv path @
      snd (aes_encrypt_cbc (aes_set_iv (efs_derive_iv path) (snd (aes_init (efs_derive_key s) 16 junk))) (zero_pad data))"
    using assms by (auto simp: efs_encrypt_buffer_eq split: if_splits)
  show "n = length out" unfolding n out length_append L by simp
  show "length data + 28 \<le> n" using n efs_padded_facts(2) [of "length data"] by simp
qed

section \<open>Removing the padding\<close>

definition rstrip :: "u8 list \<Rightarrow> u8 list" where
  "rstrip xs = rev (dropWhile (\<lambda>b. b = 0) (rev xs))"

lemma strip_zeros_rstrip: "n \<le> length out \<Longrightarrow> take (strip_zeros out n) out = rstrip (take n out)"
  by (induction n) (simp_all add: rstrip_def take_Suc_conv_app_nth)

lemma rstrip_zeros [simp]: "rstrip (xs @ replicate k 0) = rstrip xs"
proof -
  have "dropWhile (\<lambda>b. b = 0) (replicate k 0 @ rev xs) = dropWhile (\<lambda>b. b = 0) (rev xs)" by (rule dropWhile_append2) simp
  then show ?thesis by (simp add: rstrip_def)
qed

lemma rstrip_pad: "rstrip (zero_pad data) = rstrip data"
  by (simp add: zero_pad_def)

lemma rstrip_id: "xs = [] \<or> last xs \<noteq> 0 \<Longrightarrow> rstrip xs = xs"
  by (cases xs rule: rev_cases) (simp_all add: rstrip_def)

lemma efs_derive_key_user: "e_user s' = e_user s \<Longrightarrow> efs_derive_key s' = efs_derive_key s"
  by (simp add: efs_derive_key_def)

lemma efs_decrypt_image:
  assumes "aes_init (efs_derive_key s) 16 junk = (0, ctx)" "16 dvd length ct" "length ct \<le> cap" "length iv = 16"
    and "aes_decrypt_cbc (aes_set_iv iv ctx) ct = (0, out)"
  shows "efs_decrypt_buffer junk (EFS_MAGIC @ iv @ ct) cap s = (strip_zeros out (length ct), out)"
  using assms by (simp add: efs_decrypt_buffer_def Let_def AES_BLOCK_SIZE_def dvd_eq_mod_eq_0)

section \<open>The layer above the buffers\<close>

datatype efs_op = EfsEncrypt "string option" | EfsDecrypt "string option" | EfsUser "string option" | EfsWrite string "u8 list"

fun efs_step :: "'d vfs \<Rightarrow> aes_ctx_t \<Rightarrow> efs_op \<Rightarrow> 'd kefs \<Rightarrow> 'd kefs" where
  "efs_step V junk (EfsEncrypt path) s = snd (efs_encrypt_file V junk path s)"
| "efs_step V junk (EfsDecrypt path) s = snd (efs_decrypt_file V junk path s)"
| "efs_step V junk (EfsUser u) s = efs_set_user u s"
| "efs_step V junk (EfsWrite path buf) s = snd (file_write_hooked V junk path buf s)"

lemma file_write_hooked_result:
  assumes "file_write_hooked V junk path buf s = (w, s')"
  shows "w < 0 \<or> w = int (length buf)" "g_encrypted s' = g_encrypted s"
  using assms by (auto simp: file_write_hooked_def split: option.splits prod.splits if_splits)

lemma efs_unmark_empty: "g_encrypted s = [] \<Longrightarrow> efs_unmark path s = s"
  by (simp add: efs_unmark_def)

lemma efs_encrypt_file_fails:
  assumes "efs_encrypt_file V junk path s = (ok, s')"
  shows "\<not> ok \<and> g_encrypted s' = g_encrypted s"
proof -
  have *: "w \<noteq> int (length plain) \<and> g_encrypted s'' = g_encrypted s"
    if "efs_encrypt_buffer junk p plain cap s = (ct_len, cipher)" "ct_len \<noteq> 0"
      "file_write_hooked V junk p (take ct_len cipher) s = (w, s'')" for w p plain cap ct_len cipher s''
    using efs_encrypt_buffer_length [OF that(1,2)] file_write_hooked_result [OF that(3)] by auto
  then show ?thesis
    using assms by (auto simp: efs_encrypt_file_def Let_def dest: * split: option.splits prod.splits if_splits)
qed

text \<open>The failure comes after the write: the image has replaced the contents of the file.\<close>

lemma efs_encrypt_file_overwrites:
  assumes V: "v_follow V p (g_disk s) = Some (resolved, backend)" "\<And>w. v_uac V resolved w (g_disk s)" "\<And>w. v_perm V resolved w (g_disk s)"
      "\<And>n. v_quota V (hd resolved) n (g_disk s)"
    and f: "v_size V backend (g_disk s) = int (length data)" "v_cached V backend 0 (length data) (g_disk s) = Some data"
    and data: "data \<noteq> []" "length data \<le> 4096" and unmarked: "\<not> efs_is_encrypted resolved s"
    and e: "efs_encrypt_buffer junk p data (EFS_ONESHOT_BUF + 64) s = (n, img)"
    and w: "v_write V backend img (g_disk s) = (k, d)" "0 \<le> k"
  shows "efs_encrypt_file V junk (Some p) s = (False, s\<lparr>g_disk := d\<rparr>)"
proof -
  have "n \<noteq> 0"
  proof -
    have "28 + efs_padded (length data) \<le> EFS_ONESHOT_BUF + 64"
      using efs_padded_facts(3) [of "length data"] data(2) by (simp add: EFS_ONESHOT_BUF_def)
    then have "efs_encrypt_buffer junk p data (EFS_ONESHOT_BUF + 64) s = (28 + efs_padded (length data), snd (efs_encrypt_buffer junk p data (EFS_ONESHOT_BUF + 64) s))"
      using data(2) unfolding efs_encrypt_buffer_eq by simp
    then show ?thesis using e by simp
  qed
  then have n: "n = length img" "n \<noteq> length data" using efs_encrypt_buffer_length [OF e] by auto
  have sz: "file_size V p s = int (length data)" by (simp add: file_size_def V f)
  have rd: "file_read_whole V junk p (length data) s = Some data" by (simp add: file_read_whole_def file_read_at_def V f unmarked)
  have wr: "file_write_hooked V junk p img s = (int (length img), s\<lparr>g_disk := d\<rparr>)" by (simp add: file_write_hooked_def V unmarked w)
  show ?thesis using n data \<open>n \<noteq> 0\<close>
    by (simp add: efs_encrypt_file_def sz rd e wr EFS_ONESHOT_BUF_def [symmetric] Let_def) (simp add: EFS_ONESHOT_BUF_def)
qed

lemma efs_decrypt_file_unmarked:
  assumes "efs_decrypt_file V junk path s = (ok, s')" "g_encrypted s = []"
  shows "g_encrypted s' = []"
  using assms
  by (auto simp: efs_decrypt_file_def Let_def efs_unmark_empty dest!: file_write_hooked_result(2)
      split: option.splits prod.splits if_splits)

lemma efs_step_unmarked:
  assumes "g_encrypted s = []"
  shows "g_encrypted (efs_step V junk cmd s) = []"
proof (cases cmd)
  case (EfsEncrypt path)
  then show ?thesis using assms efs_encrypt_file_fails by (cases "efs_encrypt_file V junk path s") force
next
  case (EfsDecrypt path)
  then show ?thesis using assms efs_decrypt_file_unmarked by (cases "efs_decrypt_file V junk path s") force
next
  case (EfsUser u)
  then show ?thesis using assms by (simp add: efs_set_user_def split: option.split)
next
  case (EfsWrite path buf)
  then show ?thesis using assms file_write_hooked_result(2) by (cases "file_write_hooked V junk path buf s") force
qed

lemma efs_run_unmarked: "g_encrypted s = [] \<Longrightarrow> g_encrypted (fold (efs_step V junk) cmds s) = []"
  by (induction cmds arbitrary: s) (simp_all add: efs_step_unmarked)

section \<open>Properties\<close>



text \<open>C25: encrypting a file never succeeds: the length of the image, which the write returns, is compared with the
  length of the plain text, so the call reports failure even where the image has been written, and the file is not marked.
  Whatever calls follow the initialisation, no file is therefore ever marked, and reads and writes never use the hooks.\<close>

theorem efs_layer_dead:
  "fst (efs_encrypt_file V junk path s) = False \<and>
   efs_is_encrypted p (fold (efs_step V junk) cmds (efs_init s)) = False \<and>
   file_read_at V junk' q off len (fold (efs_step V junk) cmds (efs_init s)) =
     file_read_at V junk' q off len ((fold (efs_step V junk) cmds (efs_init s))\<lparr>g_efs_hooks := False\<rparr>)"
proof -
  have m: "g_encrypted (fold (efs_step V junk) cmds (efs_init s)) = []"
    by (rule efs_run_unmarked) (simp add: efs_init_def)
  obtain ok s' where e: "efs_encrypt_file V junk path s = (ok, s')" by fastforce
  show ?thesis using efs_encrypt_file_fails [OF e] e m by (simp add: efs_is_encrypted_def file_read_at_def split: option.split)
qed

end
