(* ===== verification/Hash.thy ===== *)
theory Hash
  imports Kernel_Prelude
begin

text \<open>
  The message digests of \<^verbatim>\<open>lib/hash.c\<close>: SHA-256, MD5 and SHA-1 with their streaming interface, and the keyed digests built on
  them.  The three contexts have the same members, so one record stands for all; the streaming loop, which the source repeats for
  each digest, takes the transformation of a block as an argument.  An array of bytes with its length is a list.  The
  reference is the digest of the whole message: pad it to a multiple of 64 bytes and fold the transformation over its
  blocks.  What a client of a digest relies on is the locale \<open>digest\<close>; keyed digests are proved correct in it once.
\<close>

section \<open>Contexts and buffers\<close>

record hash_ctx =
  hs_state :: "u32 list"
  hs_count :: u64
  hs_buffer :: "u8 list"

type_synonym sha256_ctx_t = hash_ctx
type_synonym md5_ctx_t = hash_ctx
type_synonym sha1_ctx_t = hash_ctx

definition HASH_BLOCK_SIZE :: nat where "HASH_BLOCK_SIZE = 64"

definition blit :: "nat \<Rightarrow> u8 list \<Rightarrow> u8 list \<Rightarrow> u8 list" where
  "blit off bs buf = take off buf @ bs @ drop (off + length bs) buf"

definition be_word :: "u8 list \<Rightarrow> nat \<Rightarrow> u32" where
  "be_word block i = push_bit 24 (ucast (block ! (i * 4))) OR push_bit 16 (ucast (block ! (i * 4 + 1))) OR push_bit 8 (ucast (block ! (i * 4 + 2))) OR
     ucast (block ! (i * 4 + 3))"

definition le_word :: "u8 list \<Rightarrow> nat \<Rightarrow> u32" where
  "le_word block i = ucast (block ! (i * 4)) OR push_bit 8 (ucast (block ! (i * 4 + 1))) OR push_bit 16 (ucast (block ! (i * 4 + 2))) OR
     push_bit 24 (ucast (block ! (i * 4 + 3)))"

definition be_bytes :: "u32 \<Rightarrow> u8 list" where
  "be_bytes w = [ucast (drop_bit 24 w), ucast (drop_bit 16 w), ucast (drop_bit 8 w), ucast w]"

definition le_bytes :: "u32 \<Rightarrow> u8 list" where
  "le_bytes w = [ucast (w AND 0xFF), ucast (drop_bit 8 w AND 0xFF), ucast (drop_bit 16 w AND 0xFF), ucast (drop_bit 24 w AND 0xFF)]"

definition be_count :: "u64 \<Rightarrow> u8 list" where
  "be_count n = map (\<lambda>i. ucast (drop_bit (i * 8) n)) (rev [0..<8])"

definition le_count :: "u64 \<Rightarrow> u8 list" where
  "le_count n = map (\<lambda>i. ucast (drop_bit (i * 8) n)) [0..<8]"

section \<open>Absorbing and padding\<close>

text \<open>The streaming loop.  It is entered with fewer than 64 bytes in the buffer, so each turn copies at least one byte.\<close>

function update_loop :: "(u32 list \<Rightarrow> u8 list \<Rightarrow> u32 list) \<Rightarrow> nat \<Rightarrow> u8 list \<Rightarrow> hash_ctx \<Rightarrow> hash_ctx" where
  "update_loop transform buffer_len data ctx =
     (if data = [] \<or> buffer_len \<ge> HASH_BLOCK_SIZE then ctx
      else let copy_len = (if HASH_BLOCK_SIZE - buffer_len > length data then length data else HASH_BLOCK_SIZE - buffer_len);
               ctx = ctx\<lparr>hs_buffer := blit buffer_len (take copy_len data) (hs_buffer ctx)\<rparr>
           in if buffer_len + copy_len = HASH_BLOCK_SIZE
              then update_loop transform 0 (drop copy_len data) (ctx\<lparr>hs_state := transform (hs_state ctx) (hs_buffer ctx)\<rparr>)
              else update_loop transform (buffer_len + copy_len) (drop copy_len data) ctx)"
  by pat_completeness auto
termination by (relation "measure (\<lambda>(transform, buffer_len, data, ctx). length data)") (auto simp: Let_def)

definition hash_update :: "(u32 list \<Rightarrow> u8 list \<Rightarrow> u32 list) \<Rightarrow> u8 list \<Rightarrow> hash_ctx \<Rightarrow> hash_ctx" where
  "hash_update transform data ctx =
     update_loop transform (unat (hs_count ctx mod 64)) data (ctx\<lparr>hs_count := hs_count ctx + of_nat (length data)\<rparr>)"

definition hash_finish :: "(u32 list \<Rightarrow> u8 list \<Rightarrow> u32 list) \<Rightarrow> (u64 \<Rightarrow> u8 list) \<Rightarrow> hash_ctx \<Rightarrow> hash_ctx" where
  "hash_finish transform count_bytes ctx =
     (let bit_count = hs_count ctx * 8;
          buffer_len = unat (hs_count ctx mod 64);
          ctx = ctx\<lparr>hs_buffer := (hs_buffer ctx)[buffer_len := 0x80]\<rparr>;
          buffer_len = buffer_len + 1;
          (buffer_len, ctx) =
            (if buffer_len > 56
             then let ctx = ctx\<lparr>hs_buffer := blit buffer_len (replicate (64 - buffer_len) 0) (hs_buffer ctx)\<rparr>
                  in (0, ctx\<lparr>hs_state := transform (hs_state ctx) (hs_buffer ctx)\<rparr>)
             else (buffer_len, ctx));
          ctx = ctx\<lparr>hs_buffer := blit buffer_len (replicate (56 - buffer_len) 0) (hs_buffer ctx)\<rparr>;
          ctx = ctx\<lparr>hs_buffer := blit 56 (count_bytes bit_count) (hs_buffer ctx)\<rparr>
      in ctx\<lparr>hs_state := transform (hs_state ctx) (hs_buffer ctx)\<rparr>)"

section \<open>SHA-256\<close>

text \<open>The round constants of FIPS 180-4, in the sixteen rows of four in which the source lists them.\<close>

definition g_sha256_constants :: "u32 list" where
  "g_sha256_constants =
     concat
      [[0x428A2F98, 0x71374491, 0xB5C0FBCF, 0xE9B5DBA5], [0x3956C25B, 0x59F111F1, 0x923F82A4, 0xAB1C5ED5],
       [0xD807AA98, 0x12835B01, 0x243185BE, 0x550C7DC3], [0x72BE5D74, 0x80DEB1FE, 0x9BDC06A7, 0xC19BF174],
       [0xE49B69C1, 0xEFBE4786, 0x0FC19DC6, 0x240CA1CC], [0x2DE92C6F, 0x4A7484AA, 0x5CB0A9DC, 0x76F988DA],
       [0x983E5152, 0xA831C66D, 0xB00327C8, 0xBF597FC7], [0xC6E00BF3, 0xD5A79147, 0x06CA6351, 0x14292967],
       [0x27B70A85, 0x2E1B2138, 0x4D2C6DFC, 0x53380D13], [0x650A7354, 0x766A0ABB, 0x81C2C92E, 0x92722C85],
       [0xA2BFE8A1, 0xA81A664B, 0xC24B8B70, 0xC76C51A3], [0xD192E819, 0xD6990624, 0xF40E3585, 0x106AA070],
       [0x19A4C116, 0x1E376C08, 0x2748774C, 0x34B0BCB5], [0x391C0CB3, 0x4ED8AA4A, 0x5B9CCA4F, 0x682E6FF3],
       [0x748F82EE, 0x78A5636F, 0x84C87814, 0x8CC70208], [0x90BEFFFA, 0xA4506CEB, 0xBEF9A3F7, 0xC67178F2]]"

definition sha256_rotr :: "u32 \<Rightarrow> nat \<Rightarrow> u32" where
  "sha256_rotr value count = drop_bit count value OR push_bit (32 - count) value"

definition sha256_choose :: "u32 \<Rightarrow> u32 \<Rightarrow> u32 \<Rightarrow> u32" where
  "sha256_choose x y z = (x AND y) XOR (NOT x AND z)"

definition sha256_majority :: "u32 \<Rightarrow> u32 \<Rightarrow> u32 \<Rightarrow> u32" where
  "sha256_majority x y z = (x AND y) XOR (x AND z) XOR (y AND z)"

definition sha256_upper_sigma0 :: "u32 \<Rightarrow> u32" where
  "sha256_upper_sigma0 x = sha256_rotr x 2 XOR sha256_rotr x 13 XOR sha256_rotr x 22"

definition sha256_upper_sigma1 :: "u32 \<Rightarrow> u32" where
  "sha256_upper_sigma1 x = sha256_rotr x 6 XOR sha256_rotr x 11 XOR sha256_rotr x 25"

definition sha256_lower_sigma0 :: "u32 \<Rightarrow> u32" where
  "sha256_lower_sigma0 x = sha256_rotr x 7 XOR sha256_rotr x 18 XOR drop_bit 3 x"

definition sha256_lower_sigma1 :: "u32 \<Rightarrow> u32" where
  "sha256_lower_sigma1 x = sha256_rotr x 17 XOR sha256_rotr x 19 XOR drop_bit 10 x"

definition sha256_schedule :: "u8 list \<Rightarrow> u32 list" where
  "sha256_schedule block =
     fold (\<lambda>i w. w @ [sha256_lower_sigma1 (w ! (i - 2)) + w ! (i - 7) + sha256_lower_sigma0 (w ! (i - 15)) + w ! (i - 16)]) [16..<64]
       (map (be_word block) [0..<16])"

fun sha256_round :: "u32 list \<Rightarrow> nat \<Rightarrow> u32 list \<Rightarrow> u32 list" where
  "sha256_round w i [a, b, c, d, e, f, g, h] =
     (let t1 = h + sha256_upper_sigma1 e + sha256_choose e f g + g_sha256_constants ! i + w ! i;
          t2 = sha256_upper_sigma0 a + sha256_majority a b c
      in [t1 + t2, a, b, c, d + t1, e, f, g])"
| "sha256_round w i st = st"

definition sha256_transform :: "u32 list \<Rightarrow> u8 list \<Rightarrow> u32 list" where
  "sha256_transform state block = map2 (+) state (fold (sha256_round (sha256_schedule block)) [0..<64] state)"

definition sha256_init :: sha256_ctx_t where
  "sha256_init = \<lparr>hs_state = [0x6A09E667, 0xBB67AE85, 0x3C6EF372, 0xA54FF53A, 0x510E527F, 0x9B05688C, 0x1F83D9AB, 0x5BE0CD19], hs_count = 0,
     hs_buffer = replicate 64 0\<rparr>"

definition sha256_update :: "u8 list \<Rightarrow> sha256_ctx_t \<Rightarrow> sha256_ctx_t" where
  "sha256_update = hash_update sha256_transform"

definition sha256_final :: "sha256_ctx_t \<Rightarrow> u8 list" where
  "sha256_final ctx = concat (map be_bytes (hs_state (hash_finish sha256_transform be_count ctx)))"

definition sha256 :: "u8 list \<Rightarrow> u8 list" where
  "sha256 data = sha256_final (sha256_update data sha256_init)"

definition hash_sha256 :: "u8 list \<Rightarrow> u8 list" where
  "hash_sha256 data = sha256 data"

definition hash_sha256_hex :: "u8 list \<Rightarrow> string" where
  "hash_sha256_hex data =
     concat (map (\<lambda>b. [''0123456789abcdef'' ! unat (drop_bit 4 b), ''0123456789abcdef'' ! unat (b AND 0x0F)]) (hash_sha256 data))"

section \<open>MD5\<close>

definition md5_s :: "nat list" where
  "md5_s =
     [7, 12, 17, 22, 7, 12, 17, 22, 7, 12, 17, 22, 7, 12, 17, 22,
      5, 9, 14, 20, 5, 9, 14, 20, 5, 9, 14, 20, 5, 9, 14, 20,
      4, 11, 16, 23, 4, 11, 16, 23, 4, 11, 16, 23, 4, 11, 16, 23,
      6, 10, 15, 21, 6, 10, 15, 21, 6, 10, 15, 21, 6, 10, 15, 21]"

definition md5_k :: "u32 list" where
  "md5_k =
     [0xd76aa478, 0xe8c7b756, 0x242070db, 0xc1bdceee, 0xf57c0faf, 0x4787c62a, 0xa8304613, 0xfd469501,
      0x698098d8, 0x8b44f7af, 0xffff5bb1, 0x895cd7be, 0x6b901122, 0xfd987193, 0xa679438e, 0x49b40821,
      0xf61e2562, 0xc040b340, 0x265e5a51, 0xe9b6c7aa, 0xd62f105d, 0x02441453, 0xd8a1e681, 0xe7d3fbc8,
      0x21e1cde6, 0xc33707d6, 0xf4d50d87, 0x455a14ed, 0xa9e3e905, 0xfcefa3f8, 0x676f02d9, 0x8d2a4c8a,
      0xfffa3942, 0x8771f681, 0x6d9d6122, 0xfde5380c, 0xa4beea44, 0x4bdecfa9, 0xf6bb4b60, 0xbebfbc70,
      0x289b7ec6, 0xeaa127fa, 0xd4ef3085, 0x04881d05, 0xd9d4d039, 0xe6db99e5, 0x1fa27cf8, 0xc4ac5665,
      0xf4292244, 0x432aff97, 0xab9423a7, 0xfc93a039, 0x655b59c3, 0x8f0ccc92, 0xffeff47d, 0x85845dd1,
      0x6fa87e4f, 0xfe2ce6e0, 0xa3014314, 0x4e0811a1, 0xf7537e82, 0xbd3af235, 0x2ad7d2bb, 0xeb86d391]"

definition md5_left_rotate :: "u32 \<Rightarrow> nat \<Rightarrow> u32" where
  "md5_left_rotate x n = push_bit n x OR drop_bit (32 - n) x"

fun md5_round :: "u32 list \<Rightarrow> nat \<Rightarrow> u32 list \<Rightarrow> u32 list" where
  "md5_round m i [a, b, c, d] =
     (let (f, g) = (if i < 16 then ((b AND c) OR (NOT b AND d), i)
                    else if i < 32 then ((d AND b) OR (NOT d AND c), (5 * i + 1) mod 16)
                    else if i < 48 then (b XOR c XOR d, (3 * i + 5) mod 16)
                    else (c XOR (b OR NOT d), (7 * i) mod 16))
      in [d, b + md5_left_rotate (a + f + md5_k ! i + m ! g) (md5_s ! i), b, c])"
| "md5_round m i st = st"

definition md5_transform :: "u32 list \<Rightarrow> u8 list \<Rightarrow> u32 list" where
  "md5_transform state block = map2 (+) state (fold (md5_round (map (le_word block) [0..<16])) [0..<64] state)"

definition md5_init :: md5_ctx_t where
  "md5_init = \<lparr>hs_state = [0x67452301, 0xefcdab89, 0x98badcfe, 0x10325476], hs_count = 0, hs_buffer = replicate 64 0\<rparr>"

definition md5_update :: "u8 list \<Rightarrow> md5_ctx_t \<Rightarrow> md5_ctx_t" where
  "md5_update = hash_update md5_transform"

definition md5_final :: "md5_ctx_t \<Rightarrow> u8 list" where
  "md5_final ctx = concat (map le_bytes (hs_state (hash_finish md5_transform le_count ctx)))"

definition md5 :: "u8 list \<Rightarrow> u8 list" where
  "md5 data = md5_final (md5_update data md5_init)"

section \<open>SHA-1\<close>

definition sha1_left_rotate :: "u32 \<Rightarrow> nat \<Rightarrow> u32" where
  "sha1_left_rotate value count = push_bit count value OR drop_bit (32 - count) value"

definition sha1_schedule :: "u8 list \<Rightarrow> u32 list" where
  "sha1_schedule block =
     fold (\<lambda>i w. w @ [sha1_left_rotate (w ! (i - 3) XOR w ! (i - 8) XOR w ! (i - 14) XOR w ! (i - 16)) 1]) [16..<80] (map (be_word block) [0..<16])"

fun sha1_round :: "u32 list \<Rightarrow> nat \<Rightarrow> u32 list \<Rightarrow> u32 list" where
  "sha1_round w i [a, b, c, d, e] =
     (let (f, k) = (if i < 20 then ((b AND c) OR (NOT b AND d), 0x5A827999)
                    else if i < 40 then (b XOR c XOR d, 0x6ED9EBA1)
                    else if i < 60 then ((b AND c) OR (b AND d) OR (c AND d), 0x8F1BBCDC)
                    else (b XOR c XOR d, 0xCA62C1D6));
          temp = sha1_left_rotate a 5 + f + e + k + w ! i
      in [temp, a, sha1_left_rotate b 30, c, d])"
| "sha1_round w i st = st"

definition sha1_transform :: "u32 list \<Rightarrow> u8 list \<Rightarrow> u32 list" where
  "sha1_transform state block = map2 (+) state (fold (sha1_round (sha1_schedule block)) [0..<80] state)"

definition sha1_init :: sha1_ctx_t where
  "sha1_init = \<lparr>hs_state = [0x67452301, 0xEFCDAB89, 0x98BADCFE, 0x10325476, 0xC3D2E1F0], hs_count = 0, hs_buffer = replicate 64 0\<rparr>"

definition sha1_update :: "u8 list \<Rightarrow> sha1_ctx_t \<Rightarrow> sha1_ctx_t" where
  "sha1_update = hash_update sha1_transform"

definition sha1_final :: "sha1_ctx_t \<Rightarrow> u8 list" where
  "sha1_final ctx = concat (map be_bytes (hs_state (hash_finish sha1_transform be_count ctx)))"

definition sha1 :: "u8 list \<Rightarrow> u8 list" where
  "sha1 data = sha1_final (sha1_update data sha1_init)"

section \<open>Keyed digests\<close>

text \<open>The inner and outer pads: a block of the pad byte into which the key is mixed.\<close>

definition hmac_mix :: "u8 \<Rightarrow> u8 list \<Rightarrow> u8 list" where
  "hmac_mix v key = fold (\<lambda>i k. k[i := k ! i XOR key ! i]) [0..<length key] (replicate HASH_BLOCK_SIZE v)"

definition hmac_md5 :: "u8 list \<Rightarrow> u8 list \<Rightarrow> u8 list" where
  "hmac_md5 key data =
     (let key = (if length key > HASH_BLOCK_SIZE then md5 key else key);
          k_ipad = hmac_mix 0x36 key; k_opad = hmac_mix 0x5C key;
          digest = md5_final (md5_update data (md5_update k_ipad md5_init))
      in md5_final (md5_update digest (md5_update k_opad md5_init)))"

definition hmac_sha1 :: "u8 list \<Rightarrow> u8 list \<Rightarrow> u8 list" where
  "hmac_sha1 key data =
     (let key = (if length key > HASH_BLOCK_SIZE then sha1 key else key);
          k_ipad = hmac_mix 0x36 key; k_opad = hmac_mix 0x5C key;
          digest = sha1_final (sha1_update data (sha1_update k_ipad sha1_init))
      in sha1_final (sha1_update digest (sha1_update k_opad sha1_init)))"

definition hmac_sha256 :: "u8 list \<Rightarrow> u8 list \<Rightarrow> u8 list" where
  "hmac_sha256 key data =
     (let key = (if length key > HASH_BLOCK_SIZE then sha256 key else key);
          k_ipad = hmac_mix 0x36 key; k_opad = hmac_mix 0x5C key;
          digest = sha256_final (sha256_update data (sha256_update k_ipad sha256_init))
      in sha256_final (sha256_update digest (sha256_update k_opad sha256_init)))"

section \<open>Reference: pad and fold\<close>

function hash_blocks :: "(u32 list \<Rightarrow> u8 list \<Rightarrow> u32 list) \<Rightarrow> u32 list \<Rightarrow> u8 list \<Rightarrow> u32 list" where
  "hash_blocks transform st xs = (if length xs < 64 then st else hash_blocks transform (transform st (take 64 xs)) (drop 64 xs))"
  by pat_completeness auto
termination by (relation "measure (\<lambda>(transform, st, xs). length xs)") auto

declare hash_blocks.simps [simp del] update_loop.simps [simp del]

definition md_pad :: "(u64 \<Rightarrow> u8 list) \<Rightarrow> u8 list \<Rightarrow> u8 list" where
  "md_pad count_bytes xs = xs @ 0x80 # replicate ((119 - length xs mod 64) mod 64) 0 @ count_bytes (of_nat (8 * length xs))"

definition md_digest :: "(u32 list \<Rightarrow> u8 list \<Rightarrow> u32 list) \<Rightarrow> u32 list \<Rightarrow> (u64 \<Rightarrow> u8 list) \<Rightarrow> (u32 \<Rightarrow> u8 list) \<Rightarrow> u8 list \<Rightarrow> u8 list" where
  "md_digest transform iv count_bytes word_bytes xs = concat (map word_bytes (hash_blocks transform iv (md_pad count_bytes xs)))"

text \<open>The bytes of a message that do not fill a block.\<close>

definition pend :: "u8 list \<Rightarrow> u8 list" where
  "pend xs = drop (length xs - length xs mod 64) xs"

lemma length_pend [simp]: "length (pend xs) = length xs mod 64"
  by (simp add: pend_def)

lemma pend_short: "length xs < 64 \<Longrightarrow> pend xs = xs"
  by (simp add: pend_def)

lemma hash_blocks_short: "length xs < 64 \<Longrightarrow> hash_blocks transform st xs = st"
  by (simp add: hash_blocks.simps)

lemma hash_blocks_first: "length xs = 64 \<Longrightarrow> hash_blocks transform st (xs @ ys) = hash_blocks transform (transform st xs) ys"
  by (simp add: hash_blocks.simps [of transform st "xs @ ys"])

lemma hash_blocks_append:
  "length xs mod 64 = 0 \<Longrightarrow> hash_blocks transform st (xs @ ys) = hash_blocks transform (hash_blocks transform st xs) ys"
proof (induction transform st xs rule: hash_blocks.induct)
  case (1 transform st xs)
  show ?case
  proof (cases "length xs < 64")
    case True
    then have "xs = []" using "1.prems" by simp
    then show ?thesis by (simp add: hash_blocks_short)
  next
    case False
    have m: "length (drop 64 xs) mod 64 = 0" using False "1.prems" by (simp add: le_mod_geq)
    have "hash_blocks transform st (xs @ ys) = hash_blocks transform (transform st (take 64 xs)) (drop 64 xs @ ys)"
      using False hash_blocks_first [of "take 64 xs" transform st "drop 64 xs @ ys"] by (simp flip: append_assoc)
    also have "\<dots> = hash_blocks transform (hash_blocks transform (transform st (take 64 xs)) (drop 64 xs)) ys" by (rule "1.IH" [OF False m])
    also have "hash_blocks transform (transform st (take 64 xs)) (drop 64 xs) = hash_blocks transform st xs"
      using False by (simp add: hash_blocks.simps [of transform st xs])
    finally show ?thesis .
  qed
qed

lemma hash_blocks_pend: "hash_blocks transform st (xs @ ys) = hash_blocks transform (hash_blocks transform st xs) (pend xs @ ys)"
proof -
  let ?k = "length xs - length xs mod 64"
  have m: "length (take ?k xs) mod 64 = 0" by (simp add: minus_mod_eq_mult_div)
  have x: "xs = take ?k xs @ pend xs" by (simp add: pend_def)
  have "hash_blocks transform st xs = hash_blocks transform (hash_blocks transform st (take ?k xs)) (pend xs)"
    using hash_blocks_append [OF m, of transform st "pend xs"] x by metis
  then have "hash_blocks transform st xs = hash_blocks transform st (take ?k xs)" by (simp add: hash_blocks_short)
  then show ?thesis using hash_blocks_append [OF m, of transform st "pend xs @ ys"] x by (metis append_assoc)
qed

lemma pend_append: "pend (xs @ ys) = pend (pend xs @ ys)"
proof -
  define r k where rk: "r = length xs mod 64" "k = length xs - length xs mod 64"
  define a b where ab: "a = take k xs" "b = pend xs @ ys"
  have l: "length xs = k + r" "length a = k" "length b = r + length ys" by (simp_all add: rk ab)
  have m: "length (a @ b) mod 64 = length b mod 64" using l rk by (metis length_append mod_add_left_eq add.assoc length_pend)
  have "length (a @ b) - length (a @ b) mod 64 = length a + (length b - length b mod 64)" using m by simp
  then have "pend (a @ b) = drop (length a + (length b - length b mod 64)) (a @ b)" by (simp only: pend_def)
  also have "\<dots> = pend b" by (simp add: pend_def)
  finally have "pend (a @ b) = pend b" .
  moreover have "a @ b = xs @ ys" by (simp add: ab rk pend_def)
  ultimately have "pend (xs @ ys) = pend b" by metis
  then show ?thesis by (simp only: ab)
qed

section \<open>Streaming equals the reference\<close>

definition absorbed :: "(u32 list \<Rightarrow> u8 list \<Rightarrow> u32 list) \<Rightarrow> u32 list \<Rightarrow> hash_ctx \<Rightarrow> u8 list \<Rightarrow> bool" where
  "absorbed transform iv ctx xs \<longleftrightarrow> hs_state ctx = hash_blocks transform iv xs \<and> hs_count ctx = of_nat (length xs) \<and> length (hs_buffer ctx) = 64 \<and>
     take (length xs mod 64) (hs_buffer ctx) = pend xs"

lemma count_mod: "unat ((of_nat n :: u64) mod 64) = n mod 64"
proof -
  have "unat ((of_nat n :: u64) mod 64) = n mod 2 ^ 64 mod 64" by (simp add: unat_mod unat_of_nat)
  also have "\<dots> = n mod 64" by (rule mod_mod_cancel) simp
  finally show ?thesis .
qed

lemma length_blit: "off + length bs \<le> length buf \<Longrightarrow> length (blit off bs buf) = length buf"
  by (simp add: blit_def)

lemma take_blit: "off \<le> length buf \<Longrightarrow> take (off + length bs) (blit off bs buf) = take off buf @ bs"
  by (simp add: blit_def)

lemma update_loop_spec:
  assumes "length (hs_buffer ctx) = 64" "buffer_len < 64"
  shows "hs_state (update_loop transform buffer_len data ctx) = hash_blocks transform (hs_state ctx) (take buffer_len (hs_buffer ctx) @ data) \<and>
    hs_count (update_loop transform buffer_len data ctx) = hs_count ctx \<and> length (hs_buffer (update_loop transform buffer_len data ctx)) = 64 \<and>
    take ((buffer_len + length data) mod 64) (hs_buffer (update_loop transform buffer_len data ctx)) = pend (take buffer_len (hs_buffer ctx) @ data)"
  using assms
proof (induction transform buffer_len data ctx rule: update_loop.induct)
  case (1 transform buffer_len data ctx)
  define p where p: "p = take buffer_len (hs_buffer ctx)"
  have lp: "length p = buffer_len" using "1.prems" by (simp add: p)
  show ?case
  proof (cases "data = []")
    case True
    then show ?thesis using "1.prems" lp by (simp add: update_loop.simps hash_blocks_short pend_short)
  next
    case ne: False
    define n where n: "n = (if HASH_BLOCK_SIZE - buffer_len > length data then length data else HASH_BLOCK_SIZE - buffer_len)"
    define c where c: "c = ctx\<lparr>hs_buffer := blit buffer_len (take n data) (hs_buffer ctx)\<rparr>"
    have n1: "n \<le> length data" "buffer_len + n \<le> 64" using "1.prems"(2) by (auto simp: n HASH_BLOCK_SIZE_def)
    have lb: "length (hs_buffer c) = 64" using "1.prems"(1) n1 by (simp add: c length_blit)
    have tb: "take (buffer_len + n) (hs_buffer c) = p @ take n data"
      using take_blit [of buffer_len "hs_buffer ctx" "take n data"] "1.prems" n1 by (simp add: c p)
    have go: "\<not> (data = [] \<or> buffer_len \<ge> HASH_BLOCK_SIZE)" using ne "1.prems"(2) by (simp add: HASH_BLOCK_SIZE_def)
    note IH = "1.IH" [OF go n c]
    show ?thesis
    proof (cases "buffer_len + n = HASH_BLOCK_SIZE")
      case True
      then have b: "hs_buffer c = p @ take n data" using tb lb by (simp add: HASH_BLOCK_SIZE_def)
      define d where d: "d = c\<lparr>hs_state := transform (hs_state c) (hs_buffer c)\<rparr>"
      have u: "update_loop transform buffer_len data ctx = update_loop transform 0 (drop n data) d"
        using go True by (simp add: update_loop.simps [of transform buffer_len] d Let_def flip: n c)
      have l: "length (p @ take n data) = 64" using b lb by metis
      have hd: "hs_state d = transform (hs_state ctx) (p @ take n data)" using b by (simp add: d) (simp add: c)
      have h: "hash_blocks transform (hs_state ctx) (p @ data) = hash_blocks transform (hs_state d) (drop n data)"
        using hash_blocks_first [OF l, of transform "hs_state ctx" "drop n data"] hd by simp
      have "length (pend (p @ take n data)) = 0" unfolding length_pend l by simp
      then have "pend (p @ take n data) = []" by (simp only: length_0_conv)
      then have q: "pend (p @ data) = pend (drop n data)"
        using pend_append [of "p @ take n data" "drop n data"] by simp
      have m: "(buffer_len + length data) mod 64 = length (drop n data) mod 64"
      proof -
        have "buffer_len + length data = 64 + length (drop n data)" using True n1(1) by (simp add: HASH_BLOCK_SIZE_def)
        then show ?thesis by (simp only: mod_add_self1)
      qed
      have "length (hs_buffer d) = 64" "hs_count d = hs_count ctx" using lb by (simp_all add: d c)
      then show ?thesis using IH(1) [OF True] h q m u by (simp add: d flip: p)
    next
      case False
      then have nd: "n = length data" "buffer_len + length data < 64" using "1.prems"(2) n1 by (auto simp: n HASH_BLOCK_SIZE_def split: if_splits)
      have "c = ctx\<lparr>hs_buffer := blit buffer_len data (hs_buffer ctx)\<rparr>" using nd by (simp add: c)
      then have u: "update_loop transform buffer_len data ctx = c"
        using go False nd by (simp add: update_loop.simps [of transform buffer_len] update_loop.simps [of _ _ "[]"] Let_def flip: n c)
      have "length (p @ data) < 64" using nd lp by simp
      then show ?thesis using u lb tb nd by (simp add: hash_blocks_short pend_short c flip: p)
    qed
  qed
qed

lemma absorbed_update:
  assumes "absorbed transform iv ctx xs"
  shows "absorbed transform iv (hash_update transform data ctx) (xs @ data)"
proof -
  let ?c = "ctx\<lparr>hs_count := hs_count ctx + of_nat (length data)\<rparr>" and ?r = "length xs mod 64"
  have A: "hs_state ctx = hash_blocks transform iv xs" "hs_count ctx = of_nat (length xs)" "length (hs_buffer ctx) = 64" "take ?r (hs_buffer ctx) = pend xs"
    using assms by (simp_all add: absorbed_def)
  have u: "hash_update transform data ctx = update_loop transform ?r data ?c" by (simp add: hash_update_def A(2) count_mod)
  have m: "(?r + length data) mod 64 = length (xs @ data) mod 64" by (simp add: mod_add_left_eq)
  have "length (hs_buffer ?c) = 64" "?r < 64" using A(3) by simp_all
  note U = update_loop_spec [OF this, of transform data]
  show ?thesis
    unfolding absorbed_def u using U A m hash_blocks_pend [of transform iv xs data] pend_append [of xs data] by simp
qed

lemma absorbed_finish:
  assumes "absorbed transform iv ctx xs" "\<And>n. length (count_bytes n) = 8"
  shows "hs_state (hash_finish transform count_bytes ctx) = hash_blocks transform iv (md_pad count_bytes xs)"
proof -
  define r where r: "r = length xs mod 64"
  have A: "hs_state ctx = hash_blocks transform iv xs" "hs_count ctx = of_nat (length xs)" "length (hs_buffer ctx) = 64" "take r (hs_buffer ctx) = pend xs"
    using assms(1) by (simp_all add: absorbed_def r)
  have r64: "r < 64" by (simp add: r)
  have bc: "hs_count ctx * 8 = of_nat (8 * length xs)" by (simp add: A(2))
  define e where e: "e = count_bytes (of_nat (8 * length xs))"
  have le: "length e = 8" by (simp add: e assms(2))
  define b where b: "b = (hs_buffer ctx)[r := 0x80]"
  have lb: "length b = 64" by (simp add: b A(3))
  have tb: "take (r + 1) b = pend xs @ [0x80]" using A(3,4) r64 by (simp add: b take_Suc_conv_app_nth)
  have pad: "hash_blocks transform iv (md_pad count_bytes xs) = hash_blocks transform (hs_state ctx) (pend xs @ 0x80 # replicate ((119 - r) mod 64) 0 @ e)"
    unfolding md_pad_def A(1) hash_blocks_pend [of transform iv xs] by (simp add: r e)
  have bl: "unat (hs_count ctx mod 64) = r" by (simp add: A(2) count_mod r)
  have fin: "hs_state (hash_finish transform count_bytes ctx) =
      (if r + 1 > 56 then let z = blit (r + 1) (replicate (64 - (r + 1)) 0) b in transform (transform (hs_state ctx) z) (blit 56 e (blit 0 (replicate (56 - 0) 0) z))
       else transform (hs_state ctx) (blit 56 e (blit (r + 1) (replicate (56 - (r + 1)) 0) b)))"
    unfolding hash_finish_def Let_def bl bc e b by simp
  show ?thesis
  proof (cases "r + 1 > 56")
    case True
    define z where z: "z = pend xs @ 0x80 # replicate (63 - r) 0"
    have lz: "length z = 64" using r64 by (simp add: z r)
    have bz: "blit (r + 1) (replicate (64 - (r + 1)) 0) b = z" using tb lb r64 by (simp add: blit_def z)
    have "blit 56 e (blit 0 (replicate (56 - 0) 0) z) = replicate 56 0 @ e" using lz le by (simp add: blit_def)
    then have "hs_state (hash_finish transform count_bytes ctx) = transform (transform (hs_state ctx) z) (replicate 56 0 @ e)"
      unfolding fin if_P [OF True] Let_def bz by (rule arg_cong)
    moreover have "(119 - r) mod 64 = (63 - r) + 56" using True r64 by simp
    then have "pend xs @ 0x80 # replicate ((119 - r) mod 64) 0 @ e = z @ (replicate 56 0 @ e)" by (simp only: replicate_add z) simp
    moreover have "hash_blocks transform (hs_state ctx) (z @ (replicate 56 0 @ e)) = transform (transform (hs_state ctx) z) (replicate 56 0 @ e)"
      using hash_blocks_first [OF lz] hash_blocks_first [of "replicate 56 0 @ e" _ _ "[]"] le by (simp add: hash_blocks_short)
    ultimately show ?thesis unfolding pad by metis
  next
    case False
    define z where z: "z = pend xs @ 0x80 # replicate (55 - r) 0 @ e"
    have lz: "length z = 64" using False le by (simp add: z flip: r)
    define q where q: "q = pend xs @ 0x80 # replicate (55 - r) 0"
    have lq: "length q = 56" using False by (simp add: q flip: r)
    have "blit (r + 1) (replicate (56 - (r + 1)) 0) b = q @ drop 56 b" using tb lb False by (simp add: blit_def q)
    moreover have "blit 56 e (q @ drop 56 b) = q @ e" using lq lb le by (simp add: blit_def)
    ultimately have "blit 56 e (blit (r + 1) (replicate (56 - (r + 1)) 0) b) = z" by (simp add: q z)
    then have "hs_state (hash_finish transform count_bytes ctx) = transform (hs_state ctx) z"
      unfolding fin if_not_P [OF False] by (rule arg_cong)
    moreover have "(119 - r) mod 64 = 55 - r" using False le_mod_geq [of 64 "119 - r"] by simp
    moreover have "hash_blocks transform (hs_state ctx) z = transform (hs_state ctx) z"
      using hash_blocks_first [OF lz, of transform "hs_state ctx" "[]"] by (simp add: hash_blocks_short)
    ultimately show ?thesis unfolding pad by (simp add: z)
  qed
qed

section \<open>What a client of a digest relies on\<close>

definition HASH_LIMIT :: nat where "HASH_LIMIT = 4294967232"

definition hmac_key :: "(u8 list \<Rightarrow> u8 list) \<Rightarrow> u8 list \<Rightarrow> u8 list" where
  "hmac_key H key = (let k = (if length key > 64 then H key else key) in k @ replicate (64 - length k) 0)"

definition hmac_spec :: "(u8 list \<Rightarrow> u8 list) \<Rightarrow> u8 list \<Rightarrow> u8 list \<Rightarrow> u8 list" where
  "hmac_spec H key data = H (map (\<lambda>b. b XOR 0x5C) (hmac_key H key) @ H (map (\<lambda>b. b XOR 0x36) (hmac_key H key) @ data))"

locale digest =
  fixes start :: "'c" and absorb :: "u8 list \<Rightarrow> 'c \<Rightarrow> 'c option" and finish :: "'c \<Rightarrow> u8 list option"
    and holds :: "'c \<Rightarrow> u8 list \<Rightarrow> bool" and H :: "u8 list \<Rightarrow> u8 list"
  assumes start: "holds start []"
    and absorb: "holds c xs \<Longrightarrow> length ys \<le> HASH_LIMIT \<Longrightarrow> \<exists>c'. absorb ys c = Some c' \<and> holds c' (xs @ ys)"
    and finish: "holds c xs \<Longrightarrow> finish c = Some (H xs)"
    and fits: "length (H xs) \<le> 64"
begin

lemma absorb_all:
  assumes "holds c xs" "\<forall>ys \<in> set chunks. length ys \<le> HASH_LIMIT"
  shows "\<exists>c'. fold (\<lambda>ys c. c \<bind> absorb ys) chunks (Some c) = Some c' \<and> holds c' (xs @ concat chunks)"
  using assms
proof (induction chunks arbitrary: c xs)
  case (Cons ys chunks)
  obtain c' where "absorb ys c = Some c'" "holds c' (xs @ ys)" using absorb [OF Cons.prems(1), of ys] Cons.prems(2) by auto
  then show ?case using Cons.IH [of c' "xs @ ys"] Cons.prems(2) by simp
qed simp

lemma streamed:
  assumes "\<forall>ys \<in> set chunks. length ys \<le> HASH_LIMIT"
  shows "fold (\<lambda>ys c. c \<bind> absorb ys) chunks (Some start) \<bind> finish = Some (H (concat chunks))"
  using absorb_all [OF start assms] finish by auto

lemma two_parts:
  assumes "length xs \<le> HASH_LIMIT" "length ys \<le> HASH_LIMIT"
  shows "absorb xs start \<bind> absorb ys \<bind> finish = Some (H (xs @ ys))"
  using streamed [of "[xs, ys]"] assms by simp

lemma one_part: "length xs \<le> HASH_LIMIT \<Longrightarrow> absorb xs start \<bind> finish = Some (H xs)"
  using streamed [of "[xs]"] by simp

lemma key_block: "length (hmac_key H key) = 64"
  using fits [of key] by (simp add: hmac_key_def Let_def)

lemma keyed:
  assumes "length data \<le> HASH_LIMIT"
  shows "absorb (map (\<lambda>b. b XOR 0x36) (hmac_key H key)) start \<bind> absorb data \<bind> finish \<bind>
      (\<lambda>inner. absorb (map (\<lambda>b. b XOR 0x5C) (hmac_key H key)) start \<bind> absorb inner \<bind> finish) = Some (hmac_spec H key data)"
proof -
  have l: "length (map f (hmac_key H key)) \<le> HASH_LIMIT" for f :: "u8 \<Rightarrow> u8" by (simp add: key_block HASH_LIMIT_def)
  have i: "length (H xs) \<le> HASH_LIMIT" for xs using fits [of xs] by (simp add: HASH_LIMIT_def)
  show ?thesis unfolding two_parts [OF l assms] Option.bind.bind_lunit two_parts [OF l i] hmac_spec_def ..
qed

end

section \<open>The digests satisfy the contract\<close>

lemma length_hash_blocks: "(\<And>st block. length (transform st block) = length st) \<Longrightarrow> length (hash_blocks transform st xs) = length st"
  by (induction transform st xs rule: hash_blocks.induct) (subst hash_blocks.simps, simp)

lemma length_fold: "(\<And>i st. length (f i st) = length st) \<Longrightarrow> length (fold f is st) = length st"
  by (induction "is" arbitrary: st) simp_all

lemma length_concat_const: "(\<And>x. length (f x) = k) \<Longrightarrow> length (concat (map f xs)) = k * length xs"
  by (induction xs) simp_all

lemma length_rounds:
  shows "length (sha256_round w i st) = length st" and "length (md5_round w i st) = length st" and "length (sha1_round w i st) = length st"
proof -
  show "length (sha256_round w i st) = length st" by (cases "(w, i, st)" rule: sha256_round.cases) (simp_all add: Let_def)
  show "length (md5_round w i st) = length st" by (cases "(w, i, st)" rule: md5_round.cases) (simp_all add: Let_def split_beta)
  show "length (sha1_round w i st) = length st" by (cases "(w, i, st)" rule: sha1_round.cases) (simp_all add: Let_def split_beta)
qed

lemma length_transforms:
  "length (sha256_transform st b) = length st" "length (md5_transform st b) = length st" "length (sha1_transform st b) = length st"
  by (simp_all add: sha256_transform_def md5_transform_def sha1_transform_def length_fold length_rounds)

lemma length_bytes: "length (be_bytes w) = 4" "length (le_bytes w) = 4" "length (be_count n) = 8" "length (le_count n) = 8"
  by (simp_all add: be_bytes_def le_bytes_def be_count_def le_count_def)

lemmas digest_defs = sha256_init_def md5_init_def sha1_init_def sha256_update_def md5_update_def sha1_update_def
  sha256_final_def md5_final_def sha1_final_def

lemma absorbed_start: "length buf = 64 \<Longrightarrow> absorbed transform iv \<lparr>hs_state = iv, hs_count = 0, hs_buffer = buf\<rparr> []"
  by (simp add: absorbed_def hash_blocks_short pend_short)

lemma hash_digest:
  assumes "absorbed transform iv ctx xs" "\<And>n. length (count_bytes n) = 8"
  shows "concat (map word_bytes (hs_state (hash_finish transform count_bytes ctx))) = md_digest transform iv count_bytes word_bytes xs"
  using absorbed_finish [OF assms] by (simp add: md_digest_def)

lemma digest_specs:
  "sha256 xs = md_digest sha256_transform (hs_state sha256_init) be_count be_bytes xs"
  "md5 xs = md_digest md5_transform (hs_state md5_init) le_count le_bytes xs"
  "sha1 xs = md_digest sha1_transform (hs_state sha1_init) be_count be_bytes xs"
  unfolding sha256_def md5_def sha1_def digest_defs
  using hash_digest [OF absorbed_update [OF absorbed_start]] by (simp_all add: length_bytes)

lemma digest_lengths: "length (sha256 xs) = 32" "length (md5 xs) = 16" "length (sha1 xs) = 20"
  unfolding digest_specs md_digest_def
  by (simp_all add: length_concat_const length_bytes length_hash_blocks length_transforms sha256_init_def md5_init_def sha1_init_def)

lemma digest_laws:
  assumes "\<And>xs. H xs = md_digest transform (hs_state ini) count_bytes word_bytes xs" "hs_count ini = 0" "length (hs_buffer ini) = 64"
    "\<And>d c. upd d c = hash_update transform d c" "\<And>c. fin c = concat (map word_bytes (hs_state (hash_finish transform count_bytes c)))"
    "\<And>n. length (count_bytes n) = 8" "\<And>xs. length (H xs) \<le> 64"
  shows "digest ini (\<lambda>d c. Some (upd d c)) (\<lambda>c. Some (fin c)) (absorbed transform (hs_state ini)) H"
proof
  show "absorbed transform (hs_state ini) ini []" using assms(2,3) by (simp add: absorbed_def hash_blocks_short pend_short)
next
  fix c xs ys
  assume "absorbed transform (hs_state ini) c xs"
  then show "\<exists>c'. Some (upd ys c) = Some c' \<and> absorbed transform (hs_state ini) c' (xs @ ys)" by (simp add: assms(4) absorbed_update)
next
  fix c xs
  assume "absorbed transform (hs_state ini) c xs"
  then show "Some (fin c) = Some (H xs)" using hash_digest assms(6) by (simp add: assms(1,5))
qed (rule assms(7))

interpretation sha256: digest sha256_init "\<lambda>d c. Some (sha256_update d c)" "\<lambda>c. Some (sha256_final c)"
    "absorbed sha256_transform (hs_state sha256_init)" sha256
  by (rule digest_laws [OF digest_specs(1)]) (simp_all add: digest_lengths length_bytes digest_defs)

interpretation md5: digest md5_init "\<lambda>d c. Some (md5_update d c)" "\<lambda>c. Some (md5_final c)"
    "absorbed md5_transform (hs_state md5_init)" md5
  by (rule digest_laws [OF digest_specs(2)]) (simp_all add: digest_lengths length_bytes digest_defs)

interpretation sha1: digest sha1_init "\<lambda>d c. Some (sha1_update d c)" "\<lambda>c. Some (sha1_final c)"
    "absorbed sha1_transform (hs_state sha1_init)" sha1
  by (rule digest_laws [OF digest_specs(3)]) (simp_all add: digest_lengths length_bytes digest_defs)

section \<open>Properties\<close>

lemma fold_xor_nth:
  assumes "n \<le> length xs"
  shows "length (fold (\<lambda>i k. k[i := k ! i XOR key ! i]) [0..<n] xs) = length xs \<and>
    (\<forall>j < length xs. fold (\<lambda>i k. k[i := k ! i XOR key ! i]) [0..<n] xs ! j = (if j < n then xs ! j XOR key ! j else xs ! j))"
  using assms by (induction n) (auto simp: nth_list_update less_Suc_eq)

lemma hmac_mix_map:
  assumes "length key \<le> 64"
  shows "hmac_mix v key = map (\<lambda>b. b XOR v) (key @ replicate (64 - length key) 0)"
proof (rule nth_equalityI)
  note F = fold_xor_nth [of "length key" "replicate 64 v" key]
  show l: "length (hmac_mix v key) = length (map (\<lambda>b. b XOR v) (key @ replicate (64 - length key) 0))"
    using F assms by (simp add: hmac_mix_def HASH_BLOCK_SIZE_def)
  fix j assume "j < length (hmac_mix v key)"
  then have "j < 64" using l assms by simp
  then show "hmac_mix v key ! j = map (\<lambda>b. b XOR v) (key @ replicate (64 - length key) 0) ! j"
    using F assms by (simp add: hmac_mix_def HASH_BLOCK_SIZE_def nth_append xor.commute)
qed

lemma hmac_mix_key: "length (H key) \<le> 64 \<Longrightarrow> hmac_mix v (if length key > HASH_BLOCK_SIZE then H key else key) = map (\<lambda>b. b XOR v) (hmac_key H key)"
  by (simp add: hmac_mix_map hmac_key_def HASH_BLOCK_SIZE_def Let_def)

lemma fold_some: "fold (\<lambda>y c. c \<bind> (\<lambda>c. Some (f y c))) ys (Some c) = Some (fold f ys c)"
  by (induction ys arbitrary: c) simp_all

text \<open>The keyed digests are those of RFC 2104: the key, replaced by its digest when longer than a block and padded with zeros to a
  block, is mixed with 0x36 and 0x5C; the digest of the inner block and the data is digested after the outer block.\<close>

lemma hmac_specs:
  assumes "length data \<le> HASH_LIMIT"
  shows "hmac_md5 key data = hmac_spec md5 key data \<and> hmac_sha1 key data = hmac_spec sha1 key data \<and> hmac_sha256 key data = hmac_spec sha256 key data"
  using md5.keyed [OF assms] sha1.keyed [OF assms] sha256.keyed [OF assms]
  by (simp add: hmac_md5_def hmac_sha1_def hmac_sha256_def Let_def hmac_mix_key digest_lengths)

text \<open>C27: the streaming digests are the digests of the whole message: for each of SHA-256, MD5 and SHA-1, feeding a message in any
  pieces and finishing gives the 64-byte blocks of the padded message folded through the transformation from the initial
  state, that is the padding byte 0x80, the least number of zero bytes and the bit count in 8 bytes (high byte first, for MD5 low
  byte first); the digests have 32, 16 and 20 bytes.\<close>

theorem hash_streaming_correct:
  "sha256_final (fold sha256_update chunks sha256_init) = md_digest sha256_transform (hs_state sha256_init) be_count be_bytes (concat chunks) \<and>
   md5_final (fold md5_update chunks md5_init) = md_digest md5_transform (hs_state md5_init) le_count le_bytes (concat chunks) \<and>
   sha1_final (fold sha1_update chunks sha1_init) = md_digest sha1_transform (hs_state sha1_init) be_count be_bytes (concat chunks) \<and>
   length (sha256 xs) = 32 \<and> length (md5 xs) = 16 \<and> length (sha1 xs) = 20"
proof -
  have fold_absorbed: "absorbed transform iv (fold (hash_update transform) chunks ctx) (ys @ concat chunks)"
    if "absorbed transform iv ctx ys" for transform iv ctx ys
    using that absorbed_update by (induction chunks arbitrary: ctx ys) force+
  have F: "concat (map word_bytes (hs_state (hash_finish transform count_bytes (fold (hash_update transform) chunks \<lparr>hs_state = iv, hs_count = 0, hs_buffer = replicate 64 0\<rparr>)))) =
      md_digest transform iv count_bytes word_bytes (concat chunks)" if "\<And>n. length (count_bytes n) = 8" for transform iv count_bytes word_bytes
    using hash_digest [OF fold_absorbed [OF absorbed_start] that] by simp
  show ?thesis by (simp add: digest_defs F length_bytes digest_lengths)
qed

end
