(* ===== verification/Hash_net.thy ===== *)
theory Hash_net
  imports Hash
begin

text \<open>
  The second implementation of the digests, \<^verbatim>\<open>kernel/net/hash.c\<close>: it counts bits, copies whole blocks straight from the data, pads by
  calling the streaming function, writes the rounds of MD5 out and splits those of SHA-1 into four loops.  The streaming and
  final functions, which the source repeats for each digest, take the transformation as an argument.  The initialisation leaves the
  buffer as it is, so the contents of the buffer of a local context is an argument \<open>g\<close>.  The loop over the blocks computes in 32 bits
  and reads past the data when its index wraps around: that is the result \<open>None\<close>.  The theorems show that both
  implementations compute the same digests.
\<close>

section \<open>Streaming\<close>

definition uninit :: "(nat \<Rightarrow> u8) \<Rightarrow> hash_ctx" where
  "uninit g = \<lparr>hs_state = [], hs_count = 0, hs_buffer = map g [0..<64]\<rparr>"

function block_loop :: "(u32 list \<Rightarrow> u8 list \<Rightarrow> u32 list) \<Rightarrow> u8 list \<Rightarrow> nat \<Rightarrow> u32 list \<Rightarrow> (nat \<times> u32 list) option" where
  "block_loop transform data i st =
     (if unat (of_nat (i + 63) :: u32) < length data
      then if i + 64 \<le> length data then block_loop transform data (i + 64) (transform st (take 64 (drop i data))) else None
      else Some (i, st))"
  by pat_completeness auto
termination by (relation "measure (\<lambda>(transform, data, i, st). length data - i)") auto

definition net_update :: "(u32 list \<Rightarrow> u8 list \<Rightarrow> u32 list) \<Rightarrow> u8 list \<Rightarrow> hash_ctx \<Rightarrow> hash_ctx option" where
  "net_update transform data ctx =
     (let index = unat (drop_bit 3 (hs_count ctx) AND 0x3F);
          ctx = ctx\<lparr>hs_count := hs_count ctx + push_bit 3 (of_nat (length data))\<rparr>;
          part_len = 64 - index
      in if length data \<ge> part_len
         then let ctx = ctx\<lparr>hs_buffer := blit index (take part_len data) (hs_buffer ctx)\<rparr>
              in do {
                (i, st) \<leftarrow> block_loop transform data part_len (transform (hs_state ctx) (hs_buffer ctx));
                Some (ctx\<lparr>hs_state := st, hs_buffer := blit 0 (drop i data) (hs_buffer ctx)\<rparr>)
              }
         else Some (ctx\<lparr>hs_buffer := blit index data (hs_buffer ctx)\<rparr>))"

definition net_finish :: "(u32 list \<Rightarrow> u8 list \<Rightarrow> u32 list) \<Rightarrow> (u64 \<Rightarrow> u8 list) \<Rightarrow> hash_ctx \<Rightarrow> hash_ctx option" where
  "net_finish transform count_bytes ctx =
     (let bits = count_bytes (hs_count ctx);
          index = unat (drop_bit 3 (hs_count ctx) AND 0x3F);
          pad_len = (if index < 56 then 56 - index else 120 - index)
      in net_update transform (take pad_len (0x80 # replicate 63 0)) ctx \<bind> net_update transform bits)"

definition net_le_count :: "u64 \<Rightarrow> u8 list" where
  "net_le_count n = map (\<lambda>i. ucast (drop_bit (i * 8) n AND 0xFF)) [0..<8]"

definition net_be_count :: "u64 \<Rightarrow> u8 list" where
  "net_be_count n = map (\<lambda>i. ucast (drop_bit (56 - i * 8) n AND 0xFF)) [0..<8]"

definition net_be_bytes :: "u32 \<Rightarrow> u8 list" where
  "net_be_bytes w = [ucast (drop_bit 24 w AND 0xFF), ucast (drop_bit 16 w AND 0xFF), ucast (drop_bit 8 w AND 0xFF), ucast (w AND 0xFF)]"

section \<open>MD5\<close>

definition MD5_ROTATE_LEFT :: "u32 \<Rightarrow> nat \<Rightarrow> u32" where "MD5_ROTATE_LEFT x n = push_bit n x OR drop_bit (32 - n) x"
definition MD5_F :: "u32 \<Rightarrow> u32 \<Rightarrow> u32 \<Rightarrow> u32" where "MD5_F x y z = (x AND y) OR (NOT x AND z)"
definition MD5_G :: "u32 \<Rightarrow> u32 \<Rightarrow> u32 \<Rightarrow> u32" where "MD5_G x y z = (x AND z) OR (y AND NOT z)"
definition MD5_H :: "u32 \<Rightarrow> u32 \<Rightarrow> u32 \<Rightarrow> u32" where "MD5_H x y z = x XOR y XOR z"
definition MD5_I :: "u32 \<Rightarrow> u32 \<Rightarrow> u32 \<Rightarrow> u32" where "MD5_I x y z = y XOR (x OR NOT z)"

definition MD5_FF :: "u32 \<Rightarrow> u32 \<Rightarrow> u32 \<Rightarrow> u32 \<Rightarrow> u32 \<Rightarrow> nat \<Rightarrow> u32 \<Rightarrow> u32" where
  "MD5_FF a b c d x s ac = MD5_ROTATE_LEFT (a + (MD5_F b c d + x + ac)) s + b"

definition MD5_GG :: "u32 \<Rightarrow> u32 \<Rightarrow> u32 \<Rightarrow> u32 \<Rightarrow> u32 \<Rightarrow> nat \<Rightarrow> u32 \<Rightarrow> u32" where
  "MD5_GG a b c d x s ac = MD5_ROTATE_LEFT (a + (MD5_G b c d + x + ac)) s + b"

definition MD5_HH :: "u32 \<Rightarrow> u32 \<Rightarrow> u32 \<Rightarrow> u32 \<Rightarrow> u32 \<Rightarrow> nat \<Rightarrow> u32 \<Rightarrow> u32" where
  "MD5_HH a b c d x s ac = MD5_ROTATE_LEFT (a + (MD5_H b c d + x + ac)) s + b"

definition MD5_II :: "u32 \<Rightarrow> u32 \<Rightarrow> u32 \<Rightarrow> u32 \<Rightarrow> u32 \<Rightarrow> nat \<Rightarrow> u32 \<Rightarrow> u32" where
  "MD5_II a b c d x s ac = MD5_ROTATE_LEFT (a + (MD5_I b c d + x + ac)) s + b"

text \<open>Four consecutive statements, which update the variables \<open>a\<close>, \<open>d\<close>, \<open>c\<close> and \<open>b\<close> in this order.\<close>

fun md5_quad :: "(u32 \<Rightarrow> u32 \<Rightarrow> u32 \<Rightarrow> u32 \<Rightarrow> u32 \<Rightarrow> nat \<Rightarrow> u32 \<Rightarrow> u32) \<Rightarrow> u32 list \<Rightarrow> nat \<times> nat \<times> nat \<times> nat \<Rightarrow> nat \<times> nat \<times> nat \<times> nat \<Rightarrow>
    u32 \<times> u32 \<times> u32 \<times> u32 \<Rightarrow> u32 list \<Rightarrow> u32 list" where
  "md5_quad op x (g0, g1, g2, g3) (s0, s1, s2, s3) (k0, k1, k2, k3) [a, b, c, d] =
     (let a = op a b c d (x ! g0) s0 k0;
          d = op d a b c (x ! g1) s1 k1;
          c = op c d a b (x ! g2) s2 k2;
          b = op b c d a (x ! g3) s3 k3
      in [a, b, c, d])"
| "md5_quad op x g s k st = st"

definition net_md5_transform :: "u32 list \<Rightarrow> u8 list \<Rightarrow> u32 list" where
  "net_md5_transform state block =
     (let x = map (le_word block) [0..<16];
          st = state;
          st = md5_quad MD5_FF x (0, 1, 2, 3) (7, 12, 17, 22) (0xd76aa478, 0xe8c7b756, 0x242070db, 0xc1bdceee) st;
          st = md5_quad MD5_FF x (4, 5, 6, 7) (7, 12, 17, 22) (0xf57c0faf, 0x4787c62a, 0xa8304613, 0xfd469501) st;
          st = md5_quad MD5_FF x (8, 9, 10, 11) (7, 12, 17, 22) (0x698098d8, 0x8b44f7af, 0xffff5bb1, 0x895cd7be) st;
          st = md5_quad MD5_FF x (12, 13, 14, 15) (7, 12, 17, 22) (0x6b901122, 0xfd987193, 0xa679438e, 0x49b40821) st;
          st = md5_quad MD5_GG x (1, 6, 11, 0) (5, 9, 14, 20) (0xf61e2562, 0xc040b340, 0x265e5a51, 0xe9b6c7aa) st;
          st = md5_quad MD5_GG x (5, 10, 15, 4) (5, 9, 14, 20) (0xd62f105d, 0x02441453, 0xd8a1e681, 0xe7d3fbc8) st;
          st = md5_quad MD5_GG x (9, 14, 3, 8) (5, 9, 14, 20) (0x21e1cde6, 0xc33707d6, 0xf4d50d87, 0x455a14ed) st;
          st = md5_quad MD5_GG x (13, 2, 7, 12) (5, 9, 14, 20) (0xa9e3e905, 0xfcefa3f8, 0x676f02d9, 0x8d2a4c8a) st;
          st = md5_quad MD5_HH x (5, 8, 11, 14) (4, 11, 16, 23) (0xfffa3942, 0x8771f681, 0x6d9d6122, 0xfde5380c) st;
          st = md5_quad MD5_HH x (1, 4, 7, 10) (4, 11, 16, 23) (0xa4beea44, 0x4bdecfa9, 0xf6bb4b60, 0xbebfbc70) st;
          st = md5_quad MD5_HH x (13, 0, 3, 6) (4, 11, 16, 23) (0x289b7ec6, 0xeaa127fa, 0xd4ef3085, 0x04881d05) st;
          st = md5_quad MD5_HH x (9, 12, 15, 2) (4, 11, 16, 23) (0xd9d4d039, 0xe6db99e5, 0x1fa27cf8, 0xc4ac5665) st;
          st = md5_quad MD5_II x (0, 7, 14, 5) (6, 10, 15, 21) (0xf4292244, 0x432aff97, 0xab9423a7, 0xfc93a039) st;
          st = md5_quad MD5_II x (12, 3, 10, 1) (6, 10, 15, 21) (0x655b59c3, 0x8f0ccc92, 0xffeff47d, 0x85845dd1) st;
          st = md5_quad MD5_II x (8, 15, 6, 13) (6, 10, 15, 21) (0x6fa87e4f, 0xfe2ce6e0, 0xa3014314, 0x4e0811a1) st;
          st = md5_quad MD5_II x (4, 11, 2, 9) (6, 10, 15, 21) (0xf7537e82, 0xbd3af235, 0x2ad7d2bb, 0xeb86d391) st
      in map2 (+) state st)"

definition net_md5_init :: "hash_ctx \<Rightarrow> hash_ctx" where
  "net_md5_init ctx = ctx\<lparr>hs_count := 0, hs_state := [0x67452301, 0xefcdab89, 0x98badcfe, 0x10325476]\<rparr>"

definition net_md5_update :: "u8 list \<Rightarrow> hash_ctx \<Rightarrow> hash_ctx option" where
  "net_md5_update = net_update net_md5_transform"

definition net_md5_final :: "hash_ctx \<Rightarrow> (u8 list \<times> hash_ctx) option" where
  "net_md5_final ctx = do { ctx \<leftarrow> net_finish net_md5_transform net_le_count ctx; Some (concat (map le_bytes (hs_state ctx)), ctx) }"

definition net_md5 :: "(nat \<Rightarrow> u8) \<Rightarrow> u8 list \<Rightarrow> u8 list option" where
  "net_md5 g data = do { ctx \<leftarrow> net_md5_update data (net_md5_init (uninit g)); (digest, ctx) \<leftarrow> net_md5_final ctx; Some digest }"

section \<open>SHA-1\<close>

definition SHA1_ROTATE_LEFT :: "u32 \<Rightarrow> nat \<Rightarrow> u32" where "SHA1_ROTATE_LEFT x n = push_bit n x OR drop_bit (32 - n) x"
definition SHA1_F0 :: "u32 \<Rightarrow> u32 \<Rightarrow> u32 \<Rightarrow> u32" where "SHA1_F0 b c d = (b AND c) OR (NOT b AND d)"
definition SHA1_F1 :: "u32 \<Rightarrow> u32 \<Rightarrow> u32 \<Rightarrow> u32" where "SHA1_F1 b c d = b XOR c XOR d"
definition SHA1_F2 :: "u32 \<Rightarrow> u32 \<Rightarrow> u32 \<Rightarrow> u32" where "SHA1_F2 b c d = (b AND c) OR (b AND d) OR (c AND d)"
definition SHA1_F3 :: "u32 \<Rightarrow> u32 \<Rightarrow> u32 \<Rightarrow> u32" where "SHA1_F3 b c d = b XOR c XOR d"

fun net_sha1_round :: "(u32 \<Rightarrow> u32 \<Rightarrow> u32 \<Rightarrow> u32) \<Rightarrow> u32 \<Rightarrow> u32 list \<Rightarrow> nat \<Rightarrow> u32 list \<Rightarrow> u32 list" where
  "net_sha1_round f k w i [a, b, c, d, e] = [SHA1_ROTATE_LEFT a 5 + f b c d + e + w ! i + k, a, SHA1_ROTATE_LEFT b 30, c, d]"
| "net_sha1_round f k w i st = st"

definition net_sha1_transform :: "u32 list \<Rightarrow> u8 list \<Rightarrow> u32 list" where
  "net_sha1_transform state block =
     (let w = fold (\<lambda>i w. w @ [SHA1_ROTATE_LEFT (w ! (i - 3) XOR w ! (i - 8) XOR w ! (i - 14) XOR w ! (i - 16)) 1]) [16..<80] (map (be_word block) [0..<16]);
          st = fold (net_sha1_round SHA1_F0 0x5A827999 w) [0..<20] state;
          st = fold (net_sha1_round SHA1_F1 0x6ED9EBA1 w) [20..<40] st;
          st = fold (net_sha1_round SHA1_F2 0x8F1BBCDC w) [40..<60] st;
          st = fold (net_sha1_round SHA1_F3 0xCA62C1D6 w) [60..<80] st
      in map2 (+) state st)"

definition net_sha1_init :: "hash_ctx \<Rightarrow> hash_ctx" where
  "net_sha1_init ctx = ctx\<lparr>hs_count := 0, hs_state := [0x67452301, 0xEFCDAB89, 0x98BADCFE, 0x10325476, 0xC3D2E1F0]\<rparr>"

definition net_sha1_update :: "u8 list \<Rightarrow> hash_ctx \<Rightarrow> hash_ctx option" where
  "net_sha1_update = net_update net_sha1_transform"

definition net_sha1_final :: "hash_ctx \<Rightarrow> (u8 list \<times> hash_ctx) option" where
  "net_sha1_final ctx = do { ctx \<leftarrow> net_finish net_sha1_transform net_be_count ctx; Some (concat (map net_be_bytes (hs_state ctx)), ctx) }"

definition net_sha1 :: "(nat \<Rightarrow> u8) \<Rightarrow> u8 list \<Rightarrow> u8 list option" where
  "net_sha1 g data = do { ctx \<leftarrow> net_sha1_update data (net_sha1_init (uninit g)); (digest, ctx) \<leftarrow> net_sha1_final ctx; Some digest }"

section \<open>SHA-256\<close>

definition SHA256_ROTR :: "u32 \<Rightarrow> nat \<Rightarrow> u32" where "SHA256_ROTR x n = drop_bit n x OR push_bit (32 - n) x"
definition SHA256_CH :: "u32 \<Rightarrow> u32 \<Rightarrow> u32 \<Rightarrow> u32" where "SHA256_CH x y z = (x AND y) XOR (NOT x AND z)"
definition SHA256_MAJ :: "u32 \<Rightarrow> u32 \<Rightarrow> u32 \<Rightarrow> u32" where "SHA256_MAJ x y z = (x AND y) XOR (x AND z) XOR (y AND z)"
definition SHA256_EP0 :: "u32 \<Rightarrow> u32" where "SHA256_EP0 x = SHA256_ROTR x 2 XOR SHA256_ROTR x 13 XOR SHA256_ROTR x 22"
definition SHA256_EP1 :: "u32 \<Rightarrow> u32" where "SHA256_EP1 x = SHA256_ROTR x 6 XOR SHA256_ROTR x 11 XOR SHA256_ROTR x 25"
definition SHA256_SIG0 :: "u32 \<Rightarrow> u32" where "SHA256_SIG0 x = SHA256_ROTR x 7 XOR SHA256_ROTR x 18 XOR drop_bit 3 x"
definition SHA256_SIG1 :: "u32 \<Rightarrow> u32" where "SHA256_SIG1 x = SHA256_ROTR x 17 XOR SHA256_ROTR x 19 XOR drop_bit 10 x"

definition sha256_k :: "u32 list" where
  "sha256_k =
     concat
      [[0x428a2f98, 0x71374491, 0xb5c0fbcf, 0xe9b5dba5], [0x3956c25b, 0x59f111f1, 0x923f82a4, 0xab1c5ed5],
       [0xd807aa98, 0x12835b01, 0x243185be, 0x550c7dc3], [0x72be5d74, 0x80deb1fe, 0x9bdc06a7, 0xc19bf174],
       [0xe49b69c1, 0xefbe4786, 0x0fc19dc6, 0x240ca1cc], [0x2de92c6f, 0x4a7484aa, 0x5cb0a9dc, 0x76f988da],
       [0x983e5152, 0xa831c66d, 0xb00327c8, 0xbf597fc7], [0xc6e00bf3, 0xd5a79147, 0x06ca6351, 0x14292967],
       [0x27b70a85, 0x2e1b2138, 0x4d2c6dfc, 0x53380d13], [0x650a7354, 0x766a0abb, 0x81c2c92e, 0x92722c85],
       [0xa2bfe8a1, 0xa81a664b, 0xc24b8b70, 0xc76c51a3], [0xd192e819, 0xd6990624, 0xf40e3585, 0x106aa070],
       [0x19a4c116, 0x1e376c08, 0x2748774c, 0x34b0bcb5], [0x391c0cb3, 0x4ed8aa4a, 0x5b9cca4f, 0x682e6ff3],
       [0x748f82ee, 0x78a5636f, 0x84c87814, 0x8cc70208], [0x90befffa, 0xa4506ceb, 0xbef9a3f7, 0xc67178f2]]"

fun net_sha256_round :: "u32 list \<Rightarrow> nat \<Rightarrow> u32 list \<Rightarrow> u32 list" where
  "net_sha256_round w i [a, b, c, d, e, f, g, h] =
     (let t1 = h + SHA256_EP1 e + SHA256_CH e f g + sha256_k ! i + w ! i;
          t2 = SHA256_EP0 a + SHA256_MAJ a b c
      in [t1 + t2, a, b, c, d + t1, e, f, g])"
| "net_sha256_round w i st = st"

definition net_sha256_transform :: "u32 list \<Rightarrow> u8 list \<Rightarrow> u32 list" where
  "net_sha256_transform state block =
     (let w = fold (\<lambda>i w. w @ [SHA256_SIG1 (w ! (i - 2)) + w ! (i - 7) + SHA256_SIG0 (w ! (i - 15)) + w ! (i - 16)]) [16..<64] (map (be_word block) [0..<16])
      in map2 (+) state (fold (net_sha256_round w) [0..<64] state))"

definition net_sha256_init :: "hash_ctx \<Rightarrow> hash_ctx" where
  "net_sha256_init ctx = ctx\<lparr>hs_count := 0,
     hs_state := [0x6a09e667, 0xbb67ae85, 0x3c6ef372, 0xa54ff53a, 0x510e527f, 0x9b05688c, 0x1f83d9ab, 0x5be0cd19]\<rparr>"

definition net_sha256_update :: "u8 list \<Rightarrow> hash_ctx \<Rightarrow> hash_ctx option" where
  "net_sha256_update = net_update net_sha256_transform"

definition net_sha256_final :: "hash_ctx \<Rightarrow> (u8 list \<times> hash_ctx) option" where
  "net_sha256_final ctx = do { ctx \<leftarrow> net_finish net_sha256_transform net_be_count ctx; Some (concat (map net_be_bytes (hs_state ctx)), ctx) }"

definition net_sha256 :: "(nat \<Rightarrow> u8) \<Rightarrow> u8 list \<Rightarrow> u8 list option" where
  "net_sha256 g data = do { ctx \<leftarrow> net_sha256_update data (net_sha256_init (uninit g)); (digest, ctx) \<leftarrow> net_sha256_final ctx; Some digest }"

section \<open>Keyed digests\<close>

definition net_pad :: "u8 \<Rightarrow> u8 list \<Rightarrow> u8 list" where
  "net_pad v key = map (\<lambda>b. b XOR v) (blit 0 key (replicate 64 0))"

definition net_hmac_md5 :: "(nat \<Rightarrow> u8) \<Rightarrow> u8 list \<Rightarrow> u8 list \<Rightarrow> u8 list option" where
  "net_hmac_md5 g key data = do {
     key \<leftarrow> (if length key > 64 then net_md5 g key else Some key);
     ctx \<leftarrow> net_md5_update (net_pad 0x36 key) (net_md5_init (uninit g));
     ctx \<leftarrow> net_md5_update data ctx;
     (digest, ctx) \<leftarrow> net_md5_final ctx;
     ctx \<leftarrow> net_md5_update (net_pad 0x5C key) (net_md5_init ctx);
     ctx \<leftarrow> net_md5_update digest ctx;
     (digest, ctx) \<leftarrow> net_md5_final ctx;
     Some digest
   }"

definition net_hmac_sha1 :: "(nat \<Rightarrow> u8) \<Rightarrow> u8 list \<Rightarrow> u8 list \<Rightarrow> u8 list option" where
  "net_hmac_sha1 g key data = do {
     key \<leftarrow> (if length key > 64 then net_sha1 g key else Some key);
     ctx \<leftarrow> net_sha1_update (net_pad 0x36 key) (net_sha1_init (uninit g));
     ctx \<leftarrow> net_sha1_update data ctx;
     (digest, ctx) \<leftarrow> net_sha1_final ctx;
     ctx \<leftarrow> net_sha1_update (net_pad 0x5C key) (net_sha1_init ctx);
     ctx \<leftarrow> net_sha1_update digest ctx;
     (digest, ctx) \<leftarrow> net_sha1_final ctx;
     Some digest
   }"

definition net_hmac_sha256 :: "(nat \<Rightarrow> u8) \<Rightarrow> u8 list \<Rightarrow> u8 list \<Rightarrow> u8 list option" where
  "net_hmac_sha256 g key data = do {
     key \<leftarrow> (if length key > 64 then net_sha256 g key else Some key);
     ctx \<leftarrow> net_sha256_update (net_pad 0x36 key) (net_sha256_init (uninit g));
     ctx \<leftarrow> net_sha256_update data ctx;
     (digest, ctx) \<leftarrow> net_sha256_final ctx;
     ctx \<leftarrow> net_sha256_update (net_pad 0x5C key) (net_sha256_init ctx);
     ctx \<leftarrow> net_sha256_update digest ctx;
     (digest, ctx) \<leftarrow> net_sha256_final ctx;
     Some digest
   }"

section \<open>The transformations agree\<close>

lemma md5_round_steps:
  "i < 16 \<Longrightarrow> md5_round m i [a, b, c, d] = [d, MD5_FF a b c d (m ! i) (md5_s ! i) (md5_k ! i), b, c]"
  "16 \<le> i \<Longrightarrow> i < 32 \<Longrightarrow> md5_round m i [a, b, c, d] = [d, MD5_GG a b c d (m ! ((5 * i + 1) mod 16)) (md5_s ! i) (md5_k ! i), b, c]"
  "32 \<le> i \<Longrightarrow> i < 48 \<Longrightarrow> md5_round m i [a, b, c, d] = [d, MD5_HH a b c d (m ! ((3 * i + 5) mod 16)) (md5_s ! i) (md5_k ! i), b, c]"
  "48 \<le> i \<Longrightarrow> md5_round m i [a, b, c, d] = [d, MD5_II a b c d (m ! ((7 * i) mod 16)) (md5_s ! i) (md5_k ! i), b, c]"
  by (simp_all add: MD5_FF_def MD5_GG_def MD5_HH_def MD5_II_def MD5_F_def MD5_G_def MD5_H_def MD5_I_def MD5_ROTATE_LEFT_def md5_left_rotate_def
      ac_simps)

lemma quad_by_steps:
  assumes "\<And>a b c d. r 0 [a, b, c, d] = [d, op a b c d (x ! g0) s0 k0, b, c]" "\<And>a b c d. r 1 [a, b, c, d] = [d, op a b c d (x ! g1) s1 k1, b, c]"
    "\<And>a b c d. r 2 [a, b, c, d] = [d, op a b c d (x ! g2) s2 k2, b, c]" "\<And>a b c d. r 3 [a, b, c, d] = [d, op a b c d (x ! g3) s3 k3, b, c]"
    "\<And>i st. length st \<noteq> 4 \<Longrightarrow> r i st = st"
  shows "r 3 (r 2 (r 1 (r 0 st))) = md5_quad op x (g0, g1, g2, g3) (s0, s1, s2, s3) (k0, k1, k2, k3) st"
proof (cases "length st = 4")
  case True
  then obtain a b c d where "st = [a, b, c, d]" by (auto simp: numeral_eq_Suc length_Suc_conv)
  then show ?thesis by (simp add: assms(1-4) Let_def)
next
  case False
  then have "md5_quad op x (g0, g1, g2, g3) (s0, s1, s2, s3) (k0, k1, k2, k3) st = st"
    by (cases "(op, x, (g0, g1, g2, g3), (s0, s1, s2, s3), (k0, k1, k2, k3), st)" rule: md5_quad.cases) auto
  then show ?thesis using False by (simp add: assms(5))
qed

lemma md5_round_other: "length st \<noteq> 4 \<Longrightarrow> md5_round m i st = st"
  by (cases "(m, i, st)" rule: md5_round.cases) auto

lemma md5_quads:
  "i + 3 < 16 \<Longrightarrow> md5_round m (i + 3) (md5_round m (i + 2) (md5_round m (i + 1) (md5_round m i st))) =
     md5_quad MD5_FF m (i, i + 1, i + 2, i + 3) (md5_s ! i, md5_s ! (i + 1), md5_s ! (i + 2), md5_s ! (i + 3))
       (md5_k ! i, md5_k ! (i + 1), md5_k ! (i + 2), md5_k ! (i + 3)) st"
  "16 \<le> i \<Longrightarrow> i + 3 < 32 \<Longrightarrow> md5_round m (i + 3) (md5_round m (i + 2) (md5_round m (i + 1) (md5_round m i st))) =
     md5_quad MD5_GG m ((5 * i + 1) mod 16, (5 * (i + 1) + 1) mod 16, (5 * (i + 2) + 1) mod 16, (5 * (i + 3) + 1) mod 16)
       (md5_s ! i, md5_s ! (i + 1), md5_s ! (i + 2), md5_s ! (i + 3)) (md5_k ! i, md5_k ! (i + 1), md5_k ! (i + 2), md5_k ! (i + 3)) st"
  "32 \<le> i \<Longrightarrow> i + 3 < 48 \<Longrightarrow> md5_round m (i + 3) (md5_round m (i + 2) (md5_round m (i + 1) (md5_round m i st))) =
     md5_quad MD5_HH m ((3 * i + 5) mod 16, (3 * (i + 1) + 5) mod 16, (3 * (i + 2) + 5) mod 16, (3 * (i + 3) + 5) mod 16)
       (md5_s ! i, md5_s ! (i + 1), md5_s ! (i + 2), md5_s ! (i + 3)) (md5_k ! i, md5_k ! (i + 1), md5_k ! (i + 2), md5_k ! (i + 3)) st"
  "48 \<le> i \<Longrightarrow> md5_round m (i + 3) (md5_round m (i + 2) (md5_round m (i + 1) (md5_round m i st))) =
     md5_quad MD5_II m ((7 * i) mod 16, (7 * (i + 1)) mod 16, (7 * (i + 2)) mod 16, (7 * (i + 3)) mod 16)
       (md5_s ! i, md5_s ! (i + 1), md5_s ! (i + 2), md5_s ! (i + 3)) (md5_k ! i, md5_k ! (i + 1), md5_k ! (i + 2), md5_k ! (i + 3)) st"
  using quad_by_steps [of "\<lambda>j. md5_round m (i + j)" _ m, OF _ _ _ _ md5_round_other, where st = st]
  by (simp_all add: md5_round_steps del: md5_round.simps)

lemma fold_quads: "fold f [0..<4 * n] st = fold (\<lambda>j st. f (4 * j + 3) (f (4 * j + 2) (f (4 * j + 1) (f (4 * j) st)))) [0..<n] st"
proof (induction n)
  case (Suc n)
  have "[0..<4 * n + 4] = [0..<4 * n] @ [4 * n..<4 * n + 4]" by (rule upt_add_eq_append) simp
  moreover have "[k..<k + 4] = [k, k + 1, k + 2, k + 3]" for k :: nat by (simp add: upt_conv_Cons)
  moreover have "4 * Suc n = 4 * n + 4" by simp
  ultimately have e: "[0..<4 * Suc n] = [0..<4 * n] @ [4 * n, 4 * n + 1, 4 * n + 2, 4 * n + 3]" by metis
  show ?case unfolding e using Suc by simp
qed simp

lemma md5_transform_net: "net_md5_transform st block = md5_transform st block"
proof -
  define m where "m = map (le_word block) [0..<16]"
  define q where "q = (\<lambda>j st. md5_round m (4 * j + 3) (md5_round m (4 * j + 2) (md5_round m (4 * j + 1) (md5_round m (4 * j) st))))"
  have s: "md5_transform st block = map2 (+) st (fold q [0..<16] st)"
    using fold_quads [of "md5_round m" 16 st] by (simp add: md5_transform_def m_def q_def)
  have u: "fold q [0..<16] st = q 15 (q 14 (q 13 (q 12 (q 11 (q 10 (q 9 (q 8 (q 7 (q 6 (q 5 (q 4 (q 3 (q 2 (q 1 (q 0 st)))))))))))))))"
    by (simp add: upt_rec numeral_eq_Suc)
  have F: "j < 4 \<Longrightarrow> q j st = md5_quad MD5_FF m (4 * j, 4 * j + 1, 4 * j + 2, 4 * j + 3)
      (md5_s ! (4 * j), md5_s ! (4 * j + 1), md5_s ! (4 * j + 2), md5_s ! (4 * j + 3)) (md5_k ! (4 * j), md5_k ! (4 * j + 1), md5_k ! (4 * j + 2), md5_k ! (4 * j + 3)) st"
    for j st unfolding q_def by (rule md5_quads(1)) simp
  have G: "4 \<le> j \<Longrightarrow> j < 8 \<Longrightarrow> q j st = md5_quad MD5_GG m ((5 * (4 * j) + 1) mod 16, (5 * (4 * j + 1) + 1) mod 16, (5 * (4 * j + 2) + 1) mod 16, (5 * (4 * j + 3) + 1) mod 16)
      (md5_s ! (4 * j), md5_s ! (4 * j + 1), md5_s ! (4 * j + 2), md5_s ! (4 * j + 3)) (md5_k ! (4 * j), md5_k ! (4 * j + 1), md5_k ! (4 * j + 2), md5_k ! (4 * j + 3)) st"
    for j st unfolding q_def by (rule md5_quads(2)) simp_all
  have H: "8 \<le> j \<Longrightarrow> j < 12 \<Longrightarrow> q j st = md5_quad MD5_HH m ((3 * (4 * j) + 5) mod 16, (3 * (4 * j + 1) + 5) mod 16, (3 * (4 * j + 2) + 5) mod 16, (3 * (4 * j + 3) + 5) mod 16)
      (md5_s ! (4 * j), md5_s ! (4 * j + 1), md5_s ! (4 * j + 2), md5_s ! (4 * j + 3)) (md5_k ! (4 * j), md5_k ! (4 * j + 1), md5_k ! (4 * j + 2), md5_k ! (4 * j + 3)) st"
    for j st unfolding q_def by (rule md5_quads(3)) simp_all
  have I: "12 \<le> j \<Longrightarrow> q j st = md5_quad MD5_II m ((7 * (4 * j)) mod 16, (7 * (4 * j + 1)) mod 16, (7 * (4 * j + 2)) mod 16, (7 * (4 * j + 3)) mod 16)
      (md5_s ! (4 * j), md5_s ! (4 * j + 1), md5_s ! (4 * j + 2), md5_s ! (4 * j + 3)) (md5_k ! (4 * j), md5_k ! (4 * j + 1), md5_k ! (4 * j + 2), md5_k ! (4 * j + 3)) st"
    for j st unfolding q_def by (rule md5_quads(4)) simp
  have Q:
      "q 0 st = md5_quad MD5_FF m (0, 1, 2, 3) (7, 12, 17, 22) (0xd76aa478, 0xe8c7b756, 0x242070db, 0xc1bdceee) st"
      "q 1 st = md5_quad MD5_FF m (4, 5, 6, 7) (7, 12, 17, 22) (0xf57c0faf, 0x4787c62a, 0xa8304613, 0xfd469501) st"
      "q 2 st = md5_quad MD5_FF m (8, 9, 10, 11) (7, 12, 17, 22) (0x698098d8, 0x8b44f7af, 0xffff5bb1, 0x895cd7be) st"
      "q 3 st = md5_quad MD5_FF m (12, 13, 14, 15) (7, 12, 17, 22) (0x6b901122, 0xfd987193, 0xa679438e, 0x49b40821) st"
      "q 4 st = md5_quad MD5_GG m (1, 6, 11, 0) (5, 9, 14, 20) (0xf61e2562, 0xc040b340, 0x265e5a51, 0xe9b6c7aa) st"
      "q 5 st = md5_quad MD5_GG m (5, 10, 15, 4) (5, 9, 14, 20) (0xd62f105d, 0x02441453, 0xd8a1e681, 0xe7d3fbc8) st"
      "q 6 st = md5_quad MD5_GG m (9, 14, 3, 8) (5, 9, 14, 20) (0x21e1cde6, 0xc33707d6, 0xf4d50d87, 0x455a14ed) st"
      "q 7 st = md5_quad MD5_GG m (13, 2, 7, 12) (5, 9, 14, 20) (0xa9e3e905, 0xfcefa3f8, 0x676f02d9, 0x8d2a4c8a) st"
      "q 8 st = md5_quad MD5_HH m (5, 8, 11, 14) (4, 11, 16, 23) (0xfffa3942, 0x8771f681, 0x6d9d6122, 0xfde5380c) st"
      "q 9 st = md5_quad MD5_HH m (1, 4, 7, 10) (4, 11, 16, 23) (0xa4beea44, 0x4bdecfa9, 0xf6bb4b60, 0xbebfbc70) st"
      "q 10 st = md5_quad MD5_HH m (13, 0, 3, 6) (4, 11, 16, 23) (0x289b7ec6, 0xeaa127fa, 0xd4ef3085, 0x04881d05) st"
      "q 11 st = md5_quad MD5_HH m (9, 12, 15, 2) (4, 11, 16, 23) (0xd9d4d039, 0xe6db99e5, 0x1fa27cf8, 0xc4ac5665) st"
      "q 12 st = md5_quad MD5_II m (0, 7, 14, 5) (6, 10, 15, 21) (0xf4292244, 0x432aff97, 0xab9423a7, 0xfc93a039) st"
      "q 13 st = md5_quad MD5_II m (12, 3, 10, 1) (6, 10, 15, 21) (0x655b59c3, 0x8f0ccc92, 0xffeff47d, 0x85845dd1) st"
      "q 14 st = md5_quad MD5_II m (8, 15, 6, 13) (6, 10, 15, 21) (0x6fa87e4f, 0xfe2ce6e0, 0xa3014314, 0x4e0811a1) st"
      "q 15 st = md5_quad MD5_II m (4, 11, 2, 9) (6, 10, 15, 21) (0xf7537e82, 0xbd3af235, 0x2ad7d2bb, 0xeb86d391) st" for st
    by (simp_all add: F G H I md5_s_def md5_k_def flip: numeral_2_eq_2)
  show ?thesis by (simp only: s u net_md5_transform_def Let_def m_def [symmetric] Q)
qed

lemma sha1_schedule_net: "fold (\<lambda>i w. w @ [SHA1_ROTATE_LEFT (w ! (i - 3) XOR w ! (i - 8) XOR w ! (i - 14) XOR w ! (i - 16)) 1]) [16..<80] (map (be_word block) [0..<16]) = sha1_schedule block"
proof -
  have "SHA1_ROTATE_LEFT = sha1_left_rotate" by (simp add: fun_eq_iff SHA1_ROTATE_LEFT_def sha1_left_rotate_def)
  then show ?thesis by (simp only: sha1_schedule_def)
qed

lemma sha1_round_other: "length st \<noteq> 5 \<Longrightarrow> sha1_round w i st = st" "length st \<noteq> 5 \<Longrightarrow> net_sha1_round f k w i st = st"
  by (cases "(w, i, st)" rule: sha1_round.cases; simp) (cases "(f, k, w, i, st)" rule: net_sha1_round.cases; simp)

lemma sha1_round_net:
  assumes "(f, k) = (if i < 20 then (SHA1_F0, 0x5A827999) else if i < 40 then (SHA1_F1, 0x6ED9EBA1) else if i < 60 then (SHA1_F2, 0x8F1BBCDC)
      else (SHA1_F3, 0xCA62C1D6))"
  shows "net_sha1_round f k w i st = sha1_round w i st"
proof (cases "length st = 5")
  case True
  then obtain a b c d e where "st = [a, b, c, d, e]" by (auto simp: numeral_eq_Suc length_Suc_conv)
  then show ?thesis using assms
    by (auto simp: SHA1_ROTATE_LEFT_def sha1_left_rotate_def SHA1_F0_def SHA1_F1_def SHA1_F2_def SHA1_F3_def ac_simps split: if_splits)
qed (simp add: sha1_round_other)

lemma sha1_transform_net: "net_sha1_transform st block = sha1_transform st block"
proof -
  have c: "fold (net_sha1_round f k w) is st = fold (sha1_round w) is st"
    if "\<And>i. i \<in> set is \<Longrightarrow> (f, k) = (if i < 20 then (SHA1_F0, 0x5A827999) else if i < 40 then (SHA1_F1, 0x6ED9EBA1) else if i < 60 then (SHA1_F2, 0x8F1BBCDC)
      else (SHA1_F3, 0xCA62C1D6))" for f k w "is" st
    using that by (intro List.fold_cong) (auto intro!: ext sha1_round_net)
  have d: "fold (net_sha1_round SHA1_F0 0x5A827999 w) [0..<20] st = fold (sha1_round w) [0..<20] st"
      "fold (net_sha1_round SHA1_F1 0x6ED9EBA1 w) [20..<40] st = fold (sha1_round w) [20..<40] st"
      "fold (net_sha1_round SHA1_F2 0x8F1BBCDC w) [40..<60] st = fold (sha1_round w) [40..<60] st"
      "fold (net_sha1_round SHA1_F3 0xCA62C1D6 w) [60..<80] st = fold (sha1_round w) [60..<80] st" for w st
    by (rule c, simp only: set_upt atLeastLessThan_iff, simp)+
  have u: "[0..<80] = (([0..<20] @ [20..<40]) @ [40..<60]) @ [60..<80 :: nat]"
    using upt_add_eq_append [of 0 20 20] upt_add_eq_append [of 0 40 20] upt_add_eq_append [of 0 60 20] by simp
  show ?thesis unfolding net_sha1_transform_def sha1_transform_def sha1_schedule_net u by (simp only: Let_def d fold_append comp_apply)
qed

lemma sha256_functions_net:
  "SHA256_CH = sha256_choose" "SHA256_MAJ = sha256_majority" "SHA256_EP0 = sha256_upper_sigma0" "SHA256_EP1 = sha256_upper_sigma1"
  "SHA256_SIG0 = sha256_lower_sigma0" "SHA256_SIG1 = sha256_lower_sigma1" "sha256_k = g_sha256_constants"
  by (simp_all add: fun_eq_iff SHA256_CH_def SHA256_MAJ_def SHA256_EP0_def SHA256_EP1_def SHA256_SIG0_def SHA256_SIG1_def SHA256_ROTR_def
      sha256_choose_def sha256_majority_def sha256_upper_sigma0_def sha256_upper_sigma1_def sha256_lower_sigma0_def sha256_lower_sigma1_def
      sha256_rotr_def sha256_k_def g_sha256_constants_def)

lemma sha256_round_net: "net_sha256_round w i st = sha256_round w i st"
  by (cases "(w, i, st)" rule: net_sha256_round.cases) (simp_all add: sha256_functions_net Let_def)

lemma sha256_transform_net: "net_sha256_transform st block = sha256_transform st block"
proof -
  have "net_sha256_round w = sha256_round w" for w by (simp add: fun_eq_iff sha256_round_net)
  then show ?thesis by (simp only: net_sha256_transform_def sha256_transform_def sha256_schedule_def sha256_functions_net Let_def)
qed

section \<open>The streaming functions agree\<close>

definition net_absorbed :: "(u32 list \<Rightarrow> u8 list \<Rightarrow> u32 list) \<Rightarrow> u32 list \<Rightarrow> hash_ctx \<Rightarrow> u8 list \<Rightarrow> bool" where
  "net_absorbed transform iv ctx xs \<longleftrightarrow> hs_state ctx = hash_blocks transform iv xs \<and> hs_count ctx = of_nat (8 * length xs) \<and> length (hs_buffer ctx) = 64 \<and>
     take (length xs mod 64) (hs_buffer ctx) = pend xs"

declare block_loop.simps [simp del]

lemma bit_index: "unat (drop_bit 3 (of_nat (8 * n) :: u64) AND 0x3F) = n mod 64"
proof -
  have "w AND 0x3F = take_bit 6 w" for w :: u64 by (simp add: take_bit_eq_mask mask_eq_exp_minus_1)
  then have "unat (drop_bit 3 (of_nat (8 * n) :: u64) AND 0x3F) = take_bit 6 (drop_bit 3 (unat (of_nat (8 * n) :: u64)))"
    by (simp only: unsigned_take_bit_eq unat_drop_bit_eq)
  also have "\<dots> = unat (of_nat (8 * n) :: u64) div 8 mod 64" by (simp add: take_bit_eq_mod drop_bit_eq_div del: of_nat_mult)
  also have "unat (of_nat (8 * n) :: u64) = 8 * (n mod 2 ^ 61)" by (simp only: unat_of_nat) (simp add: mult_mod_right)
  also have "8 * (n mod 2 ^ 61) div 8 mod 64 = n mod 64" by (simp add: mod_mod_cancel)
  finally show ?thesis .
qed

lemma block_loop_spec:
  assumes "length data \<le> HASH_LIMIT" "i \<le> length data"
  shows "\<exists>j. block_loop transform data i st = Some (j, hash_blocks transform st (drop i data)) \<and> drop j data = pend (drop i data)"
  using assms
proof (induction transform data i st rule: block_loop.induct)
  case (1 transform data i st)
  have w: "unat (of_nat (i + 63) :: u32) = i + 63" using "1.prems" by (simp only: unat_of_nat) (simp add: HASH_LIMIT_def)
  show ?case
  proof (cases "i + 63 < length data")
    case True
    let ?t = "transform st (take 64 (drop i data))"
    have d: "drop i data = take 64 (drop i data) @ drop (i + 64) data" by (metis add.commute append_take_drop_id drop_drop)
    have l: "length (take 64 (drop i data)) = 64" using True by simp
    have h: "hash_blocks transform st (drop i data) = hash_blocks transform ?t (drop (i + 64) data)"
      by (subst d) (rule hash_blocks_first [OF l])
    have "length (pend (take 64 (drop i data))) = 0" unfolding length_pend l by simp
    then have "pend (take 64 (drop i data)) = []" by (simp only: length_0_conv)
    then have "pend (drop i data) = pend (drop (i + 64) data)" using pend_append [of "take 64 (drop i data)" "drop (i + 64) data"] d by simp
    moreover have "block_loop transform data i st = block_loop transform data (i + 64) ?t"
      using True w by (simp add: block_loop.simps [of transform data i])
    moreover obtain j where "block_loop transform data (i + 64) ?t = Some (j, hash_blocks transform ?t (drop (i + 64) data))"
        "drop j data = pend (drop (i + 64) data)"
      using "1.IH" "1.prems"(1) True w by auto
    ultimately show ?thesis using h by simp
  next
    case False
    then have "length (drop i data) < 64" using "1.prems"(2) by simp
    moreover have "block_loop transform data i st = Some (i, st)" using False w by (simp add: block_loop.simps)
    ultimately show ?thesis by (simp add: hash_blocks_short pend_short)
  qed
qed

lemma net_update_spec:
  assumes "net_absorbed transform iv ctx xs" "length data \<le> HASH_LIMIT"
  shows "\<exists>ctx'. net_update transform data ctx = Some ctx' \<and> net_absorbed transform iv ctx' (xs @ data)"
proof -
  define r where r: "r = length xs mod 64"
  have A: "hs_state ctx = hash_blocks transform iv xs" "hs_count ctx = of_nat (8 * length xs)" "length (hs_buffer ctx) = 64" "take r (hs_buffer ctx) = pend xs"
    using assms(1) by (simp_all add: net_absorbed_def r)
  have r64: "r < 64" "length (pend xs) = r" by (simp_all add: r)
  have ix: "unat (drop_bit 3 (hs_count ctx) AND 0x3F) = r" unfolding A(2) r by (rule bit_index)
  define c where c: "c = hs_count ctx + push_bit 3 (of_nat (length data))"
  have cc: "c = of_nat (8 * length (xs @ data))" by (simp add: c A(2) push_bit_eq_mult)
  have hb: "hash_blocks transform iv (xs @ data) = hash_blocks transform (hs_state ctx) (pend xs @ data)" by (simp add: A(1) flip: hash_blocks_pend)
  have pp: "pend (xs @ data) = pend (pend xs @ data)" by (rule pend_append)
  show ?thesis
  proof (cases "length data \<ge> 64 - r")
    case True
    define z where z: "z = pend xs @ take (64 - r) data"
    have lz: "length z = 64" using True r64 by (simp add: z)
    have bz: "blit r (take (64 - r) data) (hs_buffer ctx) = z" using A(3,4) True r64 by (simp add: blit_def z)
    obtain j where j: "block_loop transform data (64 - r) (transform (hs_state ctx) z) = Some (j, hash_blocks transform (transform (hs_state ctx) z) (drop (64 - r) data))"
        "drop j data = pend (drop (64 - r) data)" using block_loop_spec [OF assms(2) True] by blast
    let ?c = "ctx\<lparr>hs_count := c, hs_buffer := blit 0 (drop j data) z, hs_state := hash_blocks transform (transform (hs_state ctx) z) (drop (64 - r) data)\<rparr>"
    have e: "net_update transform data ctx = Some ?c"
      unfolding net_update_def Let_def ix using True by (simp add: bz j(1) flip: c)
    have zd: "pend xs @ data = z @ drop (64 - r) data" by (simp add: z)
    have "length (pend z) = 0" unfolding length_pend lz by simp
    then have "pend z = []" by (simp only: length_0_conv)
    then have p: "pend (xs @ data) = drop j data" unfolding pp zd pend_append [of z] using j(2) by simp
    then have l: "length (drop j data) = length (xs @ data) mod 64" by (metis length_pend)
    moreover have "length (xs @ data) mod 64 < 64" by simp
    ultimately have "length (blit 0 (drop j data) z) = 64 \<and> take (length (xs @ data) mod 64) (blit 0 (drop j data) z) = drop j data"
      using lz length_blit [of 0 "drop j data" z] take_blit [of 0 z "drop j data"] by simp
    moreover have "hash_blocks transform iv (xs @ data) = hs_state ?c" unfolding hb zd hash_blocks_first [OF lz] by simp
    ultimately have "net_absorbed transform iv ?c (xs @ data)" using p cc by (simp add: net_absorbed_def)
    then show ?thesis using e by blast
  next
    case False
    let ?c = "ctx\<lparr>hs_count := c, hs_buffer := blit r data (hs_buffer ctx)\<rparr>"
    have e: "net_update transform data ctx = Some ?c" unfolding net_update_def Let_def ix using False by (simp flip: c)
    have s: "length (pend xs @ data) < 64" using False r64 by simp
    have m: "length (xs @ data) mod 64 = r + length data"
    proof -
      have "length (xs @ data) mod 64 = (r + length data) mod 64" by (simp add: r mod_add_left_eq)
      then show ?thesis using False r64 by simp
    qed
    have "length (blit r data (hs_buffer ctx)) = 64" "take (r + length data) (blit r data (hs_buffer ctx)) = pend xs @ data"
      using length_blit [of r data "hs_buffer ctx"] take_blit [of r "hs_buffer ctx" data] A(3,4) False r64 by simp_all
    then have "net_absorbed transform iv ?c (xs @ data)"
      using m cc hb pp s by (simp add: net_absorbed_def hash_blocks_short pend_short)
    then show ?thesis using e by blast
  qed
qed

lemma net_finish_spec:
  assumes "net_absorbed transform iv ctx xs" "\<And>n. length (count_bytes n) = 8"
  shows "\<exists>ctx'. net_finish transform count_bytes ctx = Some ctx' \<and> hs_state ctx' = hash_blocks transform iv (md_pad count_bytes xs) \<and> length (hs_buffer ctx') = 64"
proof -
  define r where r: "r = length xs mod 64"
  have cnt: "hs_count ctx = of_nat (8 * length xs)" using assms(1) by (simp add: net_absorbed_def)
  have ix: "unat (drop_bit 3 (hs_count ctx) AND 0x3F) = r" unfolding cnt r by (rule bit_index)
  define k where k: "k = (if r < 56 then 56 - r else 120 - r)"
  have r64: "r < 64" by (simp add: r)
  have k1: "k \<le> 64" "k = Suc ((119 - r) mod 64)"
  proof -
    show "k \<le> 64" unfolding k by auto
    show "k = Suc ((119 - r) mod 64)" using r64 le_mod_geq [of 64 "119 - r"] by (auto simp: k)
  qed
  define p where p: "p = 0x80 # replicate ((119 - r) mod 64) (0 :: u8)"
  have tk: "take k (0x80 # replicate 63 0) = p" using k1 by (simp add: p take_Cons')
  have "length p \<le> HASH_LIMIT" using r64 by (simp add: p HASH_LIMIT_def)
  then obtain c1 where c1: "net_update transform p ctx = Some c1" "net_absorbed transform iv c1 (xs @ p)" using net_update_spec [OF assms(1)] by blast
  have "length (count_bytes (hs_count ctx)) \<le> HASH_LIMIT" by (simp add: assms(2) HASH_LIMIT_def)
  then obtain c2 where c2: "net_update transform (count_bytes (hs_count ctx)) c1 = Some c2" "net_absorbed transform iv c2 ((xs @ p) @ count_bytes (hs_count ctx))"
    using net_update_spec [OF c1(2)] by blast
  have "net_finish transform count_bytes ctx = Some c2" unfolding net_finish_def Let_def ix k [symmetric] tk using c1(1) c2(1) by simp
  moreover have "(xs @ p) @ count_bytes (hs_count ctx) = md_pad count_bytes xs" by (simp add: md_pad_def p r cnt)
  ultimately show ?thesis using c2(2) by (simp add: net_absorbed_def)
qed

section \<open>The digests satisfy the contract\<close>

lemma low_byte: "ucast (w AND 0xFF :: 'a :: len word) = (ucast w :: u8)"
proof (rule bit_word_eqI)
  fix n assume "n < LENGTH(8)"
  then have "bit (0xFF :: 'a word) n = (n < LENGTH('a))" using bit_mask_iff [of 8 n, where 'a = "'a word"] by (simp add: mask_eq_exp_minus_1)
  then show "bit (ucast (w AND 0xFF) :: u8) n = bit (ucast w :: u8) n" using \<open>n < LENGTH(8)\<close> bit_imp_le_length [of w n] by (auto simp: bit_simps)
qed

lemma net_bytes: "net_le_count = le_count" "net_be_count = be_count" "net_be_bytes = be_bytes"
  by (simp_all add: fun_eq_iff net_le_count_def net_be_count_def net_be_bytes_def le_count_def be_count_def be_bytes_def low_byte upt_conv_Cons)

lemma net_transforms: "net_md5_transform = md5_transform" "net_sha1_transform = sha1_transform" "net_sha256_transform = sha256_transform"
  by (simp_all add: fun_eq_iff md5_transform_net sha1_transform_net sha256_transform_net)

lemma net_digest_laws:
  assumes "\<And>xs. H xs = md_digest transform iv count_bytes word_bytes xs" "hs_state ini = iv" "hs_count ini = 0" "length (hs_buffer ini) = 64"
    "\<And>d c. upd d c = net_update transform d c"
    "\<And>c. fin c = (net_finish transform count_bytes c \<bind> (\<lambda>ctx. Some (concat (map word_bytes (hs_state ctx)), ctx)))"
    "\<And>n. length (count_bytes n) = 8" "\<And>xs. length (H xs) \<le> 64"
  shows "digest ini upd (\<lambda>c. map_option fst (fin c)) (net_absorbed transform iv) H"
proof
  show "net_absorbed transform iv ini []" using assms(2-4) by (simp add: net_absorbed_def hash_blocks_short pend_short)
next
  fix c xs and ys :: "u8 list"
  assume "net_absorbed transform iv c xs" "length ys \<le> HASH_LIMIT"
  then show "\<exists>c'. upd ys c = Some c' \<and> net_absorbed transform iv c' (xs @ ys)" unfolding assms(5) by (rule net_update_spec)
next
  fix c xs
  assume "net_absorbed transform iv c xs"
  from net_finish_spec [where count_bytes = count_bytes, OF this assms(7)] show "map_option fst (fin c) = Some (H xs)" by (auto simp: assms(1,6) md_digest_def)
qed (rule assms(8))

lemmas net_defs = net_md5_init_def net_sha1_init_def net_sha256_init_def net_md5_update_def net_sha1_update_def net_sha256_update_def
  net_md5_final_def net_sha1_final_def net_sha256_final_def net_bytes net_transforms uninit_def

lemma net_pad_key: "length (H key) \<le> 64 \<Longrightarrow> net_pad v (if length key > 64 then H key else key) = map (\<lambda>b. b XOR v) (hmac_key H key)"
  by (simp add: net_pad_def hmac_key_def blit_def Let_def)

lemma map_fst_bind: "map_option fst x = Some d \<Longrightarrow> \<exists>c. x = Some (d, c)"
  by auto

lemma net_keyed:
  assumes D: "\<And>c. length (hs_buffer c) = 64 \<Longrightarrow> digest (ini c) upd (\<lambda>c. map_option fst (fin c)) (net_absorbed transform iv) H"
    and F: "\<And>c xs d c'. net_absorbed transform iv c xs \<Longrightarrow> fin c = Some (d, c') \<Longrightarrow> length (hs_buffer c') = 64"
    and L: "length p1 = 64" "length p2 = 64" "length data \<le> HASH_LIMIT" "length (hs_buffer c0) = 64"
  shows "do { ctx \<leftarrow> upd p1 (ini c0); ctx \<leftarrow> upd data ctx; (d, ctx) \<leftarrow> fin ctx; ctx \<leftarrow> upd p2 (ini ctx); ctx \<leftarrow> upd d ctx; (d, ctx) \<leftarrow> fin ctx; Some d } =
    Some (H (p2 @ H (p1 @ data)))"
proof -
  have l: "length p1 \<le> HASH_LIMIT" "length p2 \<le> HASH_LIMIT" using L by (simp_all add: HASH_LIMIT_def)
  note D0 = D [OF L(4)]
  obtain c1 where c1: "upd p1 (ini c0) = Some c1" "net_absorbed transform iv c1 p1" using digest.absorb [OF D0 digest.start [OF D0] l(1)] by auto
  obtain c2 where c2: "upd data c1 = Some c2" "net_absorbed transform iv c2 (p1 @ data)" using digest.absorb [OF D0 c1(2) L(3)] by blast
  obtain c3 where c3: "fin c2 = Some (H (p1 @ data), c3)" using map_fst_bind [OF digest.finish [OF D0 c2(2)]] by blast
  note D3 = D [OF F [OF c2(2) c3]]
  have h: "length (H (p1 @ data)) \<le> HASH_LIMIT" using digest.fits [OF D0, of "p1 @ data"] by (simp add: HASH_LIMIT_def)
  obtain c4 where c4: "upd p2 (ini c3) = Some c4" "net_absorbed transform iv c4 p2" using digest.absorb [OF D3 digest.start [OF D3] l(2)] by auto
  obtain c5 where c5: "upd (H (p1 @ data)) c4 = Some c5" "net_absorbed transform iv c5 (p2 @ H (p1 @ data))" using digest.absorb [OF D3 c4(2) h] by blast
  obtain c6 where c6: "fin c5 = Some (H (p2 @ H (p1 @ data)), c6)" using map_fst_bind [OF digest.finish [OF D3 c5(2)]] by blast
  show ?thesis by (simp add: c1(1) c2(1) c3 c4(1) c5(1) c6)
qed

lemma net_final_buffer:
  assumes "net_absorbed transform iv c xs" "\<And>n. length (count_bytes n) = 8"
    "(net_finish transform count_bytes c \<bind> (\<lambda>ctx. Some (concat (map word_bytes (hs_state ctx)), ctx))) = Some (d, c')"
  shows "length (hs_buffer c') = 64"
  using net_finish_spec [where count_bytes = count_bytes, OF assms(1,2)] assms(3) by auto

lemma net_init_laws:
  assumes "length (hs_buffer c) = 64"
  shows "digest (net_md5_init c) net_md5_update (\<lambda>c. map_option fst (net_md5_final c)) (net_absorbed md5_transform (hs_state md5_init)) md5"
    "digest (net_sha1_init c) net_sha1_update (\<lambda>c. map_option fst (net_sha1_final c)) (net_absorbed sha1_transform (hs_state sha1_init)) sha1"
    "digest (net_sha256_init c) net_sha256_update (\<lambda>c. map_option fst (net_sha256_final c)) (net_absorbed sha256_transform (hs_state sha256_init)) sha256"
proof -
  show "digest (net_md5_init c) net_md5_update (\<lambda>c. map_option fst (net_md5_final c)) (net_absorbed md5_transform (hs_state md5_init)) md5"
    by (rule net_digest_laws [OF digest_specs(2)]) (simp_all add: assms net_defs digest_lengths length_bytes md5_init_def)
  show "digest (net_sha1_init c) net_sha1_update (\<lambda>c. map_option fst (net_sha1_final c)) (net_absorbed sha1_transform (hs_state sha1_init)) sha1"
    by (rule net_digest_laws [OF digest_specs(3)]) (simp_all add: assms net_defs digest_lengths length_bytes sha1_init_def)
  show "digest (net_sha256_init c) net_sha256_update (\<lambda>c. map_option fst (net_sha256_final c)) (net_absorbed sha256_transform (hs_state sha256_init)) sha256"
    by (rule net_digest_laws [OF digest_specs(1)]) (simp_all add: assms net_defs digest_lengths length_bytes sha256_init_def)
qed

interpretation net_md5: digest "net_md5_init (uninit g)" net_md5_update "\<lambda>c. map_option fst (net_md5_final c)"
    "net_absorbed md5_transform (hs_state md5_init)" md5 for g
  by (rule net_init_laws(1)) (simp add: uninit_def)

interpretation net_sha1: digest "net_sha1_init (uninit g)" net_sha1_update "\<lambda>c. map_option fst (net_sha1_final c)"
    "net_absorbed sha1_transform (hs_state sha1_init)" sha1 for g
  by (rule net_init_laws(2)) (simp add: uninit_def)

interpretation net_sha256: digest "net_sha256_init (uninit g)" net_sha256_update "\<lambda>c. map_option fst (net_sha256_final c)"
    "net_absorbed sha256_transform (hs_state sha256_init)" sha256 for g
  by (rule net_init_laws(3)) (simp add: uninit_def)

lemma bind_fst: "x \<bind> (\<lambda>(d, c). Some d) = map_option fst x"
  by (cases x) auto

lemma net_oneshot:
  assumes "length data \<le> HASH_LIMIT"
  shows "net_md5 g data = Some (md5 data)" "net_sha1 g data = Some (sha1 data)" "net_sha256 g data = Some (sha256 data)"
  using net_md5.one_part [OF assms] net_sha1.one_part [OF assms] net_sha256.one_part [OF assms]
  by (simp_all add: net_md5_def net_sha1_def net_sha256_def bind_fst)

lemma net_final_lengths:
  "net_absorbed md5_transform iv c xs \<Longrightarrow> net_md5_final c = Some (d, c') \<Longrightarrow> length (hs_buffer c') = 64"
  "net_absorbed sha1_transform iv c xs \<Longrightarrow> net_sha1_final c = Some (d, c') \<Longrightarrow> length (hs_buffer c') = 64"
  "net_absorbed sha256_transform iv c xs \<Longrightarrow> net_sha256_final c = Some (d, c') \<Longrightarrow> length (hs_buffer c') = 64"
  by (rule net_final_buffer, assumption, simp_all add: net_defs length_bytes)+

lemma net_hmac:
  assumes "length key \<le> HASH_LIMIT" "length data \<le> HASH_LIMIT"
  shows "net_hmac_md5 g key data = Some (hmac_spec md5 key data)" "net_hmac_sha1 g key data = Some (hmac_spec sha1 key data)"
    "net_hmac_sha256 g key data = Some (hmac_spec sha256 key data)"
proof -
  have b: "length (hs_buffer (uninit g)) = 64" by (simp add: uninit_def)
  have k: "(if length key > 64 then Some (H key) else Some key) = Some (if length key > 64 then H key else key)" for H :: "u8 list \<Rightarrow> u8 list" by simp
  note K = net_oneshot [OF assms(1)] k Option.bind.bind_lunit
  show "net_hmac_md5 g key data = Some (hmac_spec md5 key data)"
    unfolding net_hmac_md5_def K hmac_spec_def
    by (subst net_pad_key, simp add: digest_lengths)+ (rule net_keyed [OF net_init_laws(1) net_final_lengths(1)], simp_all add: b assms net_md5.key_block)
  show "net_hmac_sha1 g key data = Some (hmac_spec sha1 key data)"
    unfolding net_hmac_sha1_def K hmac_spec_def
    by (subst net_pad_key, simp add: digest_lengths)+ (rule net_keyed [OF net_init_laws(2) net_final_lengths(2)], simp_all add: b assms net_sha1.key_block)
  show "net_hmac_sha256 g key data = Some (hmac_spec sha256 key data)"
    unfolding net_hmac_sha256_def K hmac_spec_def
    by (subst net_pad_key, simp add: digest_lengths)+ (rule net_keyed [OF net_init_laws(3) net_final_lengths(3)], simp_all add: b assms net_sha256.key_block)
qed

section \<open>Property\<close>

text \<open>C28: the two implementations of the digests agree: for data in pieces of at most 4294967232 bytes and a key of at most as many, the
  streaming functions of \<^verbatim>\<open>kernel/net/hash.c\<close>, whatever their buffer holds at the start, return and give the digests of
  \<^verbatim>\<open>lib/hash.c\<close>, for MD5, SHA-1 and SHA-256, in one call or in many; so do the keyed digests, and both give the keyed digest of RFC 2104 (the digest of the
  outer key block followed by the digest of the inner key block and the data).\<close>

theorem hash_implementations_agree:
  assumes "\<forall>ys \<in> set chunks. length ys \<le> HASH_LIMIT" "length key \<le> HASH_LIMIT" "length data \<le> HASH_LIMIT"
  shows "fold (\<lambda>ys c. c \<bind> net_md5_update ys) chunks (Some (net_md5_init (uninit g))) \<bind> (\<lambda>c. map_option fst (net_md5_final c)) = Some (md5 (concat chunks)) \<and>
    fold (\<lambda>ys c. c \<bind> net_sha1_update ys) chunks (Some (net_sha1_init (uninit g))) \<bind> (\<lambda>c. map_option fst (net_sha1_final c)) = Some (sha1 (concat chunks)) \<and>
    fold (\<lambda>ys c. c \<bind> net_sha256_update ys) chunks (Some (net_sha256_init (uninit g))) \<bind> (\<lambda>c. map_option fst (net_sha256_final c)) =
      Some (sha256 (concat chunks)) \<and>
    net_md5 g data = Some (md5 data) \<and> net_sha1 g data = Some (sha1 data) \<and> net_sha256 g data = Some (sha256 data) \<and>
    net_hmac_md5 g key data = Some (hmac_md5 key data) \<and> net_hmac_sha1 g key data = Some (hmac_sha1 key data) \<and>
    net_hmac_sha256 g key data = Some (hmac_sha256 key data) \<and>
    hmac_md5 key data = hmac_spec md5 key data \<and> hmac_sha1 key data = hmac_spec sha1 key data \<and> hmac_sha256 key data = hmac_spec sha256 key data"
proof -
  have "hmac_md5 key data = hmac_spec md5 key data" "hmac_sha1 key data = hmac_spec sha1 key data" "hmac_sha256 key data = hmac_spec sha256 key data"
    using hmac_specs [OF assms(3)] by blast+
  then show ?thesis using net_md5.streamed [OF assms(1)] net_sha1.streamed [OF assms(1)] net_sha256.streamed [OF assms(1)]
      net_oneshot [OF assms(3)] net_hmac [OF assms(2,3)] by simp
qed

theorem hash_implementations_agree_witness:
  "net_md5 (\<lambda>i. of_nat i) [1, 2, 3] = Some (md5 [1, 2, 3]) \<and> net_hmac_sha256 (\<lambda>i. of_nat i) (replicate 70 7) [1, 2, 3] = Some (hmac_sha256 (replicate 70 7) [1, 2, 3]) \<and>
   fold (\<lambda>ys c. c \<bind> net_sha1_update ys) [[1, 2], replicate 100 3, []] (Some (net_sha1_init (uninit (\<lambda>i. of_nat i)))) \<bind> (\<lambda>c. map_option fst (net_sha1_final c)) =
     Some (sha1 (concat [[1, 2], replicate 100 3, []]))"
proof -
  have "\<forall>ys \<in> set [[1, 2], replicate 100 3, [] :: u8 list]. length ys \<le> HASH_LIMIT" "length (replicate 70 (7 :: u8)) \<le> HASH_LIMIT" "length [1, 2, 3 :: u8] \<le> HASH_LIMIT"
    by (simp_all add: HASH_LIMIT_def)
  from hash_implementations_agree [OF this, of "\<lambda>i. of_nat i"] show ?thesis by blast
qed

end
