(* ===== verification/Zcomp.thy ===== *)
theory Zcomp
  imports Kernel_Prelude
begin

text \<open>
  The compression routines of \<^verbatim>\<open>kernel/mm/zcomp.c\<close>: the encoder that looks for the longest match in a window
  of 2048 bytes, and the decoder of its stream of literal runs, matches and an end mark.  The output of the encoder
  is the list of bytes stored so far, whose length is the index \<^verbatim>\<open>o\<close>; the decoder works on the part of its input
  from the index \<^verbatim>\<open>i\<close> on and returns the value of the C function with the bytes stored.  Lengths are natural
  numbers: the callers pass pages of 4096 bytes and a buffer of 4160.
\<close>

section \<open>Constants\<close>

definition ZCOMP_WINDOW :: nat where "ZCOMP_WINDOW = 2048"
definition ZCOMP_MAX_MATCH :: nat where "ZCOMP_MAX_MATCH = 16"
definition ZCOMP_MIN_MATCH :: nat where "ZCOMP_MIN_MATCH = 3"
definition ZCOMP_LITERAL_MAX :: nat where "ZCOMP_LITERAL_MAX = 255"
definition ZCOMP_TAG_LITERAL :: u8 where "ZCOMP_TAG_LITERAL = 0xFD"
definition ZCOMP_TAG_MATCH :: u8 where "ZCOMP_TAG_MATCH = 0xFE"
definition ZCOMP_TAG_END :: u8 where "ZCOMP_TAG_END = 0xFF"

section \<open>The encoder\<close>

function match_loop :: "u8 list \<Rightarrow> nat \<Rightarrow> nat \<Rightarrow> nat \<Rightarrow> nat" where
  "match_loop src start i len =
     (if len < ZCOMP_MAX_MATCH \<and> i + len < length src \<and> src ! (start + len) = src ! (i + len)
      then match_loop src start i (len + 1) else len)"
  by pat_completeness auto
termination by (relation "measure (\<lambda>(src, start, i, len). ZCOMP_MAX_MATCH - len)") auto

function search_loop :: "u8 list \<Rightarrow> nat \<Rightarrow> nat \<Rightarrow> nat \<Rightarrow> nat \<Rightarrow> nat \<Rightarrow> nat \<times> nat" where
  "search_loop src i max_off off best_len best_off =
     (if off \<le> max_off
      then let len = match_loop src (i - off) i 0
           in if len > best_len
              then if len = ZCOMP_MAX_MATCH then (len, off) else search_loop src i max_off (off + 1) len off
              else search_loop src i max_off (off + 1) best_len best_off
      else (best_len, best_off))"
  by pat_completeness auto
termination by (relation "measure (\<lambda>(src, i, max_off, off, best_len, best_off). Suc max_off - off)") auto

declare match_loop.simps [simp del]
declare search_loop.simps [simp del]

definition put_literals :: "u8 list \<Rightarrow> nat \<Rightarrow> nat \<Rightarrow> nat \<Rightarrow> u8 list \<Rightarrow> u8 list option" where
  "put_literals src dst_cap lit_start lit_count dst =
     (if length dst + 2 + lit_count > dst_cap then None
      else Some (dst @ [ZCOMP_TAG_LITERAL, of_nat lit_count] @ take lit_count (drop lit_start src)))"

definition put_match :: "nat \<Rightarrow> nat \<Rightarrow> nat \<Rightarrow> u8 list \<Rightarrow> u8 list option" where
  "put_match dst_cap best_off best_len dst =
     (if length dst + 4 > dst_cap then None
      else Some (dst @ [ZCOMP_TAG_MATCH, of_nat best_off AND 0xFF, ucast (drop_bit 8 (of_nat best_off :: u32) AND 0x0F), of_nat (best_len - ZCOMP_MIN_MATCH)]))"

function encode_loop :: "u8 list \<Rightarrow> nat \<Rightarrow> nat \<Rightarrow> nat \<Rightarrow> u8 list \<Rightarrow> u8 list option" where
  "encode_loop src dst_cap i lit_start dst =
     (if i < length src
      then (case search_loop src i (if i < ZCOMP_WINDOW then i else ZCOMP_WINDOW) 1 0 0 of (best_len, best_off) \<Rightarrow>
        if best_len \<ge> ZCOMP_MIN_MATCH
        then (case (if i - lit_start > 0 then put_literals src dst_cap lit_start (i - lit_start) dst else Some dst) of
                None \<Rightarrow> None
              | Some dst \<Rightarrow>
                  (case put_match dst_cap best_off best_len dst of
                     None \<Rightarrow> None
                   | Some dst \<Rightarrow> encode_loop src dst_cap (i + best_len) (i + best_len) dst))
        else if i + 1 - lit_start \<ge> ZCOMP_LITERAL_MAX
        then (case put_literals src dst_cap lit_start (i + 1 - lit_start) dst of
                None \<Rightarrow> None
              | Some dst \<Rightarrow> encode_loop src dst_cap (i + 1) (i + 1) dst)
        else encode_loop src dst_cap (i + 1) lit_start dst)
      else (case (if i > lit_start then put_literals src dst_cap lit_start (i - lit_start) dst else Some dst) of
              None \<Rightarrow> None
            | Some dst \<Rightarrow> if length dst + 1 > dst_cap then None else Some (dst @ [ZCOMP_TAG_END])))"
  by pat_completeness auto
termination by (relation "measure (\<lambda>(src, dst_cap, i, lit_start, dst). length src - i)") (auto simp: ZCOMP_MIN_MATCH_def)

declare encode_loop.simps [simp del]

text \<open>The C function returns 0 where this one returns no list, and the length of the list elsewhere.\<close>

definition zcomp_lz_encode :: "u8 list \<Rightarrow> nat \<Rightarrow> u8 list option" where
  "zcomp_lz_encode src dst_cap = (if length src = 0 \<or> dst_cap < 8 then None else encode_loop src dst_cap 0 0 [])"

section \<open>The decoder\<close>

primrec copy_match :: "nat \<Rightarrow> nat \<Rightarrow> u8 list \<Rightarrow> u8 list" where
  "copy_match offset 0 dst = dst"
| "copy_match offset (Suc k) dst = copy_match offset k (dst @ [dst ! (length dst - offset)])"

function decode_loop :: "nat \<Rightarrow> u8 list \<Rightarrow> u8 list \<Rightarrow> nat \<times> u8 list" where
  "decode_loop dst_cap [] dst = (length dst, dst)"
| "decode_loop dst_cap (tag # src) dst =
     (if tag = ZCOMP_TAG_END then (length dst, dst)
      else if tag = ZCOMP_TAG_LITERAL
      then (case src of
              [] \<Rightarrow> (0, dst)
            | c # src \<Rightarrow>
                let cnt = unat c
                in if length dst + cnt > dst_cap \<or> cnt > length src then (0, dst)
                   else decode_loop dst_cap (drop cnt src) (dst @ take cnt src))
      else if tag = ZCOMP_TAG_MATCH
      then (if 3 > length src then (0, dst)
            else let offset = unat ((ucast (src ! 0) :: u32) OR push_bit 8 (ucast (src ! 1 AND 0x0F)));
                     len = unat (src ! 2) + ZCOMP_MIN_MATCH
                 in if offset = 0 \<or> offset > length dst \<or> length dst + len > dst_cap then (0, dst)
                    else decode_loop dst_cap (drop 3 src) (copy_match offset len dst))
      else (0, dst))"
  by pat_completeness auto
termination by (relation "measure (\<lambda>(dst_cap, src, dst). length src)") auto

definition zcomp_lz_decode :: "u8 list \<Rightarrow> nat \<Rightarrow> nat \<times> u8 list" where
  "zcomp_lz_decode src dst_cap = (if length src = 0 then (0, []) else decode_loop dst_cap src [])"

section \<open>What the search finds\<close>

lemma match_loop_spec:
  assumes "len \<le> ZCOMP_MAX_MATCH" "i + len \<le> length src" "\<forall>k < len. src ! (start + k) = src ! (i + k)"
  shows "match_loop src start i len \<le> ZCOMP_MAX_MATCH \<and> i + match_loop src start i len \<le> length src \<and>
    (\<forall>k < match_loop src start i len. src ! (start + k) = src ! (i + k))"
  using assms
proof (induction src start i len rule: match_loop.induct)
  case (1 src start i len)
  show ?case
  proof (cases "len < ZCOMP_MAX_MATCH \<and> i + len < length src \<and> src ! (start + len) = src ! (i + len)")
    case True
    have "match_loop src start i len = match_loop src start i (len + 1)" using True by (simp add: match_loop.simps [of src start i len])
    then show ?thesis using "1.IH" [OF True] True "1.prems" by (simp add: less_Suc_eq)
  next
    case False
    have "match_loop src start i len = len" by (simp only: match_loop.simps [of src start i len] if_not_P [OF False])
    then show ?thesis using "1.prems" by simp
  qed
qed

definition match_ok :: "u8 list \<Rightarrow> nat \<Rightarrow> nat \<Rightarrow> nat \<Rightarrow> nat \<Rightarrow> bool" where
  "match_ok src i max_off len off \<longleftrightarrow>
     len = 0 \<or> 1 \<le> off \<and> off \<le> max_off \<and> len \<le> ZCOMP_MAX_MATCH \<and> i + len \<le> length src \<and> (\<forall>k < len. src ! (i - off + k) = src ! (i + k))"

lemma search_loop_spec:
  assumes "i < length src" "1 \<le> off" "match_ok src i max_off bl bo"
  shows "match_ok src i max_off (fst (search_loop src i max_off off bl bo)) (snd (search_loop src i max_off off bl bo))"
  using assms
proof (induction src i max_off off bl bo rule: search_loop.induct)
  case (1 src i max_off off bl bo)
  let ?len = "match_loop src (i - off) i 0"
  show ?case
  proof (cases "off \<le> max_off")
    case True
    have m: "match_ok src i max_off ?len off"
      using match_loop_spec [of 0 i src "i - off"] "1.prems"(1,2) True by (simp add: match_ok_def)
    show ?thesis
    proof (cases "?len > bl")
      case better: True
      show ?thesis
      proof (cases "?len = ZCOMP_MAX_MATCH")
        case True
        then show ?thesis using \<open>off \<le> max_off\<close> better m by (simp add: search_loop.simps [of src i max_off off bl bo] Let_def)
      next
        case False
        then show ?thesis using "1.IH"(1) [OF \<open>off \<le> max_off\<close> refl better False] \<open>off \<le> max_off\<close> better m "1.prems"
          by (simp add: search_loop.simps [of src i max_off off bl bo] Let_def)
      qed
    next
      case False
      then show ?thesis using "1.IH"(2) [OF \<open>off \<le> max_off\<close> refl False] \<open>off \<le> max_off\<close> "1.prems"
        by (simp add: search_loop.simps [of src i max_off off bl bo] Let_def)
    qed
  next
    case False
    then show ?thesis using "1.prems" by (simp add: search_loop.simps [of src i max_off off bl bo])
  qed
qed

section \<open>Copying a match\<close>

lemma copy_match_take:
  assumes "1 \<le> off" "off \<le> i" "i + len \<le> length src" "\<forall>k < len. src ! (i - off + k) = src ! (i + k)"
  shows "copy_match off len (take i src) = take (i + len) src"
  using assms
proof (induction len arbitrary: i)
  case (Suc len)
  have "take i src ! (length (take i src) - off) = src ! (i - off)" using Suc.prems by simp
  also have "\<dots> = src ! i" using Suc.prems(4) by (metis add_0_right zero_less_Suc)
  finally have "take i src @ [take i src ! (length (take i src) - off)] = take (Suc i) src"
    using Suc.prems(3) by (simp add: take_Suc_conv_app_nth)
  moreover have "\<forall>k < len. src ! (Suc i - off + k) = src ! (Suc i + k)"
    using Suc.prems(2,4) by (metis Suc_diff_le Suc_less_eq add_Suc add_Suc_right)
  ultimately show ?case using Suc.IH [of "Suc i"] Suc.prems(1,2,3) by simp
qed simp

lemma length_copy_match [simp]: "length (copy_match off len dst) = length dst + len"
  by (induction len arbitrary: dst) simp_all

section \<open>The bytes of a match\<close>

lemma match_offset:
  assumes "off < 4096"
  shows "unat ((ucast (of_nat off AND 0xFF :: u8) :: u32) OR push_bit 8 (ucast ((ucast (drop_bit 8 (of_nat off :: u32) AND 0x0F) :: u8) AND 0x0F))) = off"
proof -
  define w :: u32 where "w = of_nat off"
  have u: "unat w = off" using assms by (simp add: w_def unat_of_nat_u32)
  have w8: "(of_nat off :: u8) = ucast w" using assms by (simp add: w_def unsigned_of_nat take_bit_nat_eq_self)
  have m: "(0xFF :: u8) = mask 8" "(0x0F :: u8) = mask 4" "(0x0F :: u32) = mask 4" by (simp_all add: mask_eq_exp_minus_1)
  have "unat (take_bit 12 w) = unat w" using assms by (simp add: unsigned_take_bit_eq u take_bit_nat_eq_self)
  then have "take_bit 12 w = w" by (simp only: unat_inj_iff)
  then have hi: "bit w n \<Longrightarrow> n < 12" for n by (metis bit_take_bit_iff)
  have "(ucast (ucast w AND (mask 8 :: u8)) :: u32) OR push_bit 8 (ucast ((ucast (drop_bit 8 w AND mask 4) :: u8) AND mask 4)) = w"
    by (rule bit_word_eqI) (auto simp: bit_simps not_less dest: hi)
  then show ?thesis using u by (simp add: w8 m w_def [symmetric])
qed

lemma unat_u8_of_nat: "n < 256 \<Longrightarrow> unat (of_nat n :: u8) = n"
  by (simp add: unat_of_nat)

lemmas zcomp_tags = ZCOMP_TAG_LITERAL_def ZCOMP_TAG_MATCH_def ZCOMP_TAG_END_def

section \<open>Decoding what has been encoded so far\<close>

text \<open>A prefix of a stream brings the decoder to the first \<open>k\<close> bytes of the source, whatever follows it.\<close>

definition brings_to :: "u8 list \<Rightarrow> u8 list \<Rightarrow> nat \<Rightarrow> bool" where
  "brings_to src dst k \<longleftrightarrow> k \<le> length src \<and>
     (\<forall>cap rest. length src \<le> cap \<longrightarrow> decode_loop cap (dst @ rest) [] = decode_loop cap rest (take k src))"

lemma brings_to_start: "brings_to src [] 0"
  by (simp add: brings_to_def)

lemma brings_to_literals:
  assumes "brings_to src dst k" "put_literals src dst_cap k n dst = Some dst'" "n < 256" "k + n \<le> length src"
  shows "brings_to src dst' (k + n)"
proof -
  have d: "dst' = dst @ [ZCOMP_TAG_LITERAL, of_nat n] @ take n (drop k src)"
    using assms(2) by (simp add: put_literals_def split: if_splits)
  define lits where "lits = take n (drop k src)"
  have l: "length lits = n" "take k src @ lits = take (k + n) src" using assms(4) by (simp_all add: lits_def take_add)
  have "decode_loop cap (ZCOMP_TAG_LITERAL # of_nat n # lits @ rest) (take k src) = decode_loop cap rest (take (k + n) src)"
    if "length src \<le> cap" for cap rest
    using assms(3,4) that l by (simp add: zcomp_tags unat_u8_of_nat)
  then show ?thesis using assms(1,4) by (simp add: brings_to_def d lits_def [symmetric])
qed

lemma brings_to_match:
  assumes "brings_to src dst k" "put_match dst_cap off len dst = Some dst'" "match_ok src k max_off len off" "max_off \<le> k"
    and "max_off \<le> ZCOMP_WINDOW" "ZCOMP_MIN_MATCH \<le> len"
  shows "brings_to src dst' (k + len)"
proof -
  have m: "1 \<le> off" "off \<le> k" "off < 4096" "len \<le> 16" "3 \<le> len" "k + len \<le> length src" "\<forall>j < len. src ! (k - off + j) = src ! (k + j)"
    using assms(3-6) by (auto simp: match_ok_def ZCOMP_WINDOW_def ZCOMP_MAX_MATCH_def ZCOMP_MIN_MATCH_def)
  define b0 b1 b2 :: u8 where "b0 = of_nat off AND 0xFF" and "b1 = ucast (drop_bit 8 (of_nat off :: u32) AND 0x0F)" and "b2 = of_nat (len - ZCOMP_MIN_MATCH)"
  have d: "dst' = dst @ [ZCOMP_TAG_MATCH, b0, b1, b2]"
    using assms(2) by (simp add: put_match_def b0_def b1_def b2_def split: if_splits)
  have o: "unat ((ucast b0 :: u32) OR push_bit 8 (ucast (b1 AND 0x0F))) = off" using match_offset [OF m(3)] by (simp only: b0_def b1_def)
  have "unat b2 = len - 3" unfolding b2_def ZCOMP_MIN_MATCH_def by (rule unat_u8_of_nat) (use m in simp)
  then have l: "unat b2 + ZCOMP_MIN_MATCH = len" using m(5) by (simp add: ZCOMP_MIN_MATCH_def)
  have "decode_loop cap (ZCOMP_TAG_MATCH # b0 # b1 # b2 # rest) (take k src) = decode_loop cap rest (take (k + len) src)"
    if "length src \<le> cap" for cap rest
    using m that copy_match_take [OF m(1,2,6,7)] by (simp add: o l Let_def) (simp add: zcomp_tags)
  then show ?thesis using assms(1) m by (simp add: brings_to_def d)
qed

abbreviation window_at :: "nat \<Rightarrow> nat" where
  "window_at i \<equiv> if i < ZCOMP_WINDOW then i else ZCOMP_WINDOW"

lemma search_found:
  assumes "i < length src" "search_loop src i (window_at i) 1 0 0 = (len, off)"
  shows "match_ok src i (window_at i) len off"
  using search_loop_spec [of i src 1 "window_at i" 0 0] assms by (simp add: match_ok_def)

lemma brings_to_flush:
  assumes "brings_to src dst k" "k \<le> i" "i \<le> length src" "i - k < 256"
    and "(if i - k > 0 then put_literals src dst_cap k (i - k) dst else Some dst) = Some dst'"
  shows "brings_to src dst' i"
  using assms brings_to_literals [of src dst k dst_cap "i - k" dst'] by (auto split: if_splits)

lemma encode_loop_sound:
  assumes "brings_to src dst lit_start" "lit_start \<le> i" "i \<le> length src" "i - lit_start < ZCOMP_LITERAL_MAX"
    and "encode_loop src dst_cap i lit_start dst = Some out"
  shows "\<exists>d. out = d @ [ZCOMP_TAG_END] \<and> length out \<le> dst_cap \<and> brings_to src d (length src)"
  using assms
proof (induction src dst_cap i lit_start dst rule: encode_loop.induct)
  case (1 src dst_cap i lit_start dst)
  note e = "1.prems"(5) [unfolded encode_loop.simps [of src dst_cap i lit_start dst]]
  have lt: "i - lit_start < 256" using "1.prems"(4) by (simp add: ZCOMP_LITERAL_MAX_def)
  show ?case
  proof (cases "i < length src")
    case i: True
    obtain len off where s: "search_loop src i (window_at i) 1 0 0 = (len, off)" by fastforce
    note m = search_found [OF i s]
    show ?thesis
    proof (cases "ZCOMP_MIN_MATCH \<le> len")
      case long: True
      obtain d1 where f: "(if i - lit_start > 0 then put_literals src dst_cap lit_start (i - lit_start) dst else Some dst) = Some d1"
        using e i s long by (simp split: option.splits if_splits)
      obtain d2 where p: "put_match dst_cap off len d1 = Some d2" and r: "encode_loop src dst_cap (i + len) (i + len) d2 = Some out"
        using e i s long f by (auto split: option.splits)
      have "brings_to src d2 (i + len)"
        using brings_to_match [OF brings_to_flush [OF "1.prems"(1,2,3) lt f] p m _ _ long] by simp
      moreover have "i + len \<le> length src" using m long by (auto simp: match_ok_def ZCOMP_MIN_MATCH_def)
      ultimately show ?thesis using "1.IH"(1) [OF i s [symmetric] long f p _ _ _ _ r] by (simp add: ZCOMP_LITERAL_MAX_def)
    next
      case short: False
      show ?thesis
      proof (cases "ZCOMP_LITERAL_MAX \<le> i + 1 - lit_start")
        case full: True
        obtain d1 where f: "put_literals src dst_cap lit_start (i + 1 - lit_start) dst = Some d1"
          and r: "encode_loop src dst_cap (i + 1) (i + 1) d1 = Some out"
          using e i s short full by (auto split: option.splits)
        have "brings_to src d1 (i + 1)"
          using brings_to_literals [OF "1.prems"(1) f] "1.prems"(2,4) i by (simp add: ZCOMP_LITERAL_MAX_def)
        then show ?thesis using "1.IH"(2) [OF i s [symmetric] short full f _ _ _ _ r] i by (simp add: ZCOMP_LITERAL_MAX_def)
      next
        case False
        then have "encode_loop src dst_cap (i + 1) lit_start dst = Some out" using e i s short by simp
        then show ?thesis using "1.IH"(3) [OF i s [symmetric] short False] "1.prems" i False by simp
      qed
    qed
  next
    case False
    then have i: "i = length src" using "1.prems"(3) by simp
    obtain d1 where f: "(if i - lit_start > 0 then put_literals src dst_cap lit_start (i - lit_start) dst else Some dst) = Some d1"
      and o: "length d1 + 1 \<le> dst_cap" "out = d1 @ [ZCOMP_TAG_END]"
      using e False by (auto split: option.splits if_splits)
    show ?thesis using brings_to_flush [OF "1.prems"(1,2,3) lt f] o i by simp
  qed
qed

section \<open>The encoder succeeds with room for three bytes per byte\<close>

lemma flush_fits:
  assumes "length dst \<le> 3 * k" "k \<le> i" "i \<le> length src" "3 * length src + 1 \<le> cap"
  shows "\<exists>d. (if i - k > 0 then put_literals src cap k (i - k) dst else Some dst) = Some d \<and> length d \<le> 3 * i"
  using assms by (auto simp: put_literals_def)

lemma encode_loop_succeeds:
  assumes "length dst \<le> 3 * lit_start" "lit_start \<le> i" "i \<le> length src" "3 * length src + 1 \<le> dst_cap"
  shows "\<exists>out. encode_loop src dst_cap i lit_start dst = Some out"
  using assms
proof (induction src dst_cap i lit_start dst rule: encode_loop.induct)
  case (1 src dst_cap i lit_start dst)
  note E = encode_loop.simps [of src dst_cap i lit_start dst]
  obtain d1 where f: "(if i - lit_start > 0 then put_literals src dst_cap lit_start (i - lit_start) dst else Some dst) = Some d1" "length d1 \<le> 3 * i"
    using flush_fits [OF "1.prems"] by blast
  show ?case
  proof (cases "i < length src")
    case i: True
    obtain len off where s: "search_loop src i (window_at i) 1 0 0 = (len, off)" by fastforce
    show ?thesis
    proof (cases "ZCOMP_MIN_MATCH \<le> len")
      case long: True
      have l: "i + len \<le> length src" "3 \<le> len" using search_found [OF i s] long by (auto simp: match_ok_def ZCOMP_MIN_MATCH_def)
      then obtain d2 where p: "put_match dst_cap off len d1 = Some d2" "length d2 \<le> 3 * (i + len)"
        using f(2) "1.prems"(4) by (auto simp: put_match_def)
      obtain out where "encode_loop src dst_cap (i + len) (i + len) d2 = Some out"
        using "1.IH"(1) [OF i s [symmetric] long f(1) p(1)] p(2) l "1.prems"(4) by auto
      then show ?thesis using E i s long f(1) p(1) by simp
    next
      case short: False
      show ?thesis
      proof (cases "ZCOMP_LITERAL_MAX \<le> i + 1 - lit_start")
        case full: True
        obtain d2 where p: "put_literals src dst_cap lit_start (i + 1 - lit_start) dst = Some d2" "length d2 \<le> 3 * (i + 1)"
          using flush_fits [of dst lit_start "i + 1" src dst_cap] "1.prems" i by auto
        obtain out where "encode_loop src dst_cap (i + 1) (i + 1) d2 = Some out"
          using "1.IH"(2) [OF i s [symmetric] short full p(1)] p(2) i "1.prems"(4) by auto
        then show ?thesis using E i s short full p(1) by simp
      next
        case False
        then obtain out where "encode_loop src dst_cap (i + 1) lit_start dst = Some out"
          using "1.IH"(3) [OF i s [symmetric] short False] "1.prems" i by auto
        then show ?thesis using E i s short False by simp
      qed
    qed
  next
    case False
    then show ?thesis using E f "1.prems"(3,4) by simp
  qed
qed

section \<open>The decoder stays inside its buffer\<close>

lemma decode_loop_bounds:
  assumes "length dst \<le> cap"
  shows "length (snd (decode_loop cap src dst)) \<le> cap \<and>
    (fst (decode_loop cap src dst) = 0 \<or> fst (decode_loop cap src dst) = length (snd (decode_loop cap src dst)))"
  using assms
proof (induction cap src dst rule: decode_loop.induct)
  case (2 cap tag src dst)
  consider "tag = ZCOMP_TAG_END" | "tag = ZCOMP_TAG_LITERAL" | "tag = ZCOMP_TAG_MATCH"
    | "tag \<noteq> ZCOMP_TAG_END" "tag \<noteq> ZCOMP_TAG_LITERAL" "tag \<noteq> ZCOMP_TAG_MATCH" by blast
  then show ?case
  proof cases
    case 2
    then show ?thesis using "2.IH"(1) "2.prems" by (auto simp: zcomp_tags Let_def split: list.split)
  next
    case 3
    then show ?thesis using "2.IH"(2) "2.prems" by (auto simp: zcomp_tags Let_def)
  qed (use "2.prems" in auto)
qed simp

section \<open>Properties\<close>




end
