(* ===== verification/Zs.thy ===== *)
theory Zs
  imports Memory Zcomp
begin

text \<open>
  The store of compressed pages: the object allocator \<^verbatim>\<open>kernel/mm/zs.c\<close> over the kernel heap.  The allocator reads the header of an object through a pointer it
  computes from the pointer of its client, so memory is modelled by bytes: the bytes of a block header of the heap are those of
  \<^verbatim>\<open>struct memory_block\<close> (size, flag, pointer to the next block, little endian), every other byte is a field of the state.
  On x86-64 the members of \<^verbatim>\<open>zs_object_t\<close> are at the offsets 0, 4, 8, 12, 16 and 24, its flexible array \<^verbatim>\<open>data\<close> is at offset 25
  and its size is 32.  A pointer to a pool is an index of the pool table, stored in an object as the address \<open>pools_at\<close> of the
  table plus the index times 112, the size of \<^verbatim>\<open>zs_pool_t\<close>.  Time and return address of a heap allocation, which only the leak
  tracker records, are the arguments \<open>now\<close> and \<open>caller\<close>.  The floating-point ratio and the
  functions the source marks as unused are left out.
\<close>

section \<open>State\<close>

record zs_pool_t =
  z_name :: string
  z_compression :: u32
  z_size_classes :: "u32 list"
  z_class_count :: nat
  z_total_size :: u64
  z_used_size :: u64
  z_compressed_size :: u64
  z_obj_count :: u32
  z_ready :: bool

record zs_info_t =
  zi_pool_count :: u32
  zi_total_memory :: u64
  zi_total_compressed :: u64
  zi_total_objects :: u32
  zi_ready :: bool

record kzs = kmem +
  g_zs_pools :: "zs_pool_t list"
  g_zs_info :: zs_info_t
  g_zs_status :: string
  g_zs_pool_count :: nat
  mem_bytes :: "u64 \<Rightarrow> u8"

definition ZS_MAX_POOLS :: nat where "ZS_MAX_POOLS = 4"
definition ZS_OBJ_MAGIC :: u32 where "ZS_OBJ_MAGIC = 0x5A534F42"
definition ZS_MAX_SIZE_CLASSES :: nat where "ZS_MAX_SIZE_CLASSES = 16"
definition ZS_MIN_SIZE :: u32 where "ZS_MIN_SIZE = 16"
definition ZS_MAX_SIZE :: u32 where "ZS_MAX_SIZE = 4096"
definition OBJ_SIZEOF :: u64 where "OBJ_SIZEOF = 32"
definition OBJ_DATA :: u64 where "OBJ_DATA = 25"

definition zs_pool_zero :: zs_pool_t where
  "zs_pool_zero = \<lparr>z_name = [], z_compression = 0, z_size_classes = replicate ZS_MAX_SIZE_CLASSES 0, z_class_count = 0, z_total_size = 0,
     z_used_size = 0, z_compressed_size = 0, z_obj_count = 0, z_ready = False\<rparr>"

section \<open>Bytes of memory\<close>

fun header_byte :: "u64 \<Rightarrow> memory_block_t list \<Rightarrow> u8 option" where
  "header_byte a [] = None"
| "header_byte a (b # bs) =
     (let k = a - mb_addr b in
      if k < BLOCK_HEADER
      then if k < 8 then Some (ucast (drop_bit (8 * unat k) (mb_size b)))
           else if k = 8 then Some (of_bool (mb_free b))
           else if k < 16 then None
           else Some (ucast (drop_bit (8 * unat (k - 16)) (case bs of [] \<Rightarrow> 0 | c # cs \<Rightarrow> mb_addr c)))
      else header_byte a bs)"

definition rd8 :: "'z kzs_scheme \<Rightarrow> u64 \<Rightarrow> u8" where
  "rd8 s a = (case header_byte a (memory_head s) of None \<Rightarrow> mem_bytes s a | Some v \<Rightarrow> v)"

definition rd32 :: "'z kzs_scheme \<Rightarrow> u64 \<Rightarrow> u32" where
  "rd32 s a = ucast (rd8 s a) OR push_bit 8 (ucast (rd8 s (a + 1))) OR push_bit 16 (ucast (rd8 s (a + 2))) OR push_bit 24 (ucast (rd8 s (a + 3)))"

definition rd64 :: "'z kzs_scheme \<Rightarrow> u64 \<Rightarrow> u64" where
  "rd64 s a = ucast (rd32 s a) OR push_bit 32 (ucast (rd32 s (a + 4)))"

definition wr_bytes :: "u64 \<Rightarrow> u8 list \<Rightarrow> 'z kzs_scheme \<Rightarrow> 'z kzs_scheme" where
  "wr_bytes a bs s = s\<lparr>mem_bytes := \<lambda>x. if unat (x - a) < length bs then bs ! unat (x - a) else mem_bytes s x\<rparr>"

definition le32 :: "u32 \<Rightarrow> u8 list" where
  "le32 w = map (\<lambda>i. ucast (drop_bit (8 * i) w)) [0..<4]"

definition le64 :: "u64 \<Rightarrow> u8 list" where
  "le64 w = map (\<lambda>i. ucast (drop_bit (8 * i) w)) [0..<8]"

definition pool_addr :: "u64 \<Rightarrow> nat option \<Rightarrow> u64" where
  "pool_addr pools_at pool = (case pool of None \<Rightarrow> 0 | Some i \<Rightarrow> pools_at + of_nat (112 * i))"

section \<open>The object allocator\<close>

definition zs_find_size_class :: "zs_pool_t \<Rightarrow> u32 \<Rightarrow> nat option" where
  "zs_find_size_class pool sz = find_index (\<lambda>c. c \<ge> sz) (take (z_class_count pool) (z_size_classes pool))"

function size_class_loop :: "u32 \<Rightarrow> zs_pool_t \<Rightarrow> zs_pool_t" where
  "size_class_loop sz pool =
     (if sz \<le> ZS_MAX_SIZE \<and> z_class_count pool < ZS_MAX_SIZE_CLASSES
      then size_class_loop (push_bit 1 sz)
             (pool\<lparr>z_size_classes := (z_size_classes pool)[z_class_count pool := sz], z_class_count := z_class_count pool + 1\<rparr>)
      else pool)"
  by pat_completeness auto
termination by (relation "measure (\<lambda>(sz, pool). ZS_MAX_SIZE_CLASSES - z_class_count pool)") auto

definition zs_init_size_classes :: "zs_pool_t \<Rightarrow> zs_pool_t" where
  "zs_init_size_classes pool = size_class_loop ZS_MIN_SIZE (pool\<lparr>z_class_count := 0\<rparr>)"

definition zs_init :: "'z kzs_scheme \<Rightarrow> 'z kzs_scheme" where
  "zs_init s = s\<lparr>g_zs_pools := replicate ZS_MAX_POOLS zs_pool_zero,
     g_zs_info := \<lparr>zi_pool_count = 0, zi_total_memory = 0, zi_total_compressed = 0, zi_total_objects = 0, zi_ready = True\<rparr>, g_zs_status := ''zs: ready''\<rparr>"

definition zs_create_pool :: "string \<Rightarrow> u32 \<Rightarrow> 'z kzs_scheme \<Rightarrow> nat option \<times> 'z kzs_scheme" where
  "zs_create_pool name compression s =
     (if g_zs_pool_count s \<ge> ZS_MAX_POOLS then (None, s\<lparr>g_zs_status := ''zs: too many pools''\<rparr>)
      else let i = g_zs_pool_count s;
               pool = zs_init_size_classes (zs_pool_zero\<lparr>z_name := name, z_compression := compression\<rparr>);
               s = s\<lparr>g_zs_pools := (g_zs_pools s)[i := pool\<lparr>z_ready := True\<rparr>], g_zs_pool_count := i + 1\<rparr>
           in (Some i, s\<lparr>g_zs_info := (g_zs_info s)\<lparr>zi_pool_count := of_nat (g_zs_pool_count s)\<rparr>, g_zs_status := ''zs: pool created''\<rparr>))"

text \<open>The object as \<^verbatim>\<open>zs_malloc\<close> leaves it: cleared, then the header fields set.\<close>

definition object_image :: "u64 \<Rightarrow> u32 \<Rightarrow> u32 \<Rightarrow> nat \<Rightarrow> nat \<Rightarrow> u8 list" where
  "object_image pools_at sz alloc_size class_idx pool =
     le32 ZS_OBJ_MAGIC @ le32 sz @ le32 alloc_size @ le32 (of_nat class_idx) @ le64 (pool_addr pools_at (Some pool)) @ [0] @ replicate (7 + unat alloc_size) 0"

definition zs_fill :: "u64 \<Rightarrow> nat \<Rightarrow> nat \<Rightarrow> u32 \<Rightarrow> u64 \<Rightarrow> 'z kzs_scheme \<Rightarrow> 'z kzs_scheme" where
  "zs_fill pools_at p class_idx sz obj s =
     (let alloc_size = z_size_classes (g_zs_pools s ! p) ! class_idx;
          s = wr_bytes obj (object_image pools_at sz alloc_size class_idx p) s;
          z = g_zs_pools s ! p;
          z = z\<lparr>z_total_size := z_total_size z + ucast alloc_size, z_used_size := z_used_size z + ucast sz,
                z_compressed_size := z_compressed_size z + ucast alloc_size, z_obj_count := z_obj_count z + 1\<rparr>;
          i = g_zs_info s;
          i = i\<lparr>zi_total_memory := zi_total_memory i + ucast alloc_size, zi_total_compressed := zi_total_compressed i + ucast alloc_size,
                zi_total_objects := zi_total_objects i + 1\<rparr>
      in s\<lparr>g_zs_pools := (g_zs_pools s)[p := z], g_zs_info := i, g_zs_status := ''zs: allocated''\<rparr>)"

definition zs_malloc :: "u64 \<Rightarrow> u64 \<Rightarrow> u64 \<Rightarrow> nat option \<Rightarrow> u32 \<Rightarrow> 'z kzs_scheme \<Rightarrow> (u64 \<times> 'z kzs_scheme) option" where
  "zs_malloc pools_at now caller pool sz s =
     (case pool of
        None \<Rightarrow> Some (0, s\<lparr>g_zs_status := ''zs: invalid params''\<rparr>)
      | Some p \<Rightarrow>
          if \<not> z_ready (g_zs_pools s ! p) \<or> sz = 0 \<or> sz > ZS_MAX_SIZE then Some (0, s\<lparr>g_zs_status := ''zs: invalid params''\<rparr>)
          else if sz > 0xFFFFFFFF - ucast OBJ_SIZEOF then Some (0, s\<lparr>g_zs_status := ''zs: size overflow''\<rparr>)
          else case zs_find_size_class (g_zs_pools s ! p) sz of
            None \<Rightarrow> Some (0, s\<lparr>g_zs_status := ''zs: size too large''\<rparr>)
          | Some class_idx \<Rightarrow> do {
              (obj, s) \<leftarrow> kmalloc now caller (OBJ_SIZEOF + ucast (z_size_classes (g_zs_pools s ! p) ! class_idx)) s;
              if obj = 0 then Some (0, s\<lparr>g_zs_status := ''zs: allocation failed''\<rparr>)
              else Some (obj + OBJ_DATA, zs_fill pools_at p class_idx sz obj s)
            })"

definition object_bad :: "u64 \<Rightarrow> nat \<Rightarrow> u64 \<Rightarrow> 'z kzs_scheme \<Rightarrow> bool" where
  "object_bad pools_at p obj s \<longleftrightarrow>
     rd64 s (obj + 16) \<noteq> pool_addr pools_at (Some p) \<or> unat (rd32 s (obj + 12)) \<ge> z_class_count (g_zs_pools s ! p) \<or>
     rd32 s (obj + 8) \<noteq> z_size_classes (g_zs_pools s ! p) ! unat (rd32 s (obj + 12))"

definition zs_free :: "u64 \<Rightarrow> nat option \<Rightarrow> u64 \<Rightarrow> 'z kzs_scheme \<Rightarrow> 'z kzs_scheme option" where
  "zs_free pools_at pool ptr s =
     (case pool of
        None \<Rightarrow> Some s
      | Some p \<Rightarrow>
          if ptr = 0 then Some s
          else let obj = ptr - OBJ_SIZEOF
          in if rd32 s obj \<noteq> ZS_OBJ_MAGIC then Some (s\<lparr>g_zs_status := ''zs: invalid magic''\<rparr>)
          else if object_bad pools_at p obj s \<or> rd32 s (obj + 4) > rd32 s (obj + 8) then Some (s\<lparr>g_zs_status := ''zs: invalid object''\<rparr>)
          else do {
            let csz = rd32 s (obj + 8);
            let z = g_zs_pools s ! p;
            let z = z\<lparr>z_total_size := z_total_size z - ucast csz, z_used_size := z_used_size z - ucast (rd32 s (obj + 4)),
                      z_compressed_size := z_compressed_size z - ucast csz, z_obj_count := z_obj_count z - 1\<rparr>;
            let i = g_zs_info s;
            let i = i\<lparr>zi_total_memory := zi_total_memory i - ucast csz, zi_total_compressed := zi_total_compressed i - ucast csz,
                      zi_total_objects := zi_total_objects i - 1\<rparr>;
            let s = s\<lparr>g_zs_pools := (g_zs_pools s)[p := z], g_zs_info := i\<rparr>;
            let s = wr_bytes (obj + OBJ_DATA) (replicate (unat csz) 0) s;
            let s = wr_bytes obj (le32 0) s;
            let s = wr_bytes (obj + 16) (le64 0) s;
            s \<leftarrow> kfree obj s;
            Some (s\<lparr>g_zs_status := ''zs: freed''\<rparr>)
          })"

definition zs_realloc :: "u64 \<Rightarrow> u64 \<Rightarrow> u64 \<Rightarrow> nat option \<Rightarrow> u64 \<Rightarrow> u32 \<Rightarrow> 'z kzs_scheme \<Rightarrow> (u64 \<times> 'z kzs_scheme) option" where
  "zs_realloc pools_at now caller pool ptr new_size s =
     (case pool of
        None \<Rightarrow> (if ptr \<noteq> 0 then map_option (Pair 0) (zs_free pools_at None ptr s) else Some (0, s))
      | Some p \<Rightarrow>
          if new_size = 0 then (if ptr \<noteq> 0 then map_option (Pair 0) (zs_free pools_at (Some p) ptr s) else Some (0, s))
          else if ptr = 0 then zs_malloc pools_at now caller (Some p) new_size s
          else let obj = ptr - OBJ_SIZEOF
          in if rd32 s obj \<noteq> ZS_OBJ_MAGIC \<or> object_bad pools_at p obj s then Some (0, s)
          else let old_class = zs_find_size_class (g_zs_pools s ! p) (rd32 s (obj + 4)); new_class = zs_find_size_class (g_zs_pools s ! p) new_size
          in if old_class = new_class \<and> old_class \<noteq> None then Some (ptr, wr_bytes (obj + 4) (le32 new_size) s)
          else do {
            (new_ptr, s) \<leftarrow> zs_malloc pools_at now caller (Some p) new_size s;
            if new_ptr = 0 then Some (0, s)
            else do {
              let copy_size = (if rd32 s (obj + 4) < new_size then rd32 s (obj + 4) else new_size);
              let s = wr_bytes new_ptr (map (\<lambda>k. rd8 s (ptr + of_nat k)) [0..<unat copy_size]) s;
              s \<leftarrow> zs_free pools_at (Some p) ptr s;
              Some (new_ptr, s\<lparr>g_zs_status := ''zs: reallocated''\<rparr>)
            }
          })"

text \<open>The pool pointer of an object is followed here, so the result is undefined where it does not point into the pool table.\<close>

definition zs_malloc_usable_size :: "u64 \<Rightarrow> u64 \<Rightarrow> 'z kzs_scheme \<Rightarrow> u32 option" where
  "zs_malloc_usable_size pools_at ptr s =
     (if ptr = 0 then Some 0
      else let obj = ptr - OBJ_SIZEOF
      in if rd32 s obj \<noteq> ZS_OBJ_MAGIC \<or> rd64 s (obj + 16) = 0 then Some 0
      else case find_index (\<lambda>i. pool_addr pools_at (Some i) = rd64 s (obj + 16)) [0..<ZS_MAX_POOLS] of
        None \<Rightarrow> None
      | Some p \<Rightarrow> if object_bad pools_at p obj s \<or> rd32 s (obj + 4) > rd32 s (obj + 8) then Some 0 else Some (rd32 s (obj + 4)))"

section \<open>The header that is read behind a handle\<close>

text \<open>A handle is the address of an object plus 25; the allocator looks for the header 32 bytes in front of it, 7 bytes too
  low, where the last bytes of the header of the heap block are.\<close>

definition next_addr :: "memory_block_t list \<Rightarrow> nat \<Rightarrow> u64" where
  "next_addr bs i = (if Suc i < length bs then mb_addr (bs ! Suc i) else 0)"

lemma unat_diff_ge: "unat (b :: u64) \<le> unat a \<Longrightarrow> unat (a - b) = unat a - unat b"
  by (simp add: unat_sub word_le_nat_alt)

lemma header_byte_next:
  assumes "tiles x bs e" "e < 18446744073709551616" "i < length bs" "a = mb_addr (bs ! i) + 20"
  shows "header_byte a bs = Some (ucast (drop_bit 32 (next_addr bs i)))"
  using assms(1,3,4)
proof (induction bs arbitrary: x i)
  case (Cons b bs)
  have t: "unat (mb_addr b) = x" "tiles (x + 24 + unat (mb_size b)) bs e" using Cons.prems(1) by simp_all
  show ?case
  proof (cases i)
    case 0
    then have "a - mb_addr b = 20" using Cons.prems(3) by simp
    then show ?thesis using 0 by (cases bs) (simp_all add: BLOCK_HEADER_def next_addr_def Let_def)
  next
    case (Suc j)
    have j: "j < length bs" using Cons.prems(2) Suc by simp
    have m: "x + 24 \<le> unat (mb_addr (bs ! j))" "unat (mb_addr (bs ! j)) + 24 \<le> e"
      using tiles_member [OF t(2), of "bs ! j"] j by auto
    have ua: "unat a = unat (mb_addr (bs ! j)) + 20"
      using Cons.prems(3) Suc m(2) assms(2) unat_add_u64 [of "mb_addr (bs ! j)" 20] by simp
    have "unat (a - mb_addr b) \<ge> 24" using unat_diff_ge [of "mb_addr b" a] ua m(1) t(1) by simp
    then have "\<not> a - mb_addr b < BLOCK_HEADER" by (simp add: BLOCK_HEADER_def word_less_nat_alt)
    then show ?thesis using Cons.IH [OF t(2) j] Cons.prems(3) Suc by (simp add: next_addr_def Let_def)
  qed
qed simp

lemma rd32_top: "drop_bit 24 (rd32 s a) = ucast (rd8 s (a + 3))"
proof -
  have "drop_bit 24 (ucast b0 OR push_bit 8 (ucast b1) OR push_bit 16 (ucast b2) OR push_bit 24 (ucast b3) :: u32) = ucast b3"
    for b0 b1 b2 b3 :: u8
    by (rule bit_word_eqI) (auto simp: bit_simps dest: bit_imp_le_length)
  then show ?thesis by (simp add: rd32_def)
qed

definition handle_live :: "'z kmem_scheme \<Rightarrow> u64 \<Rightarrow> bool" where
  "handle_live s h \<longleftrightarrow> (\<exists>obj len. (obj, len) \<in> heap_live s \<and> unat h = obj + 25)"

definition heap_low :: "'z kmem_scheme \<Rightarrow> bool" where
  "heap_low s \<longleftrightarrow> unat (kernel_heap s) + unat (g_memory_heap_size s) < 2 ^ 38"

lemma handle_header:
  assumes "mem_inv s" "heap_low s" "handle_live s h"
  shows "h \<noteq> 0" "rd32 s (h - OBJ_SIZEOF) \<noteq> ZS_OBJ_MAGIC"
proof -
  let ?bs = "memory_head s" and ?e = "unat (kernel_heap s) + unat (g_memory_heap_size s)"
  have t: "tiles (unat (kernel_heap s)) ?bs ?e" using assms(1) by (simp add: mem_inv_def heap_inv_def)
  obtain b where b: "b \<in> set ?bs" "unat h = unat (mb_addr b) + 24 + 25"
    using assms(3) by (auto simp: handle_live_def heap_live_def used_blocks_def)
  then obtain i where i: "i < length ?bs" "?bs ! i = b" by (auto simp: in_set_conv_nth)
  show "h \<noteq> 0" using b(2) by auto
  have e: "?e < 18446744073709551616" "?e < 274877906944" using assms(2) by (simp_all add: heap_low_def)
  have "unat (mb_addr b) + 24 \<le> ?e" using tiles_member [OF t b(1)] by simp
  then have "unat (mb_addr b + 49) = unat h" using b(2) e unat_add_u64 [of "mb_addr b" 49] by simp
  then have "h = mb_addr b + 49" by (simp only: unat_inj_iff)
  then have a: "h - OBJ_SIZEOF + 3 = mb_addr (?bs ! i) + 20" using i(2) by (simp add: OBJ_SIZEOF_def)
  have n: "unat (next_addr ?bs i) < 274877906944"
    using tiles_member [OF t, of "?bs ! Suc i"] e by (auto simp: next_addr_def)
  have r: "rd8 s (h - OBJ_SIZEOF + 3) = ucast (drop_bit 32 (next_addr ?bs i))"
    using header_byte_next [OF t e(1) i(1) a] by (simp add: rd8_def)
  show "rd32 s (h - OBJ_SIZEOF) \<noteq> ZS_OBJ_MAGIC"
  proof
    assume "rd32 s (h - OBJ_SIZEOF) = ZS_OBJ_MAGIC"
    then have "(ucast (ucast (drop_bit 32 (next_addr ?bs i)) :: u8) :: u32) = 0x5A"
      using rd32_top [of s "h - OBJ_SIZEOF"] r by (simp add: ZS_OBJ_MAGIC_def)
    moreover have w: "unat (drop_bit 32 (next_addr ?bs i)) < 64" using n by (simp add: drop_bit_eq_div unat_div)
    moreover have "unat (ucast (ucast (drop_bit 32 (next_addr ?bs i)) :: u8) :: u32) = unat (drop_bit 32 (next_addr ?bs i))"
      using w by (simp add: unsigned_ucast_eq unsigned_take_bit_eq take_bit_nat_eq_self)
    ultimately show False by simp
  qed
qed

lemma zs_free_live:
  assumes "mem_inv s" "heap_low s" "handle_live s h"
  shows "zs_free pools_at pool h s = Some (case pool of None \<Rightarrow> s | Some p \<Rightarrow> s\<lparr>g_zs_status := ''zs: invalid magic''\<rparr>)"
  using handle_header [OF assms] by (simp add: zs_free_def Let_def split: option.split)

lemma zs_usable_live:
  assumes "mem_inv s" "heap_low s" "handle_live s h"
  shows "zs_malloc_usable_size pools_at h s = Some 0"
  using handle_header [OF assms] by (simp add: zs_malloc_usable_size_def Let_def)

text \<open>The invariant of the heap does not look at the fields of the allocator.\<close>

lemma zs_fields_mem_view [simp]:
  "mem_view (s\<lparr>g_zs_status := a\<rparr>) = mem_view s" "mem_view (s\<lparr>g_zs_pools := b\<rparr>) = mem_view s"
  "mem_view (s\<lparr>g_zs_info := c\<rparr>) = mem_view s" "mem_view (s\<lparr>g_zs_pool_count := e\<rparr>) = mem_view s" "mem_view (wr_bytes x d s) = mem_view s"
  by (simp_all add: mem_view_def wr_bytes_def)

definition heap_step :: "'z kmem_scheme \<Rightarrow> 'z kmem_scheme \<Rightarrow> bool" where
  "heap_step s s' \<longleftrightarrow> mem_inv s' \<and> kernel_heap s' = kernel_heap s \<and> g_memory_heap_size s' = g_memory_heap_size s"

lemma heap_step_view: "mem_inv s \<Longrightarrow> mem_view s' = mem_view s \<Longrightarrow> heap_step s s' \<and> heap_live s' = heap_live s"
  using mem_view_inv [of s' s] by (simp add: heap_step_def mem_view_def)

lemma zs_malloc_cases:
  obtains (refused) st where "zs_malloc pools_at now caller pool sz s = Some (0, s\<lparr>g_zs_status := st\<rparr>)"
  | (tried) n :: u32 and p k where "zs_malloc pools_at now caller pool sz s =
      (kmalloc now caller (OBJ_SIZEOF + ucast n) s \<bind> (\<lambda>(obj, s). if obj = 0 then Some (0, s\<lparr>g_zs_status := ''zs: allocation failed''\<rparr>)
         else Some (obj + OBJ_DATA, zs_fill pools_at p k sz obj s)))"
proof (cases pool)
  case None
  then show ?thesis using refused by (simp add: zs_malloc_def)
next
  case (Some p)
  show ?thesis
  proof (cases "\<not> z_ready (g_zs_pools s ! p) \<or> sz = 0 \<or> sz > ZS_MAX_SIZE")
    case True
    then have "zs_malloc pools_at now caller pool sz s = Some (0, s\<lparr>g_zs_status := ''zs: invalid params''\<rparr>)"
      unfolding zs_malloc_def Some option.case by (rule if_P)
    then show ?thesis by (rule refused)
  next
    case ok: False
    show ?thesis
    proof (cases "sz > 0xFFFFFFFF - ucast OBJ_SIZEOF")
      case True
      then have "zs_malloc pools_at now caller pool sz s = Some (0, s\<lparr>g_zs_status := ''zs: size overflow''\<rparr>)"
        unfolding zs_malloc_def Some option.case if_not_P [OF ok] by (rule if_P)
      then show ?thesis by (rule refused)
    next
      case False
      show ?thesis
      proof (cases "zs_find_size_class (g_zs_pools s ! p) sz")
        case None
        show ?thesis by (rule refused) (simp only: zs_malloc_def Some option.case if_not_P [OF ok] if_not_P [OF False] None)
      next
        case k: (Some k)
        show ?thesis by (rule tried [of "z_size_classes (g_zs_pools s ! p) ! k" p k])
          (simp only: zs_malloc_def Some option.case if_not_P [OF ok] if_not_P [OF False] k)
      qed
    qed
  qed
qed

lemma zs_fill_keeps: "mem_view (zs_fill pools_at p k sz obj s) = mem_view s" "kzs.more (zs_fill pools_at p k sz obj s) = kzs.more s"
  by (simp_all add: zs_fill_def Let_def wr_bytes_def mem_view_def)

lemma kzs_more_kmem: "kmem.more s' = kmem.more s \<Longrightarrow> kzs.more (s' :: 'z kzs_scheme) = kzs.more s"
  by (cases s; cases s') simp

lemma mem_only_heap:
  assumes "mem_only s s'"
  shows "kernel_heap s' = kernel_heap s" "g_memory_heap_size s' = g_memory_heap_size s"
proof -
  from assms obtain t h u w a f where t: "leak_only s t"
    "s' = t\<lparr>memory_head := h, g_memory_used := u, g_memory_high_water_used := w, g_memory_allocs := a, g_memory_frees := f\<rparr>"
    by (auto simp: mem_only_def)
  show "kernel_heap s' = kernel_heap s" "g_memory_heap_size s' = g_memory_heap_size s" by (simp_all add: t(2) kleak_more_eq [OF t(1)])
qed

lemma unat_handle:
  assumes "mem_inv s" "heap_low s" "(unat obj, len) \<in> heap_live s"
  shows "unat (obj + OBJ_DATA) = unat obj + 25"
proof -
  have t: "tiles (unat (kernel_heap s)) (memory_head s) (unat (kernel_heap s) + unat (g_memory_heap_size s))"
    using assms(1) by (simp add: mem_inv_def heap_inv_def)
  obtain b where "b \<in> set (memory_head s)" "unat obj = unat (mb_addr b) + 24" using assms(3) by (auto simp: heap_live_def used_blocks_def)
  then have "unat obj < 2 ^ 38" using tiles_member(2) [OF t, of b] assms(2) by (simp add: heap_low_def)
  then show ?thesis using unat_add_u64 [of obj OBJ_DATA] by (simp add: OBJ_DATA_def)
qed

lemma zs_malloc_spec:
  assumes "mem_inv s" "heap_low s"
  obtains h s' where "zs_malloc pools_at now caller pool sz s = Some (h, s')" "heap_step s s'" "heap_live s \<subseteq> heap_live s'"
    "h \<noteq> 0 \<Longrightarrow> \<exists>obj len. (obj, len) \<in> heap_live s' \<and> unat h = obj + 25 \<and> obj \<notin> fst ` heap_live s" "kzs.more s' = kzs.more s"
proof (cases rule: zs_malloc_cases [of pools_at now caller pool sz s])
  case (refused st)
  then show ?thesis using that [OF refused] heap_step_view [OF assms(1), of "s\<lparr>g_zs_status := st\<rparr>"] by simp
next
  case (tried n p k)
  obtain obj t where K: "kmalloc now caller (OBJ_SIZEOF + ucast n) s = Some (obj, t)" "mem_inv t" "kernel_heap t = kernel_heap s"
      "g_memory_heap_size t = g_memory_heap_size s" "obj = 0 \<longrightarrow> t = s" "obj \<noteq> 0 \<longrightarrow> (\<exists>len. heap_live t = insert (unat obj, len) (heap_live s) \<and> (\<forall>(q, m) \<in> heap_live s. q \<noteq> unat obj))"
    using kmalloc_spec [OF assms(1), of now caller "OBJ_SIZEOF + ucast n"] by fast
  have li: "leak_inv s" using assms(1) by (simp add: mem_inv_def)
  have more: "kzs.more t = kzs.more s" using kzs_more_kmem mem_only_frames(3) [OF kmalloc_only [OF li K(1)]] by blast
  show ?thesis
  proof (cases "obj = 0")
    case True
    then show ?thesis using that [of 0 "s\<lparr>g_zs_status := ''zs: allocation failed''\<rparr>"] tried K(1,5)
        heap_step_view [OF assms(1), of "s\<lparr>g_zs_status := ''zs: allocation failed''\<rparr>"] by simp
  next
    case False
    let ?u = "zs_fill pools_at p k sz obj t"
    obtain len where len: "heap_live t = insert (unat obj, len) (heap_live s)" and fresh: "\<forall>(q, m) \<in> heap_live s. q \<noteq> unat obj"
      using K(6) False by blast
    note V = heap_step_view [OF K(2) zs_fill_keeps(1), of pools_at p k sz obj]
    have "heap_low t" using assms(2) K(3,4) by (simp add: heap_low_def)
    then have "unat (obj + OBJ_DATA) = unat obj + 25" using unat_handle [OF K(2)] len by blast
    moreover have "(unat obj, len) \<in> heap_live ?u" "unat obj \<notin> fst ` heap_live s" using V len fresh by auto
    ultimately have h: "\<exists>q len. (q, len) \<in> heap_live ?u \<and> unat (obj + OBJ_DATA) = q + 25 \<and> q \<notin> fst ` heap_live s" by blast
    have "heap_step s ?u" using V K(3,4) by (simp add: heap_step_def)
    moreover have "zs_malloc pools_at now caller pool sz s = Some (obj + OBJ_DATA, ?u)" using tried K(1) False by simp
    ultimately show ?thesis using that [of "obj + OBJ_DATA" ?u] h V len more zs_fill_keeps(2) by (metis subset_insertI)
  qed
qed

end
