(* ===== verification/Zpage.thy ===== *)
theory Zpage
  imports Zs
begin

text \<open>
  The table of tracked pages of \<^verbatim>\<open>kernel/mm/zcomp.c\<close>: pages are registered, marked as referenced, compressed into objects of
  the store in \<^theory_text>\<open>Zs\<close>, and meant to be restored from them.  The contents of a resident page are an argument, for the
  reclaim pass a function of its address; a null page pointer is no page, and the output buffer of a decompression is one that is not null.  The ratio of sizes is floating-point and left out.
\<close>

section \<open>State\<close>

datatype zcomp_page_state_t = ZCOMP_PAGE_FREE | ZCOMP_PAGE_ACTIVE | ZCOMP_PAGE_COMPRESSED

record zcomp_slot_t =
  zc_vaddr :: u64
  zc_state :: zcomp_page_state_t
  zc_referenced :: bool
  zc_zs_handle :: u64
  zc_orig_size :: u32
  zc_comp_size :: u32

record zcomp_info_t =
  zc_enabled :: bool
  zc_pool_ready :: bool
  zc_tracked_pages :: u32
  zc_compressed_pages :: u32
  zc_compress_ops :: u32
  zc_decompress_ops :: u32
  zc_reclaim_passes :: u32
  zc_failures :: u32
  zc_total_original_bytes :: u64
  zc_total_compressed_bytes :: u64

record kzcomp = kzs +
  g_slots :: "zcomp_slot_t list"
  g_zinfo :: zcomp_info_t
  g_pool :: "nat option"
  g_zstatus :: string

definition ZCOMP_PAGE_SIZE :: nat where "ZCOMP_PAGE_SIZE = 4096"
definition ZCOMP_MAX_PAGES :: nat where "ZCOMP_MAX_PAGES = 256"

definition zcomp_slot_zero :: zcomp_slot_t where
  "zcomp_slot_zero = \<lparr>zc_vaddr = 0, zc_state = ZCOMP_PAGE_FREE, zc_referenced = False, zc_zs_handle = 0, zc_orig_size = 0, zc_comp_size = 0\<rparr>"

definition zcomp_info_zero :: zcomp_info_t where
  "zcomp_info_zero = \<lparr>zc_enabled = False, zc_pool_ready = False, zc_tracked_pages = 0, zc_compressed_pages = 0, zc_compress_ops = 0,
     zc_decompress_ops = 0, zc_reclaim_passes = 0, zc_failures = 0, zc_total_original_bytes = 0, zc_total_compressed_bytes = 0\<rparr>"

definition slot_upd :: "nat \<Rightarrow> (zcomp_slot_t \<Rightarrow> zcomp_slot_t) \<Rightarrow> kzcomp \<Rightarrow> kzcomp" where
  "slot_upd i f s = s\<lparr>g_slots := (g_slots s)[i := f (g_slots s ! i)]\<rparr>"

definition note_failure :: "kzcomp \<Rightarrow> kzcomp" where
  "note_failure s = s\<lparr>g_zinfo := (g_zinfo s)\<lparr>zc_failures := zc_failures (g_zinfo s) + 1\<rparr>\<rparr>"

section \<open>Operations\<close>

definition zcomp_find_slot :: "u64 \<Rightarrow> kzcomp \<Rightarrow> nat option" where
  "zcomp_find_slot vaddr s = find_index (\<lambda>z. zc_state z \<noteq> ZCOMP_PAGE_FREE \<and> zc_vaddr z = vaddr) (g_slots s)"

definition zcomp_init :: "kzcomp \<Rightarrow> kzcomp" where
  "zcomp_init s =
     (let s = s\<lparr>g_slots := replicate ZCOMP_MAX_PAGES zcomp_slot_zero, g_zinfo := zcomp_info_zero, g_zstatus := ''zcomp: ready''\<rparr>
      in case zs_create_pool ''zcomp'' 1 s of (pool, s) \<Rightarrow>
           let s = s\<lparr>g_pool := pool\<rparr>;
               s = (if pool \<noteq> None then s\<lparr>g_zinfo := (g_zinfo s)\<lparr>zc_pool_ready := True\<rparr>\<rparr> else s)
           in s\<lparr>g_zinfo := (g_zinfo s)\<lparr>zc_enabled := True\<rparr>\<rparr>)"

definition zcomp_track :: "u64 \<Rightarrow> kzcomp \<Rightarrow> int \<times> kzcomp" where
  "zcomp_track vaddr s =
     (if vaddr = 0 then (-1, s)
      else case zcomp_find_slot vaddr s of
        Some i \<Rightarrow> (int i, s)
      | None \<Rightarrow>
          (case find_index (\<lambda>z. zc_state z = ZCOMP_PAGE_FREE) (g_slots s) of
             Some i \<Rightarrow> (int i, (slot_upd i (\<lambda>_. zcomp_slot_zero\<lparr>zc_vaddr := vaddr, zc_state := ZCOMP_PAGE_ACTIVE, zc_referenced := True\<rparr>) s)
                          \<lparr>g_zinfo := (g_zinfo s)\<lparr>zc_tracked_pages := zc_tracked_pages (g_zinfo s) + 1\<rparr>\<rparr>)
           | None \<Rightarrow> (-1, note_failure s)))"

definition zcomp_touch :: "u64 \<Rightarrow> kzcomp \<Rightarrow> kzcomp" where
  "zcomp_touch vaddr s = (case zcomp_find_slot vaddr s of None \<Rightarrow> s | Some i \<Rightarrow> slot_upd i (\<lambda>z. z\<lparr>zc_referenced := True\<rparr>) s)"

text \<open>Storing the compressed bytes of a page, from the allocation of the object on.\<close>

definition zcomp_store :: "u64 \<Rightarrow> u64 \<Rightarrow> u64 \<Rightarrow> nat \<Rightarrow> u64 \<Rightarrow> u8 list \<Rightarrow> kzcomp \<Rightarrow> (bool \<times> kzcomp) option" where
  "zcomp_store pools_at now caller i scratch enc s = do {
     (handle, s) \<leftarrow> zs_malloc pools_at now caller (g_pool s) (of_nat (length enc)) s;
     if handle = 0 then do {
       s \<leftarrow> kfree scratch s;
       Some (False, note_failure s)
     } else do {
       let s = wr_bytes handle enc s;
       s \<leftarrow> kfree scratch s;
       s \<leftarrow> (if zc_zs_handle (g_slots s ! i) \<noteq> 0 then zs_free pools_at (g_pool s) (zc_zs_handle (g_slots s ! i)) s else Some s);
       let s = slot_upd i (\<lambda>z. z\<lparr>zc_zs_handle := handle, zc_orig_size := of_nat ZCOMP_PAGE_SIZE, zc_comp_size := of_nat (length enc),
                                   zc_state := ZCOMP_PAGE_COMPRESSED, zc_referenced := False\<rparr>) s;
       let n = g_zinfo s;
       Some (True, s\<lparr>g_zinfo := n\<lparr>zc_compress_ops := zc_compress_ops n + 1, zc_compressed_pages := zc_compressed_pages n + 1,
                       zc_total_original_bytes := zc_total_original_bytes n + of_nat ZCOMP_PAGE_SIZE,
                       zc_total_compressed_bytes := zc_total_compressed_bytes n + of_nat (length enc)\<rparr>, g_zstatus := ''zcomp: page compressed''\<rparr>)
     }
   }"

definition zcomp_compress_slot :: "u64 \<Rightarrow> u64 \<Rightarrow> u64 \<Rightarrow> nat \<Rightarrow> u8 list \<Rightarrow> kzcomp \<Rightarrow> (bool \<times> kzcomp) option" where
  "zcomp_compress_slot pools_at now caller i page s =
     (if zc_state (g_slots s ! i) = ZCOMP_PAGE_COMPRESSED then Some (True, s)
      else do {
        (scratch, s) \<leftarrow> kmalloc now caller (of_nat (ZCOMP_PAGE_SIZE + 64)) s;
        if scratch = 0 then Some (False, note_failure s)
        else case zcomp_lz_encode page (ZCOMP_PAGE_SIZE + 64) of
          None \<Rightarrow> do {
            s \<leftarrow> kfree scratch s;
            Some (False, slot_upd i (\<lambda>z. z\<lparr>zc_state := ZCOMP_PAGE_ACTIVE\<rparr>) s)
          }
        | Some enc \<Rightarrow>
            if length enc \<ge> ZCOMP_PAGE_SIZE then do {
              s \<leftarrow> kfree scratch s;
              Some (False, slot_upd i (\<lambda>z. z\<lparr>zc_state := ZCOMP_PAGE_ACTIVE\<rparr>) s)
            } else zcomp_store pools_at now caller i scratch enc s
      })"

definition zcomp_compress_page :: "u64 \<Rightarrow> u64 \<Rightarrow> u64 \<Rightarrow> u64 \<Rightarrow> u8 list option \<Rightarrow> kzcomp \<Rightarrow> (bool \<times> kzcomp) option" where
  "zcomp_compress_page pools_at now caller vaddr page_data s =
     (case page_data of
        None \<Rightarrow> Some (False, s)
      | Some page \<Rightarrow>
          if \<not> zc_enabled (g_zinfo s) \<or> g_pool s = None then Some (False, s)
          else case zcomp_find_slot vaddr s of
            Some i \<Rightarrow> zcomp_compress_slot pools_at now caller i page s
          | None \<Rightarrow>
              (case zcomp_track vaddr s of (idx, s) \<Rightarrow>
                 if idx < 0 then Some (False, s) else zcomp_compress_slot pools_at now caller (nat idx) page s))"

definition zcomp_decompress_page :: "u64 \<Rightarrow> u64 \<Rightarrow> kzcomp \<Rightarrow> (bool \<times> u8 list \<times> kzcomp) option" where
  "zcomp_decompress_page pools_at vaddr s =
     (case zcomp_find_slot vaddr s of
        None \<Rightarrow> Some (False, [], s)
      | Some i \<Rightarrow>
          (let slot = g_slots s ! i in
           if zc_state slot \<noteq> ZCOMP_PAGE_COMPRESSED \<or> zc_zs_handle slot = 0 then Some (False, [], s)
           else do {
             comp_len \<leftarrow> zs_malloc_usable_size pools_at (zc_zs_handle slot) s;
             if comp_len = 0 then Some (False, [], s)
             else case zcomp_lz_decode (map (\<lambda>k. rd8 s (zc_zs_handle slot + of_nat k)) [0..<unat comp_len]) ZCOMP_PAGE_SIZE of (out_len, out) \<Rightarrow>
               if out_len \<noteq> ZCOMP_PAGE_SIZE then Some (False, out, note_failure s)
               else do {
                 s \<leftarrow> zs_free pools_at (g_pool s) (zc_zs_handle slot) s;
                 let s = slot_upd i (\<lambda>z. z\<lparr>zc_zs_handle := 0, zc_state := ZCOMP_PAGE_FREE, zc_vaddr := 0\<rparr>) s;
                 let n = g_zinfo s;
                 Some (True, out, s\<lparr>g_zinfo := n\<lparr>zc_compressed_pages := (if zc_compressed_pages n > 0 then zc_compressed_pages n - 1 else zc_compressed_pages n),
                         zc_tracked_pages := (if zc_tracked_pages n > 0 then zc_tracked_pages n - 1 else 0),
                         zc_decompress_ops := zc_decompress_ops n + 1\<rparr>, g_zstatus := ''zcomp: page decompressed''\<rparr>)
               }
           }))"

definition reclaim_step :: "u64 \<Rightarrow> u64 \<Rightarrow> u64 \<Rightarrow> (u64 \<Rightarrow> u8 list) \<Rightarrow> nat \<Rightarrow> u32 \<times> kzcomp \<Rightarrow> (u32 \<times> kzcomp) option" where
  "reclaim_step pools_at now caller resident i = (\<lambda>(n, s).
     if zc_state (g_slots s ! i) \<noteq> ZCOMP_PAGE_ACTIVE then Some (n, s)
     else if zc_referenced (g_slots s ! i) then Some (n, slot_upd i (\<lambda>z. z\<lparr>zc_referenced := False\<rparr>) s)
     else do {
       (ok, s) \<leftarrow> zcomp_compress_page pools_at now caller (zc_vaddr (g_slots s ! i)) (Some (resident (zc_vaddr (g_slots s ! i)))) s;
       Some (if ok then n + 1 else n, s)
     })"

primrec fold_opt :: "('a \<Rightarrow> 'b \<Rightarrow> 'b option) \<Rightarrow> 'a list \<Rightarrow> 'b \<Rightarrow> 'b option" where
  "fold_opt f [] b = Some b"
| "fold_opt f (x # xs) b = (f x b \<bind> fold_opt f xs)"

definition zcomp_reclaim_pass :: "u64 \<Rightarrow> u64 \<Rightarrow> u64 \<Rightarrow> (u64 \<Rightarrow> u8 list) \<Rightarrow> kzcomp \<Rightarrow> (u32 \<times> kzcomp) option" where
  "zcomp_reclaim_pass pools_at now caller resident s =
     (if \<not> zc_enabled (g_zinfo s) then Some (0, s)
      else fold_opt (reclaim_step pools_at now caller resident) [0..<ZCOMP_MAX_PAGES]
             (0, s\<lparr>g_zinfo := (g_zinfo s)\<lparr>zc_reclaim_passes := zc_reclaim_passes (g_zinfo s) + 1\<rparr>\<rparr>))"

definition drop_step :: "u64 \<Rightarrow> nat \<Rightarrow> kzcomp \<Rightarrow> kzcomp option" where
  "drop_step pools_at i s = do {
     s \<leftarrow> (if zc_state (g_slots s ! i) = ZCOMP_PAGE_COMPRESSED \<and> zc_zs_handle (g_slots s ! i) \<noteq> 0
           then map_option (slot_upd i (\<lambda>z. z\<lparr>zc_zs_handle := 0\<rparr>)) (zs_free pools_at (g_pool s) (zc_zs_handle (g_slots s ! i)) s)
           else Some s);
     Some (slot_upd i (\<lambda>z. z\<lparr>zc_state := ZCOMP_PAGE_FREE\<rparr>) s)
   }"

definition zcomp_ctl :: "u64 \<Rightarrow> u64 \<Rightarrow> u64 \<Rightarrow> (u64 \<Rightarrow> u8 list) \<Rightarrow> u64 \<Rightarrow> u64 \<Rightarrow> kzcomp \<Rightarrow> (u64 \<times> kzcomp) option" where
  "zcomp_ctl pools_at now caller resident cmd arg1 s =
     (if cmd = 0 then Some (0, s)
      else if cmd = 1 then map_option (\<lambda>(n, s). (ucast n, s)) (zcomp_reclaim_pass pools_at now caller resident s)
      else if cmd = 2 then Some (0, s\<lparr>g_zinfo := (g_zinfo s)\<lparr>zc_enabled := (arg1 \<noteq> 0)\<rparr>\<rparr>)
      else if cmd = 3 then do {
        s \<leftarrow> fold_opt (drop_step pools_at) [0..<ZCOMP_MAX_PAGES] s;
        Some (0, s\<lparr>g_zinfo := (g_zinfo s)\<lparr>zc_compressed_pages := 0\<rparr>\<rparr>)
      } else Some (-1, s))"

section \<open>The invariant of the table\<close>

text \<open>Every compressed slot holds the handle of an object that is live in the heap, every other slot holds none.\<close>

definition slot_ok :: "kzcomp \<Rightarrow> zcomp_slot_t \<Rightarrow> bool" where
  "slot_ok s z \<longleftrightarrow> (if zc_state z = ZCOMP_PAGE_COMPRESSED then handle_live s (zc_zs_handle z) else zc_zs_handle z = 0)"

definition zc_inv :: "kzcomp \<Rightarrow> bool" where
  "zc_inv s \<longleftrightarrow> mem_inv s \<and> heap_low s \<and> length (g_slots s) = ZCOMP_MAX_PAGES \<and> (\<forall>z \<in> set (g_slots s). slot_ok s z)"

definition zc_grows :: "kzcomp \<Rightarrow> kzcomp \<Rightarrow> bool" where
  "zc_grows s s' \<longleftrightarrow> zc_inv s' \<and> heap_live s \<subseteq> heap_live s'"

lemma zc_fields_mem_view [simp]:
  "mem_view (slot_upd i f s) = mem_view s" "mem_view (note_failure s) = mem_view s" "mem_view (s\<lparr>g_slots := a\<rparr>) = mem_view s"
  "mem_view (s\<lparr>g_zinfo := b\<rparr>) = mem_view s" "mem_view (s\<lparr>g_zstatus := c\<rparr>) = mem_view s" "mem_view (s\<lparr>g_pool := d\<rparr>) = mem_view s"
  by (simp_all add: mem_view_def slot_upd_def note_failure_def)

lemma zc_fields_slots [simp]:
  "g_slots (note_failure s) = g_slots s" "g_slots (wr_bytes x d s) = g_slots s" "g_slots (slot_upd i f s) = (g_slots s)[i := f (g_slots s ! i)]"
  by (simp_all add: note_failure_def wr_bytes_def slot_upd_def)

lemma kzs_more_slots: "kzs.more s' = kzs.more s \<Longrightarrow> g_slots (s' :: kzcomp) = g_slots s"
  by (cases s; cases s') simp

lemma handle_live_mono: "heap_live s \<subseteq> heap_live s' \<Longrightarrow> handle_live s h \<Longrightarrow> handle_live s' h"
  unfolding handle_live_def by blast

lemma slot_ok_mono: "heap_live s \<subseteq> heap_live s' \<Longrightarrow> slot_ok s z \<Longrightarrow> slot_ok s' z"
  using handle_live_mono [of s s'] by (simp add: slot_ok_def)

lemma zc_inv_step:
  assumes "zc_inv s" "heap_step s s'" "heap_live s \<subseteq> heap_live s'" "g_slots s' = g_slots s"
  shows "zc_inv s'"
proof -
  have "\<forall>z \<in> set (g_slots s'). slot_ok s' z" using assms(1,4) slot_ok_mono [OF assms(3)] by (simp add: zc_inv_def)
  then show ?thesis using assms(1,2,4) by (simp add: zc_inv_def heap_step_def heap_low_def)
qed

lemma zc_inv_view:
  assumes "zc_inv s" "mem_view s' = mem_view s" "length (g_slots s') = ZCOMP_MAX_PAGES" "\<forall>z \<in> set (g_slots s'). slot_ok s z"
  shows "zc_grows s s'"
proof -
  have m: "mem_inv s" using assms(1) by (simp add: zc_inv_def)
  note V = heap_step_view [OF m assms(2)]
  have "\<forall>z \<in> set (g_slots s'). slot_ok s' z" using assms(4) slot_ok_mono [of s s'] V by blast
  then show ?thesis using assms(1,3) V by (simp add: zc_grows_def zc_inv_def heap_step_def heap_low_def)
qed

lemma zc_grows_refl: "zc_inv s \<Longrightarrow> zc_grows s s"
  by (simp add: zc_grows_def)

lemma zc_grows_trans: "zc_grows s t \<Longrightarrow> zc_grows t u \<Longrightarrow> zc_grows s u"
  unfolding zc_grows_def by blast

lemma zc_grows_fields:
  assumes "zc_inv s" "mem_view s' = mem_view s" "g_slots s' = g_slots s"
  shows "zc_grows s s'"
  by (rule zc_inv_view [OF assms(1,2)]) (use assms(1,3) in \<open>simp_all add: zc_inv_def\<close>)

lemma zc_grows_slot:
  assumes "zc_inv s" "slot_ok s (f (g_slots s ! i))"
  shows "zc_grows s (slot_upd i f s)"
proof (rule zc_inv_view [OF assms(1)])
  show "\<forall>z \<in> set (g_slots (slot_upd i f s)). slot_ok s z"
    using assms set_update_subset_insert [of "g_slots s" i "f (g_slots s ! i)"] by (auto simp: zc_inv_def)
qed (use assms(1) in \<open>simp_all add: zc_inv_def\<close>)

lemma zc_slot:
  assumes "zc_inv s" "i < ZCOMP_MAX_PAGES"
  shows "slot_ok s (g_slots s ! i)"
  using assms by (simp add: zc_inv_def)

lemma kfree_scratch:
  assumes "zc_inv s" "\<forall>z \<in> set (g_slots s). zc_state z = ZCOMP_PAGE_COMPRESSED \<longrightarrow> unat (zc_zs_handle z) \<noteq> unat p + 25"
  obtains s' where "kfree p s = Some s'" "zc_inv s'" "heap_live s' = {r \<in> heap_live s. fst r \<noteq> unat p}" "g_slots s' = g_slots s"
proof -
  have m: "mem_inv s" using assms(1) by (simp add: zc_inv_def)
  obtain s' where K: "kfree p s = Some s'" "mem_inv s'" "mem_only s s'" "heap_live s' = {r \<in> heap_live s. fst r \<noteq> unat p}"
    using kfree_any [OF m] by blast
  have g: "g_slots s' = g_slots s" using kzs_more_slots kzs_more_kmem mem_only_frames(3) [OF K(3)] by blast
  have ok: "slot_ok s' z" if "z \<in> set (g_slots s)" for z
  proof (cases "zc_state z = ZCOMP_PAGE_COMPRESSED")
    case True
    then have "handle_live s (zc_zs_handle z)" using assms(1) that by (auto simp: zc_inv_def slot_ok_def)
    then obtain obj len where o: "(obj, len) \<in> heap_live s" "unat (zc_zs_handle z) = obj + 25" by (auto simp: handle_live_def)
    have "unat (zc_zs_handle z) \<noteq> unat p + 25" using assms(2) that True by blast
    then have "(obj, len) \<in> heap_live s'" using o by (simp add: K(4))
    then have "handle_live s' (zc_zs_handle z)" using o(2) unfolding handle_live_def by blast
    then show ?thesis using True by (simp add: slot_ok_def)
  next
    case False
    then show ?thesis using assms(1) that by (simp add: zc_inv_def slot_ok_def)
  qed
  have "kernel_heap s' = kernel_heap s \<and> g_memory_heap_size s' = g_memory_heap_size s" using mem_only_heap [OF K(3)] by blast
  then have "zc_inv s'" using assms(1) ok K(2) g by (simp add: zc_inv_def heap_low_def)
  then show ?thesis using that K g by blast
qed

section \<open>Every operation keeps the invariant\<close>

lemma find_slot_less:
  assumes "zc_inv s" "find_index P (g_slots s) = Some i"
  shows "i < ZCOMP_MAX_PAGES" "P (g_slots s ! i)"
  using find_index_SomeD [OF assms(2)] assms(1) by (simp_all add: zc_inv_def)

lemma zc_free_handle:
  assumes "zc_inv s" "handle_live s h"
  obtains s' where "zs_free pools_at pool h s = Some s'" "zc_grows s s'" "g_slots s' = g_slots s"
proof -
  have "mem_inv s" "heap_low s" using assms(1) by (simp_all add: zc_inv_def)
  note F = zs_free_live [OF this assms(2), of pools_at pool]
  show ?thesis
  proof (cases pool)
    case None
    then show ?thesis using that [of s] F zc_grows_refl [OF assms(1)] by simp
  next
    case (Some p)
    then show ?thesis using that [of "s\<lparr>g_zs_status := ''zs: invalid magic''\<rparr>"] F zc_grows_fields [OF assms(1), of "s\<lparr>g_zs_status := ''zs: invalid magic''\<rparr>"]
      by simp
  qed
qed

lemma zc_track:
  assumes "zc_inv s" "zcomp_track vaddr s = (idx, s')"
  shows "zc_grows s s'" "idx < int ZCOMP_MAX_PAGES"
proof -
  have n: "0 < ZCOMP_MAX_PAGES" by (simp add: ZCOMP_MAX_PAGES_def)
  have "zc_grows s s' \<and> idx < int ZCOMP_MAX_PAGES"
  proof (cases "vaddr = 0")
    case True
    then show ?thesis using assms zc_grows_refl n by (simp add: zcomp_track_def)
  next
    case v: False
    show ?thesis
    proof (cases "zcomp_find_slot vaddr s")
      case (Some i)
      then have "i < ZCOMP_MAX_PAGES" using find_slot_less [OF assms(1)] unfolding zcomp_find_slot_def by blast
      then show ?thesis using assms v Some zc_grows_refl by (simp add: zcomp_track_def)
    next
      case None
      show ?thesis
      proof (cases "find_index (\<lambda>z. zc_state z = ZCOMP_PAGE_FREE) (g_slots s)")
        case None
        have "s' = note_failure s" "idx = -1" using assms(2) v None \<open>zcomp_find_slot vaddr s = None\<close> by (simp_all add: zcomp_track_def)
        then show ?thesis using zc_grows_fields [OF assms(1), of "note_failure s"] n by simp
      next
        case (Some i)
        let ?t = "slot_upd i (\<lambda>_. zcomp_slot_zero\<lparr>zc_vaddr := vaddr, zc_state := ZCOMP_PAGE_ACTIVE, zc_referenced := True\<rparr>) s"
        let ?u = "?t\<lparr>g_zinfo := (g_zinfo s)\<lparr>zc_tracked_pages := zc_tracked_pages (g_zinfo s) + 1\<rparr>\<rparr>"
        have "zc_grows s ?t" by (rule zc_grows_slot [OF assms(1)]) (simp add: slot_ok_def zcomp_slot_zero_def)
        moreover have "zc_grows ?t ?u" using calculation by (intro zc_grows_fields) (simp_all add: zc_grows_def)
        ultimately have "zc_grows s ?u" by (rule zc_grows_trans)
        moreover have "i < ZCOMP_MAX_PAGES" using find_slot_less(1) [OF assms(1) Some] .
        moreover have "s' = ?u" "idx = int i" using assms(2) v None Some by (simp_all add: zcomp_track_def)
        ultimately show ?thesis by simp
      qed
    qed
  qed
  then show "zc_grows s s'" "idx < int ZCOMP_MAX_PAGES" by simp_all
qed

lemma zc_touch: "zc_inv s \<Longrightarrow> zc_grows s (zcomp_touch vaddr s)"
proof (cases "zcomp_find_slot vaddr s")
  case None
  then show "zc_inv s \<Longrightarrow> ?thesis" using zc_grows_refl by (simp add: zcomp_touch_def)
next
  case (Some i)
  assume inv: "zc_inv s"
  have "slot_ok s (g_slots s ! i)" using zc_slot [OF inv] find_slot_less [OF inv] Some unfolding zcomp_find_slot_def by blast
  then have "slot_ok s ((g_slots s ! i)\<lparr>zc_referenced := True\<rparr>)" by (simp add: slot_ok_def)
  from zc_grows_slot [where f = "\<lambda>z. z\<lparr>zc_referenced := True\<rparr>", OF inv this] show ?thesis using Some by (simp add: zcomp_touch_def)
qed

text \<open>The scratch buffer of a compression is a fresh region, so freeing it takes no stored object away.\<close>

lemma zc_scratch:
  assumes "zc_inv s"
  obtains p t where "kmalloc now caller n s = Some (p, t)" "zc_grows s t" "g_slots t = g_slots s"
    "p \<noteq> 0 \<Longrightarrow> unat p \<notin> fst ` heap_live s" "p \<noteq> 0 \<Longrightarrow> unat p \<in> fst ` heap_live t"
proof -
  have m: "mem_inv s" and li: "leak_inv s" using assms by (simp_all add: zc_inv_def mem_inv_def)
  obtain p t where K: "kmalloc now caller n s = Some (p, t)" "mem_inv t" "kernel_heap t = kernel_heap s"
      "g_memory_heap_size t = g_memory_heap_size s" "p = 0 \<longrightarrow> t = s" "p \<noteq> 0 \<longrightarrow> (\<exists>len. heap_live t = insert (unat p, len) (heap_live s) \<and> (\<forall>(q, m) \<in> heap_live s. q \<noteq> unat p))"
    using kmalloc_spec [OF m, of now caller n] by fast
  have g: "g_slots t = g_slots s" using kzs_more_slots kzs_more_kmem mem_only_frames(3) [OF kmalloc_only [OF li K(1)]] by blast
  have l: "heap_live s \<subseteq> heap_live t" using K(5,6) by blast
  have "heap_step s t" using K(2-4) by (simp add: heap_step_def)
  then have "zc_grows s t" using zc_inv_step [OF assms _ l g] l by (simp add: zc_grows_def)
  moreover have "unat p \<notin> fst ` heap_live s" "unat p \<in> fst ` heap_live t" if "p \<noteq> 0" using K(6) that by force+
  ultimately show ?thesis using that K(1) g by blast
qed

lemma zc_scratch_free:
  assumes "zc_inv s" "zc_grows s u" "g_slots u = g_slots s" "unat p \<notin> fst ` heap_live s"
  obtains v where "kfree p u = Some v" "zc_grows s v" "heap_live v = {r \<in> heap_live u. fst r \<noteq> unat p}" "g_slots v = g_slots s"
proof -
  have u: "zc_inv u" "heap_live s \<subseteq> heap_live u" using assms(2) by (simp_all add: zc_grows_def)
  have "unat (zc_zs_handle z) \<noteq> unat p + 25" if "z \<in> set (g_slots u)" "zc_state z = ZCOMP_PAGE_COMPRESSED" for z
  proof
    assume "unat (zc_zs_handle z) = unat p + 25"
    moreover have "handle_live s (zc_zs_handle z)" using that assms(1,3) by (auto simp: zc_inv_def slot_ok_def)
    ultimately show False using assms(4) by (force simp: handle_live_def)
  qed
  then obtain v where v: "kfree p u = Some v" "zc_inv v" "heap_live v = {r \<in> heap_live u. fst r \<noteq> unat p}" "g_slots v = g_slots u"
    using kfree_scratch [OF u(1)] by blast
  have "heap_live s \<subseteq> heap_live v" using u(2) assms(4) v(3) by force
  then show ?thesis using that v assms(3) by (simp add: zc_grows_def)
qed

lemma zc_store:
  assumes "zc_inv s" "zc_grows s t" "g_slots t = g_slots s" "unat p \<notin> fst ` heap_live s" "unat p \<in> fst ` heap_live t"
    "i < ZCOMP_MAX_PAGES" "zc_state (g_slots s ! i) \<noteq> ZCOMP_PAGE_COMPRESSED"
  shows "\<exists>b s'. zcomp_store pools_at now caller i p enc t = Some (b, s') \<and> zc_grows s s'"
proof -
  have t: "zc_inv t" "mem_inv t" "heap_low t" "heap_live s \<subseteq> heap_live t" using assms(2) by (simp_all add: zc_grows_def zc_inv_def)
  obtain h u where Z: "zs_malloc pools_at now caller (g_pool t) (of_nat (length enc)) t = Some (h, u)" "heap_step t u" "heap_live t \<subseteq> heap_live u"
      "h \<noteq> 0 \<Longrightarrow> \<exists>obj len. (obj, len) \<in> heap_live u \<and> unat h = obj + 25 \<and> obj \<notin> fst ` heap_live t" "kzs.more u = kzs.more t"
    using zs_malloc_spec [OF t(2,3)] by blast
  have gu: "g_slots u = g_slots s" using kzs_more_slots [OF Z(5)] assms(3) by simp
  have "zc_inv u" using zc_inv_step [OF t(1) Z(2,3)] gu assms(3) by simp
  then have su: "zc_grows s u" using t(4) Z(3) by (auto simp: zc_grows_def)
  show ?thesis
  proof (cases "h = 0")
    case True
    obtain v where v: "kfree p u = Some v" "zc_grows s v" using zc_scratch_free [OF assms(1) su gu assms(4)] by blast
    have "zc_grows v (note_failure v)" using v(2) by (intro zc_grows_fields) (simp_all add: zc_grows_def)
    then have "zc_grows s (note_failure v)" by (rule zc_grows_trans [OF v(2)])
    moreover have "zcomp_store pools_at now caller i p enc t = Some (False, note_failure v)" using True Z(1) v(1) by (simp add: zcomp_store_def)
    ultimately show ?thesis by blast
  next
    case False
    let ?w = "wr_bytes h enc u"
    have w: "mem_view ?w = mem_view u" "g_slots ?w = g_slots s" using gu by simp_all
    have lw: "heap_live ?w = heap_live u" using heap_step_view [of u ?w] w(1) \<open>zc_inv u\<close> by (simp add: zc_inv_def)
    have sw: "zc_grows s ?w" using zc_grows_trans [OF su] zc_grows_fields [OF \<open>zc_inv u\<close> w(1)] gu by simp
    obtain v where v: "kfree p ?w = Some v" "zc_grows s v" "heap_live v = {r \<in> heap_live ?w. fst r \<noteq> unat p}" "g_slots v = g_slots s"
      using zc_scratch_free [OF assms(1) sw w(2) assms(4)] by blast
    obtain obj len where o: "(obj, len) \<in> heap_live u" "unat h = obj + 25" "obj \<notin> fst ` heap_live t" using Z(4) False by blast
    then have "obj \<noteq> unat p" using assms(5) by blast
    then have hv: "handle_live v h" using o lw v(3) unfolding handle_live_def by force
    have z: "zc_zs_handle (g_slots v ! i) = 0" using zc_slot [OF assms(1,6)] assms(7) v(4) by (simp add: slot_ok_def)
    let ?f = "\<lambda>z. z\<lparr>zc_zs_handle := h, zc_orig_size := of_nat ZCOMP_PAGE_SIZE, zc_comp_size := of_nat (length enc),
                    zc_state := ZCOMP_PAGE_COMPRESSED, zc_referenced := False\<rparr>"
    have x: "zc_grows v (slot_upd i ?f v)"
      by (rule zc_grows_slot) (use v(2) hv in \<open>simp_all add: zc_grows_def slot_ok_def\<close>)
    have y: "zc_grows v y" if "mem_view y = mem_view (slot_upd i ?f v)" "g_slots y = g_slots (slot_upd i ?f v)" for y
      by (rule zc_grows_trans [OF x], rule zc_grows_fields) (use x that in \<open>simp_all add: zc_grows_def\<close>)
    have "\<exists>n st. zcomp_store pools_at now caller i p enc t = Some (True, (slot_upd i ?f v)\<lparr>g_zinfo := n, g_zstatus := st\<rparr>)"
      using Z(1) False v(1) z by (simp add: zcomp_store_def Let_def) blast
    then obtain n st where "zcomp_store pools_at now caller i p enc t = Some (True, (slot_upd i ?f v)\<lparr>g_zinfo := n, g_zstatus := st\<rparr>)" by blast
    moreover have "zc_grows s ((slot_upd i ?f v)\<lparr>g_zinfo := n, g_zstatus := st\<rparr>)" by (rule zc_grows_trans [OF v(2)], rule y) simp_all
    ultimately show ?thesis by blast
  qed
qed

lemma zc_compress_slot:
  assumes "zc_inv s" "i < ZCOMP_MAX_PAGES"
  shows "\<exists>b s'. zcomp_compress_slot pools_at now caller i page s = Some (b, s') \<and> zc_grows s s'"
proof (cases "zc_state (g_slots s ! i) = ZCOMP_PAGE_COMPRESSED")
  case True
  then have "zcomp_compress_slot pools_at now caller i page s = Some (True, s)" by (simp add: zcomp_compress_slot_def)
  then show ?thesis using zc_grows_refl [OF assms(1)] by blast
next
  case a: False
  obtain p t where K: "kmalloc now caller (of_nat (ZCOMP_PAGE_SIZE + 64)) s = Some (p, t)" "zc_grows s t" "g_slots t = g_slots s"
      "p \<noteq> 0 \<Longrightarrow> unat p \<notin> fst ` heap_live s" "p \<noteq> 0 \<Longrightarrow> unat p \<in> fst ` heap_live t"
    using zc_scratch [OF assms(1)] by blast
  let ?enc = "zcomp_lz_encode page (ZCOMP_PAGE_SIZE + 64)"
  let ?f = "\<lambda>z. z\<lparr>zc_state := ZCOMP_PAGE_ACTIVE\<rparr>"
  show ?thesis
  proof (cases "p = 0")
    case True
    have "zc_grows t (note_failure t)" using K(2) by (intro zc_grows_fields) (simp_all add: zc_grows_def)
    then have "zc_grows s (note_failure t)" by (rule zc_grows_trans [OF K(2)])
    moreover have "zcomp_compress_slot pools_at now caller i page s = Some (False, note_failure t)"
      using a K(1) True by (simp add: zcomp_compress_slot_def)
    ultimately show ?thesis by blast
  next
    case False
    obtain v where v: "kfree p t = Some v" "zc_grows s v" "g_slots v = g_slots s"
      using zc_scratch_free [OF assms(1) K(2,3) K(4) [OF False]] by blast
    have "slot_ok v (g_slots v ! i)" using v(2) assms(2) zc_slot by (simp add: zc_grows_def)
    then have "slot_ok v (?f (g_slots v ! i))" using a v(3) by (simp add: slot_ok_def)
    then have "zc_grows v (slot_upd i ?f v)" using v(2) by (intro zc_grows_slot) (simp_all add: zc_grows_def)
    then have g: "zc_grows s (slot_upd i ?f v)" by (rule zc_grows_trans [OF v(2)])
    consider (stay) "zcomp_compress_slot pools_at now caller i page s = Some (False, slot_upd i ?f v)"
      | (st) enc where "zcomp_compress_slot pools_at now caller i page s = zcomp_store pools_at now caller i p enc t"
    proof (cases ?enc)
      case None
      then show ?thesis using a K(1) False v(1) by (intro stay) (simp add: zcomp_compress_slot_def)
    next
      case (Some enc)
      show ?thesis
      proof (cases "length enc \<ge> ZCOMP_PAGE_SIZE")
        case True
        then show ?thesis using a K(1) False v(1) Some by (intro stay) (simp add: zcomp_compress_slot_def)
      next
        case l: False
        then show ?thesis using a K(1) False Some by (intro st [of enc]) (simp add: zcomp_compress_slot_def)
      qed
    qed
    then show ?thesis
    proof cases
      case stay
      then show ?thesis using g by blast
    next
      case (st enc)
      then show ?thesis using zc_store [OF assms(1) K(2,3) K(4) [OF False] K(5) [OF False] assms(2) a] by simp
    qed
  qed
qed

lemma zc_compress_page:
  assumes "zc_inv s"
  shows "\<exists>b s'. zcomp_compress_page pools_at now caller vaddr page s = Some (b, s') \<and> zc_grows s s'"
proof (cases "page = None \<or> \<not> zc_enabled (g_zinfo s) \<or> g_pool s = None")
  case True
  then have "zcomp_compress_page pools_at now caller vaddr page s = Some (False, s)" by (cases page) (auto simp: zcomp_compress_page_def)
  then show ?thesis using zc_grows_refl [OF assms] by blast
next
  case False
  then obtain pg pl where pg: "page = Some pg" "g_pool s = Some pl" "zc_enabled (g_zinfo s)" by (cases page; cases "g_pool s") auto
  show ?thesis
  proof (cases "zcomp_find_slot vaddr s")
    case (Some i)
    then have "i < ZCOMP_MAX_PAGES" using find_slot_less [OF assms] unfolding zcomp_find_slot_def by blast
    moreover have "zcomp_compress_page pools_at now caller vaddr page s = zcomp_compress_slot pools_at now caller i pg s"
      using pg Some by (simp add: zcomp_compress_page_def)
    ultimately show ?thesis using zc_compress_slot [OF assms] by simp
  next
    case None
    obtain idx t where T: "zcomp_track vaddr s = (idx, t)" by fastforce
    note G = zc_track [OF assms T]
    have e: "zcomp_compress_page pools_at now caller vaddr page s =
        (if idx < 0 then Some (False, t) else zcomp_compress_slot pools_at now caller (nat idx) pg t)"
      using pg None T by (simp add: zcomp_compress_page_def)
    show ?thesis
    proof (cases "idx < 0")
      case True
      then show ?thesis using e G(1) by (intro exI [of _ False] exI [of _ t]) simp
    next
      case n: False
      then have "nat idx < ZCOMP_MAX_PAGES" using G(2) by linarith
      then obtain b u where "zcomp_compress_slot pools_at now caller (nat idx) pg t = Some (b, u)" "zc_grows t u"
        using zc_compress_slot [of t] G(1) unfolding zc_grows_def by blast
      then show ?thesis using e n zc_grows_trans [OF G(1)] by (intro exI [of _ b] exI [of _ u]) simp
    qed
  qed
qed

lemma fold_opt_grows:
  assumes "\<And>x b. x \<in> set xs \<Longrightarrow> zc_inv (g b) \<Longrightarrow> \<exists>b'. f x b = Some b' \<and> zc_grows (g b) (g b')" "zc_inv (g b)"
  shows "\<exists>b'. fold_opt f xs b = Some b' \<and> zc_grows (g b) (g b')"
  using assms
proof (induction xs arbitrary: b)
  case Nil
  then show ?case using zc_grows_refl by simp
next
  case (Cons x xs)
  obtain c where c: "f x b = Some c" "zc_grows (g b) (g c)" using Cons.prems(1) [of x b] Cons.prems(2) by auto
  moreover have "zc_inv (g c)" using c(2) by (simp add: zc_grows_def)
  ultimately obtain d where "fold_opt f xs c = Some d" "zc_grows (g c) (g d)" using Cons.IH [of c] Cons.prems(1) by auto
  then show ?case using c zc_grows_trans by auto
qed

lemma zc_reclaim_step:
  assumes "zc_inv (snd b)" "i < ZCOMP_MAX_PAGES"
  shows "\<exists>b'. reclaim_step pools_at now caller resident i b = Some b' \<and> zc_grows (snd b) (snd b')"
proof -
  obtain n s where b: "b = (n, s)" by fastforce
  have inv: "zc_inv s" using assms(1) b by simp
  let ?f = "\<lambda>z. z\<lparr>zc_referenced := False\<rparr>"
  show ?thesis
  proof (cases "zc_state (g_slots s ! i) = ZCOMP_PAGE_ACTIVE")
    case False
    then have "reclaim_step pools_at now caller resident i b = Some b" by (simp add: reclaim_step_def b)
    then show ?thesis using zc_grows_refl [OF assms(1)] by simp
  next
    case active: True
    show ?thesis
    proof (cases "zc_referenced (g_slots s ! i)")
      case True
      have "slot_ok s (?f (g_slots s ! i))" using zc_slot [OF inv assms(2)] by (simp add: slot_ok_def)
      then have "zc_grows s (slot_upd i ?f s)" by (rule zc_grows_slot [where f = ?f, OF inv])
      then show ?thesis using active True by (simp add: reclaim_step_def b)
    next
      case False
      let ?v = "zc_vaddr (g_slots s ! i)"
      obtain ok t where "zcomp_compress_page pools_at now caller ?v (Some (resident ?v)) s = Some (ok, t)" "zc_grows s t"
        using zc_compress_page [OF inv] by blast
      then show ?thesis using active False by (simp add: reclaim_step_def b)
    qed
  qed
qed

lemma zc_reclaim:
  assumes "zc_inv s"
  shows "\<exists>b'. zcomp_reclaim_pass pools_at now caller resident s = Some b' \<and> zc_grows s (snd b')"
proof (cases "zc_enabled (g_zinfo s)")
  case False
  then show ?thesis using zc_grows_refl [OF assms] by (simp add: zcomp_reclaim_pass_def)
next
  case True
  let ?t = "s\<lparr>g_zinfo := (g_zinfo s)\<lparr>zc_reclaim_passes := zc_reclaim_passes (g_zinfo s) + 1\<rparr>\<rparr>"
  have g: "zc_grows s ?t" by (rule zc_grows_fields [OF assms]) simp_all
  have "\<exists>b'. fold_opt (reclaim_step pools_at now caller resident) [0..<ZCOMP_MAX_PAGES] (0, ?t) = Some b' \<and> zc_grows (snd (0 :: u32, ?t)) (snd b')"
    by (rule fold_opt_grows [where g = snd]) (use zc_reclaim_step g in \<open>auto simp: zc_grows_def\<close>)
  then show ?thesis using True zc_grows_trans [OF g] by (auto simp: zcomp_reclaim_pass_def)
qed

lemma zc_drop_step:
  assumes "zc_inv s" "i < ZCOMP_MAX_PAGES"
  shows "\<exists>s'. drop_step pools_at i s = Some s' \<and> zc_grows s s'"
proof (cases "zc_state (g_slots s ! i) = ZCOMP_PAGE_COMPRESSED")
  case True
  let ?h = "zc_zs_handle (g_slots s ! i)" and ?f = "\<lambda>z. z\<lparr>zc_zs_handle := 0\<rparr>" and ?g = "\<lambda>z. z\<lparr>zc_state := ZCOMP_PAGE_FREE\<rparr>"
  have h: "handle_live s ?h" using zc_slot [OF assms] True by (simp add: slot_ok_def)
  then have nz: "?h \<noteq> 0" by (auto simp: handle_live_def)
  obtain t where t: "zs_free pools_at (g_pool s) ?h s = Some t" "zc_grows s t" "g_slots t = g_slots s" using zc_free_handle [OF assms(1) h] by blast
  have len: "i < length (g_slots t)" using t(2) assms(2) by (simp add: zc_grows_def zc_inv_def)
  have r: "slot_upd i ?g (slot_upd i ?f t) = slot_upd i (\<lambda>z. ?g (?f z)) t" using len by (simp add: slot_upd_def)
  have "zc_grows t (slot_upd i (\<lambda>z. ?g (?f z)) t)" by (rule zc_grows_slot) (use t(2) in \<open>simp_all add: zc_grows_def slot_ok_def\<close>)
  moreover have "drop_step pools_at i s = Some (slot_upd i ?g (slot_upd i ?f t))" using True nz t(1) by (simp add: drop_step_def)
  ultimately show ?thesis using zc_grows_trans [OF t(2)] r by simp
next
  case False
  have "slot_ok s ((g_slots s ! i)\<lparr>zc_state := ZCOMP_PAGE_FREE\<rparr>)" using zc_slot [OF assms] False by (simp add: slot_ok_def)
  then show ?thesis using zc_grows_slot [where f = "\<lambda>z. z\<lparr>zc_state := ZCOMP_PAGE_FREE\<rparr>", OF assms(1)] False by (simp add: drop_step_def)
qed

lemma zc_ctl:
  assumes "zc_inv s"
  shows "\<exists>b'. zcomp_ctl pools_at now caller resident cmd arg1 s = Some b' \<and> zc_grows s (snd b')"
proof -
  have 1: "zc_grows s (s\<lparr>g_zinfo := n\<rparr>)" if "zc_inv s" for s n by (rule zc_grows_fields [OF that]) simp_all
  obtain t where t: "fold_opt (drop_step pools_at) [0..<ZCOMP_MAX_PAGES] s = Some t" "zc_grows s t"
    using fold_opt_grows [where g = "\<lambda>s. s" and xs = "[0..<ZCOMP_MAX_PAGES]" and f = "drop_step pools_at" and b = s] zc_drop_step assms by auto
  have 2: "zc_grows s (t\<lparr>g_zinfo := n\<rparr>)" for n using zc_grows_trans [OF t(2)] 1 t(2) by (simp add: zc_grows_def)
  obtain b' where b: "zcomp_reclaim_pass pools_at now caller resident s = Some b'" "zc_grows s (snd b')" using zc_reclaim [OF assms] by blast
  consider "cmd = 0" | "cmd = 1" | "cmd = 2" | "cmd = 3" | "cmd \<noteq> 0 \<and> cmd \<noteq> 1 \<and> cmd \<noteq> 2 \<and> cmd \<noteq> 3" by blast
  then show ?thesis
    by cases (use zc_grows_refl [OF assms] 1 [OF assms] 2 t b in \<open>simp_all add: zcomp_ctl_def split_beta\<close>)
qed

lemma zc_decompress:
  assumes "zc_inv s"
  shows "zcomp_decompress_page pools_at vaddr s = Some (False, [], s)"
proof (cases "zcomp_find_slot vaddr s")
  case None
  then show ?thesis by (simp add: zcomp_decompress_page_def)
next
  case (Some i)
  show ?thesis
  proof (cases "zc_state (g_slots s ! i) = ZCOMP_PAGE_COMPRESSED")
    case False
    then show ?thesis using Some by (simp add: zcomp_decompress_page_def Let_def)
  next
    case True
    have "i < ZCOMP_MAX_PAGES" using find_slot_less [OF assms] Some unfolding zcomp_find_slot_def by blast
    then have "handle_live s (zc_zs_handle (g_slots s ! i))" using zc_slot [OF assms] True by (simp add: slot_ok_def)
    moreover have "mem_inv s" "heap_low s" using assms by (simp_all add: zc_inv_def)
    ultimately have "zs_malloc_usable_size pools_at (zc_zs_handle (g_slots s ! i)) s = Some 0" using zs_usable_live by blast
    then show ?thesis using Some True by (simp add: zcomp_decompress_page_def Let_def)
  qed
qed

lemma zc_init:
  assumes "mem_inv s" "heap_low s"
  shows "zc_inv (zcomp_init s)" "heap_live (zcomp_init s) = heap_live s"
proof -
  have v: "mem_view (zcomp_init s) = mem_view s" by (simp add: zcomp_init_def zs_create_pool_def mem_view_def Let_def)
  have g: "g_slots (zcomp_init s) = replicate ZCOMP_MAX_PAGES zcomp_slot_zero" by (simp add: zcomp_init_def zs_create_pool_def Let_def)
  note V = heap_step_view [OF assms(1) v]
  then show "heap_live (zcomp_init s) = heap_live s" by blast
  show "zc_inv (zcomp_init s)" using V assms(2) g by (simp add: zc_inv_def heap_step_def heap_low_def slot_ok_def zcomp_slot_zero_def)
qed

section \<open>Any history of the table\<close>

datatype zc_call = Track u64 | Touch u64 | Compress u64 u64 u64 "u8 list option" | Decompress u64 | Ctl u64 u64 "u64 \<Rightarrow> u8 list" u64 u64

primrec zc_exec :: "u64 \<Rightarrow> zc_call \<Rightarrow> kzcomp \<Rightarrow> kzcomp option" where
  "zc_exec pools_at (Track vaddr) s = Some (snd (zcomp_track vaddr s))"
| "zc_exec pools_at (Touch vaddr) s = Some (zcomp_touch vaddr s)"
| "zc_exec pools_at (Compress now caller vaddr page) s = map_option snd (zcomp_compress_page pools_at now caller vaddr page s)"
| "zc_exec pools_at (Decompress vaddr) s = map_option (\<lambda>(ok, out, s). s) (zcomp_decompress_page pools_at vaddr s)"
| "zc_exec pools_at (Ctl now caller resident cmd arg1) s = map_option snd (zcomp_ctl pools_at now caller resident cmd arg1 s)"

lemma zc_exec_grows:
  assumes "zc_inv s"
  shows "\<exists>s'. zc_exec pools_at c s = Some s' \<and> zc_grows s s'"
proof (cases c)
  case (Track vaddr)
  then show ?thesis using zc_track(1) [OF assms, of vaddr "fst (zcomp_track vaddr s)" "snd (zcomp_track vaddr s)"] by simp
next
  case (Touch vaddr)
  then show ?thesis using zc_touch [OF assms] by simp
next
  case (Compress now caller vaddr page)
  obtain b s' where "zcomp_compress_page pools_at now caller vaddr page s = Some (b, s')" "zc_grows s s'" using zc_compress_page [OF assms] by blast
  then show ?thesis using Compress by simp
next
  case (Decompress vaddr)
  then show ?thesis using zc_decompress [OF assms] zc_grows_refl [OF assms] by simp
next
  case (Ctl now caller resident cmd arg1)
  obtain b where "zcomp_ctl pools_at now caller resident cmd arg1 s = Some b" "zc_grows s (snd b)" using zc_ctl [OF assms] by blast
  then show ?thesis using Ctl by simp
qed

lemma zc_history:
  assumes "zc_inv s"
  shows "\<exists>s'. fold_opt (zc_exec pools_at) cs s = Some s' \<and> zc_grows s s'"
  by (rule fold_opt_grows [where g = "\<lambda>s. s"]) (use zc_exec_grows assms in blast)+

definition zc_boot :: kzcomp where
  "zc_boot = zs_init (memory_init 0 0 (kzs.extend (kmem.extend (kleak.extend leak_boot (kmem.fields 0 [] 0 0 0 0 0))
     (kzs.fields [] \<lparr>zi_pool_count = 0, zi_total_memory = 0, zi_total_compressed = 0, zi_total_objects = 0, zi_ready = False\<rparr> [] 0 (\<lambda>_. 0)))
     (kzcomp.fields [] zcomp_info_zero None [])))"

lemma zc_boot_inv: "mem_inv zc_boot" "heap_low zc_boot"
proof -
  let ?s = "kzs.extend (kmem.extend (kleak.extend leak_boot (kmem.fields 0 [] 0 0 0 0 0))
     (kzs.fields [] \<lparr>zi_pool_count = 0, zi_total_memory = 0, zi_total_compressed = 0, zi_total_objects = 0, zi_ready = False\<rparr> [] 0 (\<lambda>_. 0)))
     (kzcomp.fields [] zcomp_info_zero None []) :: kzcomp"
  have "leak_inv ?s" "leak_live ?s = {}"
    using leak_init_inv by (auto simp: leak_boot_def leak_inv_def leak_live_def kleak.defs kmem.defs kzs.defs kzcomp.defs leak_track_init_def)
  from memory_init_inv [OF this] have m: "mem_inv (memory_init 0 0 ?s)" by blast
  have v: "mem_view zc_boot = mem_view (memory_init 0 0 ?s)" by (simp add: zc_boot_def zs_init_def mem_view_def)
  show "mem_inv zc_boot" using heap_step_view [OF m v] by (simp add: heap_step_def)
  show "heap_low zc_boot"
    by (simp add: zc_boot_def zs_init_def heap_low_def memory_init_def KERNEL_BIOS_HEAP_BASE_def KERNEL_HEAP_SIZE_def)
qed

text \<open>C19: a compressed page is never given back: from a valid heap that lies below 256 GiB, after \<^verbatim>\<open>zcomp_init\<close> and any
  history of tracking, touching, compressing, decompressing and control calls (reclaim passes and the drop command included), all of
  which return, the invariant of the heap holds, every object the store ever allocated is still allocated, whatever was dropped, and
  \<^verbatim>\<open>zcomp_decompress_page\<close> fails for every address without changing anything.\<close>

theorem zcomp_pages_lost:
  assumes "mem_inv s" "heap_low s"
  shows "\<exists>s1 s2. fold_opt (zc_exec pools_at) before (zcomp_init s) = Some s1 \<and> fold_opt (zc_exec pools_at) after s1 = Some s2 \<and>
    mem_inv s2 \<and> heap_live s1 \<subseteq> heap_live s2 \<and> (\<forall>vaddr. zcomp_decompress_page pools_at vaddr s2 = Some (False, [], s2))"
proof -
  obtain s1 where 1: "fold_opt (zc_exec pools_at) before (zcomp_init s) = Some s1" "zc_inv s1"
    using zc_history [OF zc_init(1) [OF assms]] unfolding zc_grows_def by blast
  obtain s2 where 2: "fold_opt (zc_exec pools_at) after s1 = Some s2" "zc_inv s2" "heap_live s1 \<subseteq> heap_live s2"
    using zc_history [OF 1(2)] unfolding zc_grows_def by blast
  have "mem_inv s2" using 2(2) by (simp add: zc_inv_def)
  then show ?thesis using 1(1) 2 zc_decompress [OF 2(2)] by blast
qed

theorem zcomp_pages_lost_witness:
  "\<exists>s1 s2. fold_opt (zc_exec 0x100000) [Compress 1 2 0x4000 (Some (replicate 4096 0)), Track 0x5000, Touch 0x5000] (zcomp_init zc_boot) = Some s1 \<and>
    fold_opt (zc_exec 0x100000) [Ctl 3 2 (\<lambda>_. replicate 4096 7) 1 0, Ctl 4 2 (\<lambda>_. []) 3 0] s1 = Some s2 \<and>
    mem_inv s2 \<and> heap_live s1 \<subseteq> heap_live s2 \<and> (\<forall>vaddr. zcomp_decompress_page 0x100000 vaddr s2 = Some (False, [], s2))"
  by (rule zcomp_pages_lost [OF zc_boot_inv])

end
