(* ===== verification/Iosched.thy ===== *)
theory Iosched
  imports Kernel_Prelude "HOL-Library.Multiset"
begin

text \<open>
  The block request scheduler of \<^verbatim>\<open>kernel/sched/iosched.c\<close>: a table of requests, merging of adjacent
  requests, the choice of the next request under three policies, and the hook through which the block layer sends every
  read and write.  The raw device operations of the drivers are the argument \<open>io\<close>, which maps direction, device, block, count and buffer
  address to success and a new device state.  The table has its 64 entries throughout; an index of it stands for a pointer.
\<close>

section \<open>State\<close>

record iosched_req_t =
  rq_used :: bool
  rq_dev :: int
  rq_lba :: u64
  rq_count :: u32
  rq_buffer :: u64
  rq_write :: bool

record iosched_info_t =
  io_enabled :: bool
  io_algorithm :: u32
  io_queue_depth :: u32
  io_max_queue_depth :: u32
  io_total_queued :: u32
  io_total_dispatched :: u32
  io_total_merged :: u32
  io_total_reads :: u32
  io_total_writes :: u32
  io_failed :: u32

record 'd kio =
  g_queue :: "iosched_req_t list"
  g_io :: iosched_info_t
  g_io_status :: string
  g_last_lba :: u64
  g_hook_installed :: bool
  g_device :: 'd

type_synonym 'd raw_io = "bool \<Rightarrow> int \<Rightarrow> u64 \<Rightarrow> u32 \<Rightarrow> u64 \<Rightarrow> 'd \<Rightarrow> bool \<times> 'd"

definition IOSCHED_MAX_REQUESTS :: nat where "IOSCHED_MAX_REQUESTS = 64"
definition IOSCHED_SECTOR_SIZE :: u64 where "IOSCHED_SECTOR_SIZE = 512"
definition IOSCHED_NOOP :: u32 where "IOSCHED_NOOP = 0"
definition IOSCHED_ELEVATOR :: u32 where "IOSCHED_ELEVATOR = 1"
definition IOSCHED_DEADLINE :: u32 where "IOSCHED_DEADLINE = 2"

definition iosched_req_zero :: iosched_req_t where
  "iosched_req_zero = \<lparr>rq_used = False, rq_dev = 0, rq_lba = 0, rq_count = 0, rq_buffer = 0, rq_write = False\<rparr>"

section \<open>Operations\<close>

definition iosched_alloc_slot :: "'d kio \<Rightarrow> nat option" where
  "iosched_alloc_slot s = find_index (\<lambda>r. \<not> rq_used r) (g_queue s)"

fun merge_scan :: "nat list \<Rightarrow> nat \<Rightarrow> iosched_req_t list \<Rightarrow> iosched_req_t list option" where
  "merge_scan [] r q = None"
| "merge_scan (i # is) r q =
     (let e = q ! i; req = q ! r in
      if \<not> rq_used e \<or> rq_dev e \<noteq> rq_dev req \<or> rq_write e \<noteq> rq_write req then merge_scan is r q
      else if rq_lba e + ucast (rq_count e) = rq_lba req \<and> rq_buffer e + ucast (rq_count e) * IOSCHED_SECTOR_SIZE = rq_buffer req
      then Some (q[i := e\<lparr>rq_count := rq_count e + rq_count req\<rparr>])
      else if rq_lba req + ucast (rq_count req) = rq_lba e \<and> rq_buffer req + ucast (rq_count req) * IOSCHED_SECTOR_SIZE = rq_buffer e
      then Some (q[i := e\<lparr>rq_lba := rq_lba req, rq_count := rq_count e + rq_count req, rq_buffer := rq_buffer req\<rparr>])
      else merge_scan is r q)"

definition iosched_try_merge :: "nat \<Rightarrow> 'd kio \<Rightarrow> bool \<times> 'd kio" where
  "iosched_try_merge r s =
     (case merge_scan [0..<length (g_queue s)] r (g_queue s) of
        None \<Rightarrow> (False, s)
      | Some q \<Rightarrow> (True, s\<lparr>g_queue := q, g_io := (g_io s)\<lparr>io_total_merged := io_total_merged (g_io s) + 1\<rparr>\<rparr>))"

definition iosched_better :: "u32 \<Rightarrow> u64 \<Rightarrow> iosched_req_t \<Rightarrow> iosched_req_t \<Rightarrow> bool" where
  "iosched_better algorithm last_lba r best =
     (if algorithm = IOSCHED_ELEVATOR
      then (let bl = rq_lba best; il = rq_lba r; best_ge = bl \<ge> last_lba; i_ge = il \<ge> last_lba
            in i_ge \<and> (\<not> best_ge \<or> il < bl) \<or> \<not> i_ge \<and> \<not> best_ge \<and> il < bl)
      else if algorithm = IOSCHED_DEADLINE
      then (if rq_write r \<noteq> rq_write best then \<not> rq_write r else rq_lba r < rq_lba best)
      else False)"

definition pick_step :: "u32 \<Rightarrow> u64 \<Rightarrow> iosched_req_t list \<Rightarrow> nat \<Rightarrow> nat option \<Rightarrow> nat option" where
  "pick_step algorithm last_lba q i best =
     (if \<not> rq_used (q ! i) then best
      else case best of None \<Rightarrow> Some i | Some b \<Rightarrow> if iosched_better algorithm last_lba (q ! i) (q ! b) then Some i else Some b)"

definition iosched_pick_next :: "'d kio \<Rightarrow> nat option" where
  "iosched_pick_next s = fold (pick_step (io_algorithm (g_io s)) (g_last_lba s) (g_queue s)) [0..<length (g_queue s)] None"

definition iosched_issue :: "'d raw_io \<Rightarrow> iosched_req_t \<Rightarrow> 'd kio \<Rightarrow> bool \<times> 'd kio" where
  "iosched_issue io req s =
     (case io (rq_write req) (rq_dev req) (rq_lba req) (rq_count req) (rq_buffer req) (g_device s) of (ok, d) \<Rightarrow>
        (ok, s\<lparr>g_device := d, g_last_lba := rq_lba req,
               g_io := if rq_write req then (g_io s)\<lparr>io_total_writes := io_total_writes (g_io s) + 1\<rparr>
                       else (g_io s)\<lparr>io_total_reads := io_total_reads (g_io s) + 1\<rparr>\<rparr>))"

definition iosched_dispatch :: "'d raw_io \<Rightarrow> nat \<Rightarrow> 'd kio \<Rightarrow> 'd kio" where
  "iosched_dispatch io idx s =
     (case iosched_issue io (g_queue s ! idx) s of (ok, s) \<Rightarrow>
        let s = s\<lparr>g_queue := (g_queue s)[idx := (g_queue s ! idx)\<lparr>rq_used := False\<rparr>]\<rparr>;
            s = s\<lparr>g_io := (g_io s)\<lparr>io_total_dispatched := io_total_dispatched (g_io s) + 1, io_queue_depth := io_queue_depth (g_io s) - 1\<rparr>\<rparr>
        in if \<not> ok then s\<lparr>g_io := (g_io s)\<lparr>io_failed := io_failed (g_io s) + 1\<rparr>\<rparr> else s)"

section \<open>The request that is picked\<close>

text \<open>Each policy compares a number: the elevator takes blocks from the last one upwards before those below it, the
  deadline policy takes reads before writes, and the third keeps the order of the table.\<close>

definition req_key :: "u32 \<Rightarrow> u64 \<Rightarrow> iosched_req_t \<Rightarrow> nat" where
  "req_key algorithm last_lba r =
     (if algorithm = IOSCHED_ELEVATOR then (if rq_lba r < last_lba then 18446744073709551616 else 0) + unat (rq_lba r)
      else if algorithm = IOSCHED_DEADLINE then (if rq_write r then 18446744073709551616 else 0) + unat (rq_lba r)
      else 0)"

lemma iosched_better_key: "iosched_better a l r b \<longleftrightarrow> req_key a l r < req_key a l b"
  using unat_u64_less [of "rq_lba r"] unat_u64_less [of "rq_lba b"]
  by (auto simp: iosched_better_def req_key_def Let_def word_less_nat_alt word_le_nat_alt)

lemma pick_fold:
  defines "F \<equiv> \<lambda>a l q n. fold (pick_step a l q) [0..<n] None"
  shows "(F a l q n = None \<longrightarrow> (\<forall>j < n. \<not> rq_used (q ! j))) \<and>
    (\<forall>i. F a l q n = Some i \<longrightarrow> i < n \<and> rq_used (q ! i) \<and> (\<forall>j < n. rq_used (q ! j) \<longrightarrow> req_key a l (q ! i) \<le> req_key a l (q ! j)) \<and>
       (\<forall>j < i. rq_used (q ! j) \<longrightarrow> req_key a l (q ! i) < req_key a l (q ! j)))"
proof (induction n)
  case (Suc n)
  have F: "F a l q (Suc n) = pick_step a l q n (F a l q n)" by (simp add: F_def)
  show ?case
  proof (cases "F a l q n")
    case None
    then show ?thesis using Suc by (auto simp: F pick_step_def less_Suc_eq)
  next
    case (Some b)
    then have b: "b < n" "rq_used (q ! b)" "\<forall>j < n. rq_used (q ! j) \<longrightarrow> req_key a l (q ! b) \<le> req_key a l (q ! j)"
      "\<forall>j < b. rq_used (q ! j) \<longrightarrow> req_key a l (q ! b) < req_key a l (q ! j)" using Suc by blast+
    show ?thesis
    proof (cases "rq_used (q ! n) \<and> req_key a l (q ! n) < req_key a l (q ! b)")
      case True
      then have "F a l q (Suc n) = Some n" by (simp add: F Some pick_step_def iosched_better_key)
      then show ?thesis using True b by (auto simp: less_Suc_eq dest: order.strict_trans2)
    next
      case False
      then have "F a l q (Suc n) = Some b" by (auto simp: F Some pick_step_def iosched_better_key)
      then show ?thesis using False b by (auto simp: less_Suc_eq)
    qed
  qed
qed (simp add: F_def)

lemma iosched_pick_None: "iosched_pick_next s = None \<longleftrightarrow> filter rq_used (g_queue s) = []"
proof
  assume "iosched_pick_next s = None"
  then show "filter rq_used (g_queue s) = []"
    using pick_fold [of "io_algorithm (g_io s)" "g_last_lba s" "g_queue s" "length (g_queue s)"]
    by (auto simp: iosched_pick_next_def filter_empty_conv in_set_conv_nth)
next
  assume "filter rq_used (g_queue s) = []"
  then have "iosched_pick_next s \<noteq> Some i" for i
    using pick_fold [of "io_algorithm (g_io s)" "g_last_lba s" "g_queue s" "length (g_queue s)"]
    by (auto simp: iosched_pick_next_def filter_empty_conv)
  then show "iosched_pick_next s = None" by (cases "iosched_pick_next s") auto
qed

lemma iosched_pick_Some:
  assumes "iosched_pick_next s = Some i"
  shows "i < length (g_queue s)" "rq_used (g_queue s ! i)"
    "\<forall>r \<in> set (filter rq_used (g_queue s)). req_key (io_algorithm (g_io s)) (g_last_lba s) (g_queue s ! i) \<le> req_key (io_algorithm (g_io s)) (g_last_lba s) r"
    "\<forall>j < i. rq_used (g_queue s ! j) \<longrightarrow>
       req_key (io_algorithm (g_io s)) (g_last_lba s) (g_queue s ! i) < req_key (io_algorithm (g_io s)) (g_last_lba s) (g_queue s ! j)"
  using pick_fold [of "io_algorithm (g_io s)" "g_last_lba s" "g_queue s" "length (g_queue s)"] assms
  by (auto simp: iosched_pick_next_def in_set_conv_nth)

lemma iosched_dispatch_queue [simp]:
  "g_queue (iosched_dispatch io idx s) = (g_queue s)[idx := (g_queue s ! idx)\<lparr>rq_used := False\<rparr>]"
  "io_algorithm (g_io (iosched_dispatch io idx s)) = io_algorithm (g_io s)"
  "g_last_lba (iosched_dispatch io idx s) = rq_lba (g_queue s ! idx)"
proof -
  let ?r = "g_queue s ! idx"
  obtain ok d where "io (rq_write ?r) (rq_dev ?r) (rq_lba ?r) (rq_count ?r) (rq_buffer ?r) (g_device s) = (ok, d)" by fastforce
  then show "g_queue (iosched_dispatch io idx s) = (g_queue s)[idx := ?r\<lparr>rq_used := False\<rparr>]"
    "io_algorithm (g_io (iosched_dispatch io idx s)) = io_algorithm (g_io s)" "g_last_lba (iosched_dispatch io idx s) = rq_lba ?r"
    by (simp_all add: iosched_dispatch_def iosched_issue_def Let_def)
qed

lemma filter_used_split:
  assumes "i < length q" "rq_used (q ! i)"
  shows "filter rq_used q = filter rq_used (take i q) @ q ! i # filter rq_used (drop (Suc i) q)"
    "filter rq_used (q[i := (q ! i)\<lparr>rq_used := False\<rparr>]) = filter rq_used (take i q) @ filter rq_used (drop (Suc i) q)"
proof -
  have "filter rq_used (take i q @ q ! i # drop (Suc i) q) = filter rq_used (take i q) @ q ! i # filter rq_used (drop (Suc i) q)"
    using assms(2) by simp
  then show "filter rq_used q = filter rq_used (take i q) @ q ! i # filter rq_used (drop (Suc i) q)"
    by (simp only: id_take_nth_drop [OF assms(1), symmetric])
  show "filter rq_used (q[i := (q ! i)\<lparr>rq_used := False\<rparr>]) = filter rq_used (take i q) @ filter rq_used (drop (Suc i) q)"
    using assms(1) by (simp add: upd_conv_take_nth_drop)
qed

function iosched_run :: "'d raw_io \<Rightarrow> u32 \<Rightarrow> 'd kio \<Rightarrow> u32 \<times> 'd kio" where
  "iosched_run io dispatched s =
     (case iosched_pick_next s of
        None \<Rightarrow> (dispatched, s)
      | Some idx \<Rightarrow> iosched_run io (dispatched + 1) (iosched_dispatch io idx s))"
  by pat_completeness auto
termination
proof (relation "measure (\<lambda>(io, n, s). length (filter rq_used (g_queue s)))")
  fix io :: "'d raw_io" and dispatched :: u32 and s :: "'d kio" and i
  assume "iosched_pick_next s = Some i"
  note P = iosched_pick_Some(1,2) [OF this]
  show "((io, dispatched + 1, iosched_dispatch io i s), io, dispatched, s) \<in> measure (\<lambda>(io, n, s). length (filter rq_used (g_queue s)))"
    using filter_used_split [OF P] by simp
qed simp

declare iosched_run.simps [simp del]

definition iosched_enqueue_hook :: "'d raw_io \<Rightarrow> int \<Rightarrow> u64 \<Rightarrow> u32 \<Rightarrow> u64 \<Rightarrow> bool \<Rightarrow> 'd kio \<Rightarrow> bool \<times> 'd kio" where
  "iosched_enqueue_hook io dev lba cnt buffer write s =
     (if cnt = 0 \<or> buffer = 0 then (False, s)
      else case iosched_alloc_slot s of
        None \<Rightarrow> (case io write dev lba cnt buffer (g_device s) of (ok, d) \<Rightarrow> (ok, s\<lparr>g_device := d\<rparr>))
      | Some r \<Rightarrow>
          (let s = s\<lparr>g_queue := (g_queue s)[r := \<lparr>rq_used = True, rq_dev = dev, rq_lba = lba, rq_count = cnt, rq_buffer = buffer, rq_write = write\<rparr>]\<rparr>
           in case iosched_try_merge r s of (merged, s) \<Rightarrow>
             let s = (if \<not> merged
                      then let i = g_io s;
                               i = i\<lparr>io_queue_depth := io_queue_depth i + 1, io_total_queued := io_total_queued i + 1\<rparr>
                           in s\<lparr>g_io := if io_queue_depth i > io_max_queue_depth i then i\<lparr>io_max_queue_depth := io_queue_depth i\<rparr> else i\<rparr>
                      else s\<lparr>g_queue := (g_queue s)[r := (g_queue s ! r)\<lparr>rq_used := False\<rparr>]\<rparr>);
                 s = snd (iosched_run io 0 s)
             in (True, s\<lparr>g_io_status := if write then ''iosched: write dispatched'' else ''iosched: read dispatched''\<rparr>)))"

definition iosched_init :: "'d kio \<Rightarrow> 'd kio" where
  "iosched_init s =
     s\<lparr>g_queue := replicate IOSCHED_MAX_REQUESTS iosched_req_zero,
       g_io := \<lparr>io_enabled = True, io_algorithm = IOSCHED_ELEVATOR, io_queue_depth = 0, io_max_queue_depth = 0, io_total_queued = 0,
                io_total_dispatched = 0, io_total_merged = 0, io_total_reads = 0, io_total_writes = 0, io_failed = 0\<rparr>,
       g_last_lba := 0, g_io_status := ''iosched: ready'', g_hook_installed := True\<rparr>"

definition iosched_set_algorithm :: "u32 \<Rightarrow> 'd kio \<Rightarrow> 'd kio" where
  "iosched_set_algorithm algo s = s\<lparr>g_io := (g_io s)\<lparr>io_algorithm := if algo > IOSCHED_DEADLINE then IOSCHED_ELEVATOR else algo\<rparr>\<rparr>"

definition iosched_ctl :: "'d raw_io \<Rightarrow> u64 \<Rightarrow> u64 \<Rightarrow> 'd kio \<Rightarrow> u64 \<times> 'd kio" where
  "iosched_ctl io cmd arg1 s =
     (if cmd = 0 then (0, s)
      else if cmd = 1 then (0, iosched_set_algorithm (ucast arg1) s)
      else if cmd = 2 then (case iosched_run io 0 s of (n, s) \<Rightarrow> (ucast n, s))
      else if cmd = 3 then (ucast (io_algorithm (g_io s)), s)
      else (-1, s))"

section \<open>Draining the table\<close>

fun serve :: "'d raw_io \<Rightarrow> iosched_req_t list \<Rightarrow> 'd \<Rightarrow> bool list \<times> 'd" where
  "serve io [] d = ([], d)"
| "serve io (r # rs) d =
     (case io (rq_write r) (rq_dev r) (rq_lba r) (rq_count r) (rq_buffer r) d of (ok, d) \<Rightarrow> case serve io rs d of (oks, d) \<Rightarrow> (ok # oks, d))"

lemma iosched_dispatch_device:
  assumes "io (rq_write (g_queue s ! i)) (rq_dev (g_queue s ! i)) (rq_lba (g_queue s ! i)) (rq_count (g_queue s ! i)) (rq_buffer (g_queue s ! i)) (g_device s) = (ok, d)"
  shows "g_device (iosched_dispatch io i s) = d" "io_failed (g_io (iosched_dispatch io i s)) = io_failed (g_io s) + (if ok then 0 else 1)"
  using assms by (simp_all add: iosched_dispatch_def iosched_issue_def Let_def)

text \<open>After the best request, the others keep their order although the elevator has moved.\<close>

lemma req_key_moves:
  assumes "req_key a l m \<le> req_key a l r" "req_key a l m \<le> req_key a l r'" "req_key a (rq_lba m) r \<le> req_key a (rq_lba m) r'"
  shows "req_key a l r \<le> req_key a l r'"
  using assms unat_u64_less [of "rq_lba m"] unat_u64_less [of "rq_lba r"] unat_u64_less [of "rq_lba r'"] unat_u64_less [of l]
  by (auto simp: req_key_def word_less_nat_alt split: if_splits)

lemma sorted_moves:
  assumes "sorted (map (req_key a (rq_lba m)) rs)" "\<forall>r \<in> set rs. req_key a l m \<le> req_key a l r"
  shows "sorted (map (req_key a l) (m # rs))"
proof -
  have "sorted_wrt (\<lambda>r r'. req_key a l r \<le> req_key a l r') rs"
    by (rule sorted_wrt_mono_rel [of rs "\<lambda>r r'. req_key a (rq_lba m) r \<le> req_key a (rq_lba m) r'"])
       (use assms req_key_moves [of a l m] in \<open>auto simp: sorted_wrt_map\<close>)
  then show ?thesis using assms(2) by (simp add: sorted_wrt_map)
qed

definition policy_order :: "u32 \<Rightarrow> u64 \<Rightarrow> iosched_req_t list \<Rightarrow> iosched_req_t list \<Rightarrow> bool" where
  "policy_order a l q order \<longleftrightarrow> mset order = mset (filter rq_used q) \<and> sorted (map (req_key a l) order) \<and>
     (a \<notin> {IOSCHED_ELEVATOR, IOSCHED_DEADLINE} \<longrightarrow> order = filter rq_used q)"

lemma policy_order_step:
  assumes "iosched_pick_next s = Some i" "policy_order (io_algorithm (g_io s)) (rq_lba (g_queue s ! i)) ((g_queue s)[i := (g_queue s ! i)\<lparr>rq_used := False\<rparr>]) order"
  shows "policy_order (io_algorithm (g_io s)) (g_last_lba s) (g_queue s) (g_queue s ! i # order)"
proof -
  let ?a = "io_algorithm (g_io s)" and ?q = "g_queue s"
  note P = iosched_pick_Some [OF assms(1)]
  note S = filter_used_split [OF P(1,2)]
  have m: "mset order = mset (filter rq_used (take i ?q) @ filter rq_used (drop (Suc i) ?q))"
    and s: "sorted (map (req_key ?a (rq_lba (?q ! i))) order)"
    and n: "?a \<notin> {IOSCHED_ELEVATOR, IOSCHED_DEADLINE} \<Longrightarrow> order = filter rq_used (take i ?q) @ filter rq_used (drop (Suc i) ?q)"
    using assms(2) by (simp_all add: policy_order_def S(2))
  have "set order \<subseteq> set (filter rq_used ?q)" using mset_eq_setD [OF m] by (auto dest: in_set_takeD in_set_dropD)
  then have "sorted (map (req_key ?a (g_last_lba s)) (?q ! i # order))" using sorted_moves [OF s] P(3) by blast
  moreover have "?a \<notin> {IOSCHED_ELEVATOR, IOSCHED_DEADLINE} \<Longrightarrow> ?q ! i # order = filter rq_used ?q"
  proof -
    assume a: "?a \<notin> {IOSCHED_ELEVATOR, IOSCHED_DEADLINE}"
    then have "req_key ?a (g_last_lba s) r = 0" for r by (simp add: req_key_def)
    then have "filter rq_used (take i ?q) = []" using P(1,4) by (auto simp: filter_empty_conv in_set_conv_nth)
    then show ?thesis using n [OF a] S(1) by simp
  qed
  ultimately show ?thesis using m S(1) by (simp add: policy_order_def)
qed

lemma iosched_run_spec:
  "\<exists>order. policy_order (io_algorithm (g_io s)) (g_last_lba s) (g_queue s) order \<and>
     (case iosched_run io n s of (n', s') \<Rightarrow> n' = n + of_nat (length order) \<and> g_device s' = snd (serve io order (g_device s)) \<and>
        io_failed (g_io s') = io_failed (g_io s) + of_nat (length (filter Not (fst (serve io order (g_device s))))) \<and>
        filter rq_used (g_queue s') = [] \<and> length (g_queue s') = length (g_queue s))"
proof (induction io n s rule: iosched_run.induct)
  case (1 io n s)
  show ?case
  proof (cases "iosched_pick_next s")
    case None
    have f: "filter rq_used (g_queue s) = []" using None by (simp only: iosched_pick_None)
    then have "policy_order (io_algorithm (g_io s)) (g_last_lba s) (g_queue s) []" by (simp add: policy_order_def)
    then show ?thesis using None f by (intro exI [of _ "[]"]) (simp add: iosched_run.simps [of io n s])
  next
    case (Some i)
    let ?r = "g_queue s ! i" and ?t = "iosched_dispatch io i s"
    obtain order where o: "policy_order (io_algorithm (g_io s)) (rq_lba ?r) ((g_queue s)[i := ?r\<lparr>rq_used := False\<rparr>]) order"
      and c: "case iosched_run io (n + 1) ?t of (n', s') \<Rightarrow> n' = n + 1 + of_nat (length order) \<and> g_device s' = snd (serve io order (g_device ?t)) \<and>
        io_failed (g_io s') = io_failed (g_io ?t) + of_nat (length (filter Not (fst (serve io order (g_device ?t))))) \<and>
        filter rq_used (g_queue s') = [] \<and> length (g_queue s') = length (g_queue s)"
      using "1.IH" [OF Some] by auto
    obtain ok d where d: "io (rq_write ?r) (rq_dev ?r) (rq_lba ?r) (rq_count ?r) (rq_buffer ?r) (g_device s) = (ok, d)" by fastforce
    have e: "iosched_run io n s = iosched_run io (n + 1) ?t" using Some by (simp add: iosched_run.simps [of io n s])
    show ?thesis
      using policy_order_step [OF Some o] c d unfolding e
      by (intro exI [of _ "?r # order"]) (auto simp: iosched_dispatch_device [of io s i ok d, OF d] algebra_simps split: prod.splits)
  qed
qed

section \<open>The hook on an empty table\<close>

definition queue_idle :: "'d kio \<Rightarrow> bool" where
  "queue_idle s \<longleftrightarrow> length (g_queue s) = IOSCHED_MAX_REQUESTS \<and> filter rq_used (g_queue s) = []"

lemma merge_scan_lone:
  assumes "\<forall>i \<in> set is. rq_used (q ! i) \<longrightarrow> i = r" "rq_count (q ! r) \<noteq> 0"
  shows "merge_scan is r q = None"
proof -
  have "unat (ucast (rq_count (q ! r)) :: u64) = unat (rq_count (q ! r))"
    using unat_u32_less [of "rq_count (q ! r)"] by (simp add: unsigned_ucast_eq take_bit_nat_eq_self)
  then have c: "ucast (rq_count (q ! r)) \<noteq> (0 :: u64)" using assms(2) by (metis unat_0 unat_inj_iff)
  show ?thesis using assms(1)
  proof (induction "is")
    case (Cons i "is")
    then have IH: "merge_scan is r q = None" and u: "rq_used (q ! i) \<Longrightarrow> i = r" by simp_all
    show ?case
    proof (cases "i = r")
      case True
      then show ?thesis using c by (simp only: merge_scan.simps Let_def add_cancel_right_right IH) simp
    next
      case False
      then have "\<not> rq_used (q ! i)" using u by blast
      then show ?thesis using IH by (simp add: Let_def)
    qed
  qed simp
qed

lemma iosched_run_single:
  assumes "queue_idle s" "r < IOSCHED_MAX_REQUESTS" "rq_used req"
    and "io (rq_write req) (rq_dev req) (rq_lba req) (rq_count req) (rq_buffer req) (g_device s) = (ok, d)"
    and "iosched_run io n (s\<lparr>g_queue := (g_queue s)[r := req], g_io := info\<rparr>) = (m, s')"
  shows "queue_idle s' \<and> g_device s' = d \<and> io_failed (g_io s') = io_failed info + (if ok then 0 else 1)"
proof -
  let ?t = "s\<lparr>g_queue := (g_queue s)[r := req], g_io := info\<rparr>"
  have "filter rq_used ((g_queue s)[r := req]) = [req]"
  proof -
    have r: "r < length (g_queue s)" using assms(1,2) by (simp add: queue_idle_def)
    have "\<forall>x \<in> set (g_queue s). \<not> rq_used x" using assms(1) by (simp add: queue_idle_def filter_empty_conv)
    then have "filter rq_used (take r (g_queue s)) = []" "filter rq_used (drop (Suc r) (g_queue s)) = []"
      by (auto simp: filter_empty_conv dest: in_set_takeD in_set_dropD)
    then show ?thesis using assms(3) r by (simp add: upd_conv_take_nth_drop)
  qed
  then have one: "policy_order a l ((g_queue s)[r := req]) order \<Longrightarrow> order = [req]" for a l order by (simp add: policy_order_def)
  obtain order where o: "policy_order (io_algorithm info) (g_last_lba s) ((g_queue s)[r := req]) order"
    and R: "g_device s' = snd (serve io order (g_device s))" "io_failed (g_io s') = io_failed info + of_nat (length (filter Not (fst (serve io order (g_device s)))))"
    "filter rq_used (g_queue s') = []" "length (g_queue s') = length (g_queue s)"
    using iosched_run_spec [of ?t n io] assms(5) by auto
  have "order = [req]" by (rule one [OF o])
  then show ?thesis using R assms(1,4) by (simp add: queue_idle_def)
qed

lemma iosched_hook_idle:
  assumes "queue_idle s" "cnt \<noteq> 0" "buffer \<noteq> 0" "io write dev lba cnt buffer (g_device s) = (ok, d)"
    and "iosched_enqueue_hook io dev lba cnt buffer write s = (res, s')"
  shows "res \<and> queue_idle s' \<and> g_device s' = d \<and> io_failed (g_io s') = io_failed (g_io s) + (if ok then 0 else 1)"
proof -
  let ?req = "\<lparr>rq_used = True, rq_dev = dev, rq_lba = lba, rq_count = cnt, rq_buffer = buffer, rq_write = write\<rparr>"
  have q: "length (g_queue s) = 64" "\<forall>x \<in> set (g_queue s). \<not> rq_used x" using assms(1) by (simp_all add: queue_idle_def filter_empty_conv IOSCHED_MAX_REQUESTS_def)
  have slot: "iosched_alloc_slot s = Some 0"
    using q by (cases "g_queue s") (simp_all add: iosched_alloc_slot_def)
  let ?t = "s\<lparr>g_queue := (g_queue s)[0 := ?req]\<rparr>"
  have "merge_scan [0..<length (g_queue ?t)] 0 (g_queue ?t) = None"
    using q assms(2) by (intro merge_scan_lone) (auto simp: nth_list_update)
  then have merge: "iosched_try_merge 0 ?t = (False, ?t)" by (simp add: iosched_try_merge_def)
  define info where "info = (let i = g_io s; i = i\<lparr>io_queue_depth := io_queue_depth i + 1, io_total_queued := io_total_queued i + 1\<rparr>
      in if io_queue_depth i > io_max_queue_depth i then i\<lparr>io_max_queue_depth := io_queue_depth i\<rparr> else i)"
  have f: "io_failed info = io_failed (g_io s)" by (simp add: info_def Let_def)
  obtain m u where run: "iosched_run io 0 (s\<lparr>g_queue := (g_queue s)[0 := ?req], g_io := info\<rparr>) = (m, u)" by fastforce
  have "iosched_enqueue_hook io dev lba cnt buffer write s =
      (True, (snd (iosched_run io 0 (?t\<lparr>g_io := info\<rparr>)))\<lparr>g_io_status := if write then ''iosched: write dispatched'' else ''iosched: read dispatched''\<rparr>)"
    unfolding iosched_enqueue_hook_def slot option.case Let_def merge info_def using assms(2,3) by simp
  then have "res" "queue_idle s' = queue_idle u" "g_device s' = g_device u" "g_io s' = g_io u"
    using assms(5) run by (auto simp: queue_idle_def)
  then show ?thesis
    using iosched_run_single [OF assms(1), of 0 ?req io ok d 0 info m u] assms(4) run f by (simp add: IOSCHED_MAX_REQUESTS_def)
qed

section \<open>Properties\<close>

datatype io_op = IoHook int u64 u32 u64 bool | IoAlgorithm u32

fun io_step :: "'d raw_io \<Rightarrow> io_op \<Rightarrow> 'd kio \<Rightarrow> 'd kio" where
  "io_step io (IoHook dev lba cnt buffer write) s = snd (iosched_enqueue_hook io dev lba cnt buffer write s)"
| "io_step io (IoAlgorithm a) s = iosched_set_algorithm a s"

lemma io_step_idle:
  assumes "queue_idle s"
  shows "queue_idle (io_step io cmd s)"
proof (cases cmd)
  case (IoHook dev lba cnt buffer w)
  show ?thesis
  proof (cases "cnt = 0 \<or> buffer = 0")
    case True
    then show ?thesis using assms IoHook by (auto simp: iosched_enqueue_hook_def)
  next
    case False
    obtain ok d where d: "io w dev lba cnt buffer (g_device s) = (ok, d)" by fastforce
    obtain res s' where "iosched_enqueue_hook io dev lba cnt buffer w s = (res, s')" by fastforce
    then show ?thesis using iosched_hook_idle [of s cnt buffer io w dev lba ok d] assms d False IoHook by simp
  qed
next
  case (IoAlgorithm a)
  then show ?thesis using assms by (simp add: iosched_set_algorithm_def queue_idle_def)
qed

lemma io_steps_idle: "queue_idle s \<Longrightarrow> queue_idle (fold (io_step io) cmds s)"
  by (induction cmds arbitrary: s) (simp_all add: io_step_idle)

lemma iosched_init_idle: "queue_idle (iosched_init s)"
  by (simp add: queue_idle_def iosched_init_def iosched_req_zero_def)

text \<open>C20: draining the table ends, sends every queued request to the device exactly once and empties the table; the
  elevator sends the blocks from its last position upwards in ascending order and then those below it, again ascending, the
  deadline policy sends reads before writes, each in ascending order, and the third policy keeps the order of the table.
  The number of requests and of failures is counted.\<close>

theorem iosched_run_order:
  "\<exists>order. mset order = mset (filter rq_used (g_queue s)) \<and>
     sorted (map (req_key (io_algorithm (g_io s)) (g_last_lba s)) order) \<and>
     (io_algorithm (g_io s) = IOSCHED_NOOP \<longrightarrow> order = filter rq_used (g_queue s)) \<and>
     fst (iosched_run io 0 s) = of_nat (length order) \<and>
     g_device (snd (iosched_run io 0 s)) = snd (serve io order (g_device s)) \<and>
     io_failed (g_io (snd (iosched_run io 0 s))) = io_failed (g_io s) + of_nat (length (filter Not (fst (serve io order (g_device s))))) \<and>
     filter rq_used (g_queue (snd (iosched_run io 0 s))) = []"
proof -
  obtain n s' where r: "iosched_run io 0 s = (n, s')" by fastforce
  have a: "IOSCHED_NOOP \<notin> {IOSCHED_ELEVATOR, IOSCHED_DEADLINE}" by (simp add: IOSCHED_NOOP_def IOSCHED_ELEVATOR_def IOSCHED_DEADLINE_def)
  show ?thesis using iosched_run_spec [of s 0 io] a unfolding r prod.case fst_conv snd_conv policy_order_def add_0 by metis
qed

theorem iosched_run_order_witness:
  "g_device (snd (iosched_run (\<lambda>w dev lba cnt buffer d. (True, d @ [lba])) 0
     \<lparr>g_queue = [\<lparr>rq_used = True, rq_dev = 0, rq_lba = 3, rq_count = 1, rq_buffer = 4096, rq_write = False\<rparr>,
                  \<lparr>rq_used = True, rq_dev = 0, rq_lba = 9, rq_count = 1, rq_buffer = 8192, rq_write = False\<rparr>],
       g_io = \<lparr>io_enabled = True, io_algorithm = 1, io_queue_depth = 2, io_max_queue_depth = 2, io_total_queued = 2,
                io_total_dispatched = 0, io_total_merged = 0, io_total_reads = 0, io_total_writes = 0, io_failed = 0\<rparr>,
       g_io_status = [], g_last_lba = 5, g_hook_installed = True, g_device = []\<rparr>)) = [9, 3]"
  (is "g_device (snd (iosched_run ?io 0 ?s)) = _")
proof -
  let ?a = "\<lparr>rq_used = True, rq_dev = 0, rq_lba = 3, rq_count = 1, rq_buffer = 4096, rq_write = False\<rparr>"
  let ?b = "\<lparr>rq_used = True, rq_dev = 0, rq_lba = 9, rq_count = 1, rq_buffer = 8192, rq_write = False\<rparr>"
  obtain order where o: "mset order = mset (filter rq_used (g_queue ?s))" "sorted (map (req_key (io_algorithm (g_io ?s)) (g_last_lba ?s)) order)"
      "g_device (snd (iosched_run ?io 0 ?s)) = snd (serve ?io order (g_device ?s))"
    using iosched_run_order [of ?s ?io] by blast
  have "mset order = {#?a, ?b#}" using o(1) by simp
  then have "order = [?a, ?b] \<or> order = [?b, ?a]"
    by (cases order; cases "tl order") (auto simp: add_eq_conv_diff)
  moreover have "order \<noteq> [?a, ?b]" using o(2) by (auto simp: req_key_def IOSCHED_ELEVATOR_def)
  ultimately have "order = [?b, ?a]" by blast
  then show ?thesis using o(3) by simp
qed

text \<open>C21: after initialisation, whatever requests and changes of policy came before, a request with a count and a
  buffer is answered with success even when the device has failed; the device has carried out exactly this request, and a failure
  is visible only in a counter.  Other requests are refused.  The table is empty between requests, so nothing is ever merged or reordered.\<close>

theorem iosched_hook_hides_failures:
  "let s = fold (io_step io) cmds (iosched_init s0) in
     fst (iosched_enqueue_hook io dev lba cnt buffer wr s) = (cnt \<noteq> 0 \<and> buffer \<noteq> 0) \<and>
     g_device (snd (iosched_enqueue_hook io dev lba cnt buffer wr s)) =
       (if cnt \<noteq> 0 \<and> buffer \<noteq> 0 then snd (io wr dev lba cnt buffer (g_device s)) else g_device s) \<and>
     filter rq_used (g_queue s) = []"
proof -
  define s where "s = fold (io_step io) cmds (iosched_init s0)"
  have i: "queue_idle s" unfolding s_def by (intro io_steps_idle iosched_init_idle)
  obtain ok d where d: "io wr dev lba cnt buffer (g_device s) = (ok, d)" by fastforce
  obtain res s' where e: "iosched_enqueue_hook io dev lba cnt buffer wr s = (res, s')" by fastforce
  show ?thesis
  proof (cases "cnt \<noteq> 0 \<and> buffer \<noteq> 0")
    case True
    then show ?thesis
      using iosched_hook_idle [of s cnt buffer io wr dev lba ok d res s'] e d i by (simp add: queue_idle_def s_def [symmetric])
  next
    case False
    then show ?thesis using i by (auto simp: iosched_enqueue_hook_def queue_idle_def s_def [symmetric])
  qed
qed

end
