(* ===== verification/Sched.thy ===== *)
theory Sched
  imports Kernel_Prelude
begin

text \<open>
  The cooperative tasks of \<^verbatim>\<open>kernel/sched/task.c\<close> with the policy front end \<^verbatim>\<open>scheduler.c\<close> and the two accounting
  policies \<^verbatim>\<open>eevdf.c\<close> and \<^verbatim>\<open>muqss.c\<close>.  A task function is a number, and the argument \<open>call\<close> gives the effect of calling it on
  the whole state, of which the last field stands for the rest of the kernel.  The reading of the timer is an argument.
  The tables have 8 and 32 entries throughout, and an index stands for a pointer to an entry.
\<close>

section \<open>State\<close>

record eevdf_task_t =
  ev_used :: bool
  ev_task_id :: u32
  ev_weight :: u32
  ev_vruntime :: u64
  ev_deadline :: u64

record eevdf_info_t =
  ev_tracked_tasks :: u32
  ev_dispatches :: u32
  ev_min_deadline :: u64
  ev_last_deadline :: u64

record muqss_task_t =
  mq_used :: bool
  mq_task_id :: u32
  mq_period_ticks :: u32
  mq_last_run_tick :: u64
  mq_score :: u32

record muqss_info_t =
  mq_tracked_tasks :: u32
  mq_dispatches :: u32
  mq_active_score :: u32
  mq_last_task :: u32

record scheduler_info_t =
  sc_policy :: u32
  sc_task_count :: u32
  sc_dispatches :: u32
  sc_yields :: u32
  sc_last_task :: u32

record tcb_t =
  tcb_used :: bool
  tcb_id :: u32
  tcb_name :: string
  tcb_entry :: "nat option"
  tcb_arg :: u64
  tcb_period_ticks :: u32
  tcb_next_tick :: u64
  tcb_last_run_tick :: u64
  tcb_run_count :: u32

record 'w ktask =
  g_eevdf :: "eevdf_task_t list"
  g_eevdf_info :: eevdf_info_t
  g_eevdf_status :: string
  g_muqss :: "muqss_task_t list"
  g_muqss_info :: muqss_info_t
  g_muqss_status :: string
  g_scheduler_info :: scheduler_info_t
  g_scheduler_status :: string
  tasks :: "tcb_t list"
  g_task_scheduler_stopping :: bool
  g_world :: 'w

definition EEVDF_MAX_TASKS :: nat where "EEVDF_MAX_TASKS = 32"
definition MUQSS_MAX_TASKS :: nat where "MUQSS_MAX_TASKS = 32"
definition MAX_TASKS :: nat where "MAX_TASKS = 8"
definition SCHED_POLICY_RR :: u32 where "SCHED_POLICY_RR = 0"
definition SCHED_POLICY_EEVDF :: u32 where "SCHED_POLICY_EEVDF = 1"
definition SCHED_POLICY_MUQSS :: u32 where "SCHED_POLICY_MUQSS = 2"

definition eevdf_zero :: eevdf_task_t where
  "eevdf_zero = \<lparr>ev_used = False, ev_task_id = 0, ev_weight = 0, ev_vruntime = 0, ev_deadline = 0\<rparr>"

definition muqss_zero :: muqss_task_t where
  "muqss_zero = \<lparr>mq_used = False, mq_task_id = 0, mq_period_ticks = 0, mq_last_run_tick = 0, mq_score = 0\<rparr>"

definition tcb_zero :: tcb_t where
  "tcb_zero = \<lparr>tcb_used = False, tcb_id = 0, tcb_name = [], tcb_entry = None, tcb_arg = 0, tcb_period_ticks = 0, tcb_next_tick = 0,
     tcb_last_run_tick = 0, tcb_run_count = 0\<rparr>"

text \<open>The loop shared by both policies returns the entry of the task, or else the first free entry it has passed.\<close>

definition find_or_free :: "('a \<Rightarrow> bool) \<Rightarrow> ('a \<Rightarrow> bool) \<Rightarrow> 'a list \<Rightarrow> (nat \<times> bool) option" where
  "find_or_free mine used tab =
     (case find_index (\<lambda>t. used t \<and> mine t) tab of
        Some i \<Rightarrow> Some (i, True)
      | None \<Rightarrow> map_option (\<lambda>i. (i, False)) (find_index (\<lambda>t. \<not> used t) tab))"

section \<open>The deadline policy\<close>

definition eevdf_find_or_create :: "u32 \<Rightarrow> 'w ktask \<Rightarrow> nat option \<times> 'w ktask" where
  "eevdf_find_or_create task_id s =
     (case find_or_free (\<lambda>t. ev_task_id t = task_id) ev_used (g_eevdf s) of
        None \<Rightarrow> (None, s)
      | Some (i, True) \<Rightarrow> (Some i, s)
      | Some (i, False) \<Rightarrow>
          (Some i, s\<lparr>g_eevdf := (g_eevdf s)[i := eevdf_zero\<lparr>ev_used := True, ev_task_id := task_id, ev_weight := 1\<rparr>],
                     g_eevdf_info := (g_eevdf_info s)\<lparr>ev_tracked_tasks := ev_tracked_tasks (g_eevdf_info s) + 1\<rparr>\<rparr>))"

fun min_deadline_loop :: "eevdf_task_t list \<Rightarrow> bool \<Rightarrow> u64 \<Rightarrow> bool \<times> u64" where
  "min_deadline_loop [] seen m = (seen, m)"
| "min_deadline_loop (t # ts) seen m =
     (if \<not> ev_used t then min_deadline_loop ts seen m
      else if \<not> seen \<or> ev_deadline t < m then min_deadline_loop ts True (ev_deadline t)
      else min_deadline_loop ts seen m)"

definition eevdf_recalc_min_deadline :: "'w ktask \<Rightarrow> 'w ktask" where
  "eevdf_recalc_min_deadline s =
     (case min_deadline_loop (g_eevdf s) False 0 of (seen, m) \<Rightarrow>
        s\<lparr>g_eevdf_info := (g_eevdf_info s)\<lparr>ev_min_deadline := if seen then m else 0\<rparr>\<rparr>)"

definition eevdf_init :: "'w ktask \<Rightarrow> 'w ktask" where
  "eevdf_init s = s\<lparr>g_eevdf := replicate EEVDF_MAX_TASKS eevdf_zero,
     g_eevdf_info := \<lparr>ev_tracked_tasks = 0, ev_dispatches = 0, ev_min_deadline = 0, ev_last_deadline = 0\<rparr>, g_eevdf_status := ''eevdf: ready''\<rparr>"

definition eevdf_register_task :: "u32 \<Rightarrow> u32 \<Rightarrow> 'w ktask \<Rightarrow> 'w ktask" where
  "eevdf_register_task task_id weight s =
     (case eevdf_find_or_create task_id s of
        (None, s) \<Rightarrow> s\<lparr>g_eevdf_status := ''eevdf: table full''\<rparr>
      | (Some i, s) \<Rightarrow> s\<lparr>g_eevdf := (g_eevdf s)[i := (g_eevdf s ! i)\<lparr>ev_weight := if weight = 0 then 1 else weight\<rparr>]\<rparr>)"

definition eevdf_note_run :: "u32 \<Rightarrow> u32 \<Rightarrow> u64 \<Rightarrow> 'w ktask \<Rightarrow> 'w ktask" where
  "eevdf_note_run task_id slice_ticks now_ticks s =
     (case eevdf_find_or_create task_id s of
        (None, s) \<Rightarrow> s\<lparr>g_eevdf_status := ''eevdf: task dropped''\<rparr>
      | (Some i, s) \<Rightarrow>
          (let slice = (if slice_ticks = 0 then 1 else ucast slice_ticks) :: u64;
               task = g_eevdf s ! i;
               task = task\<lparr>ev_vruntime := ev_vruntime task + slice\<rparr>;
               task = task\<lparr>ev_deadline := now_ticks + slice + ev_vruntime task div ucast (ev_weight task)\<rparr>;
               s = s\<lparr>g_eevdf := (g_eevdf s)[i := task],
                     g_eevdf_info := (g_eevdf_info s)\<lparr>ev_dispatches := ev_dispatches (g_eevdf_info s) + 1, ev_last_deadline := ev_deadline task\<rparr>\<rparr>
           in (eevdf_recalc_min_deadline s)\<lparr>g_eevdf_status := ''eevdf: updated''\<rparr>))"

definition eevdf_task_deadline :: "u32 \<Rightarrow> 'w ktask \<Rightarrow> u64 option" where
  "eevdf_task_deadline task_id s =
     map_option (\<lambda>i. ev_deadline (g_eevdf s ! i)) (find_index (\<lambda>t. ev_used t \<and> ev_task_id t = task_id) (g_eevdf s))"

section \<open>The queue-score policy\<close>

definition muqss_find_or_create :: "u32 \<Rightarrow> 'w ktask \<Rightarrow> nat option \<times> 'w ktask" where
  "muqss_find_or_create task_id s =
     (case find_or_free (\<lambda>t. mq_task_id t = task_id) mq_used (g_muqss s) of
        None \<Rightarrow> (None, s)
      | Some (i, True) \<Rightarrow> (Some i, s)
      | Some (i, False) \<Rightarrow>
          (Some i, s\<lparr>g_muqss := (g_muqss s)[i := muqss_zero\<lparr>mq_used := True, mq_task_id := task_id\<rparr>],
                     g_muqss_info := (g_muqss_info s)\<lparr>mq_tracked_tasks := mq_tracked_tasks (g_muqss_info s) + 1\<rparr>\<rparr>))"

definition muqss_init :: "'w ktask \<Rightarrow> 'w ktask" where
  "muqss_init s = s\<lparr>g_muqss := replicate MUQSS_MAX_TASKS muqss_zero,
     g_muqss_info := \<lparr>mq_tracked_tasks = 0, mq_dispatches = 0, mq_active_score = 0, mq_last_task = 0\<rparr>, g_muqss_status := ''muqss: ready''\<rparr>"

definition muqss_register_task :: "u32 \<Rightarrow> u32 \<Rightarrow> 'w ktask \<Rightarrow> 'w ktask" where
  "muqss_register_task task_id period_ticks s =
     (case muqss_find_or_create task_id s of
        (None, s) \<Rightarrow> s\<lparr>g_muqss_status := ''muqss: table full''\<rparr>
      | (Some i, s) \<Rightarrow> s\<lparr>g_muqss := (g_muqss s)[i := (g_muqss s ! i)\<lparr>mq_period_ticks := if period_ticks = 0 then 1 else period_ticks\<rparr>]\<rparr>)"

definition muqss_note_run :: "u32 \<Rightarrow> u32 \<Rightarrow> u64 \<Rightarrow> 'w ktask \<Rightarrow> 'w ktask" where
  "muqss_note_run task_id period_ticks now_ticks s =
     (case muqss_find_or_create task_id s of
        (None, s) \<Rightarrow> s\<lparr>g_muqss_status := ''muqss: task dropped''\<rparr>
      | (Some i, s) \<Rightarrow>
          (let task = (g_muqss s ! i)\<lparr>mq_period_ticks := if period_ticks = 0 then 1 else period_ticks, mq_last_run_tick := now_ticks\<rparr>;
               task = task\<lparr>mq_score := mq_score task + (if mq_period_ticks task \<le> 1 then 8 else 32 div mq_period_ticks task + 1)\<rparr>
           in s\<lparr>g_muqss := (g_muqss s)[i := task],
                g_muqss_info := (g_muqss_info s)\<lparr>mq_dispatches := mq_dispatches (g_muqss_info s) + 1, mq_active_score := mq_score task, mq_last_task := task_id\<rparr>,
                g_muqss_status := ''muqss: updated''\<rparr>))"

section \<open>The front end\<close>

definition scheduler_policy_name :: "u32 \<Rightarrow> string" where
  "scheduler_policy_name policy = (if policy = SCHED_POLICY_EEVDF then ''eevdf'' else if policy = SCHED_POLICY_MUQSS then ''muqss'' else ''rr'')"

definition scheduler_init :: "'w ktask \<Rightarrow> 'w ktask" where
  "scheduler_init s =
     muqss_init (eevdf_init (s\<lparr>g_scheduler_info := \<lparr>sc_policy = SCHED_POLICY_RR, sc_task_count = 0, sc_dispatches = 0, sc_yields = 0, sc_last_task = 0xFFFFFFFF\<rparr>,
       g_scheduler_status := ''scheduler: rr''\<rparr>))"

definition scheduler_register_task :: "u32 \<Rightarrow> u32 \<Rightarrow> 'w ktask \<Rightarrow> 'w ktask" where
  "scheduler_register_task task_id period_ticks s =
     (let s = (if task_id + 1 > sc_task_count (g_scheduler_info s)
               then s\<lparr>g_scheduler_info := (g_scheduler_info s)\<lparr>sc_task_count := task_id + 1\<rparr>\<rparr> else s);
          period = (if period_ticks = 0 then 1 else period_ticks)
      in muqss_register_task task_id period (eevdf_register_task task_id period s))"

definition scheduler_note_run :: "u32 \<Rightarrow> u32 \<Rightarrow> u64 \<Rightarrow> 'w ktask \<Rightarrow> 'w ktask" where
  "scheduler_note_run task_id period_ticks now_ticks s =
     (let s = s\<lparr>g_scheduler_info := (g_scheduler_info s)\<lparr>sc_dispatches := sc_dispatches (g_scheduler_info s) + 1, sc_last_task := task_id\<rparr>\<rparr>
      in muqss_note_run task_id period_ticks now_ticks (eevdf_note_run task_id period_ticks now_ticks s))"

definition scheduler_set_policy :: "u32 \<Rightarrow> 'w ktask \<Rightarrow> bool \<times> 'w ktask" where
  "scheduler_set_policy policy s =
     (if policy \<noteq> SCHED_POLICY_RR \<and> policy \<noteq> SCHED_POLICY_EEVDF \<and> policy \<noteq> SCHED_POLICY_MUQSS then (False, s)
      else (True, s\<lparr>g_scheduler_info := (g_scheduler_info s)\<lparr>sc_policy := policy\<rparr>, g_scheduler_status := ''scheduler: '' @ scheduler_policy_name policy\<rparr>))"

section \<open>Tasks\<close>

definition task_init :: "'w ktask \<Rightarrow> 'w ktask" where
  "task_init s = s\<lparr>tasks := replicate MAX_TASKS tcb_zero, g_task_scheduler_stopping := False\<rparr>"

definition task_create :: "u64 \<Rightarrow> string \<Rightarrow> nat option \<Rightarrow> u64 \<Rightarrow> u32 \<Rightarrow> bool \<Rightarrow> 'w ktask \<Rightarrow> int \<times> 'w ktask" where
  "task_create now name fn arg period_ticks run_immediately s =
     (if g_task_scheduler_stopping s then (-1, s)
      else case find_index (\<lambda>t. \<not> tcb_used t) (tasks s) of
        None \<Rightarrow> (-1, s)
      | Some i \<Rightarrow>
          (let period = (if period_ticks = 0 then 1 else period_ticks);
               s = s\<lparr>tasks := (tasks s)[i := \<lparr>tcb_used = True, tcb_id = of_nat i, tcb_name = name, tcb_entry = fn, tcb_arg = arg,
                        tcb_period_ticks = period, tcb_next_tick = if run_immediately then now else now + ucast period,
                        tcb_last_run_tick = 0, tcb_run_count = 0\<rparr>]\<rparr>
           in (int i, scheduler_register_task (tcb_id (tasks s ! i)) (tcb_period_ticks (tasks s ! i)) s)))"

definition task_run_step :: "(nat \<Rightarrow> u64 \<Rightarrow> 'w ktask \<Rightarrow> 'w ktask) \<Rightarrow> u64 \<Rightarrow> nat \<Rightarrow> 'w ktask \<Rightarrow> 'w ktask" where
  "task_run_step call now i s =
     (if \<not> tcb_used (tasks s ! i) then s
      else case tcb_entry (tasks s ! i) of
        None \<Rightarrow> s
      | Some f \<Rightarrow>
          if now \<ge> tcb_next_tick (tasks s ! i)
          then let s = call f (tcb_arg (tasks s ! i)) s;
                   s = s\<lparr>tasks := (tasks s)[i := (tasks s ! i)\<lparr>tcb_last_run_tick := now, tcb_run_count := tcb_run_count (tasks s ! i) + 1\<rparr>]\<rparr>;
                   s = scheduler_note_run (tcb_id (tasks s ! i)) (tcb_period_ticks (tasks s ! i)) now s
               in s\<lparr>tasks := (tasks s)[i := (tasks s ! i)\<lparr>tcb_next_tick := now + ucast (tcb_period_ticks (tasks s ! i))\<rparr>]\<rparr>
          else s)"

definition task_run_ready :: "(nat \<Rightarrow> u64 \<Rightarrow> 'w ktask \<Rightarrow> 'w ktask) \<Rightarrow> u64 \<Rightarrow> 'w ktask \<Rightarrow> 'w ktask" where
  "task_run_ready call now s =
     (if g_task_scheduler_stopping s then s else fold (task_run_step call now) [0..<MAX_TASKS] s)"

definition task_shutdown_all :: "'w ktask \<Rightarrow> 'w ktask" where
  "task_shutdown_all s = s\<lparr>g_task_scheduler_stopping := True, tasks := replicate MAX_TASKS tcb_zero\<rparr>"

definition task_count :: "'w ktask \<Rightarrow> u32" where
  "task_count s = foldl (\<lambda>n t. if tcb_used t then n + 1 else n) 0 (tasks s)"

definition tcb_snapshot :: "u32 \<Rightarrow> 'w ktask \<Rightarrow> tcb_t option" where
  "tcb_snapshot index s = (if unat index \<ge> MAX_TASKS then None else Some (tasks s ! unat index))"

section \<open>What the front end relies on in a policy\<close>

text \<open>A policy keeps a table of task numbers: registering an unknown task takes the first free entry, and noting a run of a known
  task changes the dispatch counter only.\<close>

locale run_accounting =
  fixes entries :: "'w ktask \<Rightarrow> (bool \<times> u32) list"
    and tracked dispatches :: "'w ktask \<Rightarrow> u32"
    and register :: "u32 \<Rightarrow> u32 \<Rightarrow> 'w ktask \<Rightarrow> 'w ktask"
    and note_run :: "u32 \<Rightarrow> u32 \<Rightarrow> u64 \<Rightarrow> 'w ktask \<Rightarrow> 'w ktask"
  assumes register_new: "(True, t) \<notin> set (entries s) \<Longrightarrow> find_index (\<lambda>e. \<not> fst e) (entries s) = Some k \<Longrightarrow>
      entries (register t p s) = (entries s)[k := (True, t)] \<and> tracked (register t p s) = tracked s + 1 \<and>
      dispatches (register t p s) = dispatches s"
    and note_known: "(True, t) \<in> set (entries s) \<Longrightarrow>
      entries (note_run t p now s) = entries s \<and> tracked (note_run t p now s) = tracked s \<and> dispatches (note_run t p now s) = dispatches s + 1"
begin

definition dense :: "nat \<Rightarrow> 'w ktask \<Rightarrow> bool" where
  "dense n s \<longleftrightarrow> entries s = map (\<lambda>i. (True, of_nat i)) [0..<n] @ replicate (32 - n) (False, 0) \<and> tracked s = of_nat n"

lemma dense_member: "dense n s \<Longrightarrow> i < n \<Longrightarrow> (True, of_nat i) \<in> set (entries s)"
  by (auto simp: dense_def)

lemma dense_fresh:
  assumes "dense n s" "n < 32"
  shows "(True, of_nat n) \<notin> set (entries s)"
proof -
  have "(of_nat n :: u32) \<noteq> of_nat i" if "i < n" for i
    using that assms(2) unat_of_nat_u32 [of n] unat_of_nat_u32 [of i] by auto
  then have "of_nat n \<notin> (of_nat :: nat \<Rightarrow> u32) ` {0..<n}" by (metis atLeastLessThan_iff imageE)
  moreover have "set (entries s) \<subseteq> Pair True ` (of_nat ` {0..<n}) \<union> {(False, 0)}" using assms(1) by (auto simp: dense_def)
  ultimately show ?thesis by blast
qed

lemma dense_register:
  assumes "dense n s" "n < 32"
  shows "dense (Suc n) (register (of_nat n) p s) \<and> dispatches (register (of_nat n) p s) = dispatches s"
proof -
  have "\<forall>i<n. fst ((map (\<lambda>i. (True, of_nat i :: u32)) [0..<n] @ replicate (32 - n) (False, 0)) ! i)" by (simp add: nth_append)
  then have "find_index (\<lambda>e. \<not> fst e) (entries s) = Some n"
    using assms by (auto simp: dense_def find_index_Some_iff nth_append)
  note R = register_new [OF dense_fresh [OF assms] this, of p]
  have "(entries s)[n := (True, of_nat n)] = map (\<lambda>i. (True, of_nat i)) [0..<Suc n] @ replicate (32 - Suc n) (False, 0)"
  proof -
    have "replicate (32 - n) (False, 0 :: u32) = (False, 0) # replicate (32 - Suc n) (False, 0)" using assms(2)
      by (metis Suc_diff_Suc replicate_Suc)
    then show ?thesis using assms(1) by (simp add: dense_def list_update_append)
  qed
  then show ?thesis using R assms(1) by (simp add: dense_def)
qed

lemma dense_note:
  assumes "dense n s" "i < n"
  shows "dense n (note_run (of_nat i) p now s) \<and> dispatches (note_run (of_nat i) p now s) = dispatches s + 1"
  using note_known [OF dense_member [OF assms]] assms(1) by (simp add: dense_def)

end

definition eevdf_entries :: "'w ktask \<Rightarrow> (bool \<times> u32) list" where
  "eevdf_entries s = map (\<lambda>t. (ev_used t, ev_task_id t)) (g_eevdf s)"

definition muqss_entries :: "'w ktask \<Rightarrow> (bool \<times> u32) list" where
  "muqss_entries s = map (\<lambda>t. (mq_used t, mq_task_id t)) (g_muqss s)"

lemma find_index_map: "find_index P (map f xs) = find_index (\<lambda>x. P (f x)) xs"
  by (induction xs) simp_all

lemma find_or_free_new:
  assumes "(True, t) \<notin> set (map (\<lambda>x. (used x, ident x)) tab)" "find_index (\<lambda>e. \<not> fst e) (map (\<lambda>x. (used x, ident x)) tab) = Some k"
  shows "find_or_free (\<lambda>x. ident x = t) used tab = Some (k, False)"
proof -
  have "find_index (\<lambda>x. used x \<and> ident x = t) tab = None" using assms(1) by (auto simp: find_index_None_iff)
  then show ?thesis using assms(2) by (simp add: find_or_free_def find_index_map)
qed

lemma find_or_free_known:
  assumes "(True, t) \<in> set (map (\<lambda>x. (used x, ident x)) tab)"
  obtains k where "find_or_free (\<lambda>x. ident x = t) used tab = Some (k, True)" "k < length tab" "used (tab ! k)" "ident (tab ! k) = t"
proof -
  have "find_index (\<lambda>x. used x \<and> ident x = t) tab \<noteq> None" using assms by (auto simp: find_index_None_iff)
  then obtain k where k: "find_index (\<lambda>x. used x \<and> ident x = t) tab = Some k" by blast
  show thesis using that [of k] find_index_SomeD [OF k] k by (simp add: find_or_free_def)
qed

lemma map_update_same: "f y = f (xs ! i) \<Longrightarrow> map f (xs[i := y]) = map f xs"
  by (cases "i < length xs") (simp_all add: map_update list_update_same_conv list_update_beyond)

interpretation eevdf: run_accounting eevdf_entries "\<lambda>s. ev_tracked_tasks (g_eevdf_info s)" "\<lambda>s. ev_dispatches (g_eevdf_info s)"
  eevdf_register_task eevdf_note_run
proof
  fix t k p and s :: "'w ktask"
  assume a: "(True, t) \<notin> set (eevdf_entries s)" "find_index (\<lambda>e. \<not> fst e) (eevdf_entries s) = Some k"
  have k: "k < length (g_eevdf s)" using find_index_SomeD(1) [OF a(2)] by (simp add: eevdf_entries_def)
  show "eevdf_entries (eevdf_register_task t p s) = (eevdf_entries s)[k := (True, t)] \<and>
      ev_tracked_tasks (g_eevdf_info (eevdf_register_task t p s)) = ev_tracked_tasks (g_eevdf_info s) + 1 \<and>
      ev_dispatches (g_eevdf_info (eevdf_register_task t p s)) = ev_dispatches (g_eevdf_info s)"
    using find_or_free_new [OF a [unfolded eevdf_entries_def]] k
    by (simp add: eevdf_register_task_def eevdf_find_or_create_def eevdf_entries_def map_update)
next
  fix t p now and s :: "'w ktask"
  assume "(True, t) \<in> set (eevdf_entries s)"
  then obtain k where k: "find_or_free (\<lambda>x. ev_task_id x = t) ev_used (g_eevdf s) = Some (k, True)" "k < length (g_eevdf s)"
    unfolding eevdf_entries_def by (rule find_or_free_known)
  show "eevdf_entries (eevdf_note_run t p now s) = eevdf_entries s \<and>
      ev_tracked_tasks (g_eevdf_info (eevdf_note_run t p now s)) = ev_tracked_tasks (g_eevdf_info s) \<and>
      ev_dispatches (g_eevdf_info (eevdf_note_run t p now s)) = ev_dispatches (g_eevdf_info s) + 1"
    using k by (simp add: eevdf_note_run_def eevdf_find_or_create_def eevdf_entries_def eevdf_recalc_min_deadline_def Let_def map_update_same split: prod.split)
qed

interpretation muqss: run_accounting muqss_entries "\<lambda>s. mq_tracked_tasks (g_muqss_info s)" "\<lambda>s. mq_dispatches (g_muqss_info s)"
  muqss_register_task muqss_note_run
proof
  fix t k p and s :: "'w ktask"
  assume a: "(True, t) \<notin> set (muqss_entries s)" "find_index (\<lambda>e. \<not> fst e) (muqss_entries s) = Some k"
  have k: "k < length (g_muqss s)" using find_index_SomeD(1) [OF a(2)] by (simp add: muqss_entries_def)
  show "muqss_entries (muqss_register_task t p s) = (muqss_entries s)[k := (True, t)] \<and>
      mq_tracked_tasks (g_muqss_info (muqss_register_task t p s)) = mq_tracked_tasks (g_muqss_info s) + 1 \<and>
      mq_dispatches (g_muqss_info (muqss_register_task t p s)) = mq_dispatches (g_muqss_info s)"
    using find_or_free_new [OF a [unfolded muqss_entries_def]] k
    by (simp add: muqss_register_task_def muqss_find_or_create_def muqss_entries_def map_update)
next
  fix t p now and s :: "'w ktask"
  assume "(True, t) \<in> set (muqss_entries s)"
  then obtain k where k: "find_or_free (\<lambda>x. mq_task_id x = t) mq_used (g_muqss s) = Some (k, True)" "k < length (g_muqss s)"
    unfolding muqss_entries_def by (rule find_or_free_known)
  show "muqss_entries (muqss_note_run t p now s) = muqss_entries s \<and>
      mq_tracked_tasks (g_muqss_info (muqss_note_run t p now s)) = mq_tracked_tasks (g_muqss_info s) \<and>
      mq_dispatches (g_muqss_info (muqss_note_run t p now s)) = mq_dispatches (g_muqss_info s) + 1"
    using k by (simp add: muqss_note_run_def muqss_find_or_create_def muqss_entries_def Let_def map_update_same)
qed

section \<open>The tables agree\<close>

definition sched_inv :: "nat \<Rightarrow> 'w ktask \<Rightarrow> bool" where
  "sched_inv n s \<longleftrightarrow> n \<le> MAX_TASKS \<and> length (tasks s) = MAX_TASKS \<and>
     (\<forall>i < MAX_TASKS. tcb_used (tasks s ! i) \<longleftrightarrow> i < n) \<and> (\<forall>i < n. tcb_id (tasks s ! i) = of_nat i) \<and>
     (\<forall>i < MAX_TASKS. n \<le> i \<longrightarrow> tcb_run_count (tasks s ! i) = 0) \<and>
     eevdf.dense n s \<and> muqss.dense n s \<and> sc_task_count (g_scheduler_info s) = of_nat n"

definition dispatches_agree :: "'w ktask \<Rightarrow> bool" where
  "dispatches_agree s \<longleftrightarrow> sc_dispatches (g_scheduler_info s) = sum_list (map tcb_run_count (tasks s)) \<and>
     ev_dispatches (g_eevdf_info s) = sc_dispatches (g_scheduler_info s) \<and> mq_dispatches (g_muqss_info s) = sc_dispatches (g_scheduler_info s)"

lemma policy_tasks [simp]:
  "tasks (eevdf_register_task t p s) = tasks s" "tasks (muqss_register_task t p s) = tasks s"
  "tasks (eevdf_note_run t p now s) = tasks s" "tasks (muqss_note_run t p now s) = tasks s"
  "g_scheduler_info (eevdf_register_task t p s) = g_scheduler_info s" "g_scheduler_info (muqss_register_task t p s) = g_scheduler_info s"
  "g_scheduler_info (eevdf_note_run t p now s) = g_scheduler_info s" "g_scheduler_info (muqss_note_run t p now s) = g_scheduler_info s"
  by (simp_all add: eevdf_register_task_def muqss_register_task_def eevdf_note_run_def muqss_note_run_def eevdf_find_or_create_def
      muqss_find_or_create_def eevdf_recalc_min_deadline_def Let_def split: option.split prod.split bool.split)

lemma policy_separate [simp]:
  "muqss_entries (eevdf_register_task t p s) = muqss_entries s" "g_muqss_info (eevdf_register_task t p s) = g_muqss_info s"
  "muqss_entries (eevdf_note_run t p now s) = muqss_entries s" "g_muqss_info (eevdf_note_run t p now s) = g_muqss_info s"
  "eevdf_entries (muqss_register_task t p s) = eevdf_entries s" "g_eevdf_info (muqss_register_task t p s) = g_eevdf_info s"
  "eevdf_entries (muqss_note_run t p now s) = eevdf_entries s" "g_eevdf_info (muqss_note_run t p now s) = g_eevdf_info s"
  by (simp_all add: eevdf_register_task_def muqss_register_task_def eevdf_note_run_def muqss_note_run_def eevdf_find_or_create_def
      muqss_find_or_create_def eevdf_recalc_min_deadline_def eevdf_entries_def muqss_entries_def Let_def split: option.split prod.split bool.split)

lemma task_fields_entries [simp]:
  "eevdf_entries (s\<lparr>tasks := x\<rparr>) = eevdf_entries s" "muqss_entries (s\<lparr>tasks := x\<rparr>) = muqss_entries s"
  "eevdf_entries (s\<lparr>g_scheduler_info := y\<rparr>) = eevdf_entries s" "muqss_entries (s\<lparr>g_scheduler_info := y\<rparr>) = muqss_entries s"
  "eevdf_entries (s\<lparr>g_world := w\<rparr>) = eevdf_entries s" "muqss_entries (s\<lparr>g_world := w\<rparr>) = muqss_entries s"
  "eevdf_entries (s\<lparr>g_scheduler_status := z\<rparr>) = eevdf_entries s" "muqss_entries (s\<lparr>g_scheduler_status := z\<rparr>) = muqss_entries s"
  by (simp_all add: eevdf_entries_def muqss_entries_def)

lemma dense_separate [simp]:
  "eevdf.dense n (muqss_register_task t p s) \<longleftrightarrow> eevdf.dense n s" "eevdf.dense n (muqss_note_run t p now s) \<longleftrightarrow> eevdf.dense n s"
  "muqss.dense n (eevdf_register_task t p s) \<longleftrightarrow> muqss.dense n s" "muqss.dense n (eevdf_note_run t p now s) \<longleftrightarrow> muqss.dense n s"
  "eevdf.dense n (s\<lparr>g_scheduler_info := y\<rparr>) \<longleftrightarrow> eevdf.dense n s" "muqss.dense n (s\<lparr>g_scheduler_info := y\<rparr>) \<longleftrightarrow> muqss.dense n s"
  "eevdf.dense n (s\<lparr>tasks := x\<rparr>) \<longleftrightarrow> eevdf.dense n s" "muqss.dense n (s\<lparr>tasks := x\<rparr>) \<longleftrightarrow> muqss.dense n s"
  "eevdf.dense n (s\<lparr>g_scheduler_status := z\<rparr>) \<longleftrightarrow> eevdf.dense n s" "muqss.dense n (s\<lparr>g_scheduler_status := z\<rparr>) \<longleftrightarrow> muqss.dense n s"
  "eevdf.dense n (s\<lparr>g_world := w\<rparr>) \<longleftrightarrow> eevdf.dense n s" "muqss.dense n (s\<lparr>g_world := w\<rparr>) \<longleftrightarrow> muqss.dense n s"
  by (simp_all add: eevdf.dense_def muqss.dense_def)

lemma scheduler_register_dense:
  assumes "eevdf.dense n s" "muqss.dense n s" "sc_task_count (g_scheduler_info s) = of_nat n" "n < 32"
    and s'_def: "s' = scheduler_register_task (of_nat n) p s"
  shows "eevdf.dense (Suc n) s'" "muqss.dense (Suc n) s'" "sc_task_count (g_scheduler_info s') = of_nat (Suc n)" "tasks s' = tasks s"
    "sc_dispatches (g_scheduler_info s') = sc_dispatches (g_scheduler_info s)"
    "ev_dispatches (g_eevdf_info s') = ev_dispatches (g_eevdf_info s)" "mq_dispatches (g_muqss_info s') = mq_dispatches (g_muqss_info s)"
proof -
  let ?q = "if p = 0 then 1 else p"
  let ?t = "s\<lparr>g_scheduler_info := (g_scheduler_info s)\<lparr>sc_task_count := of_nat n + 1\<rparr>\<rparr>"
  have "(of_nat n + 1 :: u32) > of_nat n" using unat_of_nat_u32 [of n] unat_of_nat_u32 [of "Suc n"] assms(4) by (simp add: word_less_nat_alt add.commute)
  then have e: "s' = muqss_register_task (of_nat n) ?q (eevdf_register_task (of_nat n) ?q ?t)"
    unfolding s'_def scheduler_register_task_def Let_def using assms(3) by simp
  have "eevdf.dense n ?t" using assms(1) by simp
  note E = eevdf.dense_register [OF this assms(4), of ?q]
  have "muqss.dense n (eevdf_register_task (of_nat n) ?q ?t)"
    using assms(2) by simp
  note M = muqss.dense_register [OF this assms(4), of ?q]
  show "eevdf.dense (Suc n) s'" unfolding e using E by simp
  show "muqss.dense (Suc n) s'" unfolding e using M by simp
  show "ev_dispatches (g_eevdf_info s') = ev_dispatches (g_eevdf_info s)" "mq_dispatches (g_muqss_info s') = mq_dispatches (g_muqss_info s)"
    unfolding e using E M by simp_all
  show "sc_task_count (g_scheduler_info s') = of_nat (Suc n)" "tasks s' = tasks s" "sc_dispatches (g_scheduler_info s') = sc_dispatches (g_scheduler_info s)"
    unfolding e by simp_all
qed

lemma scheduler_note_dense:
  assumes "eevdf.dense n s" "muqss.dense n s" "i < n"
    and s'_def: "s' = scheduler_note_run (of_nat i) p now s"
  shows "eevdf.dense n s'" "muqss.dense n s'" "sc_task_count (g_scheduler_info s') = sc_task_count (g_scheduler_info s)" "tasks s' = tasks s"
    "sc_dispatches (g_scheduler_info s') = sc_dispatches (g_scheduler_info s) + 1"
    "ev_dispatches (g_eevdf_info s') = ev_dispatches (g_eevdf_info s) + 1" "mq_dispatches (g_muqss_info s') = mq_dispatches (g_muqss_info s) + 1"
proof -
  let ?t = "s\<lparr>g_scheduler_info := (g_scheduler_info s)\<lparr>sc_dispatches := sc_dispatches (g_scheduler_info s) + 1, sc_last_task := of_nat i\<rparr>\<rparr>"
  have e: "s' = muqss_note_run (of_nat i) p now (eevdf_note_run (of_nat i) p now ?t)" by (simp add: s'_def scheduler_note_run_def)
  have "eevdf.dense n ?t" using assms(1) by simp
  note E = eevdf.dense_note [OF this assms(3), of p now]
  have "muqss.dense n (eevdf_note_run (of_nat i) p now ?t)"
    using assms(2) by simp
  note M = muqss.dense_note [OF this assms(3), of p now]
  show "eevdf.dense n s'" unfolding e using E by simp
  show "muqss.dense n s'" unfolding e using M by simp
  show "ev_dispatches (g_eevdf_info s') = ev_dispatches (g_eevdf_info s) + 1" "mq_dispatches (g_muqss_info s') = mq_dispatches (g_muqss_info s) + 1"
    unfolding e using E M by simp_all
  show "sc_task_count (g_scheduler_info s') = sc_task_count (g_scheduler_info s)" "tasks s' = tasks s"
    "sc_dispatches (g_scheduler_info s') = sc_dispatches (g_scheduler_info s) + 1"
    unfolding e by simp_all
qed

lemma sum_list_update_group:
  "i < length xs \<Longrightarrow> sum_list (map f (xs[i := y])) = sum_list (map f xs) + (f y - f (xs ! i))" for f :: "'a \<Rightarrow> 'b::ab_group_add"
proof (induction xs arbitrary: i)
  case (Cons x xs)
  then show ?case by (cases i) (simp_all add: algebra_simps)
qed simp

section \<open>Creating a task\<close>

lemma sched_inv_free: "sched_inv n s \<Longrightarrow> find_index (\<lambda>t. \<not> tcb_used t) (tasks s) = (if n < MAX_TASKS then Some n else None)"
  by (auto simp: sched_inv_def find_index_Some_iff find_index_None_iff in_set_conv_nth)

lemma task_create_inv:
  assumes "sched_inv n s" "dispatches_agree s" "task_create now name fn arg p imm s = (r, s')"
  shows "if n < MAX_TASKS \<and> \<not> g_task_scheduler_stopping s
     then r = int n \<and> sched_inv (Suc n) s' \<and> dispatches_agree s' else r = -1 \<and> s' = s"
proof (cases "n < MAX_TASKS \<and> \<not> g_task_scheduler_stopping s")
  case True
  define t where "t = \<lparr>tcb_used = True, tcb_id = of_nat n, tcb_name = name, tcb_entry = fn, tcb_arg = arg,
      tcb_period_ticks = if p = 0 then 1 else p, tcb_next_tick = if imm then now else now + ucast (if p = 0 then 1 else p :: u32),
      tcb_last_run_tick = 0, tcb_run_count = 0\<rparr>"
  let ?u = "s\<lparr>tasks := (tasks s)[n := t]\<rparr>"
  have len: "length (tasks s) = MAX_TASKS" "n < length (tasks s)" using assms(1) True by (simp_all add: sched_inv_def)
  have e: "r = int n" "s' = scheduler_register_task (of_nat n) (if p = 0 then 1 else p) ?u"
    using assms(3) True sched_inv_free [OF assms(1)] len by (simp_all add: task_create_def Let_def t_def)
  have "n < 32" using True by (simp add: MAX_TASKS_def)
  then have D: "eevdf.dense n ?u" "muqss.dense n ?u" "sc_task_count (g_scheduler_info ?u) = of_nat n" "n < 32"
    using assms(1) by (simp_all add: sched_inv_def)
  note R = scheduler_register_dense [OF D e(2)]
  have rc: "map tcb_run_count ((tasks s)[n := t]) = map tcb_run_count (tasks s)"
    using assms(1) True by (intro map_update_same) (simp add: sched_inv_def t_def)
  have "sched_inv (Suc n) s'"
    using assms(1) R True unfolding sched_inv_def by (auto simp: nth_list_update t_def less_Suc_eq Suc_le_eq)
  moreover have "dispatches_agree s'" using assms(2) R rc by (simp add: dispatches_agree_def)
  ultimately show ?thesis using True e(1) by simp
next
  case False
  then show ?thesis
    using assms(3) sched_inv_free [OF assms(1)] by (cases "g_task_scheduler_stopping s") (simp_all add: task_create_def)
qed

section \<open>Running the tasks that are due\<close>

definition due :: "u64 \<Rightarrow> tcb_t \<Rightarrow> bool" where
  "due now t \<longleftrightarrow> tcb_used t \<and> tcb_entry t \<noteq> None \<and> tcb_next_tick t \<le> now"

definition ran :: "u64 \<Rightarrow> tcb_t \<Rightarrow> tcb_t" where
  "ran now t = t\<lparr>tcb_last_run_tick := now, tcb_run_count := tcb_run_count t + 1, tcb_next_tick := now + ucast (tcb_period_ticks t)\<rparr>"

lemma scheduler_note_tasks [simp]:
  "tasks (scheduler_note_run t p now s) = tasks s"
  by (simp add: scheduler_note_run_def)

lemma scheduler_note_world [simp]:
  "g_world (scheduler_note_run t p now s) = g_world s" "g_task_scheduler_stopping (scheduler_note_run t p now s) = g_task_scheduler_stopping s"
  by (simp_all add: scheduler_note_run_def eevdf_note_run_def muqss_note_run_def eevdf_find_or_create_def muqss_find_or_create_def
      eevdf_recalc_min_deadline_def Let_def split: option.split prod.split bool.split)

lemma task_run_step_due:
  assumes call: "\<And>f a s. call f a s = s\<lparr>g_world := eff f a (g_world s)\<rparr>" and "i < length (tasks s)" "due now (tasks s ! i)"
  shows "task_run_step call now i s =
    (scheduler_note_run (tcb_id (tasks s ! i)) (tcb_period_ticks (tasks s ! i)) now
       (s\<lparr>g_world := eff (the (tcb_entry (tasks s ! i))) (tcb_arg (tasks s ! i)) (g_world s),
          tasks := (tasks s)[i := (tasks s ! i)\<lparr>tcb_last_run_tick := now, tcb_run_count := tcb_run_count (tasks s ! i) + 1\<rparr>]\<rparr>))
     \<lparr>tasks := (tasks s)[i := ran now (tasks s ! i)]\<rparr>"
  using assms(2,3) by (auto simp: task_run_step_def call due_def ran_def Let_def)

lemma task_run_step_idle: "\<not> due now (tasks s ! i) \<Longrightarrow> task_run_step call now i s = s"
  by (auto simp: task_run_step_def due_def split: option.split)

lemma task_run_step_inv:
  assumes call: "\<And>f a s. call f a s = s\<lparr>g_world := eff f a (g_world s)\<rparr>"
    and "sched_inv n s" "dispatches_agree s" "i < MAX_TASKS"
  shows "sched_inv n (task_run_step call now i s) \<and> dispatches_agree (task_run_step call now i s)"
proof (cases "due now (tasks s ! i)")
  case True
  have len: "i < length (tasks s)" "length (tasks s) = MAX_TASKS" using assms(2,4) by (simp_all add: sched_inv_def)
  have i: "i < n" using True assms(2,4) by (simp add: due_def sched_inv_def)
  then have id: "tcb_id (tasks s ! i) = of_nat i" using assms(2) by (simp add: sched_inv_def)
  define u where "u = s\<lparr>g_world := eff (the (tcb_entry (tasks s ! i))) (tcb_arg (tasks s ! i)) (g_world s),
          tasks := (tasks s)[i := (tasks s ! i)\<lparr>tcb_last_run_tick := now, tcb_run_count := tcb_run_count (tasks s ! i) + 1\<rparr>]\<rparr>"
  define v where "v = scheduler_note_run (of_nat i) (tcb_period_ticks (tasks s ! i)) now u"
  have e: "task_run_step call now i s = v\<lparr>tasks := (tasks s)[i := ran now (tasks s ! i)]\<rparr>"
    using task_run_step_due [of call eff i s now, OF call len(1) True] by (simp add: id u_def v_def)
  have "eevdf.dense n u" "muqss.dense n u" using assms(2) by (simp_all add: u_def sched_inv_def)
  note N = scheduler_note_dense [OF this i v_def]
  have u: "sc_task_count (g_scheduler_info u) = of_nat n" "sc_dispatches (g_scheduler_info u) = sum_list (map tcb_run_count (tasks s))"
      "ev_dispatches (g_eevdf_info u) = sc_dispatches (g_scheduler_info u)" "mq_dispatches (g_muqss_info u) = sc_dispatches (g_scheduler_info u)"
    using assms(2,3) by (simp_all add: u_def sched_inv_def dispatches_agree_def)
  have "sum_list (map tcb_run_count ((tasks s)[i := ran now (tasks s ! i)])) = sum_list (map tcb_run_count (tasks s)) + 1"
    using len(1) by (simp add: sum_list_update_group ran_def)
  then have "dispatches_agree (task_run_step call now i s)" using N u by (simp add: e dispatches_agree_def)
  moreover have "sched_inv n (task_run_step call now i s)"
    using assms(2) N(1-3) u(1) i unfolding sched_inv_def e by (auto simp: nth_list_update ran_def)
  ultimately show ?thesis by simp
next
  case False
  then show ?thesis using assms(2,3) by (simp add: task_run_step_idle)
qed

lemma task_run_step_effect:
  assumes call: "\<And>f a s. call f a s = s\<lparr>g_world := eff f a (g_world s)\<rparr>" and "i < length (tasks s)"
  shows "tasks (task_run_step call now i s) = (if due now (tasks s ! i) then (tasks s)[i := ran now (tasks s ! i)] else tasks s) \<and>
    g_world (task_run_step call now i s) =
      (if due now (tasks s ! i) then eff (the (tcb_entry (tasks s ! i))) (tcb_arg (tasks s ! i)) (g_world s) else g_world s)"
  using task_run_step_due [of call eff i s now, OF call assms(2)] by (cases "due now (tasks s ! i)") (simp_all add: task_run_step_idle)

lemma task_run_fold:
  assumes call: "\<And>f a s. call f a s = s\<lparr>g_world := eff f a (g_world s)\<rparr>" and "k \<le> length (tasks s)"
  shows "tasks (fold (task_run_step call now) [0..<k] s) = map (\<lambda>t. if due now t then ran now t else t) (take k (tasks s)) @ drop k (tasks s) \<and>
    g_world (fold (task_run_step call now) [0..<k] s) = fold (\<lambda>t. eff (the (tcb_entry t)) (tcb_arg t)) (filter (due now) (take k (tasks s))) (g_world s)"
  using assms(2)
proof (induction k)
  case (Suc k)
  let ?f = "\<lambda>t. if due now t then ran now t else t" and ?u = "fold (task_run_step call now) [0..<k] s"
  have k: "k < length (tasks s)" using Suc.prems by simp
  have IH: "tasks ?u = map ?f (take k (tasks s)) @ drop k (tasks s)"
    "g_world ?u = fold (\<lambda>t. eff (the (tcb_entry t)) (tcb_arg t)) (filter (due now) (take k (tasks s))) (g_world s)"
    using Suc by simp_all
  have t: "tasks ?u ! k = tasks s ! k" "k < length (tasks ?u)" using k by (simp_all add: IH(1) nth_append)
  have d: "drop k (tasks s) = tasks s ! k # drop (Suc k) (tasks s)" using k by (simp add: Cons_nth_drop_Suc)
  have tk: "take (Suc k) (tasks s) = take k (tasks s) @ [tasks s ! k]" using k by (simp add: take_Suc_conv_app_nth)
  note E = task_run_step_effect [of call eff k ?u now, OF call t(2), unfolded t(1)]
  have "tasks (task_run_step call now k ?u) = map ?f (take (Suc k) (tasks s)) @ drop (Suc k) (tasks s)"
    using E k by (simp add: IH(1) d tk list_update_append)
  moreover have "g_world (task_run_step call now k ?u) =
      fold (\<lambda>t. eff (the (tcb_entry t)) (tcb_arg t)) (filter (due now) (take (Suc k) (tasks s))) (g_world s)"
    using E by (simp add: IH(2) tk)
  ultimately show ?case by simp
qed simp

text \<open>The contents of the static variables before any initialisation.\<close>

definition sched_blank :: "'w \<Rightarrow> 'w ktask" where
  "sched_blank w = \<lparr>g_eevdf = [], g_eevdf_info = \<lparr>ev_tracked_tasks = 0, ev_dispatches = 0, ev_min_deadline = 0, ev_last_deadline = 0\<rparr>, g_eevdf_status = [],
     g_muqss = [], g_muqss_info = \<lparr>mq_tracked_tasks = 0, mq_dispatches = 0, mq_active_score = 0, mq_last_task = 0\<rparr>, g_muqss_status = [],
     g_scheduler_info = \<lparr>sc_policy = 0, sc_task_count = 0, sc_dispatches = 0, sc_yields = 0, sc_last_task = 0\<rparr>, g_scheduler_status = [],
     tasks = [], g_task_scheduler_stopping = False, g_world = w\<rparr>"

lemma sched_boot_world [simp]: "g_world (task_init (scheduler_init s)) = g_world s" "g_world (sched_blank w) = w"
  by (simp_all add: task_init_def scheduler_init_def muqss_init_def eevdf_init_def sched_blank_def)

section \<open>Properties\<close>

text \<open>C22: one round of the cooperative scheduler calls exactly the tasks that are due, once each and in the order of the table, where
  the tasks themselves leave the table alone; each called task records the time, counts the run and is next due one period
  later, and no other entry changes.  A scheduler that is stopping calls nothing.\<close>

theorem task_run_ready_correct:
  assumes "\<And>f a s. call f a s = s\<lparr>g_world := eff f a (g_world s)\<rparr>" "length (tasks s) = MAX_TASKS"
  shows "(g_task_scheduler_stopping s \<longrightarrow> task_run_ready call now s = s) \<and>
    (\<not> g_task_scheduler_stopping s \<longrightarrow>
       tasks (task_run_ready call now s) = map (\<lambda>t. if due now t then ran now t else t) (tasks s) \<and>
       g_world (task_run_ready call now s) = fold (\<lambda>t. eff (the (tcb_entry t)) (tcb_arg t)) (filter (due now) (tasks s)) (g_world s))"
  using task_run_fold [of call eff "MAX_TASKS" s now, OF assms(1)] assms(2) by (simp add: task_run_ready_def)

theorem task_run_ready_correct_witness:
  "let t = tcb_zero\<lparr>tcb_used := True, tcb_entry := Some 7, tcb_arg := 5, tcb_period_ticks := 10, tcb_next_tick := 100\<rparr>;
       s = (task_init (scheduler_init (sched_blank ([] :: (nat \<times> u64) list))))\<lparr>tasks := t # replicate 7 tcb_zero\<rparr>;
       s' = task_run_ready (\<lambda>f a s. s\<lparr>g_world := g_world s @ [(f, a)]\<rparr>) 120 s
   in g_world s' = [(7, 5)] \<and> tcb_next_tick (tasks s' ! 0) = 130 \<and> tcb_run_count (tasks s' ! 0) = 1"
proof -
  let ?t = "tcb_zero\<lparr>tcb_used := True, tcb_entry := Some 7, tcb_arg := 5, tcb_period_ticks := 10, tcb_next_tick := 100\<rparr>"
  let ?s = "(task_init (scheduler_init (sched_blank ([] :: (nat \<times> u64) list))))\<lparr>tasks := ?t # replicate 7 tcb_zero\<rparr>"
  have l: "length (tasks ?s) = MAX_TASKS" by (simp add: MAX_TASKS_def)
  have d: "due 120 ?t" "\<not> due 120 tcb_zero" by (simp_all add: due_def tcb_zero_def)
  have st: "\<not> g_task_scheduler_stopping ?s" by (simp add: task_init_def)
  have f: "filter (due 120) (tasks ?s) = [?t]" using d by simp
  have T: "tasks (task_run_ready (\<lambda>f a s. s\<lparr>g_world := g_world s @ [(f, a)]\<rparr>) 120 ?s) = ran 120 ?t # replicate 7 tcb_zero"
    "g_world (task_run_ready (\<lambda>f a s. s\<lparr>g_world := g_world s @ [(f, a)]\<rparr>) 120 ?s) = [(7, 5)]"
    using task_run_ready_correct [of "\<lambda>f a s. s\<lparr>g_world := g_world s @ [(f, a)]\<rparr>" "\<lambda>f a w. w @ [(f, a)]" ?s 120, OF refl l] st d
    unfolding f by simp_all
  show ?thesis unfolding Let_def T by (simp add: ran_def tcb_zero_def)
qed

datatype task_op = TaskCreate u64 string "nat option" u64 u32 bool | TaskRun u64 | TaskPolicy u32

fun task_step :: "(nat \<Rightarrow> u64 \<Rightarrow> 'w ktask \<Rightarrow> 'w ktask) \<Rightarrow> task_op \<Rightarrow> 'w ktask \<Rightarrow> 'w ktask" where
  "task_step call (TaskCreate now name fn arg p imm) s = snd (task_create now name fn arg p imm s)"
| "task_step call (TaskRun now) s = task_run_ready call now s"
| "task_step call (TaskPolicy p) s = snd (scheduler_set_policy p s)"

definition sched_ok :: "'w ktask \<Rightarrow> bool" where
  "sched_ok s \<longleftrightarrow> (\<exists>n. sched_inv n s) \<and> dispatches_agree s"

lemma task_step_ok:
  assumes call: "\<And>f a s. call f a s = s\<lparr>g_world := eff f a (g_world s)\<rparr>" and "sched_ok s"
  shows "sched_ok (task_step call cmd s)"
proof -
  obtain n where n: "sched_inv n s" "dispatches_agree s" using assms(2) by (auto simp: sched_ok_def)
  show ?thesis
  proof (cases cmd)
    case (TaskCreate now name fn arg p imm)
    obtain r s' where c: "task_create now name fn arg p imm s = (r, s')" by fastforce
    then show ?thesis using task_create_inv [OF n c] n TaskCreate by (auto simp: sched_ok_def split: if_splits)
  next
    case (TaskRun now)
    have "sched_inv n (fold (task_run_step call now) [0..<k] s) \<and> dispatches_agree (fold (task_run_step call now) [0..<k] s)" if "k \<le> MAX_TASKS" for k
      using that
    proof (induction k)
      case (Suc k)
      then show ?case using task_run_step_inv [of call eff n "fold (task_run_step call now) [0..<k] s" k now, OF call] by simp
    qed (use n in simp)
    then show ?thesis using TaskRun n by (auto simp: sched_ok_def task_run_ready_def)
  next
    case (TaskPolicy p)
    then show ?thesis using n
      by (auto simp: sched_ok_def scheduler_set_policy_def sched_inv_def dispatches_agree_def intro!: exI [of _ n])
  qed
qed

lemma sched_boot_ok: "sched_ok (task_init (scheduler_init s))"
proof -
  have "sched_inv 0 (task_init (scheduler_init s))"
    by (simp add: sched_inv_def task_init_def scheduler_init_def muqss_init_def eevdf_init_def eevdf.dense_def muqss.dense_def
        eevdf_entries_def muqss_entries_def EEVDF_MAX_TASKS_def MUQSS_MAX_TASKS_def eevdf_zero_def muqss_zero_def tcb_zero_def)
  moreover have "dispatches_agree (task_init (scheduler_init s))"
    by (simp add: dispatches_agree_def task_init_def scheduler_init_def muqss_init_def eevdf_init_def tcb_zero_def sum_list_replicate)
  ultimately show ?thesis by (auto simp: sched_ok_def)
qed

lemma task_steps_ok:
  assumes call: "\<And>f a s. call f a s = s\<lparr>g_world := eff f a (g_world s)\<rparr>" and "sched_ok s"
  shows "sched_ok (fold (task_step call) cmds s)"
  using assms(2) by (induction cmds arbitrary: s) (simp_all add: task_step_ok [of call eff, OF call])

lemma task_count_inv:
  assumes "sched_inv n s"
  shows "task_count s = of_nat n"
proof -
  have F: "foldl (\<lambda>m t. if tcb_used t then m + 1 else m) a ts = a + of_nat (length (filter tcb_used ts))" for a :: u32 and ts
    by (induction ts arbitrary: a) simp_all
  have "length (filter tcb_used (tasks s)) = n"
  proof -
    have "{i. i < length (tasks s) \<and> tcb_used (tasks s ! i)} = {..<n}" using assms by (auto simp: sched_inv_def)
    then show ?thesis by (simp add: length_filter_conv_card)
  qed
  then show ?thesis unfolding task_count_def F by simp
qed



end
