(* ===== verification/Spec2Isabelle.thy ===== *)
theory Spec2Isabelle
  imports Buddy Ipc Vma Futex Crc32 Base64 Uac Fs_perm Firewall Efs Hash_net Zpage Iosched Sched
begin

text \<open>
  \<^bold>\<open>A verification development of the Monios kernel core.\<close>

  Monios is a desktop operating system for x86-64 written in C.  This library models the part of it on which
  everything else stands: physical and virtual memory, the kernel heap, processes, inter-process communication,
  scheduling of tasks and of block requests, and the path, permission, encryption and codec routines of the system layer.  The operations are shallow embeddings of the C
  functions, one definition per function, under the names of the source.

  \<^bold>\<open>State.\<close>  The static variables of a C file are the fields of a record, and the records extend each other in the
  order in which the components call each other, so that an operation of one component runs unchanged on the
  state of those above it:
  \<open>kbitmap\<close>, \<open>kpool\<close>, \<open>kframe\<close>, \<open>kleak\<close>, \<open>kmem\<close>, \<open>kvm\<close>, \<open>kpcb\<close>, \<open>ksignal\<close>, \<open>kpipe\<close>, \<open>kshm\<close>, \<open>kipc\<close>, with the branches
  \<open>kbuddy\<close> over \<open>kframe\<close>, \<open>kheap\<close> and \<open>kvma\<close> over \<open>kmem\<close>, and \<open>kperm\<close> over \<open>kpcb\<close>; cooperative tasks, block requests,
  futexes, packet filter, user isolation, encrypted files and checksum have records of their own.  Unsigned integers are words of their width and
  wrap as in C; \<^verbatim>\<open>int32_t\<close> is \<^typ>\<open>int\<close>.  A pointer to an entry of a static table is its index, a string is the
  characters in front of its NUL, a pointer that may be null is an option.  A loop that may not end is a
  partial function into options, and a theorem about a caller proves that it returns.  Readings of the timer, return
  addresses, uninitialised memory, answers of the user, the effect of a task function and the operations of block devices and
  file systems are arguments.  Spin locks are not represented: an
  operation is its critical section.

  \<^bold>\<open>Components and theories.\<close>
  \<^item> \<^theory_text>\<open>Kernel_Prelude\<close>: the integer types, the table scan \<^verbatim>\<open>for (i...) if (P(tab[i]))\<close>, the bounded string copy, and
    lemmas on list updates, counting and words.
  \<^item> \<^theory_text>\<open>Bitmap\<close> (\<^verbatim>\<open>kernel/mm/bitmap.c\<close>) and \<^theory_text>\<open>Pool\<close> (\<^verbatim>\<open>kernel/mm/pool.c\<close>): bit sets and slot allocation.  The search for a
    free run is correct and returns below the 32-bit limit, and can run forever above it.  The locale
    \<open>slot_allocator\<close> states what a client table relies on (a slot handed out was free, table and pool stay in step);
    it is interpreted on the pool and used by the process and port tables.
  \<^item> \<^theory_text>\<open>Frame\<close> (\<^verbatim>\<open>kernel/mm/frame.c\<close>) and \<^theory_text>\<open>Buddy\<close> (\<^verbatim>\<open>kernel/mm/buddy.c\<close>): physical frames.  Allocation returns, gives a
    free, aligned, previously unused run and freeing restores the allocator; marking a range is all or nothing.
  \<^item> \<^theory_text>\<open>Leak_Track\<close> (\<^verbatim>\<open>kernel/mm/leak_track.c\<close>) and \<^theory_text>\<open>Memory\<close> (\<^verbatim>\<open>kernel/mm/memory.c\<close>, \<^verbatim>\<open>heap.c\<close>): the kernel heap as a list of
    blocks that tile the arena, and the hash table of live allocations, which refines a set of records.  \<^verbatim>\<open>kmalloc\<close>
    and \<^verbatim>\<open>kfree\<close> are correct with respect to the set of live regions.
  \<^item> \<^theory_text>\<open>Vm\<close> (\<^verbatim>\<open>kernel/mm/vm.c\<close>, the cloning functions of \<^verbatim>\<open>kernel/arch/mmu.c\<close>): four-level page tables in a store of
    physical words.  Creation is all or nothing, a mapped page is found again, copy-on-write shares and splits.
  \<^item> \<^theory_text>\<open>Pcb\<close> (\<^verbatim>\<open>kernel/sched/pcb.c\<close>, \<^verbatim>\<open>vm_handle_page_fault\<close>): process table, descriptors, waiting and reaping, the
    preemptive scheduler.  The invariant of the table and of the allocators below holds in every state reachable by
    calls (an inductive step relation); waiting, exiting, starting and descriptors are specified on every branch.
  \<^item> \<^theory_text>\<open>Signal\<close> (\<^verbatim>\<open>kernel/sched/signal.c\<close>), \<^theory_text>\<open>Pipe\<close> (\<^verbatim>\<open>kernel/ipc/pipe.c\<close>), \<^theory_text>\<open>Shm\<close> (\<^verbatim>\<open>kernel/ipc/shm.c\<close>) and \<^theory_text>\<open>Ipc\<close>
    (\<^verbatim>\<open>kernel/ipc/ipc.c\<close>): signals, pipes, shared segments, message ports.  \<^theory_text>\<open>Ring\<close> gives the sequence a ring holds and
    the locale \<open>fifo_channel\<close>, whose law is that what was read followed by what is stored is what was written; it
    is interpreted on the pipe and on the port.
  \<^item> \<^theory_text>\<open>Path\<close> (\<^verbatim>\<open>lib/path.c\<close>), \<^theory_text>\<open>Uac\<close> (\<^verbatim>\<open>kernel/security/uac.c\<close>) and \<^theory_text>\<open>Fs_perm\<close> (\<^verbatim>\<open>kernel/syscall/fs_perm.c\<close>): path resolution
    equals a walk over a stack of components and its results are canonical, which makes the permission table a map
    over canonical paths; the encrypted permission database restores the map.
  \<^item> \<^theory_text>\<open>Vma\<close> (\<^verbatim>\<open>kernel/mm/vma.c\<close>), \<^theory_text>\<open>Futex\<close> (\<^verbatim>\<open>kernel/sched/futex.c\<close>) and \<^theory_text>\<open>Firewall\<close> (\<^verbatim>\<open>kernel/net/firewall.c\<close>): the region table
    keeps its regions disjoint and finds the region of an address, the totals of the futexes equal the sums over the
    slots after every sequence of calls, and the packet filter equals a first-match semantics on 32-bit addresses.
  \<^item> \<^theory_text>\<open>Crc32\<close> (\<^verbatim>\<open>lib/crc32.c\<close>) and \<^theory_text>\<open>Base64\<close> (\<^verbatim>\<open>lib/base64.c\<close>): the table-driven checksum equals the bit-serial one;
    decoding inverts encoding and neither writes past its buffer.
  \<^item> \<^theory_text>\<open>Hash\<close> (\<^verbatim>\<open>lib/hash.c\<close>) and \<^theory_text>\<open>Hash_net\<close> (\<^verbatim>\<open>kernel/net/hash.c\<close>): the two implementations of SHA-256, MD5, SHA-1 and the keyed digests.
    Streaming in pieces equals padding the whole message and folding the transformation over its blocks; the unrolled transformations
    equal the loops; both implementations agree.  The locale \<open>digest\<close> is what a client relies on (a context stands for the
    bytes it absorbed); it is interpreted on all six digests, and keyed digests are proved in it once.
  \<^item> \<^theory_text>\<open>Aes\<close> (\<^verbatim>\<open>kernel/net/aes.c\<close>) and \<^theory_text>\<open>Efs\<close> (\<^verbatim>\<open>fs/efs.c\<close>, with the reading and writing of files in \<^verbatim>\<open>lib/file.c\<close>): the round
    transformations are inverted, the key schedule equals its recurrence, and chaining mode is proved once for any block
    cipher in the locale \<open>block_cipher\<close>, interpreted on the cipher; the buffers of the encrypted file layer round-trip up to
    trailing zeros, and no file is ever marked as encrypted.
  \<^item> \<^theory_text>\<open>Zcomp\<close> (\<^verbatim>\<open>kernel/mm/zcomp.c\<close>): decompression restores whatever compression accepts, and stays inside its buffer on any input.
  \<^item> \<^theory_text>\<open>Zs\<close> (\<^verbatim>\<open>kernel/mm/zs.c\<close>) and \<^theory_text>\<open>Zpage\<close> (the page table of \<^verbatim>\<open>kernel/mm/zcomp.c\<close>): objects for compressed pages on the kernel heap,
    with memory as bytes, and the table of tracked pages.  Every history of calls returns and keeps the invariant that a compressed
    slot holds a live object; no object is ever released and no page is ever restored, because the header of an
    object is looked for 7 bytes too low.
  \<^item> \<^theory_text>\<open>Iosched\<close> (\<^verbatim>\<open>kernel/sched/iosched.c\<close>): draining the request table ends and issues every request once in the order of the
    policy; the hook answers with success whatever the device says.
  \<^item> \<^theory_text>\<open>Sched\<close> (\<^verbatim>\<open>kernel/sched/task.c\<close>, \<^verbatim>\<open>scheduler.c\<close>, \<^verbatim>\<open>eevdf.c\<close>, \<^verbatim>\<open>muqss.c\<close>): a round calls the due tasks once each in order, and
    the counters of the task table, the front end and both policies agree.  The locale \<open>run_accounting\<close> is what the front end
    relies on in a policy; it is interpreted on both.

  \<^bold>\<open>Behaviour that is proved and not meant.\<close>  Several theorems state what the code does where it departs from its
  comments: the preemptive scheduler never selects a process, attaching a shared segment always fails, a
  copy-on-write fork loses the user chunk, the first heap block is not aligned, long port names are never found,
  user isolation does not restrict any real path, the permission database never reaches the disk, encrypting a file always
  reports failure, a failed block request is reported as a success, and a compressed page cannot be decompressed.

  \<^bold>\<open>Bounds and fuel.\<close>  No definition has a fuel parameter: structural recursion and measured recursion cover the loops
  that end, and the loops that may not (the search for a free run, the walk along a chain of the leak tracker, the
  copy loops of a pipe) are partial functions.  The limits of the source (64 processes, 16 ports of 8 messages, 4096-byte pipes, 128
  permission entries, 16384 frames, 8 tasks, 64 block requests, 256 tracked pages) are constants of the theories.

  \<^bold>\<open>Not modelled.\<close>  Drivers, file systems and the VFS behind path resolution (hardware and disk formats), the network
  stack with its certificates and public-key cryptography, the graphical interface and the shell, the executable loader and the system-call
  dispatcher, boot code in assembly, user programs, tests and tools.  Of the kernel core, the huge-page and contiguous allocators are thin clients of what is modelled, and the audit log formats text.  The listing of firewall rules is left out because its result depends on uninitialised memory.
\<close>

end
